(* ===== verification/Prelude.thy ===== *)
theory Prelude
  imports Main "HOL-Library.Word" "HOL-Library.Multiset" "HOL-Library.List_Lexorder" "HOL-Library.Char_ord"
begin

text \<open>
  What every component of the development shares: the Go values the sources use and the parts of
  the Go standard library they call.

  \<^item> \<open>byte\<close> is an 8-bit word and a \<open>[]byte\<close> is a list of them; a Go string is a \<open>string\<close> (a list
    of bytes), compared bytewise.
  \<^item> A \<open>time.Time\<close> is its distance in nanoseconds from Go's zero time, so \<open>0\<close> is the zero value and
    \<open>IsZero\<close> is a comparison with it; \<open>Before\<close> and \<open>After\<close> are \<open><\<close> and \<open>>\<close>. A \<open>time.Duration\<close> is a
    number of nanoseconds. The current time is always an argument of the operation that reads it.
  \<^item> A Go map is a partial function. Where the code ranges over a map, the order in which Go visits
    the keys is an argument of the definition, and \<open>iterates\<close> says that it visits each key once.
  \<^item> A call that returns \<open>(value, error)\<close> is a value of a sum type, the error on the left.
\<close>

section \<open>Types\<close>

type_synonym byte = "8 word"
type_synonym bytes = "byte list"
type_synonym gotime = int
type_synonym duration = int

named_theorems wal_defs "definitions of the write-ahead log unfolded by its proofs"
named_theorems adm_defs "definitions of the admission controller unfolded by its proofs"
named_theorems cluster_defs "definitions of the cluster package unfolded by its proofs"

abbreviation tzero :: gotime where
  "tzero \<equiv> 0"

abbreviation millisecond :: duration where
  "millisecond \<equiv> 1000000"

abbreviation second :: duration where
  "second \<equiv> 1000000000"

section \<open>Ranging over a Go map\<close>

text \<open>One pass of a \<open>for k := range m\<close> loop visits every key exactly once, in some order.\<close>

definition iterates :: "'k list \<Rightarrow> ('k \<rightharpoonup> 'v) \<Rightarrow> bool" where
  "iterates ks m \<longleftrightarrow> distinct ks \<and> set ks = dom m"

lemma iterates_mem: "iterates ks m \<Longrightarrow> k \<in> set ks \<longleftrightarrow> (\<exists>v. m k = Some v)"
  by (auto simp: iterates_def)

lemma iterates_empty [simp]: "iterates ks Map.empty \<longleftrightarrow> ks = []"
  by (auto simp: iterates_def)

lemma iterates_mset:
  assumes "iterates ks m" and "iterates ks' m"
  shows "mset ks = mset ks'"
  using assms set_eq_iff_mset_eq_distinct [of ks ks'] by (auto simp: iterates_def)

section \<open>Sums over a Go map\<close>

definition sum_map :: "('k \<Rightarrow> 'v \<Rightarrow> int) \<Rightarrow> ('k \<rightharpoonup> 'v) \<Rightarrow> int" where
  "sum_map f m = (\<Sum>k \<in> dom m. f k (the (m k)))"

lemma sum_map_empty [simp]: "sum_map f Map.empty = 0"
  by (simp add: sum_map_def)

lemma sum_map_split:
  "finite (dom m) \<Longrightarrow> m k = Some v \<Longrightarrow> sum_map f m = f k v + sum_map f (m(k := None))"
  by (simp add: sum_map_def sum.remove [of "dom m" k] domIff)

lemma sum_map_new:
  "finite (dom m) \<Longrightarrow> m k = None \<Longrightarrow> sum_map f (m(k \<mapsto> v)) = f k v + sum_map f m"
  by (auto simp: sum_map_def domIff intro!: sum.cong)

lemma sum_map_upd:
  assumes "finite (dom m)"
  shows "sum_map f (m(k \<mapsto> v)) = sum_map f m + f k v - (case m k of None \<Rightarrow> 0 | Some x \<Rightarrow> f k x)"
proof (cases "m k")
  case None
  then show ?thesis using assms by (simp add: sum_map_new)
next
  case (Some x)
  then show ?thesis
    using assms sum_map_split [of m k x f] sum_map_split [of "m(k \<mapsto> v)" k v f] by simp
qed

lemma sum_map_single [simp]: "sum_map f [k \<mapsto> v] = f k v"
  by (simp add: sum_map_new)

lemma sum_map_del:
  "finite (dom m) \<Longrightarrow> m k = Some v \<Longrightarrow> sum_map f (m(k := None)) = sum_map f m - f k v"
  by (simp add: sum_map_split)

lemma sum_map_nonneg: "(\<And>k v. m k = Some v \<Longrightarrow> 0 \<le> f k v) \<Longrightarrow> 0 \<le> sum_map f m"
  by (auto simp: sum_map_def intro!: sum_nonneg)

lemma sum_map_mono: "(\<And>k v. m k = Some v \<Longrightarrow> f k v \<le> g k v) \<Longrightarrow> sum_map f m \<le> sum_map g m"
  by (auto simp: sum_map_def intro!: sum_mono)

lemma sum_map_cong: "(\<And>k v. m k = Some v \<Longrightarrow> f k v = g k v) \<Longrightarrow> sum_map f m = sum_map g m"
  by (auto simp: sum_map_def intro!: sum.cong)

text \<open>A loop that adds up over the keys of a map computes its sum, whatever the order.\<close>

lemma iterates_sum:
  assumes "iterates ks m"
  shows "sum_list (map (\<lambda>k. f k (the (m k))) ks) = sum_map f m"
  using assms by (simp add: iterates_def sum_map_def sum_list_distinct_conv_sum_set)

lemma iterates_finite: "iterates ks m \<Longrightarrow> finite (dom m)"
  by (metis List.finite_set iterates_def)

section \<open>State machines\<close>

text \<open>
  A component whose operations interleave is a step relation on its state. An invariant that the
  initial states have and every step keeps holds in every reachable state.
\<close>

locale step_system =
  fixes init :: "'s \<Rightarrow> bool" and step :: "'s \<Rightarrow> 's \<Rightarrow> bool" and inv :: "'s \<Rightarrow> bool"
  assumes inv_init: "init s \<Longrightarrow> inv s"
    and inv_step: "step s s' \<Longrightarrow> inv s \<Longrightarrow> inv s'"
begin

lemma inv_steps: "step\<^sup>*\<^sup>* s s' \<Longrightarrow> inv s \<Longrightarrow> inv s'"
  by (induction rule: rtranclp_induct) (auto intro: inv_step)

lemma reachable_inv: "init s \<Longrightarrow> step\<^sup>*\<^sup>* s s' \<Longrightarrow> inv s'"
  by (blast intro: inv_init inv_steps)

end

section \<open>Lists\<close>

lemma sum_list_remove_nth:
  fixes f :: "'a \<Rightarrow> int"
  assumes "i < length xs"
  shows "sum_list (map f (take i xs @ drop (Suc i) xs)) = sum_list (map f xs) - f (xs ! i)"
proof -
  have "sum_list (map f xs) = sum_list (map f (take i xs @ xs ! i # drop (Suc i) xs))"
    using assms by (simp add: Cons_nth_drop_Suc)
  then show ?thesis by simp
qed

lemma sorted_take_drop:
  fixes f :: "'a \<Rightarrow> 'b :: linorder"
  assumes "sorted (map f xs)" and "x \<in> set (take n xs)" and "y \<in> set (drop n xs)"
  shows "f x \<le> f y"
proof -
  have "sorted (map f (take n xs) @ map f (drop n xs))"
    using assms(1) by (simp flip: map_append)
  with assms(2,3) show ?thesis
    unfolding sorted_append by (auto simp del: take_map drop_map)
qed

lemma distinct_mset_remove:
  assumes "distinct xs" and "mset xs = add_mset x (mset ys)"
  shows "distinct ys \<and> x \<notin> set ys \<and> set ys = set xs - {x}"
proof -
  have "mset xs = mset (x # ys)" using assms(2) by simp
  then have "distinct (x # ys)" "set xs = set (x # ys)"
    using assms(1) mset_eq_imp_distinct_iff mset_eq_setD by blast+
  then show ?thesis by auto
qed

lemma takeWhile_neq_absent [simp]: "c \<notin> set s \<Longrightarrow> takeWhile (\<lambda>x. x \<noteq> c) s = s"
  by (induction s) auto

lemma takeWhile_neq_append [simp]:
  "c \<notin> set s \<Longrightarrow> takeWhile (\<lambda>x. x \<noteq> c) (s @ c # r) = s"
  by (induction s) auto

lemma dropWhile_neq_append [simp]:
  "c \<notin> set s \<Longrightarrow> dropWhile (\<lambda>x. x \<noteq> c) (s @ c # r) = c # r"
  by (induction s) auto

section \<open>Package strings\<close>

text \<open>\<open>strings.Split(s, c)\<close> for a one-byte separator: the fields between the separators.\<close>

fun strings_Split :: "char \<Rightarrow> string \<Rightarrow> string list" where
  "strings_Split c [] = [[]]"
| "strings_Split c (x # xs) =
     (if x = c then [] # strings_Split c xs
      else (let r = strings_Split c xs in (x # hd r) # tl r))"

text \<open>\<open>strings.Cut(s, c)\<close>: the text before and after the first separator, and whether there is one.\<close>

definition strings_Cut :: "char \<Rightarrow> string \<Rightarrow> string \<times> string \<times> bool" where
  "strings_Cut c s =
     (if c \<in> set s then (takeWhile (\<lambda>x. x \<noteq> c) s, tl (dropWhile (\<lambda>x. x \<noteq> c) s), True)
      else (s, [], False))"

lemma strings_Split_nonempty [simp]: "strings_Split c s \<noteq> []"
  by (cases s) (auto simp: Let_def)

lemma strings_Split_absent: "c \<notin> set s \<Longrightarrow> strings_Split c s = [s]"
  by (induction s) (auto simp: Let_def)

lemma strings_Split_append:
  "c \<notin> set s \<Longrightarrow> strings_Split c (s @ c # r) = s # strings_Split c r"
  by (induction s) (auto simp: Let_def)

lemma strings_Split_Cut:
  "strings_Split c s =
     (case strings_Cut c s of (before, after, found) \<Rightarrow>
        if found then before # strings_Split c after else [s])"
proof (cases "c \<in> set s")
  case True
  then obtain a b where s: "s = a @ c # b" and a: "c \<notin> set a"
    by (meson split_list_first)
  then show ?thesis
    by (simp add: strings_Cut_def strings_Split_append)
next
  case False
  then show ?thesis by (simp add: strings_Cut_def strings_Split_absent)
qed

lemma strings_Split_fields: "f \<in> set (strings_Split c s) \<Longrightarrow> c \<notin> set f"
proof (induction s arbitrary: f)
  case Nil
  then show ?case by simp
next
  case (Cons x xs)
  show ?case
  proof (cases "x = c")
    case True
    with Cons show ?thesis by auto
  next
    case False
    have "hd (strings_Split c xs) \<in> set (strings_Split c xs)" by simp
    with Cons.IH have "c \<notin> set (hd (strings_Split c xs))" by blast
    moreover have "f \<in> set (tl (strings_Split c xs)) \<Longrightarrow> c \<notin> set f"
      using Cons.IH by (meson list.set_sel(2) strings_Split_nonempty)
    ultimately show ?thesis using Cons.prems False by (auto simp: Let_def)
  qed
qed

lemma strings_Split_last:
  "c \<notin> set r \<Longrightarrow> \<exists>f. last (strings_Split c (s @ r)) = f @ r"
proof (induction s)
  case Nil
  then show ?case by (simp add: strings_Split_absent)
next
  case (Cons x s)
  then obtain f where f: "last (strings_Split c (s @ r)) = f @ r" by blast
  show ?case
  proof (cases "tl (strings_Split c (s @ r)) = []")
    case True
    then have "strings_Split c (s @ r) = [f @ r]"
      using f by (metis last.simps list.collapse strings_Split_nonempty)
    then show ?thesis by (auto simp: Let_def intro: exI [of _ "x # f"])
  next
    case False
    then show ?thesis using f
      by (auto simp: Let_def) (metis last_tl)
  qed
qed

section \<open>Package path/filepath\<close>

text \<open>\<open>filepath.Ext\<close>: from the last dot of the last path element, or empty when it has none.\<close>

definition filepath_Ext :: "string \<Rightarrow> string" where
  "filepath_Ext path =
     (let el = takeWhile (\<lambda>c. c \<noteq> CHR ''/'') (rev path);
          suf = takeWhile (\<lambda>c. c \<noteq> CHR ''.'') el
      in if length suf = length el then [] else rev (take (Suc (length suf)) el))"

text \<open>\<open>filepath.Base\<close>: the last element, after removing trailing slashes.\<close>

definition filepath_Base :: "string \<Rightarrow> string" where
  "filepath_Base path =
     (if path = [] then ''.''
      else (let p = rev (dropWhile (\<lambda>c. c = CHR ''/'') (rev path))
            in if p = [] then ''/''
               else rev (takeWhile (\<lambda>c. c \<noteq> CHR ''/'') (rev p))))"

lemma takeWhile_append_prefix:
  "length (takeWhile P xs) = length xs \<longleftrightarrow> (\<forall>x \<in> set xs. P x)"
  by (metis takeWhile_eq_all_conv takeWhile_eq_take take_all_iff length_takeWhile_le order_refl)

lemma filepath_Base_suffix:
  assumes "CHR ''/'' \<notin> set r" and "r \<noteq> []"
  shows "\<exists>a. filepath_Base (s @ r) = a @ r"
proof -
  have "dropWhile (\<lambda>c. c = CHR ''/'') (rev (s @ r)) = rev (s @ r)"
    using assms by (cases r rule: rev_cases) auto
  then have "filepath_Base (s @ r) = rev (takeWhile (\<lambda>c. c \<noteq> CHR ''/'') (rev r @ rev s))"
    using assms by (simp add: filepath_Base_def)
  moreover have "takeWhile (\<lambda>c. c \<noteq> CHR ''/'') (rev r @ rev s)
      = rev r @ takeWhile (\<lambda>c. c \<noteq> CHR ''/'') (rev s)"
    using assms by (intro takeWhile_append2) auto
  ultimately show ?thesis by simp
qed

lemma filepath_Base_id:
  "CHR ''/'' \<notin> set s \<Longrightarrow> s \<noteq> [] \<Longrightarrow> filepath_Base s = s"
  by (cases s rule: rev_cases) (auto simp: filepath_Base_def)

lemma filepath_Base_dir:
  assumes "CHR ''/'' \<notin> set s" and "s \<noteq> []" and "dir = [] \<or> last dir = CHR ''/''"
  shows "filepath_Base (dir @ s) = s"
proof (cases "dir = []")
  case True
  with assms show ?thesis by (simp add: filepath_Base_id)
next
  case False
  with assms obtain d where d: "dir = d @ [CHR ''/'']" by (metis append_butlast_last_id)
  have "dropWhile (\<lambda>c. c = CHR ''/'') (rev (dir @ s)) = rev (dir @ s)"
    using assms by (cases s rule: rev_cases) auto
  moreover have "takeWhile (\<lambda>c. c \<noteq> CHR ''/'') (rev s @ CHR ''/'' # rev d) = rev s"
    using assms by simp
  ultimately show ?thesis using assms d by (simp add: filepath_Base_def)
qed

lemma filepath_Ext_suffix: "\<exists>s. path = s @ filepath_Ext path"
proof -
  define el where "el = takeWhile (\<lambda>c. c \<noteq> CHR ''/'') (rev path)"
  define k where "k = Suc (length (takeWhile (\<lambda>c. c \<noteq> CHR ''.'') el))"
  obtain t where t: "rev path = el @ t"
    using takeWhile_dropWhile_id el_def by metis
  have "path = rev t @ rev (drop k el) @ rev (take k el)"
    using t by (metis append_take_drop_id rev_append rev_rev_ident)
  then have "\<exists>s. path = s @ rev (take k el)" by (metis append_assoc)
  then show ?thesis
    unfolding filepath_Ext_def el_def [symmetric] Let_def k_def [symmetric] by auto
qed

lemma filepath_Ext_append:
  assumes "CHR ''.'' \<notin> set e" and "CHR ''/'' \<notin> set e"
  shows "filepath_Ext (s @ CHR ''.'' # e) = CHR ''.'' # e"
proof -
  let ?el = "rev e @ CHR ''.'' # takeWhile (\<lambda>c. c \<noteq> CHR ''/'') (rev s)"
  have el: "takeWhile (\<lambda>c. c \<noteq> CHR ''/'') (rev (s @ CHR ''.'' # e)) = ?el"
    using assms by (auto simp: takeWhile_append)
  have suf: "takeWhile (\<lambda>c. c \<noteq> CHR ''.'') ?el = rev e"
    using assms by simp
  show ?thesis unfolding filepath_Ext_def el Let_def suf by simp
qed

section \<open>Package encoding/binary\<close>

text \<open>\<open>binary.BigEndian.PutUint32\<close> and \<open>Uint32\<close>.\<close>

definition PutUint32 :: "32 word \<Rightarrow> bytes" where
  "PutUint32 w = [ucast (drop_bit 24 w), ucast (drop_bit 16 w), ucast (drop_bit 8 w), ucast w]"

fun Uint32 :: "bytes \<Rightarrow> 32 word" where
  "Uint32 (b0 # b1 # b2 # b3 # _) =
     or (push_bit 24 (ucast b0)) (or (push_bit 16 (ucast b1))
       (or (push_bit 8 (ucast b2)) (ucast b3)))"
| "Uint32 _ = 0"

lemma length_PutUint32 [simp]: "length (PutUint32 w) = 4"
  by (simp add: PutUint32_def)

lemma Uint32_PutUint32 [simp]: "Uint32 (PutUint32 w @ r) = w"
proof (rule bit_word_eqI)
  fix n :: nat
  assume "n < LENGTH(32)"
  then consider "n < 8" | "8 \<le> n \<and> n < 16" | "16 \<le> n \<and> n < 24" | "24 \<le> n \<and> n < 32"
    by fastforce
  then show "bit (Uint32 (PutUint32 w @ r)) n = bit w n"
    by cases (auto simp: PutUint32_def bit_simps)
qed

lemma Uint32_append [simp]: "4 \<le> length b \<Longrightarrow> Uint32 (b @ r) = Uint32 b"
  by (cases b; cases "tl b"; cases "tl (tl b)"; cases "tl (tl (tl b))") auto

end
