(* ===== verification/WalNames.thy ===== *)
theory WalNames
  imports Prelude
begin

text \<open>
  Names of WAL segments: \<open>pkg/wal/filename.go\<close> and \<open>pkg/wal/destination.go\<close>, the errors of the
  package, and the flake identifiers of \<open>pkg/flake/flake.go\<close>.

  A segment file is named \<open><database>_<table>_<epoch>.wal\<close> or
  \<open><database>_<table>_<schema>_<epoch>.wal\<close>. \<open>ParseFilename\<close> and \<open>Filename\<close> are inverse on
  components without separators, and the two ways the code finds the destination of a prefix
  (\<open>ParsePrefix\<close> and \<open>DestinationFromPrefix\<close>) agree.
\<close>

section \<open>Destinations and errors\<close>

record destination =
  Database :: string
  Table :: string

definition Destination_String :: "destination \<Rightarrow> string" where
  "Destination_String d = Database d @ ''.'' @ Table d"

datatype wal_error =
    ErrNotWALSegment
  | ErrInvalidWALSegment
  | ErrMaxDiskUsageExceeded
  | ErrMaxSegmentsExceeded
  | ErrMaxSegmentSizeExceeded
  | ErrSegmentClosed
  | ErrSegmentLocked
  | TableOverloadedError destination string duration
  | ErrEOF
  | ErrUnexpectedEOF
  | ErrShortWrite
  | ErrChecksum
  | ErrIO
  | ErrOther string

section \<open>File names\<close>

text \<open>
  \<open>ParseFilename\<close> has four named results and an error; on the error paths the names keep what was
  assigned before the return.
\<close>

record parsed_name =
  pn_database :: string
  pn_table :: string
  pn_schema :: string
  pn_epoch :: string
  pn_err :: "wal_error option"

definition no_name :: "wal_error \<Rightarrow> parsed_name" where
  "no_name e = \<lparr>pn_database = [], pn_table = [], pn_schema = [], pn_epoch = [], pn_err = Some e\<rparr>"

definition ParseFilename :: "string \<Rightarrow> parsed_name" where
  "ParseFilename path =
     (if filepath_Ext path \<noteq> ''.wal'' then no_name ErrNotWALSegment
      else case strings_Split CHR ''_'' (filepath_Base path) of
        [database, table, e] \<Rightarrow>
          (let epoch = take (length e - 4) e
           in \<lparr>pn_database = database, pn_table = table, pn_schema = [], pn_epoch = epoch,
               pn_err = (if database = [] \<or> table = [] \<or> epoch = []
                         then Some ErrInvalidWALSegment else None)\<rparr>)
      | [database, table, schema, e] \<Rightarrow>
          (let epoch = take (length e - 4) e
           in \<lparr>pn_database = database, pn_table = table, pn_schema = schema, pn_epoch = epoch,
               pn_err = (if database = [] \<or> table = [] \<or> schema = [] \<or> epoch = []
                         then Some ErrInvalidWALSegment else None)\<rparr>)
      | _ \<Rightarrow> no_name ErrInvalidWALSegment)"

definition ParsePrefix :: "string \<Rightarrow> wal_error + string \<times> string" where
  "ParsePrefix prefix =
     (case strings_Cut CHR ''_'' prefix of (database, rest, ok) \<Rightarrow>
        if \<not> ok \<or> database = [] then Inl ErrInvalidWALSegment
        else case strings_Cut CHR ''_'' rest of (table, schema, hasSchema) \<Rightarrow>
          if table = [] \<or> (hasSchema \<and> (schema = [] \<or> CHR ''_'' \<in> set schema))
          then Inl ErrInvalidWALSegment
          else Inr (database, table))"

definition Filename :: "string \<Rightarrow> string \<Rightarrow> string \<Rightarrow> string \<Rightarrow> string" where
  "Filename database table schema epoch =
     (if schema = [] then database @ ''_'' @ table @ ''_'' @ epoch @ ''.wal''
      else database @ ''_'' @ table @ ''_'' @ schema @ ''_'' @ epoch @ ''.wal'')"

definition DestinationFromFilename :: "string \<Rightarrow> destination \<times> wal_error option" where
  "DestinationFromFilename path =
     (let p = ParseFilename path
      in (\<lparr>Database = pn_database p, Table = pn_table p\<rparr>, pn_err p))"

definition DestinationFromPrefix :: "string \<Rightarrow> destination \<times> wal_error option" where
  "DestinationFromPrefix prefix = DestinationFromFilename (prefix @ ''_0.wal'')"

section \<open>Flake identifiers\<close>

text \<open>
  \<open>strconv.ParseInt(id, 16, 64)\<close>: an optional sign and at least one hexadecimal digit, within the
  range of a signed 64-bit integer.
\<close>

definition hex_digit :: "char \<Rightarrow> int option" where
  "hex_digit c =
     (let n = int (of_char c)
      in if 48 \<le> n \<and> n \<le> 57 then Some (n - 48)
         else if 97 \<le> n \<and> n \<le> 102 then Some (n - 87)
         else if 65 \<le> n \<and> n \<le> 70 then Some (n - 55)
         else None)"

fun hex_value :: "string \<Rightarrow> int \<Rightarrow> int option" where
  "hex_value [] acc = Some acc"
| "hex_value (c # cs) acc =
     (case hex_digit c of None \<Rightarrow> None | Some d \<Rightarrow> hex_value cs (16 * acc + d))"

definition ParseInt16 :: "string \<Rightarrow> int option" where
  "ParseInt16 s =
     (let (neg, ds) = (case s of c # cs \<Rightarrow> if c = CHR ''-'' then (True, cs)
                         else if c = CHR ''+'' then (False, cs) else (False, s) | [] \<Rightarrow> (False, []))
      in if ds = [] then None
         else case hex_value ds 0 of
           None \<Rightarrow> None
         | Some n \<Rightarrow> (if neg then (if n \<le> 2 ^ 63 then Some (- n) else None)
                     else (if n < 2 ^ 63 then Some n else None)))"

text \<open>
  \<open>flake.Epoch\<close> is midnight of 1 January 2014 UTC, here as nanoseconds since Go's zero time; the low
  \<open>HostBits + SequenceBits = 23\<close> bits of an identifier are below its millisecond timestamp.
\<close>

definition flake_Epoch :: gotime where
  "flake_Epoch = 63524131200 * second"

definition ParseFlakeID :: "string \<Rightarrow> gotime option" where
  "ParseFlakeID s =
     (case ParseInt16 s of
        None \<Rightarrow> None
      | Some num \<Rightarrow>
          (let seq = num mod 2 ^ 16; ms = num div 2 ^ 23
           in Some (flake_Epoch + ms * millisecond + seq)))"

section \<open>Correctness of the names\<close>

lemma parsed_last_field:
  assumes "filepath_Ext path = ''.wal''"
  shows "\<exists>f. last (strings_Split CHR ''_'' (filepath_Base path)) = f @ ''.wal''"
proof -
  from filepath_Ext_suffix [of path] assms obtain s where "path = s @ ''.wal''" by auto
  moreover have "\<exists>a. filepath_Base (s @ ''.wal'') = a @ ''.wal''"
    by (rule filepath_Base_suffix) auto
  moreover have "CHR ''_'' \<notin> set ''.wal''" by simp
  ultimately show ?thesis using strings_Split_last by metis
qed

lemma filepath_Ext_wal: "filepath_Ext (s @ ''.wal'') = ''.wal''"
  using filepath_Ext_append [of "''wal''" s] by simp

lemma split_prefix_name:
  "strings_Split CHR ''_'' (p @ ''_0.wal'') = strings_Split CHR ''_'' p @ [''0.wal'']"
proof (induction p)
  case Nil
  then show ?case by (simp add: Let_def)
next
  case (Cons x p)
  then show ?case by (simp add: Let_def)
qed

lemma ParseFilename_ext:
  "ParseFilename (s @ ''.wal'') =
     (case strings_Split CHR ''_'' (filepath_Base (s @ ''.wal'')) of
        [database, table, e] \<Rightarrow>
          (let epoch = take (length e - 4) e
           in \<lparr>pn_database = database, pn_table = table, pn_schema = [], pn_epoch = epoch,
               pn_err = (if database = [] \<or> table = [] \<or> epoch = []
                         then Some ErrInvalidWALSegment else None)\<rparr>)
      | [database, table, schema, e] \<Rightarrow>
          (let epoch = take (length e - 4) e
           in \<lparr>pn_database = database, pn_table = table, pn_schema = schema, pn_epoch = epoch,
               pn_err = (if database = [] \<or> table = [] \<or> schema = [] \<or> epoch = []
                         then Some ErrInvalidWALSegment else None)\<rparr>)
      | _ \<Rightarrow> no_name ErrInvalidWALSegment)"
  unfolding ParseFilename_def filepath_Ext_wal by simp

lemma Filename_ext: "\<exists>s. Filename database table schema epoch = s @ ''.wal''"
  unfolding Filename_def by (metis append_assoc)

lemma split_Filename:
  assumes "\<forall>s \<in> {database, table, schema, epoch}. CHR ''_'' \<notin> set s"
  shows "strings_Split CHR ''_'' (Filename database table schema epoch) =
    (if schema = [] then [database, table, epoch @ ''.wal'']
     else [database, table, schema, epoch @ ''.wal''])"
proof -
  have e: "strings_Split CHR ''_'' (epoch @ ''.wal'') = [epoch @ ''.wal'']"
    using assms by (intro strings_Split_absent) auto
  show ?thesis
    using assms by (auto simp: Filename_def strings_Split_append e)
qed

lemma ParseFilename_parts:
  assumes "database \<noteq> []" "table \<noteq> []" "epoch \<noteq> []"
    and "\<forall>s \<in> {database, table, schema, epoch}. CHR ''_'' \<notin> set s \<and> CHR ''/'' \<notin> set s"
    and "dir = [] \<or> last dir = CHR ''/''"
  shows "ParseFilename (dir @ Filename database table schema epoch) =
    \<lparr>pn_database = database, pn_table = table, pn_schema = schema, pn_epoch = epoch, pn_err = None\<rparr>"
proof -
  let ?F = "Filename database table schema epoch"
  obtain s where s: "?F = s @ ''.wal''" using Filename_ext by blast
  have "CHR ''/'' \<notin> set ?F" using assms by (auto simp: Filename_def)
  then have base: "filepath_Base (dir @ ?F) = ?F"
    using assms s by (intro filepath_Base_dir) auto
  then have base': "filepath_Base ((dir @ s) @ ''.wal'') = ?F" using s by simp
  have "ParseFilename ((dir @ s) @ ''.wal'') =
      \<lparr>pn_database = database, pn_table = table, pn_schema = schema, pn_epoch = epoch, pn_err = None\<rparr>"
    unfolding ParseFilename_ext base'
    using split_Filename [of database table schema epoch] assms by (simp add: Let_def)
  with s show ?thesis by simp
qed

text \<open>
  C1. A segment file name is read back as it was written: for a database, table and epoch that are
  not empty and an optional schema, none of them holding the separator \<open>_\<close> or a slash,
  \<open>ParseFilename\<close> of \<open>Filename\<close> returns the same four components and no error, in whatever directory
  the file is.
\<close>

theorem ParseFilename_Filename:
  assumes "database \<noteq> []" "table \<noteq> []" "epoch \<noteq> []"
    and "\<forall>s \<in> {database, table, schema, epoch}. CHR ''_'' \<notin> set s \<and> CHR ''/'' \<notin> set s"
    and "dir = [] \<or> last dir = CHR ''/''"
  shows "ParseFilename (dir @ Filename database table schema epoch) =
    \<lparr>pn_database = database, pn_table = table, pn_schema = schema, pn_epoch = epoch, pn_err = None\<rparr>"
  by (rule ParseFilename_parts [OF assms])

theorem ParseFilename_Filename_witness:
  "ParseFilename (''/data/'' @ Filename ''Metrics'' ''CpuUsage'' ''1a2b'' ''16ce'') =
     \<lparr>pn_database = ''Metrics'', pn_table = ''CpuUsage'', pn_schema = ''1a2b'', pn_epoch = ''16ce'',
      pn_err = None\<rparr>"
  by (rule ParseFilename_Filename) auto

lemma ParseFilename_prefix:
  assumes "CHR ''/'' \<notin> set p"
  shows "ParseFilename (p @ ''_0.wal'') =
     (case strings_Split CHR ''_'' p of
        [database, table] \<Rightarrow>
          \<lparr>pn_database = database, pn_table = table, pn_schema = [], pn_epoch = ''0'',
           pn_err = (if database = [] \<or> table = [] then Some ErrInvalidWALSegment else None)\<rparr>
      | [database, table, schema] \<Rightarrow>
          \<lparr>pn_database = database, pn_table = table, pn_schema = schema, pn_epoch = ''0'',
           pn_err = (if database = [] \<or> table = [] \<or> schema = []
                     then Some ErrInvalidWALSegment else None)\<rparr>
      | _ \<Rightarrow> no_name ErrInvalidWALSegment)"
proof -
  have "filepath_Base (p @ ''_0.wal'') = p @ ''_0.wal''"
    using assms by (intro filepath_Base_id) auto
  then show ?thesis
    using ParseFilename_ext [of "p @ ''_0''"] split_prefix_name [of p]
    by (auto simp: Let_def split: list.splits)
qed

text \<open>
  The two ways the code finds the table of a WAL prefix agree: for a prefix without a slash,
  \<open>ParsePrefix\<close> succeeds exactly when \<open>DestinationFromPrefix\<close> does, and then with the same database
  and table. The ingestion policy (which uses the first) and the admission budgets (which use the
  second) therefore never disagree about a segment's destination.
\<close>

lemma ParsePrefix_eq:
  assumes "CHR ''/'' \<notin> set prefix"
  shows "ParsePrefix prefix =
    (case DestinationFromPrefix prefix of
       (d, None) \<Rightarrow> Inr (Database d, Table d)
     | (d, Some _) \<Rightarrow> Inl ErrInvalidWALSegment)"
proof -
  obtain db rest ok where c1: "strings_Cut CHR ''_'' prefix = (db, rest, ok)"
    by (cases "strings_Cut CHR ''_'' prefix")
  obtain tbl sch has where c2: "strings_Cut CHR ''_'' rest = (tbl, sch, has)"
    by (cases "strings_Cut CHR ''_'' rest")
  have split: "strings_Split CHR ''_'' prefix =
      (if ok then db # (if has then tbl # strings_Split CHR ''_'' sch else [rest]) else [prefix])"
    using strings_Split_Cut [of _ prefix] strings_Split_Cut [of _ rest] c1 c2 by simp
  have rest: "\<not> has \<Longrightarrow> tbl = rest" using c2 by (auto simp: strings_Cut_def split: if_splits)
  have sch: "strings_Split CHR ''_'' sch =
      (if CHR ''_'' \<in> set sch
       then takeWhile (\<lambda>x. x \<noteq> CHR ''_'') sch
              # strings_Split CHR ''_'' (tl (dropWhile (\<lambda>x. x \<noteq> CHR ''_'') sch))
       else [sch])"
    by (subst strings_Split_Cut) (simp add: strings_Cut_def)
  show ?thesis
    using rest strings_Split_nonempty
    by (auto simp: ParsePrefix_def DestinationFromPrefix_def DestinationFromFilename_def c1 c2
        ParseFilename_prefix [OF assms] split sch Let_def no_name_def split: list.splits)
qed

end
