(* ===== verification/WalBlock.thy ===== *)
theory WalBlock
  imports WalNames
begin

unbundle bit_operations_syntax

text \<open>
  The on-disk format of a WAL segment: the block encoding of \<open>pkg/wal/segment.go\<close>
  (\<open>blockWrite\<close>, \<open>WithSampleMetadata\<close>, \<open>Repair\<close>), the iterator of \<open>pkg/wal/iterator.go\<close>, the
  reader of \<open>pkg/wal/reader.go\<close> and the merger of \<open>pkg/wal/segment_merger.go\<close>.

  The S2 compressor is code of another package: it is a parameter of every definition that uses it
  (a record of its two functions), and \<open>codec_ok\<close> states what its documentation promises. CRC-32 is
  part of Go's standard library and is modelled bit by bit.
\<close>

section \<open>Checksums\<close>

text \<open>\<open>crc32.ChecksumIEEE\<close>: the reflected polynomial \<open>0xedb88320\<close>, initial value and final XOR all ones.\<close>

definition crc32_shift :: "32 word \<Rightarrow> 32 word" where
  "crc32_shift c = (if bit c 0 then drop_bit 1 c XOR 0xEDB88320 else drop_bit 1 c)"

definition crc32_byte :: "32 word \<Rightarrow> byte \<Rightarrow> 32 word" where
  "crc32_byte c b = (crc32_shift ^^ 8) (c XOR ucast b)"

definition ChecksumIEEE :: "bytes \<Rightarrow> 32 word" where
  "ChecksumIEEE bs = NOT (foldl crc32_byte (NOT 0) bs)"

lemma ChecksumIEEE_Nil [simp]: "ChecksumIEEE [] = 0"
  by (simp add: ChecksumIEEE_def)

section \<open>The block format\<close>

definition blockHdrMagic :: bytes where
  "blockHdrMagic = [0xAA, 0xAA]"

definition segmentMagic :: bytes where
  "segmentMagic = [65, 68, 88, 87, 65, 76, 0, 0]"

definition segmentVersion :: byte where
  "segmentVersion = 1"

text \<open>\<open>SampleType\<close> is a \<open>uint16\<close>; the constants are 0 (unknown), 1 (metric), 2 (trace) and 3 (log).\<close>

type_synonym sample_type = "16 word"

definition UnknownSampleType :: sample_type where
  "UnknownSampleType = 0"

definition MetricSampleType :: sample_type where
  "MetricSampleType = 1"

definition TraceSampleType :: sample_type where
  "TraceSampleType = 2"

definition LogSampleType :: sample_type where
  "LogSampleType = 3"

text \<open>
  A write option edits the five bytes of type and count in place. \<open>WithSampleMetadata\<close> is the only
  option the repository has; the type is truncated to a byte.
\<close>

definition WithSampleMetadata :: "sample_type \<Rightarrow> 32 word \<Rightarrow> bytes \<Rightarrow> bytes" where
  "WithSampleMetadata t cnt b =
     (if length b < 5 then b else ucast t # PutUint32 cnt @ drop 5 b)"

definition SampleMetadata :: "bytes \<Rightarrow> sample_type \<times> 32 word" where
  "SampleMetadata b = (if length b < 5 then (0, 0) else (ucast (b ! 0), Uint32 (drop 1 b)))"

definition HasSampleMetadata :: "bytes \<Rightarrow> bool" where
  "HasSampleMetadata b \<longleftrightarrow> take 2 b = blockHdrMagic"

type_synonym write_options = "(sample_type \<times> 32 word) list"

definition apply_options :: "write_options \<Rightarrow> bytes" where
  "apply_options opts = fold (\<lambda>(t, cnt). WithSampleMetadata t cnt) opts
     (ucast UnknownSampleType # PutUint32 0)"

record codec =
  s2_EncodeBetter :: "bytes \<Rightarrow> bytes"
  s2_Decode :: "bytes \<Rightarrow> bytes option"

text \<open>
  What the code relies on of the compressor: decoding an encoded block gives the block back, and an
  empty input is not an encoding.
\<close>

definition codec_ok :: "codec \<Rightarrow> bool" where
  "codec_ok c \<longleftrightarrow> (\<forall>b. s2_Decode c (s2_EncodeBetter c b) = Some b) \<and> s2_Decode c [] = None"

definition block_plain :: "write_options \<Rightarrow> bytes \<Rightarrow> bytes" where
  "block_plain opts buf = blockHdrMagic @ [segmentVersion] @ apply_options opts @ buf"

definition encode_block :: "codec \<Rightarrow> write_options \<Rightarrow> bytes \<Rightarrow> bytes" where
  "encode_block c opts buf =
     (let compressed = s2_EncodeBetter c (block_plain opts buf)
      in PutUint32 (word_of_nat (length compressed)) @ PutUint32 (ChecksumIEEE compressed) @ compressed)"

section \<open>Readers\<close>

text \<open>
  The reader under an iterator: the bytes it will deliver and whether it then fails (a disk or
  network error) instead of reporting the end of the file. \<open>io.ReadFull\<close> reads exactly \<open>n\<close> bytes,
  and tells an end before the first byte from an end inside them.
\<close>

record reader =
  rd_data :: bytes
  rd_fail :: bool

datatype read_result = ReadOK bytes | ReadEOF | ReadUnexpectedEOF | ReadFailed

definition ReadFull :: "nat \<Rightarrow> reader \<Rightarrow> read_result \<times> reader" where
  "ReadFull n r =
     (if n \<le> length (rd_data r)
      then (ReadOK (take n (rd_data r)), r\<lparr>rd_data := drop n (rd_data r)\<rparr>)
      else (if rd_fail r then ReadFailed
            else if rd_data r = [] then ReadEOF else ReadUnexpectedEOF,
            r\<lparr>rd_data := []\<rparr>))"

definition of_bytes :: "bytes \<Rightarrow> reader" where
  "of_bytes bs = \<lparr>rd_data = bs, rd_fail = False\<rparr>"

section \<open>The segment iterator\<close>

text \<open>
  \<open>it_decode\<close> is the whole backing array of the iterator's decode buffer: \<open>s2.Decode\<close> writes into it
  when the result fits, so bytes of an earlier block stay behind a shorter one, and
  \<open>HasSampleMetadata\<close> slices the array, not the decoded length.
\<close>

record iterator =
  it_reader :: reader
  it_value :: bytes
  it_type :: sample_type
  it_count :: "32 word"
  it_decode :: bytes

definition NewSegmentIterator :: "reader \<Rightarrow> wal_error + iterator" where
  "NewSegmentIterator r =
     (case ReadFull 8 r of
        (ReadOK magicBuf, r') \<Rightarrow>
          if take 6 magicBuf \<noteq> take 6 segmentMagic then Inl ErrInvalidWALSegment
          else Inr \<lparr>it_reader = r', it_value = [], it_type = 0, it_count = 0,
                    it_decode = replicate 4096 0\<rparr>
      | (ReadEOF, _) \<Rightarrow> Inl ErrEOF
      | (ReadUnexpectedEOF, _) \<Rightarrow> Inl ErrUnexpectedEOF
      | (ReadFailed, _) \<Rightarrow> Inl ErrIO)"

text \<open>
  \<open>Next\<close> returns whether there is a value, or an error; a decoded block that starts with the magic
  number and is shorter than its header makes the slice expression panic.
\<close>

datatype next_result = NextValue bool | NextError wal_error | NextPanic

definition decode_into :: "bytes \<Rightarrow> bytes \<Rightarrow> bytes" where
  "decode_into backing decoded =
     (if length decoded \<le> length backing then decoded @ drop (length decoded) backing else decoded)"

definition Next_decoded :: "bytes \<Rightarrow> iterator \<Rightarrow> next_result \<times> iterator" where
  "Next_decoded decoded it =
     (let backing = decode_into (it_decode it) decoded;
          it = it\<lparr>it_decode := backing\<rparr>
      in if length backing < 2 then (NextPanic, it)
         else if HasSampleMetadata backing then
           if length decoded < 8 then (NextPanic, it)
           else (let (st, sc) = SampleMetadata (take 5 (drop 3 decoded));
                     v = drop 8 decoded
                 in (NextValue (v \<noteq> []),
                     it\<lparr>it_type := st, it_count := it_count it + sc, it_value := v\<rparr>))
         else (NextValue (decoded \<noteq> []), it\<lparr>it_value := decoded\<rparr>))"

definition iterator_Next :: "codec \<Rightarrow> iterator \<Rightarrow> next_result \<times> iterator" where
  "iterator_Next c it =
     (case ReadFull 8 (it_reader it) of
        (ReadEOF, r) \<Rightarrow> (NextValue False, it\<lparr>it_reader := r\<rparr>)
      | (ReadUnexpectedEOF, r) \<Rightarrow> (NextValue False, it\<lparr>it_reader := r\<rparr>)
      | (ReadFailed, r) \<Rightarrow> (NextError ErrIO, it\<lparr>it_reader := r\<rparr>)
      | (ReadOK lenCrcBuf, r) \<Rightarrow>
          (let blockLen = unat (Uint32 (take 4 lenCrcBuf)); crc = Uint32 (drop 4 lenCrcBuf)
           in if blockLen = 0 then (NextValue False, it\<lparr>it_reader := r\<rparr>)
              else case ReadFull blockLen r of
                (ReadEOF, r') \<Rightarrow> (NextValue False, it\<lparr>it_reader := r'\<rparr>)
              | (ReadUnexpectedEOF, r') \<Rightarrow> (NextValue False, it\<lparr>it_reader := r'\<rparr>)
              | (ReadFailed, r') \<Rightarrow> (NextError ErrIO, it\<lparr>it_reader := r'\<rparr>)
              | (ReadOK body, r') \<Rightarrow>
                  (if ChecksumIEEE body \<noteq> crc then (NextValue False, it\<lparr>it_reader := r'\<rparr>)
                   else case s2_Decode c body of
                     None \<Rightarrow> (NextValue False, it\<lparr>it_reader := r'\<rparr>)
                   | Some decoded \<Rightarrow> Next_decoded decoded (it\<lparr>it_reader := r'\<rparr>))))"

lemma ReadFull_data_le:
  "ReadFull n r = (res, r') \<Longrightarrow> length (rd_data r') \<le> length (rd_data r)"
  by (auto simp: ReadFull_def split: if_splits)

lemma ReadFull_data_less:
  "ReadFull n r = (ReadOK bs, r') \<Longrightarrow> 0 < n \<Longrightarrow> length (rd_data r') < length (rd_data r)"
  by (auto simp: ReadFull_def split: if_splits)

lemma ReadFull_two_less:
  assumes "ReadFull 8 r = (ReadOK bs, r')" and "ReadFull n r' = (res, r'')"
  shows "length (rd_data r'') < length (rd_data r)"
  using ReadFull_data_less [OF assms(1)] ReadFull_data_le [OF assms(2)] by simp

lemma Next_decoded_reader: "Next_decoded d it = (res, it') \<Longrightarrow> it_reader it' = it_reader it"
  by (auto simp: Next_decoded_def Let_def split: if_splits prod.splits)

lemma iterator_Next_shrinks:
  assumes "iterator_Next c it = (NextValue True, it')"
  shows "length (rd_data (it_reader it')) < length (rd_data (it_reader it))"
proof -
  from assms obtain bs r where h: "ReadFull 8 (it_reader it) = (ReadOK bs, r)"
    by (auto simp: iterator_Next_def split: prod.splits read_result.splits)
  from h have r: "length (rd_data r) < length (rd_data (it_reader it))"
    by (rule ReadFull_data_less) simp
  from assms h obtain body r' d where b: "ReadFull (unat (Uint32 (take 4 bs))) r = (ReadOK body, r')"
    and n: "Next_decoded d (it\<lparr>it_reader := r'\<rparr>) = (NextValue True, it')"
    by (auto simp: iterator_Next_def Let_def split: prod.splits read_result.splits if_splits option.splits)
  from b have "length (rd_data r') \<le> length (rd_data r)" by (rule ReadFull_data_le)
  with r Next_decoded_reader [OF n] show ?thesis by simp
qed

text \<open>The consumer's loop: values until \<open>Next\<close> returns false, an error or panics.\<close>

function iterate_all :: "codec \<Rightarrow> iterator \<Rightarrow> bytes list \<times> next_result \<times> iterator" where
  "iterate_all c it =
     (case iterator_Next c it of
        (NextValue True, it') \<Rightarrow>
          (case iterate_all c it' of (vs, res, it'') \<Rightarrow> (it_value it' # vs, res, it''))
      | (res, it') \<Rightarrow> ([], res, it'))"
  by pat_completeness auto
termination
  by (relation "measure (\<lambda>(c, it). length (rd_data (it_reader it)))")
    (auto dest: iterator_Next_shrinks [OF sym])

declare iterate_all.simps [simp del]


text \<open>
  \<open>Verify\<close> walks the blocks and checks their checksums. A missing or short block header, a read
  failure inside it and a zero length all end the walk without an error.
\<close>

function Verify_loop :: "reader \<Rightarrow> nat \<Rightarrow> wal_error + nat" where
  "Verify_loop r blocks =
     (case ReadFull 8 r of
        (ReadOK lenCrcBuf, r') \<Rightarrow>
          (let blockLen = unat (Uint32 (take 4 lenCrcBuf)); crc = Uint32 (drop 4 lenCrcBuf)
           in if blockLen = 0 then Inr blocks
              else case ReadFull blockLen r' of
                (ReadOK body, r'') \<Rightarrow>
                  if ChecksumIEEE body \<noteq> crc then Inl ErrChecksum else Verify_loop r'' (Suc blocks)
              | (ReadEOF, _) \<Rightarrow> Inl ErrEOF
              | (ReadUnexpectedEOF, _) \<Rightarrow> Inl ErrUnexpectedEOF
              | (ReadFailed, _) \<Rightarrow> Inl ErrIO)
      | (_, _) \<Rightarrow> Inr blocks)"
  by pat_completeness auto
termination
  by (relation "measure (\<lambda>(r, blocks). length (rd_data r))")
    (auto dest!: ReadFull_two_less [OF sym sym])

declare Verify_loop.simps [simp del]

definition iterator_Verify :: "iterator \<Rightarrow> wal_error + nat" where
  "iterator_Verify it = Verify_loop (it_reader it) 0"

section \<open>Repair\<close>

text \<open>
  \<open>Repair\<close> reads the file with plain \<open>Read\<close> calls: a read at the end of the file is \<open>io.EOF\<close>, a read
  of no bytes succeeds with none. The result is the offset at which the file is truncated, or
  \<open>None\<close> when the end of the file was reached.
\<close>

function Repair_loop :: "bytes \<Rightarrow> nat \<Rightarrow> nat option" where
  "Repair_loop rest lastGoodIdx =
     (if rest = [] then None
      else if length rest < 8 then Some lastGoodIdx
      else (let blockLen = unat (Uint32 (take 4 rest));
                crc = Uint32 (take 4 (drop 4 rest));
                body = take blockLen (drop 8 rest)
            in if 0 < blockLen \<and> drop 8 rest = [] then Some lastGoodIdx
               else if length body \<noteq> blockLen then Some lastGoodIdx
               else if ChecksumIEEE body \<noteq> crc then Some lastGoodIdx
               else Repair_loop (drop (8 + blockLen) rest) (lastGoodIdx + 8 + blockLen)))"
  by pat_completeness auto
termination
  by (relation "measure (\<lambda>(rest, k). length rest)") auto

declare Repair_loop.simps [simp del]

definition Repair_bytes :: "bytes \<Rightarrow> bytes" where
  "Repair_bytes file = (case Repair_loop (drop 8 file) 8 of None \<Rightarrow> file | Some ofs \<Rightarrow> take ofs file)"

section \<open>Readers of a segment and of several\<close>

text \<open>
  \<open>SegmentReader.Read\<close> with a buffer of \<open>n\<close> bytes: the bytes copied, or the end of the file or an
  error of the iterator on the left.
\<close>

record segment_reader =
  sr_iter :: iterator
  sr_buf :: bytes
  sr_skipHeader :: bool

definition header_end :: "bytes \<Rightarrow> nat" where
  "header_end v =
     (if 10 \<in> set v then Suc (length (takeWhile (\<lambda>b. b \<noteq> 10) v)) else 0)"

definition SegmentReader_Read ::
    "codec \<Rightarrow> nat \<Rightarrow> segment_reader \<Rightarrow> (next_result + bytes) \<times> segment_reader" where
  "SegmentReader_Read c n s =
     (if sr_buf s \<noteq> [] then (Inr (take n (sr_buf s)), s\<lparr>sr_buf := drop n (sr_buf s)\<rparr>)
      else case iterator_Next c (sr_iter s) of
        (NextValue True, it) \<Rightarrow>
          (let v = it_value it; idx = (if sr_skipHeader s then header_end v else 0)
           in (Inr (take n (drop idx v)), s\<lparr>sr_iter := it, sr_buf := drop n (drop idx v)\<rparr>))
      | (res, it) \<Rightarrow> (Inl res, s\<lparr>sr_iter := it\<rparr>))"

text \<open>
  \<open>NewSegmentMerger\<close> puts one segment header before the blocks of all the files: each file is read
  from its ninth byte. A file shorter than its header makes \<open>io.CopyN\<close> report the end of that file.
\<close>

definition SegmentMerger_bytes :: "bytes list \<Rightarrow> bytes" where
  "SegmentMerger_bytes files = segmentMagic @ concat (map (drop 8) files)"

end
