(* ===== verification/WalRecovery.thy ===== *)
theory WalRecovery
  imports WalBlock
begin

text \<open>
  Correctness of the segment format. \<open>frame\<close> is an abstract description of what the next block of a
  byte stream is; the iterator, \<open>Verify\<close> and \<open>Repair\<close> are each characterised by it, and the
  properties (round trip, recovery after a torn write, agreement of the iterator with \<open>Repair\<close>) are
  proved from those characterisations.
\<close>

section \<open>Frames\<close>

datatype frame =
    NoFrame            \<comment> \<open>the end of the stream\<close>
  | BadFrame           \<comment> \<open>a short header, a short body or a checksum mismatch\<close>
  | ZeroFrame bytes    \<comment> \<open>a zero length with a zero checksum\<close>
  | Frame bytes bytes  \<comment> \<open>a body whose checksum is right, and the rest\<close>

definition frame_of :: "bytes \<Rightarrow> frame" where
  "frame_of bs =
     (if bs = [] then NoFrame
      else if length bs < 8 then BadFrame
      else (let n = unat (Uint32 (take 4 bs)); crc = Uint32 (take 4 (drop 4 bs)); r = drop 8 bs
            in if length r < n \<or> ChecksumIEEE (take n r) \<noteq> crc then BadFrame
               else if n = 0 then ZeroFrame r else Frame (take n r) (drop n r)))"

definition put_block :: "bytes \<Rightarrow> bytes" where
  "put_block body = PutUint32 (word_of_nat (length body)) @ PutUint32 (ChecksumIEEE body) @ body"

definition fits :: "bytes \<Rightarrow> bool" where
  "fits body \<longleftrightarrow> body \<noteq> [] \<and> length body < 2 ^ 32"

lemma encode_block_put: "encode_block c opts buf = put_block (s2_EncodeBetter c (block_plain opts buf))"
  by (simp add: encode_block_def put_block_def Let_def)

lemma length_put_block [simp]: "length (put_block body) = 8 + length body"
  by (simp add: put_block_def)

lemma put_block_nonempty [simp]: "put_block body \<noteq> []"
  by (metis length_put_block length_0_conv add_is_0 zero_neq_numeral)

lemma frame_of_Nil [simp]: "frame_of [] = NoFrame"
  by (simp add: frame_of_def)

lemma put_block_header:
  "take 4 (put_block body @ r) = PutUint32 (word_of_nat (length body))"
  "take 4 (drop 4 (put_block body @ r)) = PutUint32 (ChecksumIEEE body)"
  "drop 8 (put_block body @ r) = body @ r"
  by (simp_all add: put_block_def)

lemma Uint32_PutUint32_id [simp]: "Uint32 (PutUint32 w) = w"
  using Uint32_PutUint32 [of w "[]"] by simp

lemma unat_length_fits: "fits body \<Longrightarrow> unat (word_of_nat (length body) :: 32 word) = length body"
  by (simp add: fits_def unat_of_nat)

lemma frame_of_put_block:
  assumes "fits body"
  shows "frame_of (put_block body @ r) = Frame body r"
proof -
  have "\<not> length (put_block body @ r) < 8" by simp
  then show ?thesis
    unfolding frame_of_def Let_def put_block_header
    using assms unat_length_fits [OF assms] by (simp add: fits_def)
qed

text \<open>A proper prefix of a block is never a block: the stream is then torn inside it.\<close>

lemma frame_of_torn:
  assumes "fits body" and "0 < j" and "j < length (put_block body)"
  shows "frame_of (take j (put_block body)) = BadFrame"
proof (cases "j < 8")
  case True
  then have "length (take j (put_block body)) < 8" by simp
  moreover have "take j (put_block body) \<noteq> []" using assms by simp
  ultimately show ?thesis unfolding frame_of_def by presburger
next
  case False
  have h: "take 4 (take j (put_block body)) = PutUint32 (word_of_nat (length body))"
    using False put_block_header(1) [of body "[]"] by (simp add: min_absorb1)
  have "length (drop 8 (take j (put_block body))) < length body" using assms False by simp
  moreover have "\<not> length (take j (put_block body)) < 8" using False by simp
  moreover have "take j (put_block body) \<noteq> []" using assms by simp
  ultimately show ?thesis
    unfolding frame_of_def Let_def h
    using unat_length_fits [OF assms(1)] assms by (auto simp: fits_def)
qed

section \<open>The iterator, Verify and Repair as functions of the frame\<close>

definition at :: "iterator \<Rightarrow> bytes \<Rightarrow> iterator" where
  "at it bs = it\<lparr>it_reader := of_bytes bs\<rparr>"

lemma at_simps [simp]:
  "it_reader (at it bs) = of_bytes bs" "it_value (at it bs) = it_value it"
  "it_type (at it bs) = it_type it" "it_count (at it bs) = it_count it"
  "it_decode (at it bs) = it_decode it" "at (at it bs) bs' = at it bs'"
  by (simp_all add: at_def)

lemma Next_NoFrame: "iterator_Next c (at it []) = (NextValue False, at it [])"
  by (simp add: iterator_Next_def ReadFull_def of_bytes_def at_def)

lemma Next_BadFrame:
  assumes "frame_of bs = BadFrame"
  shows "\<exists>it'. iterator_Next c (at it bs) = (NextValue False, it')"
  using assms
  by (auto simp: frame_of_def iterator_Next_def ReadFull_def of_bytes_def Let_def at_def
      take_drop min_absorb1 min_absorb2 split: if_splits)

lemma Next_ZeroFrame:
  assumes "frame_of bs = ZeroFrame r"
  shows "\<exists>it'. iterator_Next c (at it bs) = (NextValue False, it')"
  using assms
  by (auto simp: frame_of_def iterator_Next_def ReadFull_def of_bytes_def Let_def at_def
      take_drop min_absorb1 min_absorb2 split: if_splits)

lemma Next_Frame:
  assumes "frame_of bs = Frame body r"
  shows "iterator_Next c (at it bs) =
    (case s2_Decode c body of None \<Rightarrow> (NextValue False, at it r)
     | Some d \<Rightarrow> Next_decoded d (at it r))"
  using assms
  by (auto simp: frame_of_def iterator_Next_def ReadFull_def of_bytes_def Let_def at_def
      take_drop min_absorb1 min_absorb2 split: if_splits option.splits)

lemma Repair_loop_frame:
  "Repair_loop bs k =
     (case frame_of bs of NoFrame \<Rightarrow> None | BadFrame \<Rightarrow> Some k
      | ZeroFrame r \<Rightarrow> Repair_loop r (k + 8)
      | Frame body r \<Rightarrow> Repair_loop r (k + 8 + length body))"
  by (subst Repair_loop.simps)
    (auto simp: frame_of_def Let_def not_less min_absorb2 add.commute)

lemma frame_of_length:
  "frame_of bs = Frame body r \<Longrightarrow> length bs = 8 + length body + length r \<and> body \<noteq> []"
  "frame_of bs = ZeroFrame r \<Longrightarrow> length bs = 8 + length r"
  by (auto simp: frame_of_def Let_def split: if_splits)


section \<open>Iterating\<close>

lemma iterate_all_stop:
  "iterator_Next c it = (res, it') \<Longrightarrow> res \<noteq> NextValue True \<Longrightarrow> iterate_all c it = ([], res, it')"
  by (subst iterate_all.simps) (auto split: next_result.splits bool.splits)

lemma iterate_all_step:
  "iterator_Next c it = (NextValue True, it') \<Longrightarrow>
   iterate_all c it = (case iterate_all c it' of (vs, res, it'') \<Rightarrow> (it_value it' # vs, res, it''))"
  by (subst iterate_all.simps) simp

lemma Next_decoded_at:
  "Next_decoded d (at it bs) = (case Next_decoded d it of (res, it') \<Rightarrow> (res, at it' bs))"
  by (auto simp: Next_decoded_def at_def Let_def split: prod.splits)

definition outcome :: "codec \<Rightarrow> iterator \<Rightarrow> bytes list \<times> next_result" where
  "outcome c it = (case iterate_all c it of (vs, res, _) \<Rightarrow> (vs, res))"

lemma outcome_stop: "iterator_Next c it = (res, it') \<Longrightarrow> res \<noteq> NextValue True \<Longrightarrow> outcome c it = ([], res)"
  by (simp add: outcome_def iterate_all_stop)

lemma outcome_step:
  "iterator_Next c it = (NextValue True, it') \<Longrightarrow>
   outcome c it = (case outcome c it' of (vs, res) \<Rightarrow> (it_value it' # vs, res))"
  by (auto simp: outcome_def iterate_all_step split: prod.splits)

text \<open>The decoder only sees the body of a frame, so what follows the frame does not matter to it.\<close>

lemma outcome_Frame_cong:
  assumes "frame_of bs = Frame body r" and "frame_of bs' = Frame body r'"
    and "\<And>it. outcome c (at it r) = outcome c (at it r')"
  shows "outcome c (at it bs) = outcome c (at it bs')"
proof (cases "s2_Decode c body")
  case None
  then show ?thesis using assms by (simp add: Next_Frame outcome_stop)
next
  case (Some d)
  obtain res it' where d: "Next_decoded d it = (res, it')" by fastforce
  have n: "iterator_Next c (at it bs) = (res, at it' r)" "iterator_Next c (at it bs') = (res, at it' r')"
    using assms Some d by (simp_all add: Next_Frame Next_decoded_at)
  show ?thesis
  proof (cases "res = NextValue True")
    case True
    then show ?thesis using n assms(3) by (simp add: outcome_step)
  next
    case False
    then show ?thesis using n by (simp add: outcome_stop)
  qed
qed

lemma outcome_stops:
  "outcome c (at it []) = ([], NextValue False)"
  "frame_of bs = BadFrame \<Longrightarrow> outcome c (at it bs) = ([], NextValue False)"
  "frame_of bs = ZeroFrame r \<Longrightarrow> outcome c (at it bs) = ([], NextValue False)"
  subgoal by (rule outcome_stop [OF Next_NoFrame]) simp
  subgoal using Next_BadFrame [of bs c it] outcome_stop [of c "at it bs"] by auto
  subgoal using Next_ZeroFrame [of bs r c it] outcome_stop [of c "at it bs"] by auto
  done

section \<open>The iterator and Repair agree\<close>

lemma frame_of_header:
  assumes "length h = 8"
  shows "frame_of (h @ t) =
    (let n = unat (Uint32 (take 4 h))
     in if length t < n \<or> ChecksumIEEE (take n t) \<noteq> Uint32 (drop 4 h) then BadFrame
        else if n = 0 then ZeroFrame t else Frame (take n t) (drop n t))"
proof -
  have "\<not> length (h @ t) < 8" "h @ t \<noteq> []" "take 4 (h @ t) = take 4 h" "drop 8 (h @ t) = t"
    "take 4 (drop 4 (h @ t)) = drop 4 h"
    using assms by auto
  then show ?thesis unfolding frame_of_def Let_def using assms by simp
qed

lemma frame_of_split:
  assumes "frame_of bs = Frame body r \<or> frame_of bs = ZeroFrame r"
  obtains h t where "bs = h @ t" "length h = 8"
proof -
  have "8 \<le> length bs" using assms frame_of_length by fastforce
  then have "bs = take 8 bs @ drop 8 bs" "length (take 8 bs) = 8" by simp_all
  then show thesis by (rule that)
qed

lemma frame_of_take:
  assumes "frame_of bs = Frame body r"
  shows "frame_of (take (8 + length body + m) bs) = Frame body (take m r)"
proof -
  obtain h t where bs: "bs = h @ t" "length h = 8" using assms frame_of_split by blast
  let ?n = "unat (Uint32 (take 4 h))"
  from assms bs have n: "?n \<le> length t" "?n \<noteq> 0" "ChecksumIEEE (take ?n t) = Uint32 (drop 4 h)"
    "body = take ?n t" "r = drop ?n t"
    by (auto simp: frame_of_header Let_def not_less split: if_splits)
  then have "take (8 + length body + m) bs = h @ take (?n + m) t" using bs by simp
  moreover have "frame_of (h @ take (?n + m) t) = Frame (take ?n t) (take m (drop ?n t))"
    using n bs(2) by (simp add: frame_of_header Let_def drop_take min_def)
  ultimately show ?thesis using n by simp
qed

lemma frame_of_take_zero:
  assumes "frame_of bs = ZeroFrame r"
  shows "frame_of (take (8 + m) bs) = ZeroFrame (take m r)"
proof -
  obtain h t where bs: "bs = h @ t" "length h = 8" using assms frame_of_split by blast
  then show ?thesis
    using assms by (auto simp: frame_of_header Let_def split: if_splits)
qed

lemma Repair_loop_ge: "Repair_loop bs k = Some m \<Longrightarrow> k \<le> m"
proof (induction "length bs" arbitrary: bs k rule: less_induct)
  case less
  show ?case
  proof (cases "frame_of bs")
    case (ZeroFrame r)
    then have "Repair_loop r (k + 8) = Some m" "length r < length bs"
      using less.prems frame_of_length by (simp_all add: Repair_loop_frame [of bs])
    then have "k + 8 \<le> m" using less.hyps by blast
    then show ?thesis by simp
  next
    case (Frame body r)
    then have "Repair_loop r (k + 8 + length body) = Some m" "length r < length bs"
      using less.prems frame_of_length by (simp_all add: Repair_loop_frame [of bs])
    then have "k + 8 + length body \<le> m" using less.hyps by blast
    then show ?thesis by simp
  qed (use less.prems in \<open>simp_all add: Repair_loop_frame [of bs]\<close>)
qed

lemma Repair_loop_outcome:
  "Repair_loop bs k = Some m \<Longrightarrow> outcome c (at it (take (m - k) bs)) = outcome c (at it bs)"
proof (induction "length bs" arbitrary: bs k it rule: less_induct)
  case less
  show ?case
  proof (cases "frame_of bs")
    case NoFrame
    then show ?thesis using less.prems by (simp add: Repair_loop_frame [of bs])
  next
    case BadFrame
    then show ?thesis using less.prems by (simp add: Repair_loop_frame [of bs] outcome_stops)
  next
    case (ZeroFrame r)
    then have "Repair_loop r (k + 8) = Some m" using less.prems by (simp add: Repair_loop_frame [of bs])
    then have "m - k = 8 + (m - (k + 8))" using Repair_loop_ge by fastforce
    then have "frame_of (take (m - k) bs) = ZeroFrame (take (m - (k + 8)) r)"
      using frame_of_take_zero [OF ZeroFrame] by metis
    then show ?thesis using ZeroFrame by (simp add: outcome_stops)
  next
    case (Frame body r)
    let ?k = "k + 8 + length body"
    from Frame less.prems have r: "Repair_loop r ?k = Some m"
      by (simp add: Repair_loop_frame [of bs])
    then have "m - k = 8 + length body + (m - ?k)" using Repair_loop_ge by fastforce
    then have f: "frame_of (take (m - k) bs) = Frame body (take (m - ?k) r)"
      using frame_of_take [OF Frame] by metis
    have "length r < length bs" using frame_of_length(1) [OF Frame] by simp
    then have "outcome c (at it (take (m - ?k) r)) = outcome c (at it r)" for it
      using r by (rule less.hyps)
    with f Frame show ?thesis by (rule outcome_Frame_cong)
  qed
qed

text \<open>What a reader of a whole segment file sees: the values and how the iteration ends.\<close>

definition read_segment :: "codec \<Rightarrow> bytes \<Rightarrow> wal_error + bytes list \<times> next_result" where
  "read_segment c file =
     (case NewSegmentIterator (of_bytes file) of
        Inl e \<Rightarrow> Inl e
      | Inr it \<Rightarrow> (case iterate_all c it of (vs, res, _) \<Rightarrow> Inr (vs, res)))"

definition iter0 :: iterator where
  "iter0 = \<lparr>it_reader = of_bytes [], it_value = [], it_type = 0, it_count = 0,
            it_decode = replicate 4096 0\<rparr>"

lemma read_segment_eq:
  "read_segment c file =
     (if file = [] then Inl ErrEOF
      else if length file < 8 then Inl ErrUnexpectedEOF
      else if take 6 file \<noteq> take 6 segmentMagic then Inl ErrInvalidWALSegment
      else Inr (outcome c (at iter0 (drop 8 file))))"
  by (auto simp: read_segment_def NewSegmentIterator_def ReadFull_def of_bytes_def outcome_def at_def
      iter0_def min_absorb1 split: prod.splits)

lemma read_Repair_bytes: "read_segment c (Repair_bytes file) = read_segment c file"
proof (cases "Repair_loop (drop 8 file) 8")
  case None
  then show ?thesis by (simp add: Repair_bytes_def)
next
  case (Some m)
  then have m: "8 \<le> m" by (rule Repair_loop_ge)
  then have "drop 8 (take m file) = take (m - 8) (drop 8 file)" by (simp add: drop_take)
  with m Some show ?thesis
    by (auto simp: Repair_bytes_def read_segment_eq min_absorb1 Repair_loop_outcome)
qed


text \<open>
  C3. Repair changes nothing that can be read: for every segment file, whatever its contents, the
  iterator returns the same values, in the same order and with the same result at the end, before
  and after \<open>Repair\<close> truncated the file. So a segment that is uploaded without having been repaired
  gives the same data as a repaired one.
\<close>

theorem read_after_Repair: "read_segment c (Repair_bytes file) = read_segment c file"
  by (rule read_Repair_bytes)

section \<open>Reading back what was written\<close>

type_synonym wal_write = "write_options \<times> bytes"

definition encode_write :: "codec \<Rightarrow> wal_write \<Rightarrow> bytes" where
  "encode_write c w = encode_block c (fst w) (snd w)"

definition encode_writes :: "codec \<Rightarrow> wal_write list \<Rightarrow> bytes" where
  "encode_writes c ws = concat (map (encode_write c) ws)"

text \<open>
  A write that produces a block: \<open>blockWrite\<close> writes nothing for an empty buffer, and the length
  field has 32 bits.
\<close>

definition writable :: "codec \<Rightarrow> wal_write \<Rightarrow> bool" where
  "writable c w \<longleftrightarrow> snd w \<noteq> [] \<and> length (s2_EncodeBetter c (block_plain (fst w) (snd w))) < 2 ^ 32"

lemma length_fold_options:
  "length b = 5 \<Longrightarrow> length (fold (\<lambda>(t, cnt). WithSampleMetadata t cnt) opts b) = 5"
  by (induction opts arbitrary: b) (auto simp: WithSampleMetadata_def)

lemma length_apply_options [simp]: "length (apply_options opts) = 5"
  by (simp add: apply_options_def length_fold_options)

lemma encode_nonempty: "codec_ok c \<Longrightarrow> s2_EncodeBetter c b \<noteq> []"
  by (metis codec_ok_def option.distinct(1))

lemma frame_of_encode_write:
  assumes "codec_ok c" "writable c w"
  shows "frame_of (encode_write c w @ r) = Frame (s2_EncodeBetter c (block_plain (fst w) (snd w))) r"
  using assms encode_nonempty [OF assms(1)]
  by (simp add: encode_write_def encode_block_put writable_def frame_of_put_block fits_def)

lemma HasSampleMetadata_plain: "HasSampleMetadata (decode_into backing (block_plain opts buf))"
  by (simp add: HasSampleMetadata_def decode_into_def block_plain_def blockHdrMagic_def)

lemma take5_plain: "take 5 (drop 3 (block_plain opts buf)) = apply_options opts"
  by (simp add: block_plain_def blockHdrMagic_def)

lemma drop8_plain: "drop 8 (block_plain opts buf) = buf"
  by (simp add: block_plain_def blockHdrMagic_def)

lemma length_plain: "length (block_plain opts buf) = 8 + length buf"
  by (simp add: block_plain_def blockHdrMagic_def)

definition after_write :: "iterator \<Rightarrow> wal_write \<Rightarrow> iterator" where
  "after_write it w =
     (let (t, n) = SampleMetadata (apply_options (fst w))
      in it\<lparr>it_type := t, it_count := it_count it + n, it_value := snd w,
           it_decode := decode_into (it_decode it) (block_plain (fst w) (snd w))\<rparr>)"

lemma it_value_after_write [simp]: "it_value (after_write it w) = snd w"
  by (simp add: after_write_def split: prod.splits)

lemma Next_decoded_plain:
  "Next_decoded (block_plain (fst w) (snd w)) it = (NextValue (snd w \<noteq> []), after_write it w)"
proof -
  let ?d = "block_plain (fst w) (snd w)"
  have len: "\<not> length (decode_into (it_decode it) ?d) < 2" "\<not> length ?d < 8"
    by (simp_all add: decode_into_def length_plain)
  show ?thesis
    unfolding Next_decoded_def Let_def take5_plain drop8_plain
    using len HasSampleMetadata_plain by (simp add: after_write_def split: prod.splits)
qed

lemma Next_encode_write:
  assumes "codec_ok c" "writable c w"
  shows "iterator_Next c (at it (encode_write c w @ r)) = (NextValue True, at (after_write it w) r)"
  using assms
  by (simp add: Next_Frame [OF frame_of_encode_write] Next_decoded_at Next_decoded_plain writable_def
      codec_ok_def)

lemma iterate_all_writes:
  assumes "codec_ok c" "\<forall>w \<in> set ws. writable c w"
  shows "iterate_all c (at it (encode_writes c ws @ r)) =
    (case iterate_all c (at (fold (\<lambda>w it. after_write it w) ws it) r) of
       (vs, res, it') \<Rightarrow> (map snd ws @ vs, res, it'))"
  using assms(2)
proof (induction ws arbitrary: it)
  case Nil
  then show ?case by (simp add: encode_writes_def split: prod.splits)
next
  case (Cons w ws)
  have "encode_writes c (w # ws) @ r = encode_write c w @ encode_writes c ws @ r"
    by (simp add: encode_writes_def)
  then show ?case
    using Cons assms(1) Next_encode_write [of c w it "encode_writes c ws @ r"]
    by (simp add: iterate_all_step split: prod.splits)
qed

lemma outcome_writes:
  assumes "codec_ok c" "\<forall>w \<in> set ws. writable c w"
  shows "outcome c (at it (encode_writes c ws @ r)) =
    (case outcome c (at (fold (\<lambda>w it. after_write it w) ws it) r) of (vs, res) \<Rightarrow> (map snd ws @ vs, res))"
  using iterate_all_writes [OF assms] by (simp add: outcome_def split: prod.splits)

lemma length_segmentMagic [simp]: "length segmentMagic = 8"
  by (simp add: segmentMagic_def)

lemma segmentMagic_nonempty [simp]: "segmentMagic \<noteq> []"
  by (simp add: segmentMagic_def)

lemma read_segment_header:
  "read_segment c (segmentMagic @ bs) = Inr (outcome c (at iter0 bs))"
  by (simp add: read_segment_eq)

text \<open>
  C4. What is written is what is read: the iterator over a segment file returns the values in the
  order in which they were written, ends without an error, and its metadata is the sum of the
  sample counts of the blocks (a 32-bit counter) and the sample type of the last one.
\<close>

theorem read_written_segment:
  assumes "codec_ok c" "\<forall>w \<in> set ws. writable c w"
  shows "\<exists>it. NewSegmentIterator (of_bytes (segmentMagic @ encode_writes c ws)) = Inr it \<and>
    (\<exists>it'. iterate_all c it = (map snd ws, NextValue False, it') \<and>
       it_count it' = sum_list (map (\<lambda>w. snd (SampleMetadata (apply_options (fst w)))) ws) \<and>
       it_type it' = (if ws = [] then 0 else fst (SampleMetadata (apply_options (fst (last ws))))))"
proof -
  let ?it = "at iter0 (encode_writes c ws)"
  let ?fin = "fold (\<lambda>w it. after_write it w) ws iter0"
  have new: "NewSegmentIterator (of_bytes (segmentMagic @ encode_writes c ws)) = Inr ?it"
    by (simp add: NewSegmentIterator_def ReadFull_def of_bytes_def at_def iter0_def)
  have "iterate_all c (at ?fin []) = ([], NextValue False, at ?fin [])"
    by (rule iterate_all_stop [OF Next_NoFrame]) simp
  then have all: "iterate_all c ?it = (map snd ws, NextValue False, at ?fin [])"
    using iterate_all_writes [OF assms, of iter0 "[]"] by simp
  have "it_count (fold (\<lambda>w it. after_write it w) ws it) =
      it_count it + sum_list (map (\<lambda>w. snd (SampleMetadata (apply_options (fst w)))) ws)" for it
    by (induction ws arbitrary: it) (auto simp: after_write_def add.assoc split: prod.splits)
  then have "it_count ?fin = sum_list (map (\<lambda>w. snd (SampleMetadata (apply_options (fst w)))) ws)"
    by (simp add: iter0_def)
  moreover have "it_type ?fin = (if ws = [] then 0 else fst (SampleMetadata (apply_options (fst (last ws)))))"
    by (cases ws rule: rev_cases) (simp_all add: iter0_def after_write_def split: prod.splits)
  ultimately show ?thesis using new all by auto
qed

section \<open>Recovery after a torn write\<close>

lemma Repair_loop_writes:
  assumes "codec_ok c" "\<forall>w \<in> set ws. writable c w"
  shows "Repair_loop (encode_writes c ws @ r) k = Repair_loop r (k + length (encode_writes c ws))"
  using assms(2)
proof (induction ws arbitrary: k)
  case Nil
  then show ?case by (simp add: encode_writes_def)
next
  case (Cons w ws)
  have "encode_writes c (w # ws) @ r = encode_write c w @ encode_writes c ws @ r"
    by (simp add: encode_writes_def)
  moreover have "length (encode_write c w) = 8 + length (s2_EncodeBetter c (block_plain (fst w) (snd w)))"
    by (simp add: encode_write_def encode_block_put)
  ultimately show ?case
    using Cons assms(1)
    by (simp add: Repair_loop_frame [of "encode_write c w @ _"] frame_of_encode_write encode_writes_def
        add.assoc)
qed

text \<open>The number of whole blocks among the first \<open>j\<close> bytes of a list of writes.\<close>

fun whole_writes :: "codec \<Rightarrow> wal_write list \<Rightarrow> nat \<Rightarrow> nat" where
  "whole_writes c [] j = 0"
| "whole_writes c (w # ws) j =
     (if length (encode_write c w) \<le> j then Suc (whole_writes c ws (j - length (encode_write c w))) else 0)"

lemma whole_writes_le: "whole_writes c ws j \<le> length ws"
  by (induction ws arbitrary: j) auto

lemma take_whole_writes:
  "\<exists>t. take j (encode_writes c ws) = encode_writes c (take (whole_writes c ws j) ws) @ t \<and>
     (t = [] \<or> (\<exists>w \<in> set ws. \<exists>i. 0 < i \<and> i < length (encode_write c w) \<and> t = take i (encode_write c w)))"
proof (induction ws arbitrary: j)
  case Nil
  then show ?case by (simp add: encode_writes_def)
next
  case (Cons w ws)
  have enc: "encode_writes c (w # ws) = encode_write c w @ encode_writes c ws"
    by (simp add: encode_writes_def)
  show ?case
  proof (cases "length (encode_write c w) \<le> j")
    case True
    obtain t where t: "take (j - length (encode_write c w)) (encode_writes c ws) =
        encode_writes c (take (whole_writes c ws (j - length (encode_write c w))) ws) @ t"
      "t = [] \<or> (\<exists>w \<in> set ws. \<exists>i. 0 < i \<and> i < length (encode_write c w) \<and> t = take i (encode_write c w))"
      using Cons.IH by blast
    with True show ?thesis unfolding enc
      by (intro exI [of _ t]) (auto simp: encode_writes_def)
  next
    case False
    then show ?thesis unfolding enc
      by (intro exI [of _ "take j (encode_write c w)"])
        (cases "j = 0"; auto simp: encode_writes_def)
  qed
qed

lemma read_encoded:
  assumes "codec_ok c" "\<forall>w \<in> set ws. writable c w"
  shows "read_segment c (segmentMagic @ encode_writes c ws) = Inr (map snd ws, NextValue False)"
  using outcome_writes [OF assms, of iter0 "[]"] by (simp add: read_segment_header outcome_stops)

lemma Repair_torn_bytes:
  assumes "codec_ok c" "\<forall>w \<in> set ws. writable c w" "8 \<le> n"
  shows "Repair_bytes (take n (segmentMagic @ encode_writes c ws)) =
    segmentMagic @ encode_writes c (take (whole_writes c ws (n - 8)) ws)"
proof -
  define kept where "kept = take (whole_writes c ws (n - 8)) ws"
  obtain t where t: "take (n - 8) (encode_writes c ws) = encode_writes c kept @ t"
    and tail: "t = [] \<or> (\<exists>w \<in> set ws. \<exists>i. 0 < i \<and> i < length (encode_write c w) \<and> t = take i (encode_write c w))"
    using take_whole_writes kept_def by blast
  have kept_ok: "\<forall>w \<in> set kept. writable c w" using assms(2) kept_def by (meson in_set_takeD)
  have torn: "take n (segmentMagic @ encode_writes c ws) = segmentMagic @ encode_writes c kept @ t"
    using assms(3) t by simp
  have bad: "t = [] \<or> frame_of t = BadFrame"
  proof -
    have "frame_of (take i (encode_write c w)) = BadFrame"
      if "w \<in> set ws" "0 < i" "i < length (encode_write c w)" for w i
      using that assms encode_nonempty [OF assms(1)] unfolding encode_write_def encode_block_put
      by (intro frame_of_torn) (auto simp: fits_def writable_def)
    then show ?thesis using tail by blast
  qed
  have loop: "Repair_loop (encode_writes c kept @ t) 8 =
      (if t = [] then None else Some (8 + length (encode_writes c kept)))"
    using bad Repair_loop_writes [OF assms(1) kept_ok, of t 8] by (auto simp: Repair_loop_frame [of t])
  have "Repair_bytes (segmentMagic @ encode_writes c kept @ t) = segmentMagic @ encode_writes c kept"
    using loop by (simp add: Repair_bytes_def)
  then show ?thesis unfolding kept_def [symmetric] torn .
qed

text \<open>
  C5. Crash recovery. If the file on disk is cut anywhere after its header (a torn write: only the
  first \<open>n\<close> bytes of the segment reached the disk), then \<open>Repair\<close> leaves exactly the header and the
  whole blocks, no later data and no partial block, and a reader sees exactly the values of those
  writes, in order. \<open>whole_writes\<close> counts the whole blocks among the bytes that were kept.
\<close>

theorem Repair_torn_segment:
  assumes "codec_ok c" "\<forall>w \<in> set ws. writable c w" "8 \<le> n"
  shows "let torn = take n (segmentMagic @ encode_writes c ws);
             kept = take (whole_writes c ws (n - 8)) ws
         in Repair_bytes torn = segmentMagic @ encode_writes c kept \<and>
            read_segment c (Repair_bytes torn) = Inr (map snd kept, NextValue False) \<and>
            read_segment c torn = Inr (map snd kept, NextValue False)"
  using Repair_torn_bytes [OF assms] read_encoded [OF assms(1), of "take (whole_writes c ws (n - 8)) ws"] assms(2)
    read_Repair_bytes [of c "take n (segmentMagic @ encode_writes c ws)"]
  by (metis in_set_takeD)

section \<open>Concrete segments\<close>

text \<open>A codec that stores its input behind a tag byte, for the concrete instances below.\<close>

definition stored_codec :: codec where
  "stored_codec = \<lparr>s2_EncodeBetter = (\<lambda>b. 0 # b),
     s2_Decode = (\<lambda>b. case b of [] \<Rightarrow> None | _ # r \<Rightarrow> Some r)\<rparr>"

definition two_writes :: "wal_write list" where
  "two_writes = [([(MetricSampleType, 3)], [104, 105]), ([(LogSampleType, 4)], [106])]"

lemma codec_ok_stored: "codec_ok stored_codec"
  by (simp add: codec_ok_def stored_codec_def)

lemma two_writes_writable: "\<forall>w \<in> set two_writes. writable stored_codec w"
  by (simp add: two_writes_def writable_def stored_codec_def length_plain)

theorem read_written_segment_witness:
  "\<exists>it it'. NewSegmentIterator (of_bytes (segmentMagic @ encode_writes stored_codec two_writes)) = Inr it \<and>
     iterate_all stored_codec it = ([[104, 105], [106]], NextValue False, it') \<and>
     it_count it' = 7 \<and> it_type it' = LogSampleType"
proof -
  have "SampleMetadata (apply_options [(MetricSampleType, 3)]) = (MetricSampleType, 3)"
    "SampleMetadata (apply_options [(LogSampleType, 4)]) = (LogSampleType, 4)"
    by (simp_all add: SampleMetadata_def apply_options_def WithSampleMetadata_def MetricSampleType_def
        LogSampleType_def)
  then show ?thesis
    using read_written_segment [OF codec_ok_stored two_writes_writable] by (auto simp: two_writes_def)
qed

theorem Repair_torn_segment_witness:
  "read_segment stored_codec (take 35 (segmentMagic @ encode_writes stored_codec two_writes))
     = Inr ([[104, 105]], NextValue False)"
proof -
  have "whole_writes stored_codec two_writes 27 = 1"
    by (simp add: two_writes_def encode_write_def encode_block_put stored_codec_def length_plain)
  then show ?thesis
    using Repair_torn_segment [OF codec_ok_stored two_writes_writable, of 35]
    by (simp add: Let_def two_writes_def)
qed

section \<open>Merged segments\<close>

lemma encode_writes_append: "encode_writes c (ws @ ws') = encode_writes c ws @ encode_writes c ws'"
  by (simp add: encode_writes_def)

lemma encode_writes_concat:
  "concat (map (encode_writes c) wss) = encode_writes c (concat wss)"
  by (induction wss) (simp_all add: encode_writes_append encode_writes_def)

text \<open>
  C6. Merging segments for a transfer loses nothing: reading the stream that \<open>NewSegmentMerger\<close>
  builds from whole segment files gives the values of all the files, file by file, in order.
\<close>

theorem read_merged_segments:
  assumes "codec_ok c" "\<forall>ws \<in> set wss. \<forall>w \<in> set ws. writable c w"
  shows "read_segment c (SegmentMerger_bytes (map (\<lambda>ws. segmentMagic @ encode_writes c ws) wss)) =
    Inr (concat (map (map snd) wss), NextValue False)"
proof -
  have "SegmentMerger_bytes (map (\<lambda>ws. segmentMagic @ encode_writes c ws) wss) =
      segmentMagic @ encode_writes c (concat wss)"
    by (simp add: SegmentMerger_bytes_def comp_def encode_writes_concat)
  moreover have "outcome c (at iter0 (encode_writes c (concat wss))) =
      (map snd (concat wss), NextValue False)"
    using outcome_writes [OF assms(1), of "concat wss" iter0 "[]"] assms(2) by (simp add: outcome_stops)
  ultimately show ?thesis by (simp add: read_segment_header map_concat)
qed

theorem read_merged_segments_witness:
  "read_segment stored_codec
     (SegmentMerger_bytes (map (\<lambda>ws. segmentMagic @ encode_writes stored_codec ws) [two_writes, [], two_writes]))
   = Inr ([[104, 105], [106], [104, 105], [106]], NextValue False)"
  using read_merged_segments [OF codec_ok_stored, of "[two_writes, [], two_writes]"] two_writes_writable
  by (simp add: two_writes_def)

lemma Verify_loop_Frame:
  "frame_of bs = Frame body r \<Longrightarrow> Verify_loop (of_bytes bs) k = Verify_loop (of_bytes r) (Suc k)"
  by (subst Verify_loop.simps)
    (auto simp: frame_of_def ReadFull_def of_bytes_def Let_def take_drop min_absorb1 min_absorb2
      split: if_splits)

lemma Verify_loop_stop:
  "frame_of bs = ZeroFrame r \<or> length bs < 8 \<Longrightarrow> Verify_loop (of_bytes bs) k = Inr k"
  by (subst Verify_loop.simps)
    (auto simp: frame_of_def ReadFull_def of_bytes_def Let_def take_drop min_absorb1 min_absorb2
      split: if_splits)

lemma Verify_loop_writes:
  assumes "codec_ok c" "\<forall>w \<in> set ws. writable c w"
  shows "Verify_loop (of_bytes (encode_writes c ws @ r)) k = Verify_loop (of_bytes r) (k + length ws)"
  using assms(2)
proof (induction ws arbitrary: k)
  case Nil
  then show ?case by (simp add: encode_writes_def)
next
  case (Cons w ws)
  have "encode_writes c (w # ws) @ r = encode_write c w @ encode_writes c ws @ r"
    by (simp add: encode_writes_def)
  moreover have "frame_of (encode_write c w @ encode_writes c ws @ r) =
      Frame (s2_EncodeBetter c (block_plain (fst w) (snd w))) (encode_writes c ws @ r)"
    using assms(1) Cons.prems by (intro frame_of_encode_write) auto
  ultimately show ?case using Cons by (simp add: Verify_loop_Frame)
qed

lemma NewSegmentIterator_header:
  "NewSegmentIterator (of_bytes (segmentMagic @ bs)) = Inr (at iter0 bs)"
  by (simp add: NewSegmentIterator_def ReadFull_def of_bytes_def at_def iter0_def)

lemma frame_of_zeros: "frame_of (replicate 8 0 @ r) = ZeroFrame r"
proof -
  have "Uint32 (take 4 (replicate 8 0)) = 0" "Uint32 (drop 4 (replicate 8 0)) = 0"
    by (simp_all add: numeral_eq_Suc)
  then show ?thesis by (simp add: frame_of_header)
qed

text \<open>
  C7. Trailing zeros survive \<open>Repair\<close> and hide the rest of a merged batch. Eight zero bytes at the end
  of a file are a block of length zero whose checksum is right, so \<open>Repair\<close> keeps them (the comment in
  \<open>Next\<close> says a repair would truncate them), while the iterator stops at them. Merging such a file
  with later ones therefore gives a stream in which none of the later files' values can be read, and
  \<open>Verify\<close> still accepts it, so the receiver of a transfer stores it and the sender deletes its copy.
\<close>

theorem zero_tail_hides_merged_segments:
  assumes "codec_ok c" "\<forall>w \<in> set ws. writable c w" "\<forall>w \<in> set ws'. writable c w"
  shows "let damaged = segmentMagic @ encode_writes c ws @ replicate 8 0;
             merged = SegmentMerger_bytes [Repair_bytes damaged, segmentMagic @ encode_writes c ws']
         in Repair_bytes damaged = damaged \<and>
            read_segment c (segmentMagic @ encode_writes c ws') = Inr (map snd ws', NextValue False) \<and>
            read_segment c merged = Inr (map snd ws, NextValue False) \<and>
            (\<exists>it. NewSegmentIterator (of_bytes merged) = Inr it \<and> iterator_Verify it = Inr (length ws))"
proof -
  let ?z = "replicate 8 (0 :: byte)"
  define damaged where "damaged = segmentMagic @ encode_writes c ws @ ?z"
  have zero: "frame_of ?z = ZeroFrame []" using frame_of_zeros [of "[]"] by simp
  have "Repair_loop (encode_writes c ws @ ?z) 8 = None"
    unfolding Repair_loop_writes [OF assms(1,2)] Repair_loop_frame [of ?z] zero
    by (simp add: Repair_loop.simps)
  then have rep: "Repair_bytes damaged = damaged" by (simp add: Repair_bytes_def damaged_def)
  have merged: "SegmentMerger_bytes [damaged, segmentMagic @ encode_writes c ws'] =
      segmentMagic @ encode_writes c ws @ ?z @ encode_writes c ws'"
    by (simp add: SegmentMerger_bytes_def damaged_def)
  have "outcome c (at iter0 (encode_writes c ws @ ?z @ encode_writes c ws')) = (map snd ws, NextValue False)"
    using outcome_writes [OF assms(1,2)] frame_of_zeros outcome_stops(3) by simp
  moreover have "outcome c (at iter0 (encode_writes c ws')) = (map snd ws', NextValue False)"
    using outcome_writes [OF assms(1,3), of iter0 "[]"] by (simp add: outcome_stops)
  moreover have "Verify_loop (of_bytes (encode_writes c ws @ ?z @ encode_writes c ws')) 0 = Inr (length ws)"
    unfolding Verify_loop_writes [OF assms(1,2)] using frame_of_zeros by (simp add: Verify_loop_stop)
  ultimately show ?thesis
    unfolding Let_def damaged_def [symmetric] rep merged
    by (simp add: read_segment_header NewSegmentIterator_header iterator_Verify_def)
qed

theorem zero_tail_hides_merged_segments_witness:
  "read_segment stored_codec
     (SegmentMerger_bytes [Repair_bytes (segmentMagic @ encode_writes stored_codec two_writes @ replicate 8 0),
        segmentMagic @ encode_writes stored_codec two_writes]) = Inr ([[104, 105], [106]], NextValue False)"
proof -
  have vs: "map snd two_writes = [[104, 105], [106]]" by (simp add: two_writes_def)
  show ?thesis
    using zero_tail_hides_merged_segments [OF codec_ok_stored two_writes_writable two_writes_writable]
    unfolding Let_def vs by blast
qed

end
