(* ===== verification/SchemaNames.thy ===== *)
theory SchemaNames
  imports Prelude
begin

text \<open>
  \<open>schema/schema.go\<close>: the identifiers ADX accepts and the CSV schema that travels in the first line
  of a segment. The hash of a schema uses a third-party hash function and is not modelled.
\<close>

section \<open>Identifiers\<close>

definition max_adx_identifier_length :: nat where
  "max_adx_identifier_length = 1024"

definition is_lower :: "char \<Rightarrow> bool" where
  "is_lower c \<longleftrightarrow> CHR ''a'' \<le> c \<and> c \<le> CHR ''z''"

definition allowed_char :: "char \<Rightarrow> bool" where
  "allowed_char c \<longleftrightarrow>
     CHR ''a'' \<le> c \<and> c \<le> CHR ''z'' \<or> CHR ''0'' \<le> c \<and> c \<le> CHR ''9'' \<or> CHR ''A'' \<le> c \<and> c \<le> CHR ''Z''"

text \<open>The loop that copies the allowed bytes and stops at the length limit; \<open>n\<close> bytes are copied so far.\<close>

fun copy_allowed :: "nat \<Rightarrow> string \<Rightarrow> string" where
  "copy_allowed n [] = []"
| "copy_allowed n (c # cs) =
     (if allowed_char c
      then c # (if max_adx_identifier_length \<le> Suc n then [] else copy_allowed (Suc n) cs)
      else copy_allowed n cs)"

definition NormalizeAdxIdentifier :: "string \<Rightarrow> string" where
  "NormalizeAdxIdentifier s =
     (if length (filter (\<lambda>c. \<not> allowed_char c) s) = 0 \<and> length s \<le> max_adx_identifier_length
      then s else copy_allowed 0 s)"

definition AppendNormalizeAdxIdentifier :: "string \<Rightarrow> string \<Rightarrow> string" where
  "AppendNormalizeAdxIdentifier dst s = dst @ copy_allowed 0 s"

definition to_upper :: "char \<Rightarrow> char" where
  "to_upper c = (if is_lower c then char_of (of_char c - 32 :: nat) else c)"

text \<open>
  \<open>AppendNormalizeMetricName\<close>: \<open>n\<close> characters are appended so far and \<open>first\<close> says that the next byte
  is the first of the input.
\<close>

fun metric_name :: "nat \<Rightarrow> bool \<Rightarrow> string \<Rightarrow> string" where
  "metric_name n first [] = []"
| "metric_name n first (c # cs) =
     (if max_adx_identifier_length \<le> n then []
      else if \<not> allowed_char c then
        (case cs of
           [] \<Rightarrow> []
         | c' # cs' \<Rightarrow> if is_lower c' then to_upper c' # metric_name (Suc n) False cs'
                      else metric_name n False cs)
      else if first then to_upper c # metric_name (Suc n) False cs
      else c # metric_name (Suc n) False cs)"

definition AppendNormalizeMetricName :: "string \<Rightarrow> string \<Rightarrow> string" where
  "AppendNormalizeMetricName dst s = dst @ metric_name 0 True s"

definition NormalizeMetricName :: "string \<Rightarrow> string" where
  "NormalizeMetricName s = AppendNormalizeMetricName [] s"

section \<open>The CSV schema\<close>

record csv_mapping =
  Column :: string
  DataType :: string
  Ordinal :: string
  ConstValue :: string

type_synonym schema_mapping = "csv_mapping list"

text \<open>\<open>strconv.Itoa\<close> of a number that is not negative.\<close>

fun Itoa :: "nat \<Rightarrow> string" where
  "Itoa n = (if n < 10 then [char_of (48 + n)] else Itoa (n div 10) @ [char_of (48 + n mod 10)])"

declare Itoa.simps [simp del]

definition column :: "nat \<Rightarrow> string \<times> string \<Rightarrow> csv_mapping" where
  "column idx ct = \<lparr>Column = fst ct, DataType = snd ct, Ordinal = Itoa idx, ConstValue = []\<rparr>"

definition NewMetricsSchema :: schema_mapping where
  "NewMetricsSchema =
     [column 0 (''Timestamp'', ''datetime''), column 1 (''SeriesId'', ''long''),
      column 2 (''Labels'', ''dynamic''), column 3 (''Value'', ''real'')]"

definition NewLogsSchema :: schema_mapping where
  "NewLogsSchema =
     [column 0 (''Timestamp'', ''datetime''), column 1 (''ObservedTimestamp'', ''datetime''),
      column 2 (''TraceId'', ''string''), column 3 (''SpanId'', ''string''),
      column 4 (''SeverityText'', ''string''), column 5 (''SeverityNumber'', ''int''),
      column 6 (''Body'', ''dynamic''), column 7 (''Resource'', ''dynamic''),
      column 8 (''Attributes'', ''dynamic'')]"

definition AddConstMapping :: "schema_mapping \<Rightarrow> string \<Rightarrow> string \<Rightarrow> schema_mapping" where
  "AddConstMapping m col value =
     m @ [\<lparr>Column = col, DataType = ''string'', Ordinal = Itoa (length m), ConstValue = value\<rparr>]"

definition AddStringMapping :: "schema_mapping \<Rightarrow> string \<Rightarrow> schema_mapping" where
  "AddStringMapping m col = AddConstMapping m (NormalizeMetricName col) []"

definition newline :: char where
  "newline = CHR 0x0A"

fun append_columns :: "string \<Rightarrow> schema_mapping \<Rightarrow> string" where
  "append_columns dst [] = dst"
| "append_columns dst (v # vs) =
     append_columns ((if dst \<noteq> [] then dst @ '','' else dst) @ Column v @ '':'' @ DataType v) vs"

definition AppendCSVHeader :: "string \<Rightarrow> schema_mapping \<Rightarrow> string" where
  "AppendCSVHeader dst mapping = append_columns dst mapping @ [newline]"

fun parse_fields :: "nat \<Rightarrow> string list \<Rightarrow> schema_mapping option" where
  "parse_fields i [] = Some []"
| "parse_fields i (v # vs) =
     (case strings_Split CHR '':'' v of
        [name, type] \<Rightarrow> map_option (\<lambda>m. column i (name, type) # m) (parse_fields (Suc i) vs)
      | _ \<Rightarrow> None)"

text \<open>\<open>UnmarshalSchema\<close>: the error carries the offending line.\<close>

definition UnmarshalSchema :: "string \<Rightarrow> string + schema_mapping" where
  "UnmarshalSchema data =
     (let line = takeWhile (\<lambda>c. c \<noteq> newline) data
      in if line = [] then Inr []
         else case parse_fields 0 (strings_Split CHR '','' line) of
           None \<Rightarrow> Inl line
         | Some m \<Rightarrow> Inr m)"

section \<open>Correctness of the identifiers\<close>

lemma copy_allowed_filter:
  "n < max_adx_identifier_length \<Longrightarrow>
   copy_allowed n s = take (max_adx_identifier_length - n) (filter allowed_char s)"
proof (induction s arbitrary: n)
  case Nil
  then show ?case by simp
next
  case (Cons c s)
  then obtain k where k: "max_adx_identifier_length - n = Suc k"
    by (metis Suc_diff_Suc)
  then have "max_adx_identifier_length - Suc n = k"
    by simp
  with Cons k show ?case
    by (auto simp: not_le)
qed

lemma NormalizeAdxIdentifier_filter:
  "NormalizeAdxIdentifier s = take max_adx_identifier_length (filter allowed_char s)"
  by (auto simp: NormalizeAdxIdentifier_def copy_allowed_filter max_adx_identifier_length_def
      filter_empty_conv filter_id_conv)

lemma of_char_to_upper: "is_lower c \<Longrightarrow> of_char (to_upper c) = (of_char c - 32 :: nat)"
  by (auto simp: to_upper_def is_lower_def less_eq_char_def of_char_of intro!: mod_less)

lemma to_upper_lower: "is_lower c \<Longrightarrow> allowed_char (to_upper c) \<and> \<not> is_lower (to_upper c)"
  using of_char_to_upper [of c]
  by (auto simp: is_lower_def allowed_char_def less_eq_char_def)

lemma to_upper_allowed [simp]: "allowed_char c \<Longrightarrow> allowed_char (to_upper c)"
  using to_upper_lower [of c] by (cases "is_lower c") (auto simp: to_upper_def)

lemma to_upper_not_lower [simp]: "\<not> is_lower (to_upper c)"
  using to_upper_lower [of c] by (cases "is_lower c") (auto simp: to_upper_def)

lemma to_upper_id: "\<not> is_lower c \<Longrightarrow> to_upper c = c"
  by (simp add: to_upper_def)

lemma metric_name_allowed:
  "c \<in> set (metric_name n first s) \<Longrightarrow> allowed_char c"
proof (induction n first s rule: metric_name.induct)
  case (2 n first d cs)
  then show ?case
    by (cases cs) (auto simp del: metric_name.simps(2) simp: metric_name.simps(2) [of n first d]
        to_upper_lower split: if_splits)
qed simp

lemma metric_name_length:
  "n \<le> max_adx_identifier_length \<Longrightarrow> n + length (metric_name n first s) \<le> max_adx_identifier_length"
proof (induction n first s rule: metric_name.induct)
  case (2 n first c cs)
  then show ?case by (cases cs) (auto simp: not_le Suc_le_eq)
qed simp

text \<open>
  A byte that follows a byte that was dropped is never a lower-case letter, and the first byte of the
  input is converted: so the output never starts with a lower-case letter.
\<close>

lemma metric_name_head:
  "s \<noteq> [] \<Longrightarrow> first \<or> \<not> is_lower (hd s) \<Longrightarrow> metric_name n first s = c # r \<Longrightarrow> \<not> is_lower c"
proof (induction n first s arbitrary: r rule: metric_name.induct)
  case (2 n first d cs)
  then show ?case by (cases cs) (auto split: if_splits)
qed simp

text \<open>On a name that needs no change, the loop copies.\<close>

lemma metric_name_copy:
  "list_all allowed_char s \<Longrightarrow> n + length s \<le> max_adx_identifier_length \<Longrightarrow> metric_name n False s = s"
  by (induction s arbitrary: n) auto

lemma metric_name_id:
  assumes "list_all allowed_char s" and "length s \<le> max_adx_identifier_length"
    and "s = [] \<or> \<not> is_lower (hd s)"
  shows "metric_name 0 True s = s"
  using assms by (cases s) (auto simp: metric_name_copy to_upper_id)

lemma NormalizeMetricName_metric_name: "NormalizeMetricName s = metric_name 0 True s"
  by (simp add: NormalizeMetricName_def AppendNormalizeMetricName_def)

lemma NormalizeMetricName_fixed:
  "NormalizeMetricName (NormalizeMetricName s) = NormalizeMetricName s"
  unfolding NormalizeMetricName_metric_name
proof (rule metric_name_id)
  show "list_all allowed_char (metric_name 0 True s)"
    by (auto simp: list_all_iff dest: metric_name_allowed)
  show "length (metric_name 0 True s) \<le> max_adx_identifier_length"
    using metric_name_length [of 0 True s] by simp
  show "metric_name 0 True s = [] \<or> \<not> is_lower (hd (metric_name 0 True s))"
    using metric_name_head [of s True 0 "hd (metric_name 0 True s)" "tl (metric_name 0 True s)"]
    by (cases "s = []") (auto simp del: metric_name.simps(2))
qed

section \<open>Correctness of the schema line\<close>

text \<open>
  A name that may appear in the header: it does not hold a separator of the line. Column names made by
  \<open>NormalizeMetricName\<close> and the data types of the code are such names.
\<close>

definition header_safe :: "string \<Rightarrow> bool" where
  "header_safe s \<longleftrightarrow> CHR '','' \<notin> set s \<and> CHR '':'' \<notin> set s \<and> newline \<notin> set s"

lemma header_safe_allowed: "list_all allowed_char s \<Longrightarrow> header_safe s"
  by (auto simp: header_safe_def list_all_iff allowed_char_def newline_def less_eq_char_def)

definition well_ordered :: "schema_mapping \<Rightarrow> bool" where
  "well_ordered m \<longleftrightarrow>
     (\<forall>i < length m. Ordinal (m ! i) = Itoa i \<and> ConstValue (m ! i) = [] \<and>
        header_safe (Column (m ! i)) \<and> header_safe (DataType (m ! i)))"

definition field :: "csv_mapping \<Rightarrow> string" where
  "field v = Column v @ '':'' @ DataType v"

lemma append_columns_nonempty:
  "dst \<noteq> [] \<Longrightarrow> append_columns dst vs = dst @ concat (map (\<lambda>v. '','' @ field v) vs)"
  by (induction vs arbitrary: dst) (auto simp: field_def)

lemma append_columns_start:
  "append_columns [] (v # vs) = field v @ concat (map (\<lambda>v. '','' @ field v) vs)"
  using append_columns_nonempty [of "field v" vs] by (simp add: field_def)

lemma Split_columns:
  "\<forall>v \<in> set (v # vs). header_safe (Column v) \<and> header_safe (DataType v) \<Longrightarrow>
   strings_Split CHR '','' (field v @ concat (map (\<lambda>v. '','' @ field v) vs)) = map field (v # vs)"
proof (induction vs arbitrary: v)
  case Nil
  then show ?case by (auto simp: header_safe_def field_def intro!: strings_Split_absent)
next
  case (Cons w ws)
  have "CHR '','' \<notin> set (field v)"
    using Cons.prems by (auto simp: header_safe_def field_def)
  then show ?case
    using Cons.IH [of w] Cons.prems
    by (simp add: strings_Split_append [of _ "field v" "field w @ concat (map (\<lambda>v. '','' @ field v) ws)", simplified])
qed

lemma Split_field:
  "header_safe (Column v) \<Longrightarrow> header_safe (DataType v) \<Longrightarrow>
   strings_Split CHR '':'' (field v) = [Column v, DataType v]"
  by (simp add: field_def header_safe_def strings_Split_append strings_Split_absent)

lemma parse_fields_columns:
  "\<forall>i < length vs. Ordinal (vs ! i) = Itoa (k + i) \<and> ConstValue (vs ! i) = [] \<and>
      header_safe (Column (vs ! i)) \<and> header_safe (DataType (vs ! i)) \<Longrightarrow>
   parse_fields k (map field vs) = Some vs"
proof (induction vs arbitrary: k)
  case Nil
  then show ?case by simp
next
  case (Cons v vs)
  have v: "Ordinal v = Itoa k" "ConstValue v = []" "header_safe (Column v)" "header_safe (DataType v)"
    using Cons.prems by (auto dest: spec [of _ 0])
  moreover have "parse_fields (Suc k) (map field vs) = Some vs"
    using Cons.prems by (intro Cons.IH) (auto dest: spec [of _ "Suc _"])
  ultimately show ?case
    by (simp add: Split_field column_def)
qed

lemma header_line:
  assumes "\<forall>v \<in> set (v # vs). header_safe (Column v) \<and> header_safe (DataType v)"
  shows "takeWhile (\<lambda>c. c \<noteq> newline) (AppendCSVHeader [] (v # vs)) =
         field v @ concat (map (\<lambda>v. '','' @ field v) vs)"
proof -
  have "newline \<notin> set (field v @ concat (map (\<lambda>v. '','' @ field v) vs))"
    using assms by (auto simp: header_safe_def field_def newline_def)
  then show ?thesis
    unfolding AppendCSVHeader_def append_columns_start by (rule takeWhile_neq_append)
qed

lemma well_ordered_columns: "well_ordered m \<Longrightarrow> v \<in> set m \<Longrightarrow> header_safe (Column v) \<and> header_safe (DataType v)"
  by (auto simp: well_ordered_def in_set_conv_nth)

lemma UnmarshalSchema_header:
  assumes "well_ordered m"
  shows "UnmarshalSchema (AppendCSVHeader [] m) = Inr m"
proof (cases m)
  case Nil
  then show ?thesis by (simp add: UnmarshalSchema_def AppendCSVHeader_def)
next
  case (Cons v vs)
  have safe: "\<forall>v \<in> set (v # vs). header_safe (Column v) \<and> header_safe (DataType v)"
    using well_ordered_columns [OF assms] Cons by blast
  have "parse_fields 0 (map field m) = Some m"
    using assms by (intro parse_fields_columns) (simp add: well_ordered_def)
  then show ?thesis
    using Split_columns [OF safe] header_line [OF safe] Cons
    by (simp add: UnmarshalSchema_def Let_def field_def)
qed

text \<open>Every schema the code builds is well ordered, whatever string columns are added to it.\<close>

lemma well_ordered_AddStringMapping:
  assumes "well_ordered m"
  shows "well_ordered (AddStringMapping m col)"
proof -
  have "header_safe (NormalizeMetricName col)"
    by (rule header_safe_allowed)
       (auto simp: list_all_iff NormalizeMetricName_metric_name dest: metric_name_allowed)
  moreover have "header_safe ''string''"
    by (simp add: header_safe_def newline_def)
  ultimately show ?thesis
    using assms by (auto simp: well_ordered_def AddStringMapping_def AddConstMapping_def nth_append less_Suc_eq)
qed

lemma well_ordered_default: "well_ordered NewMetricsSchema" "well_ordered NewLogsSchema"
  by (simp_all add: well_ordered_def NewMetricsSchema_def NewLogsSchema_def column_def header_safe_def
      newline_def All_less_Suc numeral_eq_Suc)

lemma well_ordered_lifted:
  "well_ordered m \<Longrightarrow> well_ordered (fold (\<lambda>c s. AddStringMapping s c) cols m)"
  by (induction cols arbitrary: m) (simp_all add: well_ordered_AddStringMapping)

section \<open>Properties\<close>

text \<open>
  C8. \<open>NormalizeAdxIdentifier\<close>, its appending variant and the reference definition agree: all three
  keep the ASCII letters and digits of the name in order and cut the result at 1024 bytes, so that the
  fast path (no allocation) never changes the result; the result is a fixed point.
\<close>

theorem NormalizeAdxIdentifier_spec:
  "NormalizeAdxIdentifier s = take max_adx_identifier_length (filter allowed_char s) \<and>
   AppendNormalizeAdxIdentifier dst s = dst @ NormalizeAdxIdentifier s \<and>
   NormalizeAdxIdentifier (NormalizeAdxIdentifier s) = NormalizeAdxIdentifier s"
proof -
  have "filter allowed_char (take max_adx_identifier_length (filter allowed_char s)) =
        take max_adx_identifier_length (filter allowed_char s)"
    by (auto simp: filter_id_conv dest: in_set_takeD)
  moreover have "0 < max_adx_identifier_length"
    by (simp add: max_adx_identifier_length_def)
  ultimately show ?thesis
    by (simp add: NormalizeAdxIdentifier_filter AppendNormalizeAdxIdentifier_def copy_allowed_filter)
qed

text \<open>
  A table name made by \<open>NormalizeMetricName\<close> has only ASCII letters and digits, at most 1024 of
  them, does not start with a lower-case letter, and normalizing it again changes nothing: the name
  an ingestor derives from a metric and the name it re-reads from a segment are the same table.
\<close>

lemma NormalizeMetricName_canonical:
  "list_all allowed_char (NormalizeMetricName s) \<and>
   length (NormalizeMetricName s) \<le> max_adx_identifier_length \<and>
   (case NormalizeMetricName s of [] \<Rightarrow> True | c # _ \<Rightarrow> \<not> is_lower c) \<and>
   NormalizeMetricName (NormalizeMetricName s) = NormalizeMetricName s \<and>
   NormalizeAdxIdentifier (NormalizeMetricName s) = NormalizeMetricName s"
proof -
  let ?n = "NormalizeMetricName s"
  have all: "list_all allowed_char ?n"
    by (auto simp: list_all_iff NormalizeMetricName_metric_name dest: metric_name_allowed)
  moreover have len: "length ?n \<le> max_adx_identifier_length"
    using metric_name_length [of 0 True s] by (simp add: NormalizeMetricName_metric_name)
  moreover have "case ?n of [] \<Rightarrow> True | c # _ \<Rightarrow> \<not> is_lower c"
    using metric_name_head [of s True 0]
    by (cases "s = []") (auto simp: NormalizeMetricName_metric_name simp del: metric_name.simps(2) split: list.split)
  moreover have "NormalizeAdxIdentifier ?n = ?n"
    using all len by (simp add: NormalizeAdxIdentifier_filter list_all_iff filter_id_conv)
  ultimately show ?thesis
    using NormalizeMetricName_fixed by blast
qed

text \<open>
  C10. The schema line round-trips: for the metrics or logs schema extended with any list of lifted
  columns, parsing the header that \<open>AppendCSVHeader\<close> writes returns that schema, followed by whatever
  rows.
\<close>

theorem UnmarshalSchema_AppendCSVHeader:
  assumes "base \<in> {NewMetricsSchema, NewLogsSchema}"
  shows "UnmarshalSchema (AppendCSVHeader [] (fold (\<lambda>c m. AddStringMapping m c) cols base) @ rows) =
         Inr (fold (\<lambda>c m. AddStringMapping m c) cols base)"
proof -
  have "well_ordered (fold (\<lambda>c m. AddStringMapping m c) cols base)"
    using assms well_ordered_default by (auto intro: well_ordered_lifted)
  moreover have "takeWhile (\<lambda>c. c \<noteq> newline) (AppendCSVHeader [] m @ rows) =
        takeWhile (\<lambda>c. c \<noteq> newline) (AppendCSVHeader [] m)" for m
    by (auto simp: AppendCSVHeader_def takeWhile_append)
  ultimately show ?thesis
    using UnmarshalSchema_header by (simp add: UnmarshalSchema_def)
qed

theorem UnmarshalSchema_AppendCSVHeader_witness:
  "UnmarshalSchema (AppendCSVHeader [] (fold (\<lambda>c m. AddStringMapping m c) [''host_name''] NewMetricsSchema)
     @ ''1,2,3,4'') =
   Inr (fold (\<lambda>c m. AddStringMapping m c) [''host_name''] NewMetricsSchema)"
  by (rule UnmarshalSchema_AppendCSVHeader) simp

end
