(* ===== verification/IngestPolicy.thy ===== *)
theory IngestPolicy
  imports SchemaNames "HOL-Library.Product_Lexorder" "HOL-Library.AList"
begin

text \<open>
  \<open>pkg/ingestpolicy/policy.go\<close>: which destination tables are uploaded with streaming ingestion. The
  nested map of the policy is an association list from databases to the tables in them; a nil policy
  is \<open>None\<close>.
\<close>

section \<open>Definitions\<close>

datatype priority = PriorityQueued | PriorityRealtime

definition NumPriorities :: nat where
  "NumPriorities = 2"

definition priority_String :: "priority \<Rightarrow> string" where
  "priority_String p = (case p of PriorityQueued \<Rightarrow> ''queued'' | PriorityRealtime \<Rightarrow> ''realtime'')"

record policy_table =
  TDatabase :: string
  TTable :: string

definition policy_table_String :: "policy_table \<Rightarrow> string" where
  "policy_table_String t = TDatabase t @ ''.'' @ TTable t"

record policy =
  realtime :: "(string \<times> string list) list"
  tables :: "policy_table list"

datatype policy_error = InvalidTable string | DuplicateTable string

definition tables_of :: "(string \<times> string list) list \<Rightarrow> string \<Rightarrow> string list" where
  "tables_of rt db = (case map_of rt db of None \<Rightarrow> [] | Some ts \<Rightarrow> ts)"

text \<open>One turn of the loop of \<open>New\<close>, on the policy built so far and the errors collected so far.\<close>

definition New_step :: "policy_table \<Rightarrow> policy \<times> policy_error list \<Rightarrow> policy \<times> policy_error list" where
  "New_step t = (\<lambda>(p, errs).
     let db = NormalizeAdxIdentifier (TDatabase t); table = NormalizeAdxIdentifier (TTable t)
     in if db = [] \<or> table = [] then (p, errs @ [InvalidTable (policy_table_String t)])
        else
          let ts = tables_of (realtime p) db;
              p' = (if map_of (realtime p) db = None
                    then p\<lparr>realtime := AList.update db [] (realtime p)\<rparr> else p)
          in if table \<in> set ts then (p', errs @ [DuplicateTable (db @ ''.'' @ table)])
             else (p'\<lparr>realtime := AList.update db (ts @ [table]) (realtime p'),
                      tables := tables p' @ [\<lparr>TDatabase = db, TTable = table\<rparr>]\<rparr>, errs))"

definition empty_policy :: policy where
  "empty_policy = \<lparr>realtime = [], tables = []\<rparr>"

definition New :: "policy_table list \<Rightarrow> policy_error list + policy" where
  "New rts =
     (if rts = [] then Inr empty_policy
      else case fold New_step rts (empty_policy, []) of (p, errs) \<Rightarrow>
        if errs \<noteq> [] then Inl errs
        else Inr (p\<lparr>tables := sort_key (\<lambda>t. (TDatabase t, TTable t)) (tables p)\<rparr>))"

definition Priority :: "policy option \<Rightarrow> string \<Rightarrow> string \<Rightarrow> priority" where
  "Priority po database table =
     (case po of None \<Rightarrow> PriorityQueued
      | Some p \<Rightarrow>
          if realtime p = [] then PriorityQueued
          else if table \<in> set (tables_of (realtime p) database) then PriorityRealtime
          else PriorityQueued)"

definition HasRealtime :: "policy option \<Rightarrow> bool" where
  "HasRealtime po = (case po of None \<Rightarrow> False | Some p \<Rightarrow> realtime p \<noteq> [])"

definition RealtimeTables :: "policy option \<Rightarrow> policy_table list" where
  "RealtimeTables po = (case po of None \<Rightarrow> [] | Some p \<Rightarrow> tables p)"

definition RealtimeDatabases :: "policy option \<Rightarrow> string list" where
  "RealtimeDatabases po = (case po of None \<Rightarrow> [] | Some p \<Rightarrow> sort (map fst (realtime p)))"

section \<open>The loop of New\<close>

definition normal_table :: "policy_table \<Rightarrow> string \<times> string" where
  "normal_table t = (NormalizeAdxIdentifier (TDatabase t), NormalizeAdxIdentifier (TTable t))"

definition valid_table :: "policy_table \<Rightarrow> bool" where
  "valid_table t \<longleftrightarrow> fst (normal_table t) \<noteq> [] \<and> snd (normal_table t) \<noteq> []"

abbreviation table_key :: "policy_table \<Rightarrow> string \<times> string" where
  "table_key t \<equiv> (TDatabase t, TTable t)"

text \<open>
  The state of the loop: the map and the list of tables hold the same tables, databases are listed
  once and never without a table.
\<close>

definition policy_inv :: "policy \<Rightarrow> bool" where
  "policy_inv p \<longleftrightarrow> distinct (map fst (realtime p)) \<and> distinct (map table_key (tables p)) \<and>
     (\<forall>db t. t \<in> set (tables_of (realtime p) db) \<longleftrightarrow> (db, t) \<in> table_key ` set (tables p)) \<and>
     fst ` set (realtime p) = TDatabase ` set (tables p)"

lemma tables_of_update:
  "tables_of (AList.update db ts rt) db' = (if db' = db then ts else tables_of rt db')"
  by (simp add: tables_of_def update_conv')

lemma policy_inv_empty: "policy_inv empty_policy"
  by (simp add: policy_inv_def empty_policy_def tables_of_def)

lemma set_keys_update: "fst ` set (AList.update k v al) = insert k (fst ` set al)"
  by (simp add: dom_update [of k v al, simplified] image_set [symmetric])

lemma AList_update_update: "AList.update k v (AList.update k v' al) = AList.update k v al"
  by (induction al) auto

text \<open>One turn on a valid table that is not in the policy yet adds it.\<close>

lemma New_step_valid:
  assumes "valid_table t" and "normal_table t = (db, tb)"
  shows "New_step t (p, errs) =
    (if tb \<in> set (tables_of (realtime p) db) then (p, errs @ [DuplicateTable (db @ ''.'' @ tb)])
     else (\<lparr>realtime = AList.update db (tables_of (realtime p) db @ [tb]) (realtime p),
            tables = tables p @ [\<lparr>TDatabase = db, TTable = tb\<rparr>]\<rparr>, errs))"
  using assms
  by (cases p) (auto simp: New_step_def Let_def valid_table_def normal_table_def tables_of_def
      AList_update_update split: option.splits)

lemma New_step_invalid:
  "\<not> valid_table t \<Longrightarrow> New_step t (p, errs) = (p, errs @ [InvalidTable (policy_table_String t)])"
  by (auto simp: New_step_def Let_def valid_table_def normal_table_def)

lemma policy_inv_add:
  assumes "policy_inv p" and "tb \<notin> set (tables_of (realtime p) db)"
  shows "policy_inv \<lparr>realtime = AList.update db (tables_of (realtime p) db @ [tb]) (realtime p),
            tables = tables p @ [\<lparr>TDatabase = db, TTable = tb\<rparr>]\<rparr>"
  using assms by (auto simp: policy_inv_def tables_of_update set_keys_update distinct_update)

text \<open>
  What the whole loop computes: with the tables seen so far, there is no error exactly when every new
  table is valid and none repeats, and then the policy holds exactly these tables.
\<close>

lemma fold_New_step:
  assumes "policy_inv p"
  shows "case fold New_step ts (p, errs) of (p', errs') \<Rightarrow>
    policy_inv p' \<and>
    (errs' = [] \<longleftrightarrow> errs = [] \<and> list_all valid_table ts \<and>
       distinct (map table_key (tables p) @ map normal_table ts)) \<and>
    (errs' = [] \<longrightarrow> map table_key (tables p') = map table_key (tables p) @ map normal_table ts)"
  using assms
proof (induction ts arbitrary: p errs)
  case Nil
  then show ?case by (simp add: policy_inv_def)
next
  case (Cons t ts)
  have sticky: "e \<noteq> [] \<Longrightarrow> snd (fold New_step us (q, e)) \<noteq> []" for us q e
    by (induction us arbitrary: q e) (auto simp: New_step_def Let_def split: if_splits)
  obtain db tb where n: "normal_table t = (db, tb)" by fastforce
  consider (bad) "\<not> valid_table t" | (dup) "valid_table t" "tb \<in> set (tables_of (realtime p) db)"
    | (new) "valid_table t" "tb \<notin> set (tables_of (realtime p) db)" by blast
  then show ?case
  proof cases
    case bad
    then show ?thesis
      using Cons.IH [OF Cons.prems, where errs = "errs @ [InvalidTable (policy_table_String t)]"]
      by (auto simp: New_step_invalid)
  next
    case dup
    then have "(db, tb) \<in> table_key ` set (tables p)"
      using Cons.prems by (auto simp: policy_inv_def)
    with dup n show ?thesis
      using Cons.IH [OF Cons.prems, where errs = "errs @ [DuplicateTable (db @ ''.'' @ tb)]"]
      by (auto simp: New_step_valid)
  next
    case new
    then have "(db, tb) \<notin> table_key ` set (tables p)"
      using Cons.prems by (auto simp: policy_inv_def)
    with new n show ?thesis
      using Cons.IH [OF policy_inv_add [OF Cons.prems new(2)], where errs = errs]
      by (auto simp: New_step_valid)
  qed
qed

lemma New_result:
  "case New rts of
     Inl errs \<Rightarrow> errs \<noteq> [] \<and> \<not> (list_all valid_table rts \<and> distinct (map normal_table rts))
   | Inr p \<Rightarrow> list_all valid_table rts \<and> distinct (map normal_table rts) \<and> policy_inv p \<and>
       set (map table_key (tables p)) = set (map normal_table rts) \<and> sorted (map table_key (tables p))"
proof (cases "rts = []")
  case True
  then show ?thesis
    using policy_inv_empty by (simp add: New_def empty_policy_def)
next
  case False
  obtain p errs where f: "fold New_step rts (empty_policy, []) = (p, errs)" by fastforce
  have inv: "policy_inv q \<Longrightarrow> policy_inv (q\<lparr>tables := sort_key table_key (tables q)\<rparr>)" for q
    by (simp add: policy_inv_def distinct_map)
  have "map table_key (tables p) = map normal_table rts" if "errs = []"
    using fold_New_step [OF policy_inv_empty, where ts = rts and errs = "[]"] f that
    by (simp add: empty_policy_def)
  then have "table_key ` set (tables p) = normal_table ` set rts" if "errs = []"
    using that by (metis set_map)
  then show ?thesis
    using fold_New_step [OF policy_inv_empty, where ts = rts and errs = "[]"] f False inv [of p]
    by (auto simp: New_def empty_policy_def)
qed

section \<open>Properties\<close>

text \<open>
  \<open>New\<close> fails exactly when a name is empty after normalization or two entries name the same
  normalized table; the policy it returns otherwise gives \<open>PriorityRealtime\<close> exactly to the listed
  tables (under their normalized names) and lists them sorted without repetition, and its databases
  are those of the tables.
\<close>

lemma New_Priority:
  "(case New rts of
      Inl errs \<Rightarrow> errs \<noteq> [] \<and> \<not> (list_all valid_table rts \<and> distinct (map normal_table rts))
    | Inr p \<Rightarrow> list_all valid_table rts \<and> distinct (map normal_table rts) \<and>
        (\<forall>db tb. Priority (Some p) db tb = PriorityRealtime \<longleftrightarrow> (db, tb) \<in> normal_table ` set rts) \<and>
        (HasRealtime (Some p) \<longleftrightarrow> rts \<noteq> []) \<and>
        map table_key (RealtimeTables (Some p)) = sorted_list_of_set (normal_table ` set rts) \<and>
        RealtimeDatabases (Some p) = sorted_list_of_set (fst ` normal_table ` set rts))"
proof (cases "New rts")
  case (Inl errs)
  then show ?thesis
    using New_result [of rts] by simp
next
  case (Inr p)
  then have inv: "policy_inv p" and keys: "table_key ` set (tables p) = normal_table ` set rts"
    and srt: "sorted (map table_key (tables p))"
    using New_result [of rts] by simp_all
  have "fst ` set (realtime p) = fst ` normal_table ` set rts"
    using inv keys by (metis (no_types, lifting) image_cong image_image policy_inv_def fst_conv)
  moreover have "realtime p = [] \<longleftrightarrow> rts = []"
    using calculation by (metis empty_is_image set_empty)
  moreover have "RealtimeDatabases (Some p) = sorted_list_of_set (fst ` set (realtime p))"
    using inv sorted_list_of_set_sort_remdups [of "map fst (realtime p)"]
    by (simp add: RealtimeDatabases_def policy_inv_def distinct_remdups_id)
  moreover have "map table_key (tables p) = sorted_list_of_set (set (map table_key (tables p)))"
    using inv srt by (simp add: policy_inv_def sorted_list_of_set.idem_if_sorted_distinct del: set_map)
  moreover have "Priority (Some p) db tb = PriorityRealtime \<longleftrightarrow> (db, tb) \<in> normal_table ` set rts" for db tb
  proof -
    have "Priority (Some p) db tb = PriorityRealtime \<longleftrightarrow> tb \<in> set (tables_of (realtime p) db)"
      by (auto simp: Priority_def tables_of_def)
    then show ?thesis
      using inv unfolding policy_inv_def keys by blast
  qed
  ultimately show ?thesis
    using keys Inr New_result [of rts] by (simp add: HasRealtime_def RealtimeTables_def)
qed

end
