(* ===== verification/Admission.thy ===== *)
theory Admission
  imports WalNames IngestPolicy
begin

text \<open>
  \<open>pkg/wal/admission.go\<close> and \<open>pkg/wal/admission_config.go\<close>: the controller that reserves disk capacity
  before every write of the write-ahead log.

  The state is that of the Go structs: the options, one budget per destination, and the two atomic
  totals. A \<open>*TableBudget\<close> is stable for the life of the controller, so a handle is the destination it
  belongs to. Each operation is split where the code gives up a lock or goes to an atomic counter:
  the parts under \<open>t.mu\<close> (\<open>reserve_local\<close>, \<open>releaseLocal\<close>, \<open>finish_local\<close>, \<open>restore_local\<close>, \<open>forget_local\<close>) are functions of
  one budget, and the operation composes them with the updates of the counters. The theory
  AdmissionConcurrency interleaves the same parts. The methods on a nil controller or budget return at once; that
  case is a \<open>None\<close> of the callers. Byte counts are \<open>int64\<close> in the code and \<open>int\<close> here: they count bytes
  on one disk.
\<close>

section \<open>State\<close>

record usage =
  Bytes :: int
  Segments :: int

record table_limit =
  LDatabase :: string
  LTable :: string
  MaxBytes :: int
  MaxSegments :: int

record admission_opts =
  Global :: usage
  Default :: usage
  Overrides :: "table_limit list"
  Enforce :: bool
  RealtimeReservedBytes :: int
  Policy :: "policy option"

record file_usage =
  fbytes :: int
  createdAt :: gotime

record table_budget =
  bdest :: destination
  blimit :: usage
  globalBytes :: int
  busage :: usage
  throttled :: string
  throttledSince :: gotime
  wouldReject :: int
  rejectedRecords :: int
  rejectedBytes :: int
  lastLogged :: gotime
  files :: "string \<rightharpoonup> file_usage"
  oldest :: gotime

record admission =
  opts :: admission_opts
  tables :: "destination \<rightharpoonup> table_budget"
  totalBytes :: int
  totalSegments :: int

text \<open>A reservation: the table it belongs to (nil after \<open>Release\<close>), the path, what is claimed, and whether
  its \<open>sync.Once\<close> has fired.\<close>

record reservation =
  rtable :: "destination option"
  rpath :: string
  rusage :: usage
  ronce :: bool

abbreviation usage0 :: usage where
  "usage0 \<equiv> \<lparr>Bytes = 0, Segments = 0\<rparr>"

definition nil_reservation :: reservation where
  "nil_reservation = \<lparr>rtable = None, rpath = [], rusage = usage0, ronce = False\<rparr>"

section \<open>Limits\<close>

definition NewAdmission :: "admission_opts \<Rightarrow> admission" where
  "NewAdmission o' = \<lparr>opts = o', tables = Map.empty, totalBytes = 0, totalSegments = 0\<rparr>"

fun find_limit :: "table_limit list \<Rightarrow> destination \<Rightarrow> table_limit option" where
  "find_limit [] d = None"
| "find_limit (l # ls) d =
     (if LDatabase l = Database d \<and> LTable l = Table d then Some l else find_limit ls d)"

definition resolveLimit :: "admission_opts \<Rightarrow> destination \<Rightarrow> usage" where
  "resolveLimit o' d =
     (case find_limit (Overrides o') d of
        None \<Rightarrow> Default o'
      | Some l \<Rightarrow>
          \<lparr>Bytes = (if MaxBytes l > 0 then MaxBytes l else Bytes (Default o')),
           Segments = (if MaxSegments l > 0 then MaxSegments l else Segments (Default o'))\<rparr>)"

definition globalBytesLimit :: "admission_opts \<Rightarrow> destination \<Rightarrow> int" where
  "globalBytesLimit o' d =
     (let mx = Bytes (Global o'); reserved = RealtimeReservedBytes o'
      in if mx \<le> 0 \<or> reserved \<le> 0 \<or> reserved \<ge> mx \<or> \<not> HasRealtime (Policy o') \<or>
            Priority (Policy o') (Database d) (Table d) = PriorityRealtime
         then mx else mx - reserved)"

definition new_budget :: "admission_opts \<Rightarrow> destination \<Rightarrow> table_budget" where
  "new_budget o' d =
     \<lparr>bdest = d, blimit = resolveLimit o' d, globalBytes = globalBytesLimit o' d, busage = usage0,
      throttled = [], throttledSince = tzero, wouldReject = 0, rejectedRecords = 0, rejectedBytes = 0,
      lastLogged = tzero, files = Map.empty, oldest = tzero\<rparr>"

text \<open>\<open>Table\<close>: the budget of a destination, created on first use.\<close>

definition admission_Table :: "destination \<Rightarrow> admission \<Rightarrow> table_budget \<times> admission" where
  "admission_Table d a =
     (case tables a d of
        Some t \<Rightarrow> (t, a)
      | None \<Rightarrow> let t = new_budget (opts a) d in (t, a\<lparr>tables := (tables a)(d \<mapsto> t)\<rparr>))"

definition set_table :: "table_budget \<Rightarrow> destination \<Rightarrow> admission \<Rightarrow> admission" where
  "set_table t d a = a\<lparr>tables := (tables a)(d \<mapsto> t)\<rparr>"

definition UsesReservation :: "destination \<Rightarrow> admission \<Rightarrow> bool" where
  "UsesReservation d a \<longleftrightarrow> globalBytesLimit (opts a) d = Bytes (Global (opts a))"

definition Fits :: "destination \<Rightarrow> int \<Rightarrow> admission \<Rightarrow> bool" where
  "Fits d bytes a = (let limit = globalBytesLimit (opts a) d in limit \<le> 0 \<or> totalBytes a + bytes \<le> limit)"

definition FitsEstimate :: "destination \<Rightarrow> int \<Rightarrow> admission \<Rightarrow> bool" where
  "FitsEstimate d bytes a =
     (let limit = globalBytesLimit (opts a) d
      in Fits d (if limit > 0 \<and> bytes > limit then limit else bytes) a)"

definition FitsTable :: "destination \<Rightarrow> int \<Rightarrow> admission \<Rightarrow> bool \<times> admission" where
  "FitsTable d bytes a =
     (if \<not> Enforce (opts a) then (True, a)
      else case admission_Table d a of (t, a') \<Rightarrow>
        (Bytes (blimit t) \<le> 0 \<or> Bytes (busage t) + bytes \<le> Bytes (blimit t), a'))"

definition FitsAll :: "int \<Rightarrow> admission \<Rightarrow> bool" where
  "FitsAll bytes a =
     (let limit = Bytes (Global (opts a)); reserved = RealtimeReservedBytes (opts a);
          limit' = (if limit > 0 \<and> reserved > 0 \<and> reserved < limit \<and> HasRealtime (Policy (opts a))
                    then limit - reserved else limit)
      in limit' \<le> 0 \<or> totalBytes a + bytes \<le> limit')"

definition Limit :: "destination \<Rightarrow> admission \<Rightarrow> usage \<times> admission" where
  "Limit d a = (case admission_Table d a of (t, a') \<Rightarrow> (blimit t, a'))"

section \<open>Reservations\<close>

text \<open>
  \<open>addWithin\<close>: the loop ends with a compare-and-swap that succeeded or with a refusal, so its effect is
  that of one atomic step on the counter.
\<close>

definition addWithin :: "int \<Rightarrow> int \<Rightarrow> int \<Rightarrow> int option" where
  "addWithin counter delta limit =
     (if limit > 0 \<and> counter + delta > limit then None else Some (counter + delta))"

definition belowResume :: "usage \<Rightarrow> usage \<Rightarrow> bool" where
  "belowResume u l \<longleftrightarrow>
     (Bytes l \<le> 0 \<or> Bytes u \<le> Bytes l - (Bytes l + 4) div 5) \<and>
     (Segments l \<le> 0 \<or> Segments u \<le> Segments l - (Segments l + 4) div 5)"

definition add_usage :: "int \<Rightarrow> int \<Rightarrow> table_budget \<Rightarrow> table_budget" where
  "add_usage bytes segments t =
     t\<lparr>busage := \<lparr>Bytes = Bytes (busage t) + bytes, Segments = Segments (busage t) + segments\<rparr>\<rparr>"

text \<open>The critical section of \<open>Reserve\<close>: the updated budget, and the reason when the table refuses.\<close>

definition reserve_local ::
  "bool \<Rightarrow> gotime \<Rightarrow> int \<Rightarrow> int \<Rightarrow> table_budget \<Rightarrow> table_budget \<times> string option" where
  "reserve_local enforce now bytes segments t =
     (let t = (if throttled t \<noteq> [] \<and> belowResume (busage t) (blimit t)
               then t\<lparr>throttled := [], throttledSince := tzero\<rparr> else t);
          reason = throttled t;
          reason = (if Bytes (blimit t) > 0 \<and> Bytes (busage t) + bytes > Bytes (blimit t)
                    then ''bytes'' else reason);
          reason = (if Segments (blimit t) > 0 \<and> Segments (busage t) + segments > Segments (blimit t)
                    then ''segments'' else reason)
      in if reason \<noteq> [] then
           (let t = t\<lparr>throttled := reason,
                      throttledSince := (if throttledSince t = tzero then now else throttledSince t)\<rparr>
            in if enforce then (t, Some reason)
               else (add_usage bytes segments (t\<lparr>wouldReject := wouldReject t + 1\<rparr>), None))
         else (add_usage bytes segments t, None))"

definition releaseLocal :: "int \<Rightarrow> int \<Rightarrow> table_budget \<Rightarrow> table_budget" where
  "releaseLocal bytes segments = add_usage (- bytes) (- segments)"

text \<open>The part of \<open>Reserve\<close> after the critical section, on the budget \<open>t\<close> it left.\<close>

definition reserve_global ::
  "string \<Rightarrow> destination \<Rightarrow> int \<Rightarrow> int \<Rightarrow> table_budget \<Rightarrow> admission \<Rightarrow> (wal_error + reservation) \<times> admission"
where
  "reserve_global path d bytes segments t a =
     (case addWithin (totalBytes a) bytes (globalBytes t) of
        None \<Rightarrow> (Inl ErrMaxDiskUsageExceeded, set_table (releaseLocal bytes segments t) d a)
      | Some tb \<Rightarrow>
          (case (if segments \<noteq> 0 then addWithin (totalSegments a) segments (Segments (Global (opts a)))
                 else Some (totalSegments a)) of
             None \<Rightarrow> (Inl ErrMaxSegmentsExceeded, set_table (releaseLocal bytes segments t) d a)
           | Some ts \<Rightarrow>
               (Inr \<lparr>rtable = Some d, rpath = path,
                     rusage = \<lparr>Bytes = bytes, Segments = segments\<rparr>, ronce = False\<rparr>,
                a\<lparr>totalBytes := tb, totalSegments := ts\<rparr>)))"

definition Reserve ::
  "gotime \<Rightarrow> string \<Rightarrow> destination \<Rightarrow> int \<Rightarrow> int \<Rightarrow> admission \<Rightarrow> (wal_error + reservation) \<times> admission"
where
  "Reserve now path d bytes segments a =
     (case admission_Table d a of (t, a) \<Rightarrow>
      case reserve_local (Enforce (opts a)) now bytes segments t of (t, refused) \<Rightarrow>
      let a = set_table t d a
      in case refused of
           Some reason \<Rightarrow> (Inl (TableOverloadedError d reason (5 * second)), a)
         | None \<Rightarrow> reserve_global path d bytes segments t a)"

text \<open>The critical section of \<open>Finish\<close>.\<close>

definition finish_local :: "gotime \<Rightarrow> int \<Rightarrow> reservation \<Rightarrow> table_budget \<Rightarrow> table_budget" where
  "finish_local now bytes r t =
     (let t = add_usage (bytes - Bytes (rusage r)) 0 t
      in if bytes = 0 then add_usage 0 (- Segments (rusage r)) t
         else
           let f = (case files t (rpath r) of Some f \<Rightarrow> f | None \<Rightarrow> \<lparr>fbytes = 0, createdAt = tzero\<rparr>);
               fresh = (createdAt f = tzero);
               f = (if fresh then f\<lparr>createdAt := now\<rparr> else f);
               t = (if fresh \<and> (oldest t = tzero \<or> createdAt f < oldest t)
                    then t\<lparr>oldest := createdAt f\<rparr> else t)
           in t\<lparr>files := (files t)(rpath r \<mapsto> f\<lparr>fbytes := fbytes f + bytes\<rparr>)\<rparr>)"

definition finish_global :: "int \<Rightarrow> reservation \<Rightarrow> admission \<Rightarrow> admission" where
  "finish_global bytes r a =
     a\<lparr>totalBytes := totalBytes a + (bytes - Bytes (rusage r)),
       totalSegments := totalSegments a - (if bytes = 0 then Segments (rusage r) else 0)\<rparr>"

definition Finish :: "gotime \<Rightarrow> int \<Rightarrow> reservation \<Rightarrow> admission \<Rightarrow> reservation \<times> admission" where
  "Finish now bytes r a =
     (case rtable r of
        None \<Rightarrow> (r, a)
      | Some d \<Rightarrow>
          if ronce r then (r, a)
          else (case tables a d of
                  None \<Rightarrow> (r, a)
                | Some t \<Rightarrow> (r\<lparr>ronce := True\<rparr>, finish_global bytes r (set_table (finish_local now bytes r t) d a))))"

definition Release :: "gotime \<Rightarrow> reservation \<Rightarrow> admission \<Rightarrow> reservation \<times> admission" where
  "Release now r a = (nil_reservation, snd (Finish now 0 r a))"

section \<open>Resident files\<close>

definition restore_time :: "gotime \<Rightarrow> string \<Rightarrow> gotime" where
  "restore_time now path =
     (let p = ParseFilename path
      in if pn_err p = None then (case ParseFlakeID (pn_epoch p) of Some ts \<Rightarrow> ts | None \<Rightarrow> now) else now)"

definition restore_local :: "gotime \<Rightarrow> string \<Rightarrow> int \<Rightarrow> table_budget \<Rightarrow> table_budget" where
  "restore_local created path bytes t =
     add_usage bytes 1
       (t\<lparr>files := (files t)(path \<mapsto> \<lparr>fbytes = bytes, createdAt = created\<rparr>),
          oldest := (if oldest t = tzero \<or> created < oldest t then created else oldest t)\<rparr>)"

definition Restore :: "gotime \<Rightarrow> string \<Rightarrow> destination \<Rightarrow> int \<Rightarrow> admission \<Rightarrow> admission" where
  "Restore now path d bytes a =
     (case admission_Table d a of (t, a) \<Rightarrow>
        if files t path \<noteq> None then a
        else (set_table (restore_local (restore_time now path) path bytes t) d a)
               \<lparr>totalBytes := totalBytes a + bytes, totalSegments := totalSegments a + 1\<rparr>)"

definition Tracks :: "string \<Rightarrow> admission \<Rightarrow> bool" where
  "Tracks path a =
     (case DestinationFromFilename path of
        (d, Some _) \<Rightarrow> False
      | (d, None) \<Rightarrow> (case tables a d of None \<Rightarrow> False | Some t \<Rightarrow> files t path \<noteq> None))"

definition forget_local :: "string \<Rightarrow> file_usage \<Rightarrow> table_budget \<Rightarrow> table_budget" where
  "forget_local path f t =
     add_usage (- fbytes f) (- 1)
       (t\<lparr>files := (files t)(path := None),
          oldest := (if createdAt f = oldest t then tzero else oldest t)\<rparr>)"

definition Forget :: "destination \<Rightarrow> string \<Rightarrow> admission \<Rightarrow> admission" where
  "Forget d path a =
     (case admission_Table d a of (t, a) \<Rightarrow>
        (case files t path of
           None \<Rightarrow> a
         | Some f \<Rightarrow> (set_table (forget_local path f t) d a)
                       \<lparr>totalBytes := totalBytes a - fbytes f, totalSegments := totalSegments a - 1\<rparr>))"

section \<open>Reporting\<close>

text \<open>\<open>oldestLocked\<close>; \<open>ks\<close> is the order in which Go visits the files.\<close>

fun oldest_file :: "string list \<Rightarrow> (string \<rightharpoonup> file_usage) \<Rightarrow> gotime \<Rightarrow> gotime" where
  "oldest_file [] fs acc = acc"
| "oldest_file (k # ks) fs acc =
     (case fs k of
        None \<Rightarrow> oldest_file ks fs acc
      | Some f \<Rightarrow> oldest_file ks fs (if acc = tzero \<or> createdAt f < acc then createdAt f else acc))"

definition oldestLocked :: "string list \<Rightarrow> table_budget \<Rightarrow> gotime \<times> table_budget" where
  "oldestLocked ks t =
     (if oldest t \<noteq> tzero then (oldest t, t)
      else let o' = oldest_file ks (files t) tzero in (o', t\<lparr>oldest := o'\<rparr>))"

text \<open>\<open>Usage\<close>; \<open>ds\<close> is the order in which Go visits the tables.\<close>

fun sum_usage :: "destination list \<Rightarrow> (destination \<rightharpoonup> table_budget) \<Rightarrow> usage \<Rightarrow> usage" where
  "sum_usage [] ts acc = acc"
| "sum_usage (d # ds) ts acc =
     (case ts d of
        None \<Rightarrow> sum_usage ds ts acc
      | Some t \<Rightarrow> sum_usage ds ts \<lparr>Bytes = Bytes acc + Bytes (busage t),
                                   Segments = Segments acc + Segments (busage t)\<rparr>)"

definition Usage :: "destination list \<Rightarrow> admission \<Rightarrow> usage" where
  "Usage ds a = sum_usage ds (tables a) usage0"

record table_status =
  SUsage :: usage
  SLimit :: usage
  SThrottled :: bool
  SEnforced :: bool
  SWouldReject :: int
  SRejectedRecords :: int
  SRejectedBytes :: int
  OldestAge :: duration
  ThrottledFor :: duration

definition table_Status :: "bool \<Rightarrow> gotime \<Rightarrow> string list \<Rightarrow> table_budget \<Rightarrow> table_status option \<times> table_budget" where
  "table_Status enforce now ks t =
     (if Bytes (busage t) = 0 \<and> Segments (busage t) = 0 then (None, t)
      else
        let thr = (throttled t \<noteq> [] \<and> \<not> belowResume (busage t) (blimit t));
            (old, t') = oldestLocked ks t
        in (Some \<lparr>SUsage = busage t, SLimit = blimit t, SThrottled = thr, SEnforced = enforce,
                  SWouldReject = wouldReject t, SRejectedRecords = rejectedRecords t,
                  SRejectedBytes = rejectedBytes t,
                  OldestAge = (if old \<noteq> tzero then now - old else 0),
                  ThrottledFor = (if thr \<and> throttledSince t \<noteq> tzero then now - throttledSince t else 0)\<rparr>,
            t'))"

text \<open>\<open>Status\<close>: \<open>ds\<close> is the order of the tables and \<open>fs d\<close> that of the files of table \<open>d\<close>.\<close>

fun Status_loop ::
  "gotime \<Rightarrow> (destination \<Rightarrow> string list) \<Rightarrow> destination list \<Rightarrow> (destination \<rightharpoonup> table_status) \<Rightarrow> admission
   \<Rightarrow> (destination \<rightharpoonup> table_status) \<times> admission"
where
  "Status_loop now fs [] res a = (res, a)"
| "Status_loop now fs (d # ds) res a =
     (case tables a d of
        None \<Rightarrow> Status_loop now fs ds res a
      | Some t \<Rightarrow>
          (case table_Status (Enforce (opts a)) now (fs d) t of
             (None, t') \<Rightarrow> Status_loop now fs ds res (set_table t' d a)
           | (Some s, t') \<Rightarrow> Status_loop now fs ds (res(bdest t \<mapsto> s)) (set_table t' d a)))"

definition Status ::
  "gotime \<Rightarrow> (destination \<Rightarrow> string list) \<Rightarrow> destination list \<Rightarrow> admission
   \<Rightarrow> (destination \<rightharpoonup> table_status) \<times> admission"
where
  "Status now fs ds a = Status_loop now fs ds Map.empty a"

definition Snapshot ::
  "gotime \<Rightarrow> (destination \<Rightarrow> string list) \<Rightarrow> destination list \<Rightarrow> admission \<Rightarrow> (destination \<rightharpoonup> usage) \<times> admission"
where
  "Snapshot now fs ds a = (case Status now fs ds a of (m, a') \<Rightarrow> (\<lambda>d. map_option SUsage (m d), a'))"

definition Throttled :: "destination \<Rightarrow> admission \<Rightarrow> string option \<times> admission" where
  "Throttled d a =
     (if \<not> Enforce (opts a) then (None, a)
      else case admission_Table d a of (t, a') \<Rightarrow>
        (if throttled t = [] \<or> belowResume (busage t) (blimit t) then None else Some (throttled t), a'))"

abbreviation minute :: duration where
  "minute \<equiv> 60 * second"

definition RecordRejection :: "gotime \<Rightarrow> destination \<Rightarrow> int \<Rightarrow> int \<Rightarrow> admission \<Rightarrow> bool \<times> admission" where
  "RecordRejection now d records bytes a =
     (case admission_Table d a of (t, a) \<Rightarrow>
      let shouldLog = (now - lastLogged t \<ge> minute)
      in (shouldLog,
          set_table (t\<lparr>rejectedRecords := rejectedRecords t + records,
                       rejectedBytes := rejectedBytes t + bytes,
                       lastLogged := (if shouldLog then now else lastLogged t)\<rparr>) d a))"

section \<open>Configuration\<close>

definition MatchIdentifier :: "string \<Rightarrow> bool" where
  "MatchIdentifier s \<longleftrightarrow> s \<noteq> [] \<and> list_all allowed_char s"

datatype config_error =
    NegativeBudget
  | NotNormalized destination
  | DuplicateLimit destination
  | NegativeLimit destination
  | HeaderLimit destination
  | ExceedsGlobal destination
  | InvalidDefault

fun check_overrides :: "usage \<Rightarrow> destination set \<Rightarrow> table_limit list \<Rightarrow> config_error option" where
  "check_overrides global seen [] = None"
| "check_overrides global seen (l # ls) =
     (let d = \<lparr>Database = LDatabase l, Table = LTable l\<rparr>
      in if \<not> MatchIdentifier (LDatabase l) \<or> \<not> MatchIdentifier (LTable l) then Some (NotNormalized d)
         else if d \<in> seen then Some (DuplicateLimit d)
         else if MaxBytes l < 0 \<or> MaxSegments l < 0 then Some (NegativeLimit d)
         else if MaxBytes l > 0 \<and> MaxBytes l < 8 then Some (HeaderLimit d)
         else if Bytes global > 0 \<and> MaxBytes l > Bytes global \<or>
                 Segments global > 0 \<and> MaxSegments l > Segments global then Some (ExceedsGlobal d)
         else check_overrides global (insert d seen) ls)"

definition default_budget :: "usage \<Rightarrow> int \<Rightarrow> int \<Rightarrow> bool \<Rightarrow> usage" where
  "default_budget global maxBytes maxSegments disabled =
     (if \<not> disabled then
        \<lparr>Bytes = (if maxBytes = 0 \<and> Bytes global > 0 then max (Bytes global div 10) 8 else maxBytes),
         Segments = (if maxSegments = 0 \<and> Segments global > 0 then max (Segments global div 10) 1
                     else maxSegments)\<rparr>
      else usage0)"

definition ResolveAdmissionWithEnforcement ::
  "usage \<Rightarrow> int \<Rightarrow> int \<Rightarrow> bool \<Rightarrow> bool \<Rightarrow> table_limit list \<Rightarrow> config_error + admission_opts"
where
  "ResolveAdmissionWithEnforcement global maxBytes maxSegments disabled enforce overrides =
     (if maxBytes < 0 \<or> maxSegments < 0 then Inl NegativeBudget
      else let d = default_budget global maxBytes maxSegments disabled
           in case check_overrides global {} overrides of
                Some e \<Rightarrow> Inl e
              | None \<Rightarrow>
                  if Bytes d > 0 \<and> Bytes d < 8 \<or> Bytes global > 0 \<and> Bytes d > Bytes global \<or>
                     Segments global > 0 \<and> Segments d > Segments global
                  then Inl InvalidDefault
                  else Inr \<lparr>Global = global, Default = d, Overrides = overrides, Enforce = enforce,
                            RealtimeReservedBytes = 0, Policy = None\<rparr>)"

definition ResolveAdmission ::
  "usage \<Rightarrow> int \<Rightarrow> int \<Rightarrow> bool \<Rightarrow> table_limit list \<Rightarrow> config_error + admission_opts"
where
  "ResolveAdmission global maxBytes maxSegments disabled overrides =
     ResolveAdmissionWithEnforcement global maxBytes maxSegments disabled False overrides"

section \<open>What the critical sections do\<close>

lemma add_usage_simps [simp]:
  "busage (add_usage b s t) = \<lparr>Bytes = Bytes (busage t) + b, Segments = Segments (busage t) + s\<rparr>"
  "files (add_usage b s t) = files t" "blimit (add_usage b s t) = blimit t"
  "globalBytes (add_usage b s t) = globalBytes t" "bdest (add_usage b s t) = bdest t"
  "oldest (add_usage b s t) = oldest t" "throttled (add_usage b s t) = throttled t"
  by (simp_all add: add_usage_def)

lemma set_table_simps [simp]:
  "opts (set_table t d a) = opts a" "tables (set_table t d a) = (tables a)(d \<mapsto> t)"
  "totalBytes (set_table t d a) = totalBytes a" "totalSegments (set_table t d a) = totalSegments a"
  by (simp_all add: set_table_def)

lemma set_table_set_table [simp]: "set_table t d (set_table t' d a) = set_table t d a"
  by (simp add: set_table_def)

lemma reserve_local_frame:
  assumes "reserve_local e now b s t = (t', r)"
  shows "files t' = files t \<and> blimit t' = blimit t \<and> globalBytes t' = globalBytes t \<and>
         bdest t' = bdest t \<and> oldest t' = oldest t \<and>
         busage t' = (if r = None then \<lparr>Bytes = Bytes (busage t) + b, Segments = Segments (busage t) + s\<rparr>
                      else busage t)"
  using assms unfolding reserve_local_def Let_def by (auto split: if_splits)

lemma reserve_local_within:
  assumes "reserve_local True now b s t = (t', None)"
  shows "(0 < Bytes (blimit t) \<longrightarrow> Bytes (busage t) + b \<le> Bytes (blimit t)) \<and>
         (0 < Segments (blimit t) \<longrightarrow> Segments (busage t) + s \<le> Segments (blimit t))"
  using assms unfolding reserve_local_def Let_def by (auto split: if_splits)

lemma reserve_local_observe: "snd (reserve_local False now b s t) = None"
  by (simp add: reserve_local_def Let_def)

lemma releaseLocal_simps [simp]:
  "busage (releaseLocal b s t) = \<lparr>Bytes = Bytes (busage t) - b, Segments = Segments (busage t) - s\<rparr>"
  "files (releaseLocal b s t) = files t" "blimit (releaseLocal b s t) = blimit t"
  "globalBytes (releaseLocal b s t) = globalBytes t"
  by (simp_all add: releaseLocal_def)

lemma finish_local_frame:
  "blimit (finish_local now b r t) = blimit t" "globalBytes (finish_local now b r t) = globalBytes t"
  "busage (finish_local now b r t) =
     \<lparr>Bytes = Bytes (busage t) + (b - Bytes (rusage r)),
      Segments = Segments (busage t) - (if b = 0 then Segments (rusage r) else 0)\<rparr>"
  by (simp_all add: finish_local_def Let_def)

definition file_bytes :: "(string \<rightharpoonup> file_usage) \<Rightarrow> string \<Rightarrow> int" where
  "file_bytes fs p = (case fs p of None \<Rightarrow> 0 | Some f \<Rightarrow> fbytes f)"

text \<open>The creation time a file has after \<open>Finish\<close>: the one it had, or the time of the first write.\<close>

definition file_time :: "gotime \<Rightarrow> (string \<rightharpoonup> file_usage) \<Rightarrow> string \<Rightarrow> gotime" where
  "file_time now fs p =
     (case fs p of None \<Rightarrow> now | Some f \<Rightarrow> if createdAt f = tzero then now else createdAt f)"

lemma finish_local_files:
  "files (finish_local now b r t) =
     (if b = 0 then files t
      else (files t)(rpath r \<mapsto> \<lparr>fbytes = file_bytes (files t) (rpath r) + b,
                                 createdAt = file_time now (files t) (rpath r)\<rparr>))"
proof (cases "files t (rpath r)")
  case None
  then show ?thesis by (auto simp: finish_local_def Let_def file_bytes_def file_time_def)
next
  case (Some f)
  then show ?thesis
    by (cases f) (auto simp: finish_local_def Let_def file_bytes_def file_time_def)
qed

lemma forget_local_simps [simp]:
  "busage (forget_local p f t) = \<lparr>Bytes = Bytes (busage t) - fbytes f, Segments = Segments (busage t) - 1\<rparr>"
  "files (forget_local p f t) = (files t)(p := None)" "blimit (forget_local p f t) = blimit t"
  "globalBytes (forget_local p f t) = globalBytes t"
  by (simp_all add: forget_local_def)

lemma restore_local_simps [simp]:
  "busage (restore_local c p b t) = \<lparr>Bytes = Bytes (busage t) + b, Segments = Segments (busage t) + 1\<rparr>"
  "files (restore_local c p b t) = (files t)(p \<mapsto> \<lparr>fbytes = b, createdAt = c\<rparr>)"
  "blimit (restore_local c p b t) = blimit t" "globalBytes (restore_local c p b t) = globalBytes t"
  by (simp_all add: restore_local_def)

lemma globalBytesLimit_bounds:
  "0 < Bytes (Global p) \<Longrightarrow> 0 < globalBytesLimit p d \<and> globalBytesLimit p d \<le> Bytes (Global p)"
  by (auto simp: globalBytesLimit_def Let_def)

lemma globalBytesLimit_none: "Bytes (Global p) \<le> 0 \<Longrightarrow> globalBytesLimit p d = Bytes (Global p)"
  by (simp add: globalBytesLimit_def Let_def)

lemma addWithin_Some: "addWithin c x l = Some y \<longleftrightarrow> y = c + x \<and> (0 < l \<longrightarrow> c + x \<le> l)"
  by (auto simp: addWithin_def)

lemma addWithin_None: "addWithin c x l = None \<longleftrightarrow> 0 < l \<and> l < c + x"
  by (auto simp: addWithin_def)

section \<open>What each operation changes\<close>

definition usage_of :: "admission \<Rightarrow> destination \<Rightarrow> usage" where
  "usage_of a d = (case tables a d of None \<Rightarrow> usage0 | Some t \<Rightarrow> busage t)"

definition files_of :: "admission \<Rightarrow> destination \<Rightarrow> string \<rightharpoonup> file_usage" where
  "files_of a d = (case tables a d of None \<Rightarrow> Map.empty | Some t \<Rightarrow> files t)"

definition accounts_of :: "admission \<Rightarrow> (destination \<Rightarrow> usage) \<times> (destination \<Rightarrow> string \<rightharpoonup> file_usage) \<times> int \<times> int" where
  "accounts_of a = (usage_of a, files_of a, totalBytes a, totalSegments a)"

lemma admission_Table_eq:
  assumes "admission_Table d a = (t, a')"
  shows "tables a' d = Some t \<and> opts a' = opts a \<and> accounts_of a' = accounts_of a"
  using assms
  by (auto simp: admission_Table_def accounts_of_def usage_of_def files_of_def Let_def new_budget_def fun_eq_iff
      split: option.splits if_splits)

lemma accounts_of_set_table:
  "tables a d = Some t \<Longrightarrow> busage t' = busage t \<Longrightarrow> files t' = files t \<Longrightarrow>
   accounts_of (set_table t' d a) = accounts_of a"
  by (auto simp: accounts_of_def usage_of_def files_of_def fun_eq_iff)

lemma busage_undo: "\<lparr>Bytes = Bytes (u :: usage) + b - b, Segments = Segments u + s - s\<rparr> = u"
  by simp

text \<open>The limits \<open>Reserve\<close> applies to a destination.\<close>

definition budget_of :: "destination \<Rightarrow> admission \<Rightarrow> table_budget" where
  "budget_of d a = fst (admission_Table d a)"

lemma Reserve_cases:
  fixes b s :: int
  defines "u \<equiv> \<lambda>a d. usage_of a d"
  shows "case Reserve now path d b s a of
    (Inl e, a') \<Rightarrow> accounts_of a' = accounts_of a \<and> opts a' = opts a \<and>
      (case e of
         TableOverloadedError d' reason after \<Rightarrow> d' = d \<and> reason \<noteq> [] \<and> after = 5 * second \<and> Enforce (opts a)
       | ErrMaxDiskUsageExceeded \<Rightarrow>
           0 < globalBytes (budget_of d a) \<and> globalBytes (budget_of d a) < totalBytes a + b
       | ErrMaxSegmentsExceeded \<Rightarrow>
           s \<noteq> 0 \<and> 0 < Segments (Global (opts a)) \<and> Segments (Global (opts a)) < totalSegments a + s
       | _ \<Rightarrow> False)
  | (Inr r, a') \<Rightarrow> opts a' = opts a \<and>
      r = \<lparr>rtable = Some d, rpath = path, rusage = \<lparr>Bytes = b, Segments = s\<rparr>, ronce = False\<rparr> \<and>
      totalBytes a' = totalBytes a + b \<and> totalSegments a' = totalSegments a + s \<and>
      files_of a' = files_of a \<and>
      usage_of a' = (usage_of a)(d := \<lparr>Bytes = Bytes (u a d) + b, Segments = Segments (u a d) + s\<rparr>)"
proof -
  obtain t a1 where at: "admission_Table d a = (t, a1)" by fastforce
  obtain t' ref where rl: "reserve_local (Enforce (opts a1)) now b s t = (t', ref)" by fastforce
  note A = admission_Table_eq [OF at]
  note R = reserve_local_frame [OF rl]
  have ref: "ref = Some reason \<Longrightarrow> reason \<noteq> [] \<and> Enforce (opts a)" for reason
    using rl A unfolding reserve_local_def Let_def by (auto split: if_splits)
  have acc: "usage_of a1 = usage_of a" "files_of a1 = files_of a" "totalBytes a1 = totalBytes a"
      "totalSegments a1 = totalSegments a"
    using A by (simp_all add: accounts_of_def)
  have u: "busage t = usage_of a d" "files t = files_of a d"
    using A acc(1,2) by (metis usage_of_def files_of_def option.simps(5))+
  show ?thesis
  proof (cases ref)
    case (Some reason)
    then have "accounts_of (set_table t' d a1) = accounts_of a"
      using A R by (auto simp: accounts_of_set_table)
    then show ?thesis
      using Some at rl A ref by (simp add: Reserve_def)
  next
    case None
    have undo: "accounts_of (set_table (releaseLocal b s t') d (set_table t' d a1)) = accounts_of a"
      using A R None by (simp add: accounts_of_set_table)
    have upd: "usage_of (set_table t' d a1) =
        (usage_of a)(d := \<lparr>Bytes = Bytes (usage_of a d) + b, Segments = Segments (usage_of a d) + s\<rparr>)"
      "files_of (set_table t' d a1) = files_of a"
      using R None acc u by (auto simp: usage_of_def files_of_def fun_eq_iff)
    have tot: "usage_of (c\<lparr>totalBytes := x, totalSegments := y\<rparr>) = usage_of c"
      "files_of (c\<lparr>totalBytes := x, totalSegments := y\<rparr>) = files_of c" for c x y
      by (auto simp: usage_of_def files_of_def fun_eq_iff)
    have gb: "globalBytes t' = globalBytes (budget_of d a)"
      using R at by (simp add: budget_of_def)
    have res: "Reserve now path d b s a = reserve_global path d b s t' (set_table t' d a1)"
      using None at rl by (simp add: Reserve_def)
    let ?seg = "if s \<noteq> 0 then addWithin (totalSegments a) s (Segments (Global (opts a))) else Some (totalSegments a)"
    show ?thesis
    proof (cases "addWithin (totalBytes a) b (globalBytes t')")
      case None
      moreover have "0 < globalBytes t' \<and> globalBytes t' < totalBytes a + b"
        using None by (simp only: addWithin_None)
      ultimately show ?thesis
        using undo gb A acc by (simp add: res reserve_global_def)
    next
      case (Some tb)
      note tb = this
      show ?thesis
      proof (cases ?seg)
        case None
        moreover have "s \<noteq> 0 \<and> 0 < Segments (Global (opts a)) \<and> Segments (Global (opts a)) < totalSegments a + s"
          using None by (simp add: addWithin_None split: if_splits)
        ultimately show ?thesis
          using tb undo A acc by (simp add: res reserve_global_def)
      next
        case (Some ts)
        moreover have "ts = totalSegments a + s" "tb = totalBytes a + b"
          using Some tb by (auto simp: addWithin_Some split: if_splits)
        ultimately show ?thesis
          using tb upd A acc unfolding res by (cases "s = 0") (simp_all add: reserve_global_def tot u_def)
      qed
    qed
  qed
qed

lemma Finish_zero_accounts:
  assumes t: "tables a d = Some t" and r: "rtable r = Some d" "\<not> ronce r"
  shows "usage_of (snd (Finish now 0 r a)) = (usage_of a)(d := \<lparr>Bytes = Bytes (busage t) - Bytes (rusage r),
            Segments = Segments (busage t) - Segments (rusage r)\<rparr>) \<and>
         files_of (snd (Finish now 0 r a)) = files_of a \<and>
         totalBytes (snd (Finish now 0 r a)) = totalBytes a - Bytes (rusage r) \<and>
         totalSegments (snd (Finish now 0 r a)) = totalSegments a - Segments (rusage r)"
  using assms
  by (auto simp: Finish_def finish_global_def usage_of_def files_of_def fun_eq_iff finish_local_frame finish_local_files)

lemma belowResume_percent:
  "belowResume u l \<longleftrightarrow> (Bytes l \<le> 0 \<or> 5 * Bytes u \<le> 4 * Bytes l) \<and>
                     (Segments l \<le> 0 \<or> 5 * Segments u \<le> 4 * Segments l)"
proof -
  have "x \<le> l - (l + 4) div 5 \<longleftrightarrow> 5 * x \<le> 4 * l" for x l :: int by presburger
  then show ?thesis by (simp add: belowResume_def)
qed

lemma reserve_local_throttled:
  assumes "throttled t \<noteq> []" and "\<not> belowResume (busage t) (blimit t)"
  shows "\<exists>t' reason. reserve_local True now b s t = (t', Some reason)"
  using assms by (auto simp: reserve_local_def Let_def)

lemma Reserve_throttled:
  assumes "tables a d = Some t" and "Enforce (opts a)" and "throttled t \<noteq> []" and "\<not> belowResume (busage t) (blimit t)"
  shows "\<exists>reason a'. Reserve now path d b s a = (Inl (TableOverloadedError d reason (5 * second)), a')"
  using assms reserve_local_throttled [OF assms(3,4), of now b s]
  by (auto simp: Reserve_def admission_Table_def)

lemma Reserve_overloaded_state:
  assumes "Reserve now path d b s a = (Inl (TableOverloadedError d' reason ra), a')"
  shows "\<exists>t. tables a' d = Some t \<and> throttled t = reason \<and> reason \<noteq> [] \<and> Enforce (opts a') \<and>
             busage t = usage_of a d \<and> blimit t = blimit (budget_of d a)"
proof -
  obtain t a1 where at: "admission_Table d a = (t, a1)" by fastforce
  obtain t' ref where rl: "reserve_local (Enforce (opts a1)) now b s t = (t', ref)" by fastforce
  have ref: "ref = Some reason" "a' = set_table t' d a1"
    using assms at rl
    by (auto simp: Reserve_def Let_def reserve_global_def split: option.splits if_splits)
  moreover have "throttled t' = reason \<and> reason \<noteq> [] \<and> Enforce (opts a1)"
    using rl ref(1) unfolding reserve_local_def Let_def by (auto split: if_splits)
  moreover have "busage t = usage_of a d"
    using admission_Table_eq [OF at] by (metis accounts_of_def prod.inject usage_of_def option.simps(5))
  ultimately show ?thesis
    using reserve_local_frame [OF rl] at by (simp add: budget_of_def)
qed

section \<open>The oldest file\<close>

text \<open>The cached time of the oldest file after the oldest file is forgotten and another is created.\<close>

lemma oldest_after_forget:
  assumes "files t p = Some f" and "createdAt f = oldest t" and "files t (rpath r) = None" and "b \<noteq> 0" and "now \<noteq> tzero"
  shows "oldest (finish_local now b r (forget_local p f t)) = now"
  using assms by (auto simp: finish_local_def forget_local_def Let_def)

section \<open>Configuration\<close>

text \<open>The checks an override passes.\<close>

definition limit_ok :: "usage \<Rightarrow> table_limit \<Rightarrow> bool" where
  "limit_ok g l \<longleftrightarrow> MatchIdentifier (LDatabase l) \<and> MatchIdentifier (LTable l) \<and>
     0 \<le> MaxBytes l \<and> 0 \<le> MaxSegments l \<and> (MaxBytes l = 0 \<or> 8 \<le> MaxBytes l) \<and>
     (0 < Bytes g \<longrightarrow> MaxBytes l \<le> Bytes g) \<and> (0 < Segments g \<longrightarrow> MaxSegments l \<le> Segments g)"

lemma check_overrides_Cons:
  "check_overrides g seen (l # ls) = None \<longleftrightarrow>
     limit_ok g l \<and> \<lparr>Database = LDatabase l, Table = LTable l\<rparr> \<notin> seen \<and>
     check_overrides g (insert \<lparr>Database = LDatabase l, Table = LTable l\<rparr> seen) ls = None"
  unfolding check_overrides.simps Let_def limit_ok_def by (simp split: if_split) linarith

lemma check_overrides_None:
  "check_overrides g seen ls = None \<longleftrightarrow>
     (\<forall>l \<in> set ls. limit_ok g l \<and> \<lparr>Database = LDatabase l, Table = LTable l\<rparr> \<notin> seen) \<and>
     distinct (map (\<lambda>l. (LDatabase l, LTable l)) ls)"
  by (induction ls arbitrary: seen) (auto simp: check_overrides_Cons image_iff simp del: check_overrides.simps(2))

lemma find_limit_set: "find_limit ls d = Some l \<Longrightarrow> l \<in> set ls \<and> LDatabase l = Database d \<and> LTable l = Table d"
  by (induction ls) (auto split: if_splits)

lemma find_limit_unique:
  "distinct (map (\<lambda>l. (LDatabase l, LTable l)) ls) \<Longrightarrow> l \<in> set ls \<Longrightarrow>
   find_limit ls \<lparr>Database = LDatabase l, Table = LTable l\<rparr> = Some l"
  by (induction ls) (auto simp: image_iff)

section \<open>Properties\<close>

text \<open>
  Why a table refuses a claim: it exceeds the segments or the bytes of the table, or the table refused a claim
  before, for the reason it still gives, and has not come down to 80% of its limits since.
\<close>

definition table_reason :: "table_budget \<Rightarrow> int \<Rightarrow> int \<Rightarrow> string" where
  "table_reason t b s =
     (if 0 < Segments (blimit t) \<and> Segments (blimit t) < Segments (busage t) + s then ''segments''
      else if 0 < Bytes (blimit t) \<and> Bytes (blimit t) < Bytes (busage t) + b then ''bytes''
      else if belowResume (busage t) (blimit t) then []
      else throttled t)"

lemma reserve_local_reason:
  "snd (reserve_local e now b s t) = (if e \<and> table_reason t b s \<noteq> [] then Some (table_reason t b s) else None)"
  by (simp add: reserve_local_def table_reason_def Let_def)

lemma Reserve_reason:
  "case Reserve now path d b s a of
    (Inl e, a') \<Rightarrow>
      (case e of
         TableOverloadedError d' reason after \<Rightarrow> Enforce (opts a) \<and> reason = table_reason (budget_of d a) b s \<and> reason \<noteq> []
       | _ \<Rightarrow> Enforce (opts a) \<longrightarrow> table_reason (budget_of d a) b s = [])
  | (Inr r, a') \<Rightarrow>
      (Enforce (opts a) \<longrightarrow> table_reason (budget_of d a) b s = []) \<and>
      (0 < globalBytes (budget_of d a) \<longrightarrow> totalBytes a + b \<le> globalBytes (budget_of d a)) \<and>
      (s \<noteq> 0 \<longrightarrow> 0 < Segments (Global (opts a)) \<longrightarrow> totalSegments a + s \<le> Segments (Global (opts a)))"
proof -
  obtain t a1 where at: "admission_Table d a = (t, a1)" by fastforce
  obtain t' ref where rl: "reserve_local (Enforce (opts a1)) now b s t = (t', ref)" by fastforce
  have ref: "ref = (if Enforce (opts a1) \<and> table_reason t b s \<noteq> [] then Some (table_reason t b s) else None)"
    using reserve_local_reason [of "Enforce (opts a1)" now b s t] rl by simp
  have A: "opts a1 = opts a" "totalBytes a1 = totalBytes a" "totalSegments a1 = totalSegments a"
    using admission_Table_eq [OF at] by (simp_all add: accounts_of_def)
  have gb: "globalBytes t' = globalBytes t" using reserve_local_frame [OF rl] by simp
  show ?thesis using at rl ref A gb
    by (auto simp: Reserve_def budget_of_def reserve_global_def addWithin_def Let_def split: option.splits if_splits)
qed

text \<open>
  C15. A reservation takes all or nothing. When \<open>Reserve\<close> fails, whatever the limit it met, every usage, every file and
  both totals are as before, and the error says why: the claim exceeds the limit that the error names, or budgets are enforced and the
  table is still throttled, for the reason that the error names (\<open>table_reason\<close>). When it succeeds, no limit of the instance is
  exceeded, and with enforced budgets neither is one of the table and the table is not throttled; the claim is on the table and on the
  totals and nothing else changed; and releasing the unused reservation brings all accounts back.
\<close>

theorem Reserve_all_or_nothing:
  "case Reserve now path d b s a of
    (Inl e, a') \<Rightarrow> accounts_of a' = accounts_of a \<and>
      (case e of
         TableOverloadedError d' reason after \<Rightarrow> d' = d \<and> after = 5 * second \<and> Enforce (opts a) \<and> reason \<noteq> [] \<and> reason = table_reason (budget_of d a) b s
       | ErrMaxDiskUsageExceeded \<Rightarrow>
           0 < globalBytes (budget_of d a) \<and> globalBytes (budget_of d a) < totalBytes a + b
       | ErrMaxSegmentsExceeded \<Rightarrow>
           s \<noteq> 0 \<and> 0 < Segments (Global (opts a)) \<and> Segments (Global (opts a)) < totalSegments a + s
       | _ \<Rightarrow> False)
  | (Inr r, a') \<Rightarrow>
      (Enforce (opts a) \<longrightarrow> table_reason (budget_of d a) b s = []) \<and>
      (0 < globalBytes (budget_of d a) \<longrightarrow> totalBytes a' \<le> globalBytes (budget_of d a)) \<and>
      (s \<noteq> 0 \<longrightarrow> 0 < Segments (Global (opts a)) \<longrightarrow> totalSegments a' \<le> Segments (Global (opts a))) \<and>
      totalBytes a' = totalBytes a + b \<and> totalSegments a' = totalSegments a + s \<and> files_of a' = files_of a \<and>
      usage_of a' = (usage_of a)(d := \<lparr>Bytes = Bytes (usage_of a d) + b, Segments = Segments (usage_of a d) + s\<rparr>) \<and>
      accounts_of (snd (Release later r a')) = accounts_of a"
proof -
  obtain res a' where res: "Reserve now path d b s a = (res, a')" by fastforce
  note R = Reserve_cases [where now = now and path = path and d = d and b = b and s = s and a = a, unfolded res]
  note Q = Reserve_reason [where now = now and path = path and d = d and b = b and s = s and a = a, unfolded res]
  show ?thesis
  proof (cases res)
    case (Inl e)
    then show ?thesis using R Q res by (auto split: wal_error.splits)
  next
    case (Inr r)
    have "tables a' d \<noteq> None"
      using res Inr admission_Table_eq [of d a]
      by (auto simp: Reserve_def Let_def reserve_global_def split: prod.splits option.splits if_splits)
    then obtain t where t: "tables a' d = Some t" by blast
    have "busage t = usage_of a' d"
      using t by (simp add: usage_of_def)
    then have "accounts_of (snd (Release later r a')) = accounts_of a"
      using Finish_zero_accounts [OF t, of r later] R Inr
      by (auto simp: Release_def accounts_of_def)
    then show ?thesis using R Q res Inr by simp
  qed
qed

theorem Reserve_all_or_nothing_witness:
  "let p = \<lparr>Global = \<lparr>Bytes = 1000, Segments = 10\<rparr>, Default = \<lparr>Bytes = 100, Segments = 2\<rparr>, Overrides = [], Enforce = True,
             RealtimeReservedBytes = 0, Policy = None\<rparr>;
       d = \<lparr>Database = ''Logs'', Table = ''Pods''\<rparr>
   in fst (Reserve 5 ''a.wal'' d 150 1 (NewAdmission p)) = Inl (TableOverloadedError d ''bytes'' (5 * second)) \<and>
      table_reason (budget_of d (NewAdmission p)) 150 1 = ''bytes'' \<and>
      accounts_of (snd (Reserve 5 ''a.wal'' d 150 1 (NewAdmission p))) = accounts_of (NewAdmission p) \<and>
      (\<exists>r. fst (Reserve 5 ''a.wal'' d 60 1 (NewAdmission p)) = Inr r) \<and> totalBytes (snd (Reserve 5 ''a.wal'' d 60 1 (NewAdmission p))) \<le> 1000"
proof -
  define p where "p = \<lparr>Global = \<lparr>Bytes = 1000, Segments = 10\<rparr>, Default = \<lparr>Bytes = 100, Segments = 2\<rparr>, Overrides = [], Enforce = True,
             RealtimeReservedBytes = 0, Policy = None\<rparr>"
  define d where "d = \<lparr>Database = ''Logs'', Table = ''Pods''\<rparr>"
  have lim: "resolveLimit p d = \<lparr>Bytes = 100, Segments = 2\<rparr>" "globalBytesLimit p d = 1000" "Enforce p" "Segments (Global p) = 10"
    by (simp_all add: p_def resolveLimit_def globalBytesLimit_def)
  have no: "fst (Reserve 5 ''a.wal'' d 150 1 (NewAdmission p)) = Inl (TableOverloadedError d ''bytes'' (5 * second))"
    by (simp add: Reserve_def NewAdmission_def admission_Table_def reserve_local_def Let_def new_budget_def lim)
  have yes: "\<exists>r. fst (Reserve 5 ''a.wal'' d 60 1 (NewAdmission p)) = Inr r" "globalBytes (budget_of d (NewAdmission p)) = 1000"
    by (simp_all add: Reserve_def NewAdmission_def admission_Table_def reserve_local_def reserve_global_def addWithin_def budget_of_def Let_def new_budget_def lim)
  obtain a1 where run1: "Reserve 5 ''a.wal'' d 150 1 (NewAdmission p) = (Inl (TableOverloadedError d ''bytes'' (5 * second)), a1)" using no by (metis prod.collapse)
  obtain r a2 where run2: "Reserve 5 ''a.wal'' d 60 1 (NewAdmission p) = (Inr r, a2)" using yes(1) by (metis prod.collapse)
  have "table_reason (budget_of d (NewAdmission p)) 150 1 = ''bytes''" "accounts_of a1 = accounts_of (NewAdmission p)"
    using Reserve_all_or_nothing [where now = 5 and path = "''a.wal''" and d = d and b = 150 and s = 1 and a = "NewAdmission p" and later = 6] unfolding run1 by simp_all
  moreover have "totalBytes a2 \<le> 1000"
    using Reserve_all_or_nothing [where now = 5 and path = "''a.wal''" and d = d and b = 60 and s = 1 and a = "NewAdmission p" and later = 6] yes(2) unfolding run2 by auto
  ultimately show ?thesis using run1 run2 unfolding p_def d_def Let_def by simp
qed

text \<open>
  Throttling has hysteresis. Once an enforced budget has refused a write, every write to that
  table is refused, of whatever size, and \<open>Throttled\<close> says so, until the usage has come down to 80% of
  each limit.
\<close>

lemma throttle_until_drained:
  assumes "Reserve now path d b s a = (Inl (TableOverloadedError d' reason ra), a')"
    and "tables a' d = Some t"
    and "t' = t\<lparr>busage := u\<rparr>"
    and "0 < Bytes (blimit t) \<and> 4 * Bytes (blimit t) < 5 * Bytes u \<or>
         0 < Segments (blimit t) \<and> 4 * Segments (blimit t) < 5 * Segments u"
  shows "(\<exists>why. fst (Reserve now' path' d b' s' (set_table t' d a')) = Inl (TableOverloadedError d why (5 * second))) \<and>
         fst (Throttled d (set_table t' d a')) = Some reason"
proof -
  have t: "throttled t = reason" "reason \<noteq> []" "Enforce (opts a')"
    using Reserve_overloaded_state [OF assms(1)] assms(2) by auto
  have full: "\<not> belowResume (busage t') (blimit t')"
    using assms(3,4) by (auto simp: belowResume_percent)
  then have "fst (Throttled d (set_table t' d a')) = Some reason"
    using t assms(3) by (auto simp: Throttled_def admission_Table_def)
  then show ?thesis
    using Reserve_throttled [of "set_table t' d a'" d t' now' path' b' s'] t full assms(3) by fastforce
qed

lemma throttle_until_drained_instance:
  "let d = \<lparr>Database = ''Logs'', Table = ''Pods''\<rparr>;
       p = \<lparr>Global = usage0, Default = \<lparr>Bytes = 100, Segments = 0\<rparr>, Overrides = [], Enforce = True,
            RealtimeReservedBytes = 0, Policy = None\<rparr>;
       a' = snd (Reserve 1 ''a'' d 200 1 (NewAdmission p));
       t = (case tables a' d of Some t \<Rightarrow> t\<lparr>busage := \<lparr>Bytes = 81, Segments = 1\<rparr>\<rparr>)
   in fst (Throttled d (set_table t d a')) = Some ''bytes''"
proof -
  let ?d = "\<lparr>Database = ''Logs'', Table = ''Pods''\<rparr>"
  let ?p = "\<lparr>Global = usage0, Default = \<lparr>Bytes = 100, Segments = 0\<rparr>, Overrides = [], Enforce = True,
            RealtimeReservedBytes = 0, Policy = None\<rparr>"
  let ?t = "(new_budget ?p ?d)\<lparr>throttled := ''bytes'', throttledSince := 1\<rparr>"
  have res: "Reserve 1 ''a'' ?d 200 1 (NewAdmission ?p) =
      (Inl (TableOverloadedError ?d ''bytes'' (5 * second)), (NewAdmission ?p)\<lparr>tables := [?d \<mapsto> ?t]\<rparr>)"
    by (simp add: Reserve_def NewAdmission_def admission_Table_def Let_def reserve_local_def new_budget_def
        resolveLimit_def set_table_def)
  show ?thesis
    using throttle_until_drained [OF res, of ?t "?t\<lparr>busage := \<lparr>Bytes = 81, Segments = 1\<rparr>\<rparr>"
        "\<lparr>Bytes = 81, Segments = 1\<rparr>"]
    unfolding Let_def res by (simp add: new_budget_def resolveLimit_def)
qed

text \<open>
  Options that \<open>ResolveAdmissionWithEnforcement\<close> accepts give every destination a usable limit: no limit, or one that fits a
  segment header and does not exceed the instance limit; and an override is in force for exactly the
  table it names.
\<close>

lemma ResolveAdmission_limits:
  assumes "ResolveAdmissionWithEnforcement g mb ms disabled enforce ov = Inr p"
  shows "(let l = resolveLimit p d in
           0 \<le> Bytes l \<and> 0 \<le> Segments l \<and> (Bytes l = 0 \<or> 8 \<le> Bytes l) \<and>
           (0 < Bytes g \<longrightarrow> Bytes l \<le> Bytes g) \<and> (0 < Segments g \<longrightarrow> Segments l \<le> Segments g)) \<and>
         (\<forall>l \<in> set ov. 0 < MaxBytes l \<longrightarrow>
            Bytes (resolveLimit p \<lparr>Database = LDatabase l, Table = LTable l\<rparr>) = MaxBytes l)"
proof -
  have ok: "\<forall>l \<in> set ov. limit_ok g l" "distinct (map (\<lambda>l. (LDatabase l, LTable l)) ov)"
    and p: "p = \<lparr>Global = g, Default = default_budget g mb ms disabled, Overrides = ov, Enforce = enforce,
                 RealtimeReservedBytes = 0, Policy = None\<rparr>"
    using assms
    by (auto simp: ResolveAdmissionWithEnforcement_def Let_def check_overrides_None split: if_splits option.splits)
  have def: "0 \<le> Bytes (Default p) \<and> 0 \<le> Segments (Default p) \<and> (Bytes (Default p) = 0 \<or> 8 \<le> Bytes (Default p)) \<and>
      (0 < Bytes g \<longrightarrow> Bytes (Default p) \<le> Bytes g) \<and> (0 < Segments g \<longrightarrow> Segments (Default p) \<le> Segments g)"
    using assms
    by (auto simp: p ResolveAdmissionWithEnforcement_def default_budget_def Let_def split: if_splits option.splits)
  have "limit_ok g l" if "find_limit ov d = Some l" for l
    using ok(1) find_limit_set [OF that] by blast
  then have "let l = resolveLimit p d in
           0 \<le> Bytes l \<and> 0 \<le> Segments l \<and> (Bytes l = 0 \<or> 8 \<le> Bytes l) \<and>
           (0 < Bytes g \<longrightarrow> Bytes l \<le> Bytes g) \<and> (0 < Segments g \<longrightarrow> Segments l \<le> Segments g)"
    using def by (auto simp: resolveLimit_def p Let_def limit_ok_def split: option.split)
  moreover have "\<forall>l \<in> set ov. 0 < MaxBytes l \<longrightarrow>
      Bytes (resolveLimit p \<lparr>Database = LDatabase l, Table = LTable l\<rparr>) = MaxBytes l"
    using find_limit_unique [OF ok(2)] by (simp add: resolveLimit_def p)
  ultimately show ?thesis by blast
qed

lemma ResolveAdmission_limits_instance:
  "\<exists>p. ResolveAdmissionWithEnforcement \<lparr>Bytes = 1000, Segments = 10\<rparr> 0 0 False True
         [\<lparr>LDatabase = ''Metrics'', LTable = ''Cpu'', MaxBytes = 500, MaxSegments = 0\<rparr>] = Inr p \<and>
       Bytes (resolveLimit p \<lparr>Database = ''Metrics'', Table = ''Cpu''\<rparr>) = 500 \<and>
       8 \<le> Bytes (resolveLimit p \<lparr>Database = ''Metrics'', Table = ''Mem''\<rparr>) \<and>
       Bytes (resolveLimit p \<lparr>Database = ''Metrics'', Table = ''Mem''\<rparr>) \<le> 1000"
proof -
  let ?g = "\<lparr>Bytes = 1000, Segments = 10\<rparr>" and ?ov = "[\<lparr>LDatabase = ''Metrics'', LTable = ''Cpu'', MaxBytes = 500, MaxSegments = 0\<rparr>]"
  have "\<exists>p. ResolveAdmissionWithEnforcement ?g 0 0 False True ?ov = Inr p"
    by (simp add: ResolveAdmissionWithEnforcement_def Let_def default_budget_def MatchIdentifier_def
        allowed_char_def less_eq_char_def)
  then obtain p where p: "ResolveAdmissionWithEnforcement ?g 0 0 False True ?ov = Inr p" by blast
  moreover have "Bytes (resolveLimit p \<lparr>Database = ''Metrics'', Table = ''Mem''\<rparr>) \<noteq> 0"
    using p by (auto simp: ResolveAdmissionWithEnforcement_def Let_def default_budget_def resolveLimit_def
        split: if_splits)
  ultimately show ?thesis
    using ResolveAdmission_limits [OF p, of "\<lparr>Database = ''Metrics'', Table = ''Mem''\<rparr>"]
    by (auto simp: Let_def)
qed

text \<open>
  C18. The reported age of the oldest file can be wrong. When the oldest file of a table is forgotten
  and a new file is created before the next report, the cached time is that of the new file, although
  older files are resident: \<open>Status\<close> then reports the age of the newest file.
\<close>

theorem oldest_cache_misses_older_files:
  assumes "files t p = Some f" and "createdAt f = oldest t" and "files t (rpath r) = None" and "b \<noteq> 0" and "now \<noteq> tzero"
    and "files t q = Some g" and "q \<noteq> p" and "createdAt g < now"
  shows "let t' = finish_local now b r (forget_local p f t) in
           fst (oldestLocked ks t') = now \<and> files t' q = Some g \<and> createdAt g < fst (oldestLocked ks t')"
proof -
  have "rpath r \<noteq> q" using assms by auto
  then show ?thesis
    using assms oldest_after_forget [OF assms(1-5)]
    by (simp add: oldestLocked_def finish_local_files Let_def)
qed

theorem oldest_cache_misses_older_files_witness:
  "let d = \<lparr>Database = ''Logs'', Table = ''Pods''\<rparr>;
       t = restore_local 20 ''b'' 5 (restore_local 10 ''a'' 5 (new_budget
             \<lparr>Global = usage0, Default = usage0, Overrides = [], Enforce = False, RealtimeReservedBytes = 0, Policy = None\<rparr> d));
       r = \<lparr>rtable = Some d, rpath = ''c'', rusage = \<lparr>Bytes = 8, Segments = 1\<rparr>, ronce = False\<rparr>;
       t' = finish_local 90 8 r (forget_local ''a'' \<lparr>fbytes = 5, createdAt = 10\<rparr> t)
   in fst (oldestLocked [''b'', ''c''] t') = 90 \<and> files t' ''b'' = Some \<lparr>fbytes = 5, createdAt = 20\<rparr>"
  using oldest_cache_misses_older_files
    [of "restore_local 20 ''b'' 5 (restore_local 10 ''a'' 5 (new_budget
             \<lparr>Global = usage0, Default = usage0, Overrides = [], Enforce = False, RealtimeReservedBytes = 0, Policy = None\<rparr>
             \<lparr>Database = ''Logs'', Table = ''Pods''\<rparr>))"
      "''a''" "\<lparr>fbytes = 5, createdAt = 10\<rparr>"
      "\<lparr>rtable = Some \<lparr>Database = ''Logs'', Table = ''Pods''\<rparr>, rpath = ''c'', rusage = \<lparr>Bytes = 8, Segments = 1\<rparr>, ronce = False\<rparr>"
      8 90 "''b''" "\<lparr>fbytes = 5, createdAt = 20\<rparr>" "[''b'', ''c'']"]
  by (simp add: Let_def restore_local_def new_budget_def add_usage_def)

end
