(* ===== verification/AdmissionConcurrency.thy ===== *)
theory AdmissionConcurrency
  imports Admission
begin

text \<open>
  Goroutines that use one admission controller at the same time. A state is the controller together
  with the operations in flight; one step is one critical section of a table budget or one atomic
  operation on a total, so every interleaving the locks of \<open>admission.go\<close> permit is a sequence of steps.

  The steps follow the protocol of the segment layer: a reservation is finished with at most the
  bytes it reserved, and a reservation that carries a segment is the one that creates the file.
  Segments are restored before intake starts, so the initial state may hold restored files.
\<close>

section \<open>Operations in flight\<close>

text \<open>
  Where a goroutine stands between two steps. \<open>ClaimBytes\<close> to \<open>UndoLocal\<close> are the points of \<open>Reserve\<close> after
  its critical section; \<open>Held\<close> is a reservation the caller has; \<open>SettleBytes\<close> and \<open>SettleSegments\<close> are the points
  of \<open>Finish\<close> and \<open>Forget\<close> after theirs.
\<close>

datatype phase =
    ClaimBytes destination string int int
  | ClaimSegments destination string int int
  | UndoBytes destination int int
  | UndoLocal destination int int
  | Held destination reservation
  | SettleBytes destination int int
  | SettleSegments destination int

fun pdest :: "phase \<Rightarrow> destination" where
  "pdest (ClaimBytes d p b s) = d"
| "pdest (ClaimSegments d p b s) = d"
| "pdest (UndoBytes d b s) = d"
| "pdest (UndoLocal d b s) = d"
| "pdest (Held d r) = d"
| "pdest (SettleBytes d b s) = d"
| "pdest (SettleSegments d s) = d"

text \<open>What an operation in flight holds of its table's usage, beyond the resident files.\<close>

fun local_bytes :: "phase \<Rightarrow> int" where
  "local_bytes (ClaimBytes d p b s) = b"
| "local_bytes (ClaimSegments d p b s) = b"
| "local_bytes (UndoBytes d b s) = b"
| "local_bytes (UndoLocal d b s) = b"
| "local_bytes (Held d r) = Bytes (rusage r)"
| "local_bytes _ = 0"

fun local_segments :: "phase \<Rightarrow> int" where
  "local_segments (ClaimBytes d p b s) = s"
| "local_segments (ClaimSegments d p b s) = s"
| "local_segments (UndoBytes d b s) = s"
| "local_segments (UndoLocal d b s) = s"
| "local_segments (Held d r) = Segments (rusage r)"
| "local_segments _ = 0"

text \<open>What it holds of the totals, beyond the resident files.\<close>

fun global_bytes :: "phase \<Rightarrow> int" where
  "global_bytes (ClaimSegments d p b s) = b"
| "global_bytes (UndoBytes d b s) = b"
| "global_bytes (Held d r) = Bytes (rusage r)"
| "global_bytes (SettleBytes d b s) = b"
| "global_bytes _ = 0"

fun global_segments :: "phase \<Rightarrow> int" where
  "global_segments (Held d r) = Segments (rusage r)"
| "global_segments (SettleBytes d b s) = s"
| "global_segments (SettleSegments d s) = s"
| "global_segments _ = 0"

record conc =
  adm :: admission
  flight :: "phase multiset"

abbreviation new_reservation :: "destination \<Rightarrow> string \<Rightarrow> int \<Rightarrow> int \<Rightarrow> reservation" where
  "new_reservation d path b s \<equiv>
     \<lparr>rtable = Some d, rpath = path, rusage = \<lparr>Bytes = b, Segments = s\<rparr>, ronce = False\<rparr>"

inductive adm_step :: "conc \<Rightarrow> conc \<Rightarrow> bool" where
  get_table:
    "adm_step \<lparr>adm = a, flight = F\<rparr> \<lparr>adm = snd (admission_Table d a), flight = F\<rparr>"
| reserve:
    "tables a d = Some t \<Longrightarrow> 0 \<le> b \<Longrightarrow> 0 \<le> s \<Longrightarrow>
     reserve_local (Enforce (opts a)) now b s t = (t', None) \<Longrightarrow>
     adm_step \<lparr>adm = a, flight = F\<rparr> \<lparr>adm = set_table t' d a, flight = add_mset (ClaimBytes d path b s) F\<rparr>"
| reserve_refused:
    "tables a d = Some t \<Longrightarrow> reserve_local (Enforce (opts a)) now b s t = (t', Some reason) \<Longrightarrow>
     adm_step \<lparr>adm = a, flight = F\<rparr> \<lparr>adm = set_table t' d a, flight = F\<rparr>"
| claim_bytes:
    "tables a d = Some t \<Longrightarrow> addWithin (totalBytes a) b (globalBytes t) = Some tb \<Longrightarrow>
     adm_step \<lparr>adm = a, flight = add_mset (ClaimBytes d path b s) F\<rparr>
       \<lparr>adm = a\<lparr>totalBytes := tb\<rparr>,
        flight = add_mset (if s = 0 then Held d (new_reservation d path b s) else ClaimSegments d path b s) F\<rparr>"
| claim_bytes_refused:
    "tables a d = Some t \<Longrightarrow> addWithin (totalBytes a) b (globalBytes t) = None \<Longrightarrow>
     adm_step \<lparr>adm = a, flight = add_mset (ClaimBytes d path b s) F\<rparr> \<lparr>adm = a, flight = add_mset (UndoLocal d b s) F\<rparr>"
| claim_segments:
    "addWithin (totalSegments a) s (Segments (Global (opts a))) = Some ts \<Longrightarrow>
     adm_step \<lparr>adm = a, flight = add_mset (ClaimSegments d path b s) F\<rparr>
       \<lparr>adm = a\<lparr>totalSegments := ts\<rparr>, flight = add_mset (Held d (new_reservation d path b s)) F\<rparr>"
| claim_segments_refused:
    "addWithin (totalSegments a) s (Segments (Global (opts a))) = None \<Longrightarrow>
     adm_step \<lparr>adm = a, flight = add_mset (ClaimSegments d path b s) F\<rparr> \<lparr>adm = a, flight = add_mset (UndoBytes d b s) F\<rparr>"
| undo_bytes:
    "adm_step \<lparr>adm = a, flight = add_mset (UndoBytes d b s) F\<rparr>
       \<lparr>adm = a\<lparr>totalBytes := totalBytes a - b\<rparr>, flight = add_mset (UndoLocal d b s) F\<rparr>"
| undo_local:
    "tables a d = Some t \<Longrightarrow>
     adm_step \<lparr>adm = a, flight = add_mset (UndoLocal d b s) F\<rparr> \<lparr>adm = set_table (releaseLocal b s t) d a, flight = F\<rparr>"
| finish:
    "tables a d = Some t \<Longrightarrow> 0 \<le> b \<Longrightarrow> b \<le> Bytes (rusage r) \<Longrightarrow>
     b = 0 \<or> Segments (rusage r) = (if files t (rpath r) = None then 1 else 0) \<Longrightarrow>
     adm_step \<lparr>adm = a, flight = add_mset (Held d r) F\<rparr>
       \<lparr>adm = set_table (finish_local now b r t) d a,
        flight = add_mset (SettleBytes d (Bytes (rusage r) - b) (if b = 0 then Segments (rusage r) else 0)) F\<rparr>"
| forget:
    "tables a d = Some t \<Longrightarrow> files t path = Some f \<Longrightarrow>
     adm_step \<lparr>adm = a, flight = F\<rparr>
       \<lparr>adm = set_table (forget_local path f t) d a, flight = add_mset (SettleBytes d (fbytes f) 1) F\<rparr>"
| settle_bytes:
    "adm_step \<lparr>adm = a, flight = add_mset (SettleBytes d b s) F\<rparr>
       \<lparr>adm = a\<lparr>totalBytes := totalBytes a - b\<rparr>, flight = add_mset (SettleSegments d s) F\<rparr>"
| settle_segments:
    "adm_step \<lparr>adm = a, flight = add_mset (SettleSegments d s) F\<rparr>
       \<lparr>adm = a\<lparr>totalSegments := totalSegments a - s\<rparr>, flight = F\<rparr>"

inductive_cases adm_stepE: "adm_step s s'"

section \<open>Accounting\<close>

text \<open>
  The bytes and segments that the destinations selected by \<open>P\<close> hold of the totals: their resident
  files and what their operations in flight have claimed.
\<close>

definition resident :: "(file_usage \<Rightarrow> int) \<Rightarrow> table_budget \<Rightarrow> int" where
  "resident w t = sum_map (\<lambda>_. w) (files t)"

definition claimed :: "(destination \<Rightarrow> bool) \<Rightarrow> (file_usage \<Rightarrow> int) \<Rightarrow> (phase \<Rightarrow> int) \<Rightarrow> conc \<Rightarrow> int" where
  "claimed P w g s =
     sum_map (\<lambda>d t. if P d then resident w t else 0) (tables (adm s)) +
     (\<Sum>ph \<in># flight s. if P (pdest ph) then g ph else 0)"

text \<open>What the operations in flight hold of the usage of table \<open>d\<close>.\<close>

definition pending :: "(phase \<Rightarrow> int) \<Rightarrow> phase multiset \<Rightarrow> destination \<Rightarrow> int" where
  "pending l F d = (\<Sum>ph \<in># F. if pdest ph = d then l ph else 0)"

definition phase_ok :: "admission \<Rightarrow> phase \<Rightarrow> bool" where
  "phase_ok a ph \<longleftrightarrow> tables a (pdest ph) \<noteq> None \<and> 0 \<le> local_bytes ph \<and> 0 \<le> local_segments ph \<and>
     0 \<le> global_bytes ph \<and> 0 \<le> global_segments ph"

definition table_ok :: "admission_opts \<Rightarrow> destination \<Rightarrow> table_budget \<Rightarrow> bool" where
  "table_ok p d t \<longleftrightarrow> finite (dom (files t)) \<and> blimit t = resolveLimit p d \<and>
     globalBytes t = globalBytesLimit p d \<and> (\<forall>q f. files t q = Some f \<longrightarrow> 0 \<le> fbytes f)"

definition shape :: "conc \<Rightarrow> bool" where
  "shape s \<longleftrightarrow> finite (dom (tables (adm s))) \<and>
     (\<forall>d t. tables (adm s) d = Some t \<longrightarrow> table_ok (opts (adm s)) d t) \<and>
     (\<forall>ph \<in># flight s. phase_ok (adm s) ph)"

definition balanced :: "conc \<Rightarrow> bool" where
  "balanced s \<longleftrightarrow>
     totalBytes (adm s) = claimed (\<lambda>_. True) fbytes global_bytes s \<and>
     totalSegments (adm s) = claimed (\<lambda>_. True) (\<lambda>_. 1) global_segments s \<and>
     (\<forall>d t. tables (adm s) d = Some t \<longrightarrow>
        Bytes (busage t) = resident fbytes t + pending local_bytes (flight s) d \<and>
        Segments (busage t) = resident (\<lambda>_. 1) t + pending local_segments (flight s) d)"

definition queued_dest :: "admission_opts \<Rightarrow> destination \<Rightarrow> bool" where
  "queued_dest p d \<longleftrightarrow> globalBytesLimit p d \<noteq> Bytes (Global p)"

text \<open>
  The limits, relative to an earlier state \<open>base\<close>: what exceeded a limit there, as restored files can, may
  still do so, and has not grown.
\<close>

definition base_usage :: "conc \<Rightarrow> destination \<Rightarrow> usage" where
  "base_usage base d = (case tables (adm base) d of None \<Rightarrow> \<lparr>Bytes = 0, Segments = 0\<rparr> | Some t \<Rightarrow> busage t)"

definition totals_within :: "conc \<Rightarrow> admission \<Rightarrow> bool" where
  "totals_within base a \<longleftrightarrow>
     (0 < Bytes (Global (opts a)) \<longrightarrow> totalBytes a \<le> max (Bytes (Global (opts a))) (totalBytes (adm base))) \<and>
     (0 < Segments (Global (opts a)) \<longrightarrow> totalSegments a \<le> max (Segments (Global (opts a))) (totalSegments (adm base)))"

definition share_within :: "conc \<Rightarrow> conc \<Rightarrow> bool" where
  "share_within base s \<longleftrightarrow> (let p = opts (adm s) in
     (\<exists>d. queued_dest p d) \<longrightarrow>
       claimed (queued_dest p) fbytes global_bytes s \<le>
         max (Bytes (Global p) - RealtimeReservedBytes p) (claimed (queued_dest p) fbytes global_bytes base))"

definition budget_within :: "usage \<Rightarrow> table_budget \<Rightarrow> bool" where
  "budget_within u t \<longleftrightarrow>
     (0 < Bytes (blimit t) \<longrightarrow> Bytes (busage t) \<le> max (Bytes (blimit t)) (Bytes u)) \<and>
     (0 < Segments (blimit t) \<longrightarrow> Segments (busage t) \<le> max (Segments (blimit t)) (Segments u))"

definition tables_within :: "conc \<Rightarrow> admission \<Rightarrow> bool" where
  "tables_within base a \<longleftrightarrow> (Enforce (opts a) \<longrightarrow> (\<forall>d t. tables a d = Some t \<longrightarrow> budget_within (base_usage base d) t))"

definition within :: "conc \<Rightarrow> conc \<Rightarrow> bool" where
  "within base s \<longleftrightarrow> totals_within base (adm s) \<and> share_within base s \<and> tables_within base (adm s)"

lemmas within_defs = within_def totals_within_def share_within_def tables_within_def Let_def

lemma pending_simps [simp]:
  "pending l {#} d = 0"
  "pending l (add_mset ph F) d = (if pdest ph = d then l ph else 0) + pending l F d"
  by (simp_all add: pending_def)

text \<open>How \<open>claimed\<close> follows the updates of the steps.\<close>

lemma claimed_flight:
  "claimed P w g \<lparr>adm = a, flight = add_mset ph F\<rparr> =
     (if P (pdest ph) then g ph else 0) + claimed P w g \<lparr>adm = a, flight = F\<rparr>"
  by (simp add: claimed_def)

lemma claimed_totals [simp]:
  "claimed P w g \<lparr>adm = a\<lparr>totalBytes := x\<rparr>, flight = F\<rparr> = claimed P w g \<lparr>adm = a, flight = F\<rparr>"
  "claimed P w g \<lparr>adm = a\<lparr>totalSegments := x\<rparr>, flight = F\<rparr> = claimed P w g \<lparr>adm = a, flight = F\<rparr>"
  by (simp_all add: claimed_def)

lemma claimed_set_table:
  assumes "finite (dom (tables a))" and "tables a d = Some t"
  shows "claimed P w g \<lparr>adm = set_table t' d a, flight = F\<rparr> =
         claimed P w g \<lparr>adm = a, flight = F\<rparr> + (if P d then resident w t' - resident w t else 0)"
  using assms by (simp add: claimed_def sum_map_upd)

lemma claimed_get_table:
  assumes "finite (dom (tables a))"
  shows "claimed P w g \<lparr>adm = snd (admission_Table d a), flight = F\<rparr> = claimed P w g \<lparr>adm = a, flight = F\<rparr>"
  using assms by (cases "tables a d")
    (simp_all add: claimed_def admission_Table_def Let_def sum_map_upd resident_def new_budget_def)

lemma resident_finish:
  assumes "finite (dom (files t))"
  shows "resident fbytes (finish_local now b r t) = resident fbytes t + b"
    and "b \<noteq> 0 \<Longrightarrow> resident (\<lambda>_. 1) (finish_local now b r t) =
      resident (\<lambda>_. 1) t + (if files t (rpath r) = None then 1 else 0)"
    and "b = 0 \<Longrightarrow> resident (\<lambda>_. 1) (finish_local now b r t) = resident (\<lambda>_. 1) t"
  using assms
  by (simp_all add: resident_def finish_local_files sum_map_upd file_bytes_def split: option.split)

lemma resident_forget:
  assumes "finite (dom (files t))" and "files t path = Some f"
  shows "resident w (forget_local path f t) = resident w t - w f"
  using assms by (simp add: resident_def sum_map_del)

lemma resident_files: "files t' = files t \<Longrightarrow> resident w t' = resident w t"
  by (simp add: resident_def)

lemma resident_same [simp]: "resident w (releaseLocal b s t) = resident w t"
  by (rule resident_files) simp

lemma claimed_nonneg_mono:
  assumes "shape s"
  shows "claimed P fbytes global_bytes s \<le> claimed (\<lambda>_. True) fbytes global_bytes s"
proof -
  have "0 \<le> resident fbytes t" if "tables (adm s) d = Some t" for d t
    using assms that by (auto simp: shape_def table_ok_def resident_def intro!: sum_map_nonneg)
  then have "sum_map (\<lambda>d t. if P d then resident fbytes t else 0) (tables (adm s)) \<le>
        sum_map (\<lambda>d t. resident fbytes t) (tables (adm s))"
    by (intro sum_map_mono) auto
  moreover have "(\<Sum>ph \<in># flight s. if P (pdest ph) then global_bytes ph else 0) \<le> (\<Sum>ph \<in># flight s. global_bytes ph)"
    using assms by (intro sum_mset_mono) (auto simp: shape_def phase_ok_def)
  ultimately show ?thesis
    by (simp add: claimed_def)
qed

section \<open>Every step keeps the accounts\<close>

lemma table_ok_reserve:
  "reserve_local e now b s t = (t', r) \<Longrightarrow> table_ok p d t \<Longrightarrow> table_ok p d t'"
  by (drule reserve_local_frame) (simp add: table_ok_def)

lemma table_ok_finish: "table_ok p d t \<Longrightarrow> 0 \<le> b \<Longrightarrow> table_ok p d (finish_local now b r t)"
  by (auto simp: table_ok_def finish_local_frame finish_local_files file_bytes_def split: option.split)

lemma table_ok_others:
  "table_ok p d t \<Longrightarrow> table_ok p d (releaseLocal b s t)"
  "table_ok p d t \<Longrightarrow> table_ok p d (forget_local path f t)"
  "table_ok p d (new_budget p d)"
  by (auto simp: table_ok_def new_budget_def split: if_splits)

lemma phase_ok_totals [simp]:
  "phase_ok (a\<lparr>totalBytes := x\<rparr>) = phase_ok a" "phase_ok (a\<lparr>totalSegments := x\<rparr>) = phase_ok a"
  by (auto simp: phase_ok_def fun_eq_iff)

lemma phase_ok_set_table: "phase_ok a ph \<Longrightarrow> phase_ok (set_table t d a) ph"
  by (auto simp: phase_ok_def)

lemma shape_set_table:
  assumes "shape \<lparr>adm = a, flight = F\<rparr>" and "table_ok (opts a) d t" and "F' \<subseteq># F"
  shows "shape \<lparr>adm = set_table t d a, flight = F'\<rparr>"
  using assms by (auto simp: shape_def intro: phase_ok_set_table dest: mset_subset_eqD)

lemma shape_add:
  "shape \<lparr>adm = a, flight = F\<rparr> \<Longrightarrow> phase_ok a ph \<Longrightarrow> shape \<lparr>adm = a, flight = add_mset ph F\<rparr>"
  by (auto simp: shape_def)

lemma shape_get_table:
  "shape \<lparr>adm = a, flight = F\<rparr> \<Longrightarrow> shape \<lparr>adm = snd (admission_Table d a), flight = F\<rparr>"
  by (cases "tables a d")
     (auto simp: shape_def admission_Table_def Let_def phase_ok_def table_ok_others)

lemma shape_table: "shape \<lparr>adm = a, flight = F\<rparr> \<Longrightarrow> tables a d = Some t \<Longrightarrow> table_ok (opts a) d t"
  by (simp add: shape_def)

lemma shape_forget:
  assumes sh: "shape \<lparr>adm = a, flight = F\<rparr>" and t: "tables a d = Some t" and f: "files t path = Some f"
  shows "shape \<lparr>adm = set_table (forget_local path f t) d a, flight = add_mset (SettleBytes d (fbytes f) 1) F\<rparr>"
proof (rule shape_add)
  show "shape \<lparr>adm = set_table (forget_local path f t) d a, flight = F\<rparr>"
    using sh t by (intro shape_set_table [OF sh] table_ok_others) (auto intro: shape_table)
  show "phase_ok (set_table (forget_local path f t) d a) (SettleBytes d (fbytes f) 1)"
    using shape_table [OF sh t] f by (auto simp: phase_ok_def table_ok_def)
qed

lemma shape_step: "adm_step s s' \<Longrightarrow> shape s \<Longrightarrow> shape s'"
proof (induction rule: adm_step.induct)
  case (get_table a F d)
  then show ?case by (rule shape_get_table)
next
  case (reserve a d t b s now t' F path)
  then show ?case
    by (intro shape_add shape_set_table [of a F]) (auto simp: phase_ok_def intro: table_ok_reserve shape_table)
next
  case (reserve_refused a d t now b s t' reason F)
  then show ?case
    by (intro shape_set_table [of a F]) (auto intro: table_ok_reserve shape_table)
next
  case (undo_local a d t b s F)
  then show ?case
    by (intro shape_set_table [OF undo_local.prems]) (auto intro: table_ok_others shape_table)
next
  case (finish a d t b r F now)
  have "shape \<lparr>adm = set_table (finish_local now b r t) d a, flight = F\<rparr>"
    using finish by (intro shape_set_table [OF finish.prems] table_ok_finish) (auto intro: shape_table)
  then show ?case
    using finish by (intro shape_add) (auto simp: phase_ok_def shape_def)
next
  case (forget a d t path f F)
  then show ?case by (intro shape_forget)
qed (auto simp: shape_def phase_ok_def)

lemma resident_reserve:
  "reserve_local e now b s t = (t', r) \<Longrightarrow> resident w t' = resident w t"
  by (drule reserve_local_frame) (simp add: resident_def)

lemma pending_none:
  assumes "shape \<lparr>adm = a, flight = F\<rparr>" and "tables a d = None"
  shows "pending l F d = 0"
proof -
  have "pdest ph \<noteq> d" if "ph \<in># F" for ph
    using assms that by (auto simp: shape_def phase_ok_def)
  then have "pending l F d = (\<Sum>ph \<in># F. 0)"
    unfolding pending_def by (intro arg_cong [of _ _ sum_mset] image_mset_cong) auto
  then show ?thesis by simp
qed

lemma balanced_get_table:
  assumes "shape \<lparr>adm = a, flight = F\<rparr>" and "balanced \<lparr>adm = a, flight = F\<rparr>"
  shows "balanced \<lparr>adm = snd (admission_Table d a), flight = F\<rparr>"
proof (cases "tables a d")
  case None
  have "finite (dom (tables a))"
    using assms(1) by (simp add: shape_def)
  from claimed_get_table [OF this, where d = d and F = F] None assms(2) show ?thesis
    by (auto simp: balanced_def admission_Table_def Let_def pending_none [OF assms(1) None]
        new_budget_def resident_def)
next
  case (Some t)
  then show ?thesis using assms(2) by (simp add: admission_Table_def)
qed

lemma balanced_step: "adm_step s s' \<Longrightarrow> shape s \<Longrightarrow> balanced s \<Longrightarrow> balanced s'"
proof (induction rule: adm_step.induct)
  case (get_table a F d)
  then show ?case by (rule balanced_get_table)
next
  case (reserve a d t b s now t' F path)
  then have "finite (dom (tables a))" by (simp add: shape_def)
  with reserve show ?case
    using resident_reserve [OF reserve(4)] reserve_local_frame [OF reserve(4)]
    by (auto simp: balanced_def claimed_flight claimed_set_table)
next
  case (reserve_refused a d t now b s t' reason F)
  then have "finite (dom (tables a))" by (simp add: shape_def)
  with reserve_refused show ?case
    using resident_reserve [OF reserve_refused(2)] reserve_local_frame [OF reserve_refused(2)]
    by (auto simp: balanced_def claimed_flight claimed_set_table)
next
  case (undo_local a d t b s F)
  then have "finite (dom (tables a))" by (simp add: shape_def)
  with undo_local show ?case
    by (auto simp: balanced_def claimed_flight claimed_set_table)
next
  case (finish a d t b r F now)
  then have "finite (dom (tables a))" "finite (dom (files t))" by (auto simp: shape_def table_ok_def)
  with finish show ?case
    by (cases "b = 0") (auto simp: balanced_def claimed_flight claimed_set_table resident_finish finish_local_frame)
next
  case (forget a d t path f F)
  then have "finite (dom (tables a))" "finite (dom (files t))" by (auto simp: shape_def table_ok_def)
  with forget show ?case
    by (auto simp: balanced_def claimed_flight claimed_set_table resident_forget)
qed (auto simp: balanced_def claimed_flight addWithin_Some)


section \<open>Every step keeps the limits\<close>

lemma queued_dest_limit: "queued_dest p d \<Longrightarrow> globalBytesLimit p d = Bytes (Global p) - RealtimeReservedBytes p"
  by (auto simp: queued_dest_def globalBytesLimit_def Let_def split: if_splits)

lemma queued_dest_pos: "queued_dest p d \<Longrightarrow> 0 < Bytes (Global p) - RealtimeReservedBytes p"
  by (auto simp: queued_dest_def globalBytesLimit_def Let_def split: if_splits)

lemma within_get_table:
  assumes "shape \<lparr>adm = a, flight = F\<rparr>" and "within base \<lparr>adm = a, flight = F\<rparr>"
  shows "within base \<lparr>adm = snd (admission_Table d a), flight = F\<rparr>"
proof (cases "tables a d")
  case None
  have "finite (dom (tables a))"
    using assms(1) by (simp add: shape_def)
  from claimed_get_table [OF this, where d = d and F = F] None assms(2) show ?thesis
    by (auto simp: within_defs admission_Table_def new_budget_def budget_within_def)
next
  case (Some t)
  then show ?thesis using assms(2) by (simp add: admission_Table_def)
qed

text \<open>
  The step that matters: bytes are claimed. The total stays within the limit of the claiming table,
  and what queued tables hold is at most that total.
\<close>

lemma within_claim:
  assumes sh: "shape \<lparr>adm = a, flight = add_mset (ClaimBytes d path b s) F\<rparr>"
    and bal: "balanced \<lparr>adm = a, flight = add_mset (ClaimBytes d path b s) F\<rparr>"
    and wi: "within base \<lparr>adm = a, flight = add_mset (ClaimBytes d path b s) F\<rparr>"
    and t: "tables a d = Some t" and add: "addWithin (totalBytes a) b (globalBytes t) = Some tb"
    and ph: "pdest ph = d" "global_bytes ph = b"
  shows "within base \<lparr>adm = a\<lparr>totalBytes := tb\<rparr>, flight = add_mset ph F\<rparr>"
proof -
  let ?s = "\<lparr>adm = a, flight = add_mset (ClaimBytes d path b s) F\<rparr>" and ?p = "opts a"
  have gb: "globalBytes t = globalBytesLimit ?p d"
    using shape_table [OF sh t] by (simp add: table_ok_def)
  have "tb \<le> Bytes (Global ?p)" if "0 < Bytes (Global ?p)"
    using add globalBytesLimit_bounds [OF that, of d] gb by (auto simp: addWithin_Some)
  moreover have "claimed (queued_dest ?p) fbytes global_bytes \<lparr>adm = a, flight = add_mset ph F\<rparr>
      \<le> max (Bytes (Global ?p) - RealtimeReservedBytes ?p) (claimed (queued_dest ?p) fbytes global_bytes base)" if "queued_dest ?p q" for q
  proof (cases "queued_dest ?p d")
    case True
    have "claimed (queued_dest ?p) fbytes global_bytes ?s \<le> totalBytes a"
      using claimed_nonneg_mono [OF sh] bal by (auto simp: balanced_def)
    then have "claimed (queued_dest ?p) fbytes global_bytes \<lparr>adm = a, flight = add_mset ph F\<rparr> \<le> tb"
      using True ph add by (simp add: claimed_flight addWithin_Some)
    also have "tb \<le> Bytes (Global ?p) - RealtimeReservedBytes ?p"
      using add gb queued_dest_limit [OF True] queued_dest_pos [OF True] by (auto simp: addWithin_Some)
    finally show ?thesis by simp
  next
    case False
    then show ?thesis
      using wi that ph by (auto simp: within_defs claimed_flight)
  qed
  ultimately show ?thesis
    using wi by (auto simp: within_defs)
qed

lemma within_set_table:
  assumes "within base \<lparr>adm = a, flight = F\<rparr>" and "tables a d = Some t"
    and "claimed (queued_dest (opts a)) fbytes global_bytes \<lparr>adm = set_table t' d a, flight = F'\<rparr> \<le>
         claimed (queued_dest (opts a)) fbytes global_bytes \<lparr>adm = a, flight = F\<rparr>"
    and "Enforce (opts a) \<Longrightarrow> budget_within (base_usage base d) t \<Longrightarrow> budget_within (base_usage base d) t'"
  shows "within base \<lparr>adm = set_table t' d a, flight = F'\<rparr>"
  using assms by (auto simp: within_defs)

lemma within_lower:
  assumes "within base \<lparr>adm = a, flight = F\<rparr>" and "tb \<le> totalBytes a" and "ts \<le> totalSegments a"
    and "claimed (queued_dest (opts a)) fbytes global_bytes \<lparr>adm = a, flight = F'\<rparr> \<le>
         claimed (queued_dest (opts a)) fbytes global_bytes \<lparr>adm = a, flight = F\<rparr>"
  shows "within base \<lparr>adm = a\<lparr>totalBytes := tb, totalSegments := ts\<rparr>, flight = F'\<rparr>"
  using assms by (auto simp: within_defs)

lemma within_step: "adm_step s s' \<Longrightarrow> shape s \<Longrightarrow> balanced s \<Longrightarrow> within base s \<Longrightarrow> within base s'"
proof (induction rule: adm_step.induct)
  case (get_table a F d)
  then show ?case by (intro within_get_table)
next
  case (reserve a d t b s now t' F path)
  then have "finite (dom (tables a))" by (simp add: shape_def)
  with reserve show ?case
    using resident_reserve [OF reserve(4)] reserve_local_frame [OF reserve(4)]
      reserve_local_within [of now b s t t']
    by (intro within_set_table [of base a F d t]) (auto simp: budget_within_def claimed_flight claimed_set_table)
next
  case (reserve_refused a d t now b s t' reason F)
  then have "finite (dom (tables a))" by (simp add: shape_def)
  with reserve_refused show ?case
    using resident_reserve [OF reserve_refused(2)] reserve_local_frame [OF reserve_refused(2)]
    by (intro within_set_table [of base a F d t]) (auto simp: budget_within_def claimed_set_table)
next
  case (claim_bytes a d t b tb path s F)
  then show ?case
    by (intro within_claim [of a d path b s]) auto
next
  case (undo_local a d t b s F)
  then have "finite (dom (tables a))" "0 \<le> b" "0 \<le> s" by (auto simp: shape_def phase_ok_def)
  with undo_local show ?case
    by (intro within_set_table [OF undo_local.prems(3) undo_local(1)]) (auto simp: budget_within_def claimed_flight claimed_set_table)
next
  case (finish a d t b r F now)
  then have "finite (dom (tables a))" "finite (dom (files t))" "0 \<le> Segments (rusage r)"
    by (auto simp: shape_def table_ok_def phase_ok_def)
  with finish show ?case
    by (intro within_set_table [OF finish.prems(3) finish(1)])
       (auto simp: budget_within_def claimed_flight claimed_set_table resident_finish finish_local_frame)
next
  case (forget a d t path f F)
  then have "finite (dom (tables a))" "finite (dom (files t))" "0 \<le> fbytes f"
    by (auto simp: shape_def table_ok_def)
  with forget show ?case
    by (intro within_set_table [OF forget.prems(3) forget(1)])
       (auto simp: budget_within_def claimed_flight claimed_set_table resident_forget)
next
  case (undo_bytes a d b s F)
  then have "0 \<le> b" by (auto simp: shape_def phase_ok_def)
  with undo_bytes show ?case
    using within_lower [OF undo_bytes(3), of "totalBytes a - b" "totalSegments a"] by (simp add: claimed_flight)
next
  case (settle_bytes a d b s F)
  then have "0 \<le> b" by (auto simp: shape_def phase_ok_def)
  with settle_bytes show ?case
    using within_lower [OF settle_bytes(3), of "totalBytes a - b" "totalSegments a"] by (simp add: claimed_flight)
next
  case (settle_segments a d s F)
  then have "0 \<le> s" by (auto simp: shape_def phase_ok_def)
  with settle_segments show ?case
    using within_lower [OF settle_segments(3), of "totalBytes a" "totalSegments a - s"] by (simp add: claimed_flight)
qed (auto simp: within_defs claimed_flight addWithin_Some split: if_splits)

section \<open>Reachable states\<close>

record restored_file =
  rf_time :: gotime
  rf_path :: string
  rf_dest :: destination
  rf_bytes :: int

definition restore_all :: "admission_opts \<Rightarrow> restored_file list \<Rightarrow> admission" where
  "restore_all p fs = fold (\<lambda>f. Restore (rf_time f) (rf_path f) (rf_dest f) (rf_bytes f)) fs (NewAdmission p)"

text \<open>The controller when intake starts: segments of any sizes were restored, also beyond the limits.\<close>

definition adm_init :: "conc \<Rightarrow> bool" where
  "adm_init s \<longleftrightarrow> flight s = {#} \<and>
     (\<exists>p fs. adm s = restore_all p fs \<and> (\<forall>f \<in> set fs. 0 \<le> rf_bytes f))"

definition adm_inv :: "conc \<Rightarrow> bool" where
  "adm_inv s \<longleftrightarrow> shape s \<and> balanced s"

lemma Restore_inv:
  assumes "adm_inv \<lparr>adm = a, flight = {#}\<rparr>" and "0 \<le> bytes"
  shows "adm_inv \<lparr>adm = Restore now path d bytes a, flight = {#}\<rparr>"
proof -
  obtain t a1 where at: "admission_Table d a = (t, a1)" by fastforce
  have a1: "a1 = snd (admission_Table d a)" "tables a1 d = Some t"
    using at by (auto simp: admission_Table_def Let_def split: option.splits)
  have inv1: "shape \<lparr>adm = a1, flight = {#}\<rparr>" "balanced \<lparr>adm = a1, flight = {#}\<rparr>"
    using assms(1) shape_get_table balanced_get_table unfolding a1(1) adm_inv_def by blast+
  have fin: "finite (dom (tables a1))" "finite (dom (files t))"
    using inv1(1) a1(2) by (auto simp: shape_def table_ok_def)
  let ?t = "restore_local (restore_time now path) path bytes t"
  have "shape \<lparr>adm = set_table ?t d a1, flight = {#}\<rparr>"
    using assms(2) shape_table [OF inv1(1) a1(2)]
    by (intro shape_set_table [OF inv1(1)]) (auto simp: table_ok_def)
  moreover have "resident w ?t = resident w t + w \<lparr>fbytes = bytes, createdAt = restore_time now path\<rparr>"
    if "files t path = None" for w
    using fin that by (simp add: resident_def sum_map_upd)
  ultimately show ?thesis
    using at inv1 fin a1(2)
    by (auto simp: Restore_def adm_inv_def shape_def balanced_def claimed_set_table phase_ok_def)
qed

lemma restore_all_inv:
  "\<forall>f \<in> set fs. 0 \<le> rf_bytes f \<Longrightarrow> adm_inv \<lparr>adm = restore_all p fs, flight = {#}\<rparr>"
proof -
  have "adm_inv \<lparr>adm = a, flight = {#}\<rparr> \<Longrightarrow> \<forall>f \<in> set fs. 0 \<le> rf_bytes f \<Longrightarrow>
    adm_inv \<lparr>adm = fold (\<lambda>f. Restore (rf_time f) (rf_path f) (rf_dest f) (rf_bytes f)) fs a, flight = {#}\<rparr>" for a
    by (induction fs arbitrary: a) (auto intro: Restore_inv)
  moreover have "adm_inv \<lparr>adm = NewAdmission p, flight = {#}\<rparr>"
    by (simp add: adm_inv_def shape_def balanced_def NewAdmission_def claimed_def)
  ultimately show "\<forall>f \<in> set fs. 0 \<le> rf_bytes f \<Longrightarrow> ?thesis"
    by (simp add: restore_all_def)
qed

lemma adm_init_inv: "adm_init s \<Longrightarrow> shape s \<and> balanced s"
  using restore_all_inv by (cases s) (auto simp: adm_init_def adm_inv_def)

interpretation accounts: step_system adm_init adm_step "\<lambda>s. shape s \<and> balanced s"
  by unfold_locales (use adm_init_inv shape_step balanced_step in blast)+

lemma within_refl: "shape s \<Longrightarrow> within s s"
  by (auto simp: within_defs budget_within_def base_usage_def split: option.splits)

interpretation limits: step_system "\<lambda>s. s = base \<and> shape s \<and> balanced s" adm_step "\<lambda>s. shape s \<and> balanced s \<and> within base s" for base
  by unfold_locales (use within_refl shape_step balanced_step within_step in blast)+

section \<open>The operations are runs of steps\<close>

lemma reserve_global_run:
  assumes res: "reserve_global path d b s t a = (res, a')" and t: "tables a d = Some t"
  shows "adm_step\<^sup>*\<^sup>* \<lparr>adm = a, flight = add_mset (ClaimBytes d path b s) F\<rparr>
     \<lparr>adm = a', flight = (case res of Inl e \<Rightarrow> F | Inr r \<Rightarrow> add_mset (Held d r) F)\<rparr>"
proof (cases "addWithin (totalBytes a) b (globalBytes t)")
  case None
  have "adm_step \<lparr>adm = a, flight = add_mset (ClaimBytes d path b s) F\<rparr> \<lparr>adm = a, flight = add_mset (UndoLocal d b s) F\<rparr>"
    using t None by (rule adm_step.claim_bytes_refused)
  moreover have "adm_step \<lparr>adm = a, flight = add_mset (UndoLocal d b s) F\<rparr> \<lparr>adm = set_table (releaseLocal b s t) d a, flight = F\<rparr>"
    using t by (rule adm_step.undo_local)
  ultimately show ?thesis
    using res None by (auto simp: reserve_global_def)
next
  case (Some tb)
  let ?a = "a\<lparr>totalBytes := tb\<rparr>"
  have claim: "adm_step \<lparr>adm = a, flight = add_mset (ClaimBytes d path b s) F\<rparr> \<lparr>adm = ?a,
      flight = add_mset (if s = 0 then Held d (new_reservation d path b s) else ClaimSegments d path b s) F\<rparr>"
    using t Some by (rule adm_step.claim_bytes)
  show ?thesis
  proof (cases "s = 0")
    case True
    then show ?thesis using claim res Some by (auto simp: reserve_global_def)
  next
    case False
    show ?thesis
    proof (cases "addWithin (totalSegments ?a) s (Segments (Global (opts ?a)))")
      case None
      have "adm_step \<lparr>adm = ?a, flight = add_mset (ClaimSegments d path b s) F\<rparr> \<lparr>adm = ?a, flight = add_mset (UndoBytes d b s) F\<rparr>"
        using None by (rule adm_step.claim_segments_refused)
      moreover have "adm_step \<lparr>adm = ?a, flight = add_mset (UndoBytes d b s) F\<rparr> \<lparr>adm = a, flight = add_mset (UndoLocal d b s) F\<rparr>"
        using adm_step.undo_bytes [of ?a d b s F] Some by (simp add: addWithin_Some)
      moreover have "adm_step \<lparr>adm = a, flight = add_mset (UndoLocal d b s) F\<rparr> \<lparr>adm = set_table (releaseLocal b s t) d a, flight = F\<rparr>"
        using t by (rule adm_step.undo_local)
      moreover have "res = Inl ErrMaxSegmentsExceeded" "a' = set_table (releaseLocal b s t) d a"
        using res None Some False by (auto simp: reserve_global_def)
      ultimately show ?thesis
        using claim False by (auto intro: converse_rtranclp_into_rtranclp)
    next
      case (Some ts)
      have "adm_step \<lparr>adm = ?a, flight = add_mset (ClaimSegments d path b s) F\<rparr>
          \<lparr>adm = ?a\<lparr>totalSegments := ts\<rparr>, flight = add_mset (Held d (new_reservation d path b s)) F\<rparr>"
        using Some by (rule adm_step.claim_segments)
      moreover have "res = Inr (new_reservation d path b s)" "a' = ?a\<lparr>totalSegments := ts\<rparr>"
        using res Some \<open>addWithin (totalBytes a) b (globalBytes t) = Some tb\<close> False by (auto simp: reserve_global_def)
      ultimately show ?thesis
        using claim False by (auto intro: converse_rtranclp_into_rtranclp)
    qed
  qed
qed

lemma Reserve_run:
  assumes "0 \<le> b" and "0 \<le> s" and "Reserve now path d b s a = (res, a')"
  shows "adm_step\<^sup>*\<^sup>* \<lparr>adm = a, flight = F\<rparr>
     \<lparr>adm = a', flight = (case res of Inl e \<Rightarrow> F | Inr r \<Rightarrow> add_mset (Held d r) F)\<rparr>"
proof -
  obtain t a1 where at: "admission_Table d a = (t, a1)" by fastforce
  obtain t' ref where rl: "reserve_local (Enforce (opts a1)) now b s t = (t', ref)" by fastforce
  have t: "tables a1 d = Some t"
    using at by (auto simp: admission_Table_def Let_def split: option.splits)
  let ?a = "set_table t' d a1"
  have start: "adm_step \<lparr>adm = a, flight = F\<rparr> \<lparr>adm = a1, flight = F\<rparr>"
    using adm_step.get_table [of a F d] at by simp
  show ?thesis
  proof (cases ref)
    case (Some reason)
    have "adm_step \<lparr>adm = a1, flight = F\<rparr> \<lparr>adm = ?a, flight = F\<rparr>"
      using rl t Some by (intro adm_step.reserve_refused) auto
    with start show ?thesis
      using assms(3) at rl Some by (auto simp: Reserve_def)
  next
    case None
    have res: "reserve_global path d b s t' ?a = (res, a')"
      using assms(3) at rl None by (simp add: Reserve_def)
    have "adm_step \<lparr>adm = a1, flight = F\<rparr> \<lparr>adm = ?a, flight = add_mset (ClaimBytes d path b s) F\<rparr>"
      using rl t None assms by (intro adm_step.reserve) auto
    with start have claim: "adm_step\<^sup>*\<^sup>* \<lparr>adm = a, flight = F\<rparr> \<lparr>adm = ?a, flight = add_mset (ClaimBytes d path b s) F\<rparr>"
      by (meson converse_rtranclp_into_rtranclp rtranclp.rtrancl_refl)
    also have "adm_step\<^sup>*\<^sup>* \<dots> \<lparr>adm = a', flight = (case res of Inl e \<Rightarrow> F | Inr r \<Rightarrow> add_mset (Held d r) F)\<rparr>"
      using reserve_global_run [OF res] by simp
    finally show ?thesis .
  qed
qed

lemma Finish_run:
  assumes r: "rtable r = Some d" "\<not> ronce r" and t: "tables a d = Some t"
    and b: "0 \<le> b" "b \<le> Bytes (rusage r)"
    and seg: "b = 0 \<or> Segments (rusage r) = (if files t (rpath r) = None then 1 else 0)"
  shows "adm_step\<^sup>*\<^sup>* \<lparr>adm = a, flight = add_mset (Held d r) F\<rparr> \<lparr>adm = snd (Finish now b r a), flight = F\<rparr>"
proof -
  let ?a = "set_table (finish_local now b r t) d a" and ?x = "Bytes (rusage r) - b"
    and ?s = "if b = 0 then Segments (rusage r) else 0"
  have "adm_step \<lparr>adm = a, flight = add_mset (Held d r) F\<rparr> \<lparr>adm = ?a, flight = add_mset (SettleBytes d ?x ?s) F\<rparr>"
    using t b seg by (rule adm_step.finish)
  moreover have "adm_step \<lparr>adm = ?a, flight = add_mset (SettleBytes d ?x ?s) F\<rparr>
      \<lparr>adm = ?a\<lparr>totalBytes := totalBytes ?a - ?x\<rparr>, flight = add_mset (SettleSegments d ?s) F\<rparr>"
    by (rule adm_step.settle_bytes)
  moreover have "adm_step \<lparr>adm = ?a\<lparr>totalBytes := totalBytes ?a - ?x\<rparr>, flight = add_mset (SettleSegments d ?s) F\<rparr>
      \<lparr>adm = snd (Finish now b r a), flight = F\<rparr>"
    using adm_step.settle_segments [of "?a\<lparr>totalBytes := totalBytes ?a - ?x\<rparr>" d ?s F] r t
    by (simp add: Finish_def finish_global_def algebra_simps)
  ultimately show ?thesis
    by (meson converse_rtranclp_into_rtranclp rtranclp.rtrancl_refl)
qed

lemma Forget_run:
  "adm_step\<^sup>*\<^sup>* \<lparr>adm = a, flight = F\<rparr> \<lparr>adm = Forget d path a, flight = F\<rparr>"
proof -
  obtain t a1 where at: "admission_Table d a = (t, a1)" by fastforce
  have t: "tables a1 d = Some t"
    using at by (auto simp: admission_Table_def Let_def split: option.splits)
  have start: "adm_step \<lparr>adm = a, flight = F\<rparr> \<lparr>adm = a1, flight = F\<rparr>"
    using adm_step.get_table [of a F d] at by simp
  show ?thesis
  proof (cases "files t path")
    case None
    then show ?thesis using start at by (auto simp: Forget_def)
  next
    case (Some f)
    let ?a = "set_table (forget_local path f t) d a1"
    have "adm_step \<lparr>adm = a1, flight = F\<rparr> \<lparr>adm = ?a, flight = add_mset (SettleBytes d (fbytes f) 1) F\<rparr>"
      using t Some by (rule adm_step.forget)
    moreover have "adm_step \<lparr>adm = ?a, flight = add_mset (SettleBytes d (fbytes f) 1) F\<rparr>
        \<lparr>adm = ?a\<lparr>totalBytes := totalBytes ?a - fbytes f\<rparr>, flight = add_mset (SettleSegments d 1) F\<rparr>"
      by (rule adm_step.settle_bytes)
    moreover have "adm_step \<lparr>adm = ?a\<lparr>totalBytes := totalBytes ?a - fbytes f\<rparr>, flight = add_mset (SettleSegments d 1) F\<rparr>
        \<lparr>adm = Forget d path a, flight = F\<rparr>"
      using adm_step.settle_segments [of "?a\<lparr>totalBytes := totalBytes ?a - fbytes f\<rparr>" d 1 F] at Some
      by (simp add: Forget_def)
    ultimately show ?thesis
      using start by (meson converse_rtranclp_into_rtranclp rtranclp.rtrancl_refl)
  qed
qed

text \<open>A small instance for the examples: an instance limit of 1000 bytes of which 200 are for realtime.\<close>

definition demo_opts :: admission_opts where
  "demo_opts = \<lparr>Global = \<lparr>Bytes = 1000, Segments = 10\<rparr>, Default = \<lparr>Bytes = 100, Segments = 2\<rparr>,
     Overrides = [], Enforce = True, RealtimeReservedBytes = 200,
     Policy = Some \<lparr>realtime = [(''Metrics'', [''Cpu''])],
       policy.tables = [\<lparr>TDatabase = ''Metrics'', TTable = ''Cpu''\<rparr>]\<rparr>\<rparr>"

definition demo_dest :: destination where
  "demo_dest = \<lparr>Database = ''Logs'', Table = ''Pods''\<rparr>"

definition demo_start :: conc where
  "demo_start = \<lparr>adm = restore_all demo_opts
     [\<lparr>rf_time = 7, rf_path = ''a.wal'', rf_dest = demo_dest, rf_bytes = 60\<rparr>], flight = {#}\<rparr>"

lemma ParseFilename_demo: "pn_err (ParseFilename ''a.wal'') = Some ErrInvalidWALSegment"
  by code_simp

lemma demo_start_eval:
  "demo_start = \<lparr>adm = \<lparr>opts = demo_opts,
     tables = [demo_dest \<mapsto> restore_local 7 ''a.wal'' 60 (new_budget demo_opts demo_dest)],
     totalBytes = 60, totalSegments = 1\<rparr>, flight = {#}\<rparr>"
  by (simp add: demo_start_def restore_all_def Restore_def NewAdmission_def admission_Table_def Let_def
      restore_time_def ParseFilename_demo set_table_def new_budget_def)

lemma demo_simps [simp]:
  "globalBytesLimit demo_opts demo_dest = 800" "resolveLimit demo_opts d = \<lparr>Bytes = 100, Segments = 2\<rparr>"
  "Global demo_opts = \<lparr>Bytes = 1000, Segments = 10\<rparr>" "Enforce demo_opts" "RealtimeReservedBytes demo_opts = 200"
proof -
  show "globalBytesLimit demo_opts demo_dest = 800" by code_simp
qed (simp_all add: demo_opts_def resolveLimit_def)

lemma demo_start_init: "adm_init demo_start"
  by (auto simp: adm_init_def demo_start_def intro!: exI [of _ demo_opts])

section \<open>Properties\<close>

lemma sum_usage_sum:
  "sum_usage ds ts acc =
     \<lparr>Bytes = Bytes acc + sum_list (map (\<lambda>d. case ts d of None \<Rightarrow> 0 | Some t \<Rightarrow> Bytes (busage t)) ds),
      Segments = Segments acc + sum_list (map (\<lambda>d. case ts d of None \<Rightarrow> 0 | Some t \<Rightarrow> Segments (busage t)) ds)\<rparr>"
  by (induction ds arbitrary: acc) (auto split: option.split)

lemma Usage_sum_map:
  assumes "iterates ds (tables a)"
  shows "Usage ds a = \<lparr>Bytes = sum_map (\<lambda>d t. Bytes (busage t)) (tables a),
                       Segments = sum_map (\<lambda>d t. Segments (busage t)) (tables a)\<rparr>"
proof -
  have "sum_list (map (\<lambda>d. case tables a d of None \<Rightarrow> 0 | Some t \<Rightarrow> f t) ds) = sum_map (\<lambda>d. f) (tables a)"
    for f :: "table_budget \<Rightarrow> int"
  proof -
    have "map (\<lambda>d. case tables a d of None \<Rightarrow> 0 | Some t \<Rightarrow> f t) ds = map (\<lambda>d. f (the (tables a d))) ds"
      using assms by (auto simp: iterates_def domIff)
    then show ?thesis using iterates_sum [OF assms, of "\<lambda>d. f"] by metis
  qed
  then show ?thesis by (simp add: Usage_def sum_usage_sum)
qed

text \<open>
  C12. The totals are exact. However the operations of any number of goroutines interleave, once none is
  in flight the two atomic totals equal what \<open>Usage\<close> sums over the tables in any order, and both are the
  bytes and the number of the resident files.
\<close>

theorem admission_totals_exact:
  assumes "adm_init s" and "adm_step\<^sup>*\<^sup>* s s'" and "flight s' = {#}" and "iterates ds (tables (adm s'))"
  shows "Usage ds (adm s') = \<lparr>Bytes = totalBytes (adm s'), Segments = totalSegments (adm s')\<rparr> \<and>
         totalBytes (adm s') = sum_map (\<lambda>d t. sum_map (\<lambda>p. fbytes) (files t)) (tables (adm s')) \<and>
         totalSegments (adm s') = sum_map (\<lambda>d t. int (card (dom (files t)))) (tables (adm s'))"
proof -
  have bal: "balanced s'"
    using accounts.reachable_inv [OF assms(1,2)] by simp
  have usage: "sum_map (\<lambda>d t. Bytes (busage t)) (tables (adm s')) = totalBytes (adm s')"
    "sum_map (\<lambda>d t. Segments (busage t)) (tables (adm s')) = totalSegments (adm s')"
    using bal assms(3) by (auto simp: balanced_def claimed_def intro!: sum_map_cong)
  moreover have "sum_map (\<lambda>d t. sum_map (\<lambda>p f. 1) (files t)) (tables (adm s')) =
      sum_map (\<lambda>d t. int (card (dom (files t)))) (tables (adm s'))"
    by (rule sum_map_cong) (simp add: sum_map_def)
  ultimately show ?thesis
    using bal assms(3) by (simp add: Usage_sum_map [OF assms(4)] balanced_def claimed_def resident_def)
qed

theorem admission_totals_exact_witness:
  "Usage [demo_dest] (Forget demo_dest ''a.wal'' (adm demo_start)) = \<lparr>Bytes = 0, Segments = 0\<rparr> \<and>
   totalBytes (Forget demo_dest ''a.wal'' (adm demo_start)) = 0 \<and>
   totalSegments (Forget demo_dest ''a.wal'' (adm demo_start)) = 0"
proof -
  let ?a = "Forget demo_dest ''a.wal'' (adm demo_start)"
  have "adm_step\<^sup>*\<^sup>* demo_start \<lparr>adm = ?a, flight = {#}\<rparr>"
    using Forget_run [of "adm demo_start" "{#}" demo_dest "''a.wal''"] by (simp add: demo_start_def)
  moreover have it: "iterates [demo_dest] (tables ?a)" "totalBytes ?a = 0" "totalSegments ?a = 0"
    by (simp_all add: demo_start_eval Forget_def admission_Table_def iterates_def)
  ultimately show ?thesis
    using admission_totals_exact [OF demo_start_init, of "\<lparr>adm = ?a, flight = {#}\<rparr>" "[demo_dest]"] by simp
qed

text \<open>
  C13. No interleaving exceeds a limit, or makes an excess grow. From one reachable state to any later
  one, whatever files were restored at the start: the two totals end within the instance limits or not
  above what they were; so does every table within its budget when budgets are enforced; and so does what
  the tables that may not use the realtime reservation hold, all together and counting what they have in
  flight, within the instance limit less the reservation. So what is within a limit stays there, and what
  files restored under a lowered limit exceed can only shrink until it is within.
\<close>

theorem admission_limits:
  assumes "adm_init s0" and "adm_step\<^sup>*\<^sup>* s0 s" and "adm_step\<^sup>*\<^sup>* s s'" and "p = opts (adm s')"
  shows "(0 < Bytes (Global p) \<longrightarrow> totalBytes (adm s') \<le> max (Bytes (Global p)) (totalBytes (adm s))) \<and>
         (0 < Segments (Global p) \<longrightarrow> totalSegments (adm s') \<le> max (Segments (Global p)) (totalSegments (adm s))) \<and>
         (Enforce p \<longrightarrow> (\<forall>d t. tables (adm s') d = Some t \<longrightarrow>
            (0 < Bytes (resolveLimit p d) \<longrightarrow> Bytes (busage t) \<le> max (Bytes (resolveLimit p d)) (Bytes (base_usage s d))) \<and>
            (0 < Segments (resolveLimit p d) \<longrightarrow> Segments (busage t) \<le> max (Segments (resolveLimit p d)) (Segments (base_usage s d))))) \<and>
         ((\<exists>d. globalBytesLimit p d \<noteq> Bytes (Global p)) \<longrightarrow>
            claimed (\<lambda>d. globalBytesLimit p d \<noteq> Bytes (Global p)) fbytes global_bytes s' \<le>
              max (Bytes (Global p) - RealtimeReservedBytes p)
                (claimed (\<lambda>d. globalBytesLimit p d \<noteq> Bytes (Global p)) fbytes global_bytes s))"
proof -
  have "shape s \<and> balanced s" by (rule accounts.reachable_inv [OF assms(1,2)])
  then have inv: "shape s'" "within s s'" using limits.reachable_inv [OF _ assms(3), of s] by simp_all
  moreover have "blimit t = resolveLimit p d" if "tables (adm s') d = Some t" for d t
    using inv(1) that assms(4) by (simp add: shape_def table_ok_def)
  moreover have "queued_dest p = (\<lambda>d. globalBytesLimit p d \<noteq> Bytes (Global p))" by (simp add: queued_dest_def fun_eq_iff)
  ultimately show ?thesis
    using assms(4) by (auto simp: within_defs budget_within_def)
qed

text \<open>
  The restored file leaves room for 40 bytes: a reservation of 40 is held in a reachable state. A file of 150 bytes that
  was restored beyond the budget of 100 of its table stays, and nothing is added to it.
\<close>

definition demo_over :: conc where
  "demo_over = \<lparr>adm = restore_all demo_opts
     [\<lparr>rf_time = 7, rf_path = ''a.wal'', rf_dest = demo_dest, rf_bytes = 150\<rparr>], flight = {#}\<rparr>"

lemma demo_over_init: "adm_init demo_over"
  by (auto simp: adm_init_def demo_over_def intro!: exI [of _ demo_opts])

lemma demo_over_usage: "base_usage demo_over demo_dest = \<lparr>Bytes = 150, Segments = 1\<rparr>"
  by (simp add: base_usage_def demo_over_def restore_all_def Restore_def NewAdmission_def admission_Table_def Let_def
      restore_time_def ParseFilename_demo set_table_def new_budget_def restore_local_def add_usage_def)

theorem admission_limits_witness:
  "(case Reserve 9 ''a.wal'' demo_dest 40 0 (adm demo_start) of
     (Inr r, a') \<Rightarrow> totalBytes a' = 100 \<and> totalBytes a' \<le> Bytes (Global demo_opts) \<and>
       (case tables a' demo_dest of None \<Rightarrow> False | Some t \<Rightarrow> Bytes (busage t) \<le> Bytes (resolveLimit demo_opts demo_dest))
   | (Inl e, a') \<Rightarrow> False) \<and>
   (case tables (Forget demo_dest ''b.wal'' (adm demo_over)) demo_dest of None \<Rightarrow> False | Some t \<Rightarrow> Bytes (busage t) \<le> 150)"
proof -
  define r where "r = new_reservation demo_dest ''a.wal'' 40 0"
  define a' where "a' = snd (Reserve 9 ''a.wal'' demo_dest 40 0 (adm demo_start))"
  have res: "Reserve 9 ''a.wal'' demo_dest 40 0 (adm demo_start) = (Inr r, a')"
      "totalBytes a' = 100" "opts a' = demo_opts" "tables a' demo_dest \<noteq> None"
    unfolding a'_def r_def
    by (simp_all add: demo_start_eval Reserve_def admission_Table_def reserve_local_def Let_def reserve_global_def
        addWithin_def new_budget_def restore_local_def add_usage_def)
  have run: "adm_step\<^sup>*\<^sup>* demo_start \<lparr>adm = a', flight = {#Held demo_dest r#}\<rparr>"
    using Reserve_run [of 40 0 9 "''a.wal''" demo_dest "adm demo_start" "Inr r" a' "{#}"] res(1)
    by (simp add: demo_start_def)
  have usage: "base_usage demo_start demo_dest = \<lparr>Bytes = 60, Segments = 1\<rparr>" "totalBytes (adm demo_start) = 60"
    by (simp_all add: base_usage_def demo_start_eval restore_local_def add_usage_def new_budget_def)
  have one: "totalBytes a' \<le> 1000" "\<forall>t. tables a' demo_dest = Some t \<longrightarrow> Bytes (busage t) \<le> 100"
    using admission_limits [OF demo_start_init rtranclp.rtrancl_refl run, of demo_opts] res(3) usage by (auto, fastforce+)
  let ?b = "Forget demo_dest ''b.wal'' (adm demo_over)"
  have "adm_step\<^sup>*\<^sup>* demo_over \<lparr>adm = ?b, flight = {#}\<rparr>"
    using Forget_run [of "adm demo_over" "{#}" demo_dest "''b.wal''"] by (simp add: demo_over_def)
  moreover have b: "opts ?b = demo_opts" "tables ?b demo_dest \<noteq> None"
    by (simp_all add: demo_over_def restore_all_def Forget_def Restore_def NewAdmission_def admission_Table_def Let_def
      restore_time_def ParseFilename_demo set_table_def new_budget_def restore_local_def add_usage_def)
  ultimately have "\<forall>t. tables ?b demo_dest = Some t \<longrightarrow> Bytes (busage t) \<le> 150"
    using admission_limits [OF demo_over_init rtranclp.rtrancl_refl, of "\<lparr>adm = ?b, flight = {#}\<rparr>" demo_opts] demo_over_usage by (auto, fastforce+)
  then show ?thesis using one res b(2) by auto
qed

text \<open>
  The operations of the controller are runs of these steps: a \<open>Reserve\<close> that ran alone, with all
  its rollbacks, reaches the state the interleaved steps reach, and so do \<open>Finish\<close> and \<open>Forget\<close>.
\<close>

lemma operations_are_runs:
  assumes "0 \<le> b" and "0 \<le> segs" and "Reserve now path d b segs a = (res, a')"
  shows "adm_step\<^sup>*\<^sup>* \<lparr>adm = a, flight = F\<rparr>
           \<lparr>adm = a', flight = (case res of Inl e \<Rightarrow> F | Inr r \<Rightarrow> add_mset (Held d r) F)\<rparr> \<and>
         adm_step\<^sup>*\<^sup>* \<lparr>adm = a', flight = F\<rparr> \<lparr>adm = Forget d path a', flight = F\<rparr> \<and>
         (\<forall>r n t. res = Inr r \<longrightarrow> tables a' d = Some t \<longrightarrow> 0 \<le> n \<longrightarrow> n \<le> b \<longrightarrow>
            n = 0 \<or> segs = (if files t path = None then 1 else 0) \<longrightarrow>
            adm_step\<^sup>*\<^sup>* \<lparr>adm = a', flight = add_mset (Held d r) F\<rparr> \<lparr>adm = snd (Finish now n r a'), flight = F\<rparr>)"
proof -
  have "rtable r = Some d \<and> \<not> ronce r \<and> rpath r = path \<and> rusage r = \<lparr>Bytes = b, Segments = segs\<rparr>"
    if "res = Inr r" for r
    using assms(3) that
    by (auto simp: Reserve_def reserve_global_def Let_def split: prod.splits option.splits if_splits)
  then show ?thesis
    using Reserve_run [OF assms] Forget_run Finish_run by auto
qed

lemma operations_are_runs_instance:
  "adm_step\<^sup>*\<^sup>* demo_start \<lparr>adm = snd (Reserve 9 ''b.wal'' demo_dest 90 1 (adm demo_start)), flight = {#}\<rparr> \<and>
   fst (Reserve 9 ''b.wal'' demo_dest 90 1 (adm demo_start)) = Inl (TableOverloadedError demo_dest ''bytes'' (5 * second))"
proof -
  have res: "fst (Reserve 9 ''b.wal'' demo_dest 90 1 (adm demo_start)) = Inl (TableOverloadedError demo_dest ''bytes'' (5 * second))"
    by (simp add: demo_start_eval Reserve_def admission_Table_def reserve_local_def Let_def new_budget_def)
  then show ?thesis
    using operations_are_runs [of 90 1 9 "''b.wal''" demo_dest "adm demo_start", OF _ _ surjective_pairing, of "{#}"]
    by (simp add: demo_start_def)
qed

end
