(* ===== verification/GoHeap.thy ===== *)
theory GoHeap
  imports Prelude
begin

text \<open>
  The package \<open>container/heap\<close> as the sources use it: a slice of items ordered as a binary min-heap by a
  time, where every item records its position in the slice so that it can be removed or moved. Two
  types of the write-ahead log are such heaps: \<open>ageHeap\<close> in \<open>index.go\<close> and \<open>rotationHeap\<close> in \<open>rotation_scheduler.go\<close>.
  Their \<open>Less\<close>, \<open>Swap\<close>, \<open>Push\<close> and \<open>Pop\<close> methods differ only in the key and in what \<open>Pop\<close> leaves in the position
  field of the item, which is the argument \<open>mark\<close>.
\<close>

section \<open>Operations\<close>

text \<open>The slice and the position field of every item.\<close>

record 'a heap =
  slice :: "'a list"
  position :: "'a \<Rightarrow> int"

definition heap_Less :: "('a \<Rightarrow> int) \<Rightarrow> nat \<Rightarrow> nat \<Rightarrow> 'a heap \<Rightarrow> bool" where
  "heap_Less key i j h \<longleftrightarrow> key (slice h ! i) < key (slice h ! j)"

definition heap_Swap :: "nat \<Rightarrow> nat \<Rightarrow> 'a heap \<Rightarrow> 'a heap" where
  "heap_Swap i j h =
     (let x = slice h ! i; y = slice h ! j
      in \<lparr>slice = (slice h)[i := y, j := x], position = (position h)(y := int i, x := int j)\<rparr>)"

definition slice_Push :: "'a \<Rightarrow> 'a heap \<Rightarrow> 'a heap" where
  "slice_Push x h = \<lparr>slice = slice h @ [x], position = (position h)(x := int (length (slice h)))\<rparr>"

definition slice_Pop :: "('a \<Rightarrow> ('a \<Rightarrow> int) \<Rightarrow> 'a \<Rightarrow> int) \<Rightarrow> 'a heap \<Rightarrow> 'a \<times> 'a heap" where
  "slice_Pop mark h =
     (let x = last (slice h) in (x, \<lparr>slice = butlast (slice h), position = mark x (position h)\<rparr>))"

function heap_up :: "('a \<Rightarrow> int) \<Rightarrow> nat \<Rightarrow> 'a heap \<Rightarrow> 'a heap" where
  "heap_up key j h =
     (let i = (j - 1) div 2
      in if i = j \<or> \<not> heap_Less key j i h then h else heap_up key i (heap_Swap i j h))"
  by pat_completeness auto
termination
  by (relation "measure (\<lambda>(key, j, h). j)") auto

function heap_down :: "('a \<Rightarrow> int) \<Rightarrow> nat \<Rightarrow> nat \<Rightarrow> 'a heap \<Rightarrow> nat \<times> 'a heap" where
  "heap_down key i n h =
     (let j1 = 2 * i + 1
      in if j1 \<ge> n then (i, h)
         else let j = (if j1 + 1 < n \<and> heap_Less key (j1 + 1) j1 h then j1 + 1 else j1)
              in if \<not> heap_Less key j i h then (i, h) else heap_down key j n (heap_Swap i j h))"
  by pat_completeness auto
termination
  by (relation "measure (\<lambda>(key, i, n, h). n - i)") auto

declare heap_up.simps [simp del] heap_down.simps [simp del]

definition heap_Push :: "('a \<Rightarrow> int) \<Rightarrow> 'a \<Rightarrow> 'a heap \<Rightarrow> 'a heap" where
  "heap_Push key x h = (let h = slice_Push x h in heap_up key (length (slice h) - 1) h)"

definition heap_Pop :: "('a \<Rightarrow> ('a \<Rightarrow> int) \<Rightarrow> 'a \<Rightarrow> int) \<Rightarrow> ('a \<Rightarrow> int) \<Rightarrow> 'a heap \<Rightarrow> 'a \<times> 'a heap" where
  "heap_Pop mark key h =
     (let n = length (slice h) - 1 in slice_Pop mark (snd (heap_down key 0 n (heap_Swap 0 n h))))"

definition heap_sift :: "('a \<Rightarrow> int) \<Rightarrow> nat \<Rightarrow> nat \<Rightarrow> 'a heap \<Rightarrow> 'a heap" where
  "heap_sift key i n h = (let (i', h') = heap_down key i n h in if i' > i then h' else heap_up key i h')"

definition heap_Remove ::
  "('a \<Rightarrow> ('a \<Rightarrow> int) \<Rightarrow> 'a \<Rightarrow> int) \<Rightarrow> ('a \<Rightarrow> int) \<Rightarrow> nat \<Rightarrow> 'a heap \<Rightarrow> 'a \<times> 'a heap" where
  "heap_Remove mark key i h =
     (let n = length (slice h) - 1
      in slice_Pop mark (if n \<noteq> i then heap_sift key i n (heap_Swap i n h) else h))"

definition heap_Fix :: "('a \<Rightarrow> int) \<Rightarrow> nat \<Rightarrow> 'a heap \<Rightarrow> 'a heap" where
  "heap_Fix key i h = heap_sift key i (length (slice h)) h"

section \<open>Swapping keeps the items and their positions\<close>

definition positioned :: "'a heap \<Rightarrow> bool" where
  "positioned h \<longleftrightarrow> distinct (slice h) \<and> (\<forall>i < length (slice h). position h (slice h ! i) = int i)"

lemma slice_Swap [simp]:
  "slice (heap_Swap i j h) = (slice h)[i := slice h ! j, j := slice h ! i]"
  by (simp add: heap_Swap_def Let_def)

lemma mset_Swap: "i < length xs \<Longrightarrow> j < length xs \<Longrightarrow> mset (xs[i := xs ! j, j := xs ! i]) = mset xs"
  by (rule mset_swap)

lemma positioned_Swap:
  assumes "positioned h" and "i < length (slice h)" and "j < length (slice h)"
  shows "positioned (heap_Swap i j h)"
proof -
  have "distinct ((slice h)[i := slice h ! j, j := slice h ! i])"
    using assms by (metis distinct_swap positioned_def)
  then show ?thesis
    using assms
    by (auto simp: positioned_def heap_Swap_def Let_def nth_list_update nth_eq_iff_index_eq)
qed

text \<open>What sifting never touches: the items, their positions, and the slice from \<open>n\<close> on.\<close>

definition rearranged :: "nat \<Rightarrow> 'a heap \<Rightarrow> 'a heap \<Rightarrow> bool" where
  "rearranged n h h' \<longleftrightarrow> mset (slice h') = mset (slice h) \<and> drop n (slice h') = drop n (slice h) \<and>
     (positioned h \<longrightarrow> positioned h')"

lemma rearranged_refl [simp]: "rearranged n h h"
  by (simp add: rearranged_def)

lemma rearranged_trans: "rearranged n h h' \<Longrightarrow> rearranged n h' h'' \<Longrightarrow> rearranged n h h''"
  by (simp add: rearranged_def)

lemma rearranged_length: "rearranged n h h' \<Longrightarrow> length (slice h') = length (slice h)"
  by (metis rearranged_def size_mset)

lemma rearranged_nth:
  assumes "rearranged n h h'" and "n < length (slice h)"
  shows "slice h' ! n = slice h ! n"
proof -
  have "slice h' ! n = hd (drop n (slice h'))"
    using assms rearranged_length [OF assms(1)] by (simp add: hd_drop_conv_nth)
  also have "\<dots> = hd (drop n (slice h))"
    using assms(1) by (simp add: rearranged_def)
  also have "\<dots> = slice h ! n"
    using assms(2) by (simp add: hd_drop_conv_nth)
  finally show ?thesis .
qed

lemma rearranged_Swap:
  "i < n \<Longrightarrow> j < n \<Longrightarrow> n \<le> length (slice h) \<Longrightarrow> rearranged n h (heap_Swap i j h)"
  by (simp add: rearranged_def mset_Swap positioned_Swap)

lemma heap_up_rearranged:
  "j < n \<Longrightarrow> n \<le> length (slice h) \<Longrightarrow> rearranged n h (heap_up key j h)"
proof (induction key j h rule: heap_up.induct)
  case (1 key j h)
  let ?i = "(j - 1) div 2"
  show ?case
  proof (cases "?i = j \<or> \<not> heap_Less key j ?i h")
    case True
    then show ?thesis by (simp add: heap_up.simps Let_def)
  next
    case False
    have "rearranged n h (heap_Swap ?i j h)"
      using 1 by (intro rearranged_Swap) auto
    moreover have "rearranged n (heap_Swap ?i j h) (heap_up key ?i (heap_Swap ?i j h))"
      using False 1 by (intro "1.IH") auto
    ultimately show ?thesis
      using False rearranged_trans by (subst heap_up.simps) (auto simp: Let_def)
  qed
qed

text \<open>The child that \<open>down\<close> compares with its parent.\<close>

definition child :: "('a \<Rightarrow> int) \<Rightarrow> nat \<Rightarrow> nat \<Rightarrow> 'a heap \<Rightarrow> nat" where
  "child key i n h = (if 2 * i + 2 < n \<and> heap_Less key (2 * i + 2) (2 * i + 1) h then 2 * i + 2 else 2 * i + 1)"

lemma heap_down_step:
  "heap_down key i n h =
     (if n \<le> 2 * i + 1 \<or> \<not> heap_Less key (child key i n h) i h then (i, h)
      else heap_down key (child key i n h) n (heap_Swap i (child key i n h) h))"
  by (subst heap_down.simps) (simp add: child_def Let_def)

lemma child_bounds: "2 * i + 1 < n \<Longrightarrow> i < child key i n h \<and> child key i n h < n"
  by (simp add: child_def)

lemma heap_down_rearranged:
  "n \<le> length (slice h) \<Longrightarrow> rearranged n h (snd (heap_down key i n h)) \<and> i \<le> fst (heap_down key i n h)"
proof (induction "n - i" arbitrary: i h rule: less_induct)
  case less
  let ?c = "child key i n h"
  show ?case
  proof (cases "n \<le> 2 * i + 1 \<or> \<not> heap_Less key ?c i h")
    case True
    then show ?thesis by (simp add: heap_down_step [of key i n h])
  next
    case False
    then have c: "i < ?c" "?c < n" by (auto simp: child_bounds)
    have "rearranged n h (heap_Swap i ?c h)"
      using c less.prems by (intro rearranged_Swap) auto
    moreover have "rearranged n (heap_Swap i ?c h) (snd (heap_down key ?c n (heap_Swap i ?c h))) \<and>
        ?c \<le> fst (heap_down key ?c n (heap_Swap i ?c h))"
      using c less.prems by (intro less.hyps) auto
    ultimately show ?thesis
      using False c rearranged_trans by (subst heap_down_step, subst (2) heap_down_step) auto
  qed
qed

section \<open>Heap order\<close>

definition parent :: "nat \<Rightarrow> nat" where
  "parent i = (i - 1) div 2"

lemma parent_less: "0 < i \<Longrightarrow> parent i < i"
  by (simp add: parent_def)

lemma parent_zero [simp]: "parent 0 = 0"
  by (simp add: parent_def)

lemma parent_self [simp]: "parent j = j \<longleftrightarrow> j = 0"
  by (cases "0 < j") (auto dest: parent_less)

lemma self_parent [simp]: "j = parent j \<longleftrightarrow> j = 0"
  using parent_self [of j] by (simp only: eq_commute)

lemma parent_lt: "0 < k \<Longrightarrow> k < n \<Longrightarrow> parent k < n"
  by (rule less_trans [OF parent_less])

lemma parent_le [simp]: "parent j \<le> j"
  by (simp add: parent_def)

lemma heap_up_step:
  "heap_up key j h =
     (if j = 0 \<or> \<not> heap_Less key j (parent j) h then h else heap_up key (parent j) (heap_Swap (parent j) j h))"
  using parent_self [of j] by (subst heap_up.simps) (simp add: Let_def parent_def)

definition edge :: "('a \<Rightarrow> int) \<Rightarrow> 'a list \<Rightarrow> nat \<Rightarrow> bool" where
  "edge key xs i \<longleftrightarrow> key (xs ! parent i) \<le> key (xs ! i)"

definition heap_to :: "('a \<Rightarrow> int) \<Rightarrow> nat \<Rightarrow> 'a list \<Rightarrow> bool" where
  "heap_to key n xs \<longleftrightarrow> (\<forall>i. 0 < i \<and> i < n \<longrightarrow> edge key xs i)"

text \<open>A heap in which only the item at \<open>j\<close> may be too small, or only the item at \<open>j\<close> may be too large.\<close>

definition skips :: "('a \<Rightarrow> int) \<Rightarrow> nat \<Rightarrow> nat \<Rightarrow> 'a list \<Rightarrow> bool" where
  "skips key n j xs \<longleftrightarrow> (\<forall>i. 0 < i \<and> i < n \<and> parent i = j \<and> 0 < j \<longrightarrow> key (xs ! parent j) \<le> key (xs ! i))"

definition up_ok :: "('a \<Rightarrow> int) \<Rightarrow> nat \<Rightarrow> nat \<Rightarrow> 'a list \<Rightarrow> bool" where
  "up_ok key n j xs \<longleftrightarrow> (\<forall>i. 0 < i \<and> i < n \<and> i \<noteq> j \<longrightarrow> edge key xs i) \<and> skips key n j xs"

definition down_ok :: "('a \<Rightarrow> int) \<Rightarrow> nat \<Rightarrow> nat \<Rightarrow> 'a list \<Rightarrow> bool" where
  "down_ok key n j xs \<longleftrightarrow> (\<forall>i. 0 < i \<and> i < n \<and> parent i \<noteq> j \<and> i \<noteq> j \<longrightarrow> edge key xs i) \<and> skips key n j xs"

lemma up_ok_swap:
  assumes ok: "up_ok key n j xs" and j: "0 < j" "j < n" "n \<le> length xs"
    and less: "key (xs ! j) < key (xs ! parent j)"
  shows "up_ok key n (parent j) (xs[parent j := xs ! j, j := xs ! parent j])"
    (is "up_ok key n ?p ?ys")
proof -
  have y: "?ys ! ?p = xs ! j" "?ys ! j = xs ! ?p" "\<And>i. i \<noteq> ?p \<Longrightarrow> i \<noteq> j \<Longrightarrow> ?ys ! i = xs ! i"
    using j parent_less [OF j(1)] by (auto simp: nth_list_update )
  have e: "key (xs ! parent i) \<le> key (xs ! i)" if "0 < i" "i < n" "i \<noteq> j" for i
    using ok that by (simp add: up_ok_def edge_def)
  have s: "key (xs ! ?p) \<le> key (xs ! i)" if "0 < i" "i < n" "parent i = j" for i
    using ok that j by (auto simp: up_ok_def skips_def)
  have "edge key ?ys i" if i: "0 < i" "i < n" "i \<noteq> ?p" for i
  proof (cases "i = j")
    case True
    then show ?thesis using y less by (simp add: edge_def)
  next
    case False
    consider "parent i = ?p" | "parent i = j" | "parent i \<noteq> ?p" "parent i \<noteq> j" by blast
    then show ?thesis
      using i False y(3) [of i] y(3) [of "parent i"] e [of i] s [of i] y(1,2) less
      by cases (auto simp: edge_def)
  qed
  moreover have "key (?ys ! parent ?p) \<le> key (?ys ! i)" if i: "0 < i" "i < n" "parent i = ?p" "0 < ?p" for i
  proof -
    have "parent ?p < ?p" using i parent_less by blast
    then have pp: "?ys ! parent ?p = xs ! parent ?p"
      using parent_less [OF j(1)] by (intro y(3)) linarith+
    have "key (xs ! parent ?p) \<le> key (xs ! ?p)"
      using i j parent_less [OF j(1)] by (intro e) auto
    moreover have "i \<noteq> ?p" using i parent_less [of i] by auto
    ultimately show ?thesis
      using pp y e [of i] i y(3) [of i] by (cases "i = j") auto
  qed
  ultimately show ?thesis
    unfolding up_ok_def skips_def by blast
qed

lemma heap_up_heap:
  "up_ok key n j (slice h) \<Longrightarrow> j < n \<Longrightarrow> n \<le> length (slice h) \<Longrightarrow> heap_to key n (slice (heap_up key j h))"
proof (induction j arbitrary: h rule: less_induct)
  case (less j)
  show ?case
  proof (cases "j = 0 \<or> \<not> heap_Less key j (parent j) h")
    case True
    then have "0 < j \<Longrightarrow> edge key (slice h) j"
      by (auto simp: edge_def heap_Less_def)
    then have "heap_to key n (slice h)"
      using less.prems by (auto simp: heap_to_def up_ok_def)
    then show ?thesis using True by (simp add: heap_up_step [of key j h])
  next
    case False
    then have "up_ok key n (parent j) (slice (heap_Swap (parent j) j h))"
      using less.prems by (simp add: heap_Less_def up_ok_swap)
    moreover have "parent j < j" using False parent_less [of j] by simp
    ultimately show ?thesis
      using False less by (subst heap_up_step) simp
  qed
qed

lemma parent_child: "parent i = j \<Longrightarrow> 0 < i \<Longrightarrow> i = 2 * j + 1 \<or> i = 2 * j + 2"
  unfolding parent_def by presburger

lemma child_parent: "parent (child key i n h) = i"
  by (simp add: child_def parent_def)

lemma child_least:
  "0 < i \<Longrightarrow> i < n \<Longrightarrow> parent i = j \<Longrightarrow> key (slice h ! child key j n h) \<le> key (slice h ! i)"
  using parent_child [of i j] by (auto simp: child_def heap_Less_def)

lemma down_ok_swap:
  assumes ok: "down_ok key n j xs" and c: "parent c = j" "0 < c" "c < n" "n \<le> length xs"
    and least: "\<And>i. 0 < i \<Longrightarrow> i < n \<Longrightarrow> parent i = j \<Longrightarrow> key (xs ! c) \<le> key (xs ! i)"
    and less: "key (xs ! c) < key (xs ! j)"
  shows "down_ok key n c (xs[j := xs ! c, c := xs ! j])" (is "down_ok key n c ?ys")
    and "edge key (xs[j := xs ! c, c := xs ! j]) c"
    and "0 < j \<Longrightarrow> edge key (xs[j := xs ! c, c := xs ! j]) j"
proof -
  have jc: "j < c" using c parent_less [of c] by simp
  have y: "?ys ! c = xs ! j" "?ys ! j = xs ! c" "\<And>i. i \<noteq> c \<Longrightarrow> i \<noteq> j \<Longrightarrow> ?ys ! i = xs ! i"
    using c jc by (auto simp: nth_list_update)
  have e: "key (xs ! parent i) \<le> key (xs ! i)" if "0 < i" "i < n" "parent i \<noteq> j" "i \<noteq> j" for i
    using ok that by (simp add: down_ok_def edge_def)
  show "edge key ?ys c"
    using y c less by (simp add: edge_def)
  show ej: "edge key ?ys j" if "0 < j"
  proof -
    have "key (xs ! parent j) \<le> key (xs ! c)"
      using ok that c by (auto simp: down_ok_def skips_def)
    moreover have "?ys ! parent j = xs ! parent j"
      using parent_less [OF that] jc by (intro y(3)) auto
    ultimately show ?thesis using y by (simp add: edge_def)
  qed
  have "edge key ?ys i" if i: "0 < i" "i < n" "parent i \<noteq> c" "i \<noteq> c" for i
  proof (cases "i = j \<or> parent i = j")
    case True
    then show ?thesis
      using ej i least [of i] y(2) y(3) [of i] by (auto simp: edge_def)
  next
    case False
    then show ?thesis
      using i e [of i] y(3) [of i] y(3) [of "parent i"] by (auto simp: edge_def)
  qed
  moreover have "key (?ys ! parent c) \<le> key (?ys ! i)" if i: "0 < i" "i < n" "parent i = c" for i
  proof -
    have "c < i" using i parent_less [of i] by simp
    then show ?thesis
      using i e [of i] y(3) [of i] y(2) c jc by auto
  qed
  ultimately show "down_ok key n c ?ys"
    unfolding down_ok_def skips_def by blast
qed

lemma child_swap:
  assumes ok: "down_ok key n i (slice h)" and c: "\<not> (n \<le> 2 * i + 1 \<or> \<not> heap_Less key (child key i n h) i h)"
    and n: "n \<le> length (slice h)"
  shows "down_ok key n (child key i n h) (slice (heap_Swap i (child key i n h) h))"
    and "edge key (slice (heap_Swap i (child key i n h) h)) (child key i n h)"
proof -
  let ?c = "child key i n h"
  have b: "0 < ?c" "?c < n" using c child_bounds [of i n key h] by auto
  have less: "key (slice h ! ?c) < key (slice h ! i)"
    using c by (simp add: heap_Less_def)
  note sw = down_ok_swap [OF ok child_parent b n child_least less]
  show "down_ok key n ?c (slice (heap_Swap i ?c h))" "edge key (slice (heap_Swap i ?c h)) ?c"
    unfolding slice_Swap by (rule sw; assumption)+
qed

lemma heap_down_heap:
  "down_ok key n i (slice h) \<Longrightarrow> 0 < i \<longrightarrow> edge key (slice h) i \<Longrightarrow> n \<le> length (slice h) \<Longrightarrow>
   heap_to key n (slice (snd (heap_down key i n h)))"
proof (induction "n - i" arbitrary: i h rule: less_induct)
  case less
  let ?c = "child key i n h"
  show ?case
  proof (cases "n \<le> 2 * i + 1 \<or> \<not> heap_Less key ?c i h")
    case True
    have "edge key (slice h) k" if k: "0 < k" "k < n" "parent k = i" for k
      using True child_least [OF k, of key h] parent_child [OF k(3,1)] k by (auto simp: edge_def heap_Less_def)
    then have "heap_to key n (slice h)"
      using less.prems by (auto simp: heap_to_def down_ok_def)
    then show ?thesis using True by (simp add: heap_down_step [of key i n h])
  next
    case False
    then have c: "i < ?c" "?c < n" by (auto simp: child_bounds)
    have "n - ?c < n - i" using c by simp
    then have "heap_to key n (slice (snd (heap_down key ?c n (heap_Swap i ?c h))))"
      using child_swap [OF less.prems(1) False less.prems(3)] less.prems(3) by (intro less.hyps) simp_all
    then show ?thesis
      using False by (subst heap_down_step) auto
  qed
qed

text \<open>Sifting an item whose key is arbitrary, down and else up, makes the heap whole.\<close>

lemma heap_sift_heap:
  assumes ok: "down_ok key n i (slice h)" and i: "i < n" "n \<le> length (slice h)"
  shows "heap_to key n (slice (heap_sift key i n h))"
proof (cases "n \<le> 2 * i + 1 \<or> \<not> heap_Less key (child key i n h) i h")
  case True
  have "edge key (slice h) k" if k: "0 < k" "k < n" "parent k = i" for k
    using True child_least [OF k, of key h] parent_child [OF k(3,1)] k by (auto simp: edge_def heap_Less_def)
  then have "up_ok key n i (slice h)"
    using ok by (auto simp: up_ok_def down_ok_def)
  then show ?thesis
    using True i heap_up_heap by (simp add: heap_sift_def heap_down_step [of key i n h])
next
  case False
  let ?c = "child key i n h"
  let ?s = "heap_Swap i ?c h"
  have c: "i < ?c" "?c < n" using False by (auto simp: child_bounds)
  have "heap_to key n (slice (snd (heap_down key ?c n ?s)))"
    using child_swap [OF ok False i(2)] i by (intro heap_down_heap) simp_all
  moreover have "i < fst (heap_down key ?c n ?s)"
    using c i heap_down_rearranged [of n ?s key ?c] by simp
  moreover have "heap_down key i n h = heap_down key ?c n ?s"
    using False by (subst heap_down_step) auto
  ultimately show ?thesis
    by (auto simp: heap_sift_def split: prod.splits)
qed

lemma heap_sift_rearranged:
  "i < n \<Longrightarrow> n \<le> length (slice h) \<Longrightarrow> rearranged n h (heap_sift key i n h)"
proof -
  assume i: "i < n" "n \<le> length (slice h)"
  obtain i' h' where d: "heap_down key i n h = (i', h')" by fastforce
  have "rearranged n h h'"
    using heap_down_rearranged [OF i(2), of key i] d by simp
  moreover have "rearranged n h' (heap_up key i h')"
    using i rearranged_length [OF calculation] by (intro heap_up_rearranged) auto
  ultimately show ?thesis
    using d rearranged_trans by (auto simp: heap_sift_def)
qed

section \<open>The interface\<close>

text \<open>The marks of the two heaps: \<open>ageHeap.Pop\<close> leaves the position, \<open>rotationHeap.Pop\<close> sets it to \<open>-1\<close>.\<close>

definition keep_mark :: "'a \<Rightarrow> ('a \<Rightarrow> int) \<Rightarrow> 'a \<Rightarrow> int" where
  "keep_mark x p = p"

definition clear_mark :: "'a \<Rightarrow> ('a \<Rightarrow> int) \<Rightarrow> 'a \<Rightarrow> int" where
  "clear_mark x p = p(x := - 1)"

definition empty_heap :: "('a \<Rightarrow> int) \<Rightarrow> 'a heap" where
  "empty_heap p = \<lparr>slice = [], position = p\<rparr>"

definition heap_ok :: "('a \<Rightarrow> int) \<Rightarrow> 'a heap \<Rightarrow> bool" where
  "heap_ok key h \<longleftrightarrow> positioned h \<and> heap_to key (length (slice h)) (slice h)"

lemma heap_ok_empty [simp]: "heap_ok key (empty_heap p)"
  by (simp add: heap_ok_def positioned_def heap_to_def empty_heap_def)

lemma heap_ok_cong:
  assumes "\<And>x. x \<in> set (slice h) \<Longrightarrow> key' x = key x"
  shows "heap_ok key' h \<longleftrightarrow> heap_ok key h"
  using assms by (auto simp: heap_ok_def heap_to_def edge_def parent_lt)

lemma heap_to_min:
  assumes "heap_to key n xs"
  shows "i < n \<Longrightarrow> key (xs ! 0) \<le> key (xs ! i)"
proof (induction i rule: less_induct)
  case (less i)
  show ?case
  proof (cases "i = 0")
    case False
    then have "key (xs ! 0) \<le> key (xs ! parent i)"
      using less.prems False parent_less [of i] parent_lt [of i n] by (intro less.IH) auto
    also have "\<dots> \<le> key (xs ! i)"
      using assms less.prems False by (simp add: heap_to_def edge_def)
    finally show ?thesis .
  qed simp
qed

lemma heap_min:
  assumes "heap_ok key h" and "x \<in> set (slice h)"
  shows "key (slice h ! 0) \<le> key x"
  using assms heap_to_min [of key "length (slice h)" "slice h"] by (auto simp: heap_ok_def in_set_conv_nth)

lemma heap_position:
  "heap_ok key h \<Longrightarrow> x \<in> set (slice h) \<Longrightarrow>
   \<exists>i < length (slice h). position h x = int i \<and> slice h ! i = x"
  by (auto simp: heap_ok_def positioned_def in_set_conv_nth)

lemma positioned_Push: "positioned h \<Longrightarrow> x \<notin> set (slice h) \<Longrightarrow> positioned (slice_Push x h)"
  by (auto simp: positioned_def slice_Push_def nth_append)

lemma heap_Push_ok:
  assumes "heap_ok key h" and "x \<notin> set (slice h)"
  shows "heap_ok key (heap_Push key x h) \<and> mset (slice (heap_Push key x h)) = add_mset x (mset (slice h))"
proof -
  let ?h = "slice_Push x h" and ?n = "length (slice h)"
  have len: "length (slice ?h) = Suc ?n" by (simp add: slice_Push_def)
  have "up_ok key (Suc ?n) ?n (slice ?h)"
    using assms(1) parent_child [of _ ?n]
    by (fastforce simp: up_ok_def skips_def heap_ok_def heap_to_def edge_def slice_Push_def nth_append parent_lt)
  then have "heap_to key (Suc ?n) (slice (heap_up key ?n ?h))"
    using len by (intro heap_up_heap) auto
  moreover have r: "rearranged (Suc ?n) ?h (heap_up key ?n ?h)"
    using len by (intro heap_up_rearranged) auto
  moreover have "positioned ?h"
    using assms by (simp add: heap_ok_def positioned_Push)
  moreover have "mset (slice ?h) = add_mset x (mset (slice h))"
    by (simp add: slice_Push_def)
  ultimately show ?thesis
    using rearranged_length [OF r] len by (simp add: heap_Push_def Let_def heap_ok_def rearranged_def)
qed

lemma positioned_Pop:
  assumes "positioned h" and "slice h \<noteq> []" and "\<And>y. y \<noteq> last (slice h) \<Longrightarrow> mark (last (slice h)) (position h) y = position h y"
  shows "positioned (snd (slice_Pop mark h))"
proof -
  have "distinct (butlast (slice h) @ [last (slice h)])"
    using assms(1,2) by (simp add: positioned_def)
  then have "last (slice h) \<notin> set (butlast (slice h))"
    by simp
  then have "butlast (slice h) ! i \<noteq> last (slice h)" if "i < length (butlast (slice h))" for i
    using that by (metis nth_mem)
  then show ?thesis
    using assms by (auto simp: positioned_def slice_Pop_def Let_def nth_butlast distinct_butlast)
qed

text \<open>The general removal: the item at \<open>i\<close> was swapped behind a heap of the other items.\<close>

lemma slice_Pop_ok:
  assumes "positioned h" and "heap_to key n (slice h)" and "length (slice h) = Suc n"
    and "\<And>x y. y \<noteq> x \<Longrightarrow> mark x (position h) y = position h y"
  shows "heap_ok key (snd (slice_Pop mark h))" and "fst (slice_Pop mark h) = slice h ! n"
    and "add_mset (slice h ! n) (mset (slice (snd (slice_Pop mark h)))) = mset (slice h)"
proof -
  have ne: "slice h \<noteq> []" using assms(3) by auto
  show "heap_ok key (snd (slice_Pop mark h))"
    using positioned_Pop [OF assms(1) ne, of mark] assms(2,3,4)
    by (auto simp: heap_ok_def slice_Pop_def Let_def heap_to_def edge_def nth_butlast parent_lt)
  show l: "fst (slice_Pop mark h) = slice h ! n"
    using ne assms(3) by (simp add: slice_Pop_def Let_def last_conv_nth)
  show "add_mset (slice h ! n) (mset (slice (snd (slice_Pop mark h)))) = mset (slice h)"
    using ne assms(3) by (metis add_mset_add_single append_butlast_last_id l mset.simps mset_append
        slice_Pop_def fst_conv snd_conv heap.select_convs(1))
qed

lemma Swap_down_ok:
  assumes "heap_to key (Suc n) xs" and "i < n" and "length xs = Suc n"
  shows "down_ok key n i (xs[i := xs ! n, n := xs ! i])" (is "down_ok key n i ?ys")
proof -
  have y: "\<And>k. k \<noteq> i \<Longrightarrow> k < n \<Longrightarrow> ?ys ! k = xs ! k"
    using assms by (auto simp: nth_list_update)
  have e: "\<And>k. 0 < k \<Longrightarrow> k < n \<Longrightarrow> key (xs ! parent k) \<le> key (xs ! k)"
    using assms(1) by (auto simp: heap_to_def edge_def)
  have "edge key ?ys k" if "0 < k" "k < n" "parent k \<noteq> i" "k \<noteq> i" for k
    using y [of k] y [of "parent k"] e [of k] parent_lt [of k n] that by (simp add: edge_def)
  moreover have "key (?ys ! parent i) \<le> key (?ys ! k)" if k: "0 < k" "k < n" "parent k = i" "0 < i" for k
  proof -
    have "k \<noteq> i" "parent i \<noteq> i" using k parent_less [of k] by auto
    then show ?thesis
      using y [of k] y [of "parent i"] e [of k] e [of i] parent_lt [of i n] k assms(2) by simp
  qed
  ultimately show ?thesis
    unfolding down_ok_def skips_def by blast
qed

lemma heap_Remove_ok:
  assumes ok: "heap_ok key h" and i: "i < length (slice h)"
    and mark: "\<And>x y p. y \<noteq> x \<Longrightarrow> mark x p y = p y"
  shows "heap_ok key (snd (heap_Remove mark key i h))" and "fst (heap_Remove mark key i h) = slice h ! i"
    and "add_mset (slice h ! i) (mset (slice (snd (heap_Remove mark key i h)))) = mset (slice h)"
proof -
  define n where "n = length (slice h) - 1"
  have n: "length (slice h) = Suc n" using i n_def by auto
  define g where "g = (if n \<noteq> i then heap_sift key i n (heap_Swap i n h) else h)"
  have pos: "positioned h" and hp: "heap_to key (Suc n) (slice h)"
    using ok n by (simp_all add: heap_ok_def)
  have g: "positioned g \<and> heap_to key n (slice g) \<and> length (slice g) = Suc n \<and> slice g ! n = slice h ! i \<and>
      mset (slice g) = mset (slice h)"
  proof (cases "n = i")
    case True
    then show ?thesis using pos hp n by (auto simp: g_def heap_to_def)
  next
    case False
    then have i': "i < n" using i n by auto
    let ?s = "heap_Swap i n h"
    have r: "rearranged n ?s (heap_sift key i n ?s)"
      using i' n by (intro heap_sift_rearranged) auto
    have "down_ok key n i (slice ?s)"
      using Swap_down_ok [OF hp i' n] by simp
    then have "heap_to key n (slice (heap_sift key i n ?s))"
      using i' n by (intro heap_sift_heap) auto
    moreover have "positioned ?s" using pos i' n by (intro positioned_Swap) auto
    moreover have "slice (heap_sift key i n ?s) ! n = slice h ! i"
      using rearranged_nth [OF r] n i' by simp
    ultimately show ?thesis
      using False r rearranged_length [OF r] n i' by (simp add: g_def rearranged_def mset_Swap)
  qed
  have rem: "heap_Remove mark key i h = slice_Pop mark g"
    by (simp add: heap_Remove_def Let_def g_def n_def)
  show "heap_ok key (snd (heap_Remove mark key i h))" "fst (heap_Remove mark key i h) = slice h ! i"
    "add_mset (slice h ! i) (mset (slice (snd (heap_Remove mark key i h)))) = mset (slice h)"
    using slice_Pop_ok [of g key n mark] g mark rem by auto
qed

lemma heap_Pop_ok:
  assumes ok: "heap_ok key h" and ne: "slice h \<noteq> []" and mark: "\<And>x y p. y \<noteq> x \<Longrightarrow> mark x p y = p y"
  shows "heap_ok key (snd (heap_Pop mark key h))" and "fst (heap_Pop mark key h) = slice h ! 0"
    and "add_mset (slice h ! 0) (mset (slice (snd (heap_Pop mark key h)))) = mset (slice h)"
proof -
  define n where "n = length (slice h) - 1"
  have n: "length (slice h) = Suc n" using ne n_def by (cases "slice h") auto
  let ?s = "heap_Swap 0 n h"
  define g where "g = snd (heap_down key 0 n ?s)"
  have hp: "heap_to key (Suc n) (slice h)" "positioned h"
    using ok n by (simp_all add: heap_ok_def)
  then have "positioned ?s"
    using n by (intro positioned_Swap) auto
  moreover have "down_ok key n 0 (slice ?s)"
    using Swap_down_ok [OF hp(1) _ n] by (cases "n = 0") (auto simp: down_ok_def skips_def)
  moreover have r: "rearranged n ?s g"
    using heap_down_rearranged [of n ?s key 0] n by (simp add: g_def)
  ultimately have "positioned g" "heap_to key n (slice g)" "length (slice g) = Suc n" "slice g ! n = slice h ! 0"
    "mset (slice g) = mset (slice h)"
    using heap_down_heap [of key n 0 ?s] rearranged_length [OF r] rearranged_nth [OF r] n
    by (auto simp: g_def rearranged_def mset_Swap)
  then show "heap_ok key (snd (heap_Pop mark key h))" "fst (heap_Pop mark key h) = slice h ! 0"
    "add_mset (slice h ! 0) (mset (slice (snd (heap_Pop mark key h)))) = mset (slice h)"
    using slice_Pop_ok [of g key n mark] mark
    by (auto simp: heap_Pop_def Let_def g_def n_def)
qed

lemma heap_Fix_ok:
  assumes ok: "heap_ok key h" and i: "i < length (slice h)" and x: "slice h ! i = x"
    and key': "\<And>y. y \<noteq> x \<Longrightarrow> key' y = key y"
  shows "heap_ok key' (heap_Fix key' i h) \<and> mset (slice (heap_Fix key' i h)) = mset (slice h)"
proof -
  let ?n = "length (slice h)"
  have d: "distinct (slice h)" using ok by (simp add: heap_ok_def positioned_def)
  have other: "key' (slice h ! k) = key (slice h ! k)" if "k < ?n" "k \<noteq> i" for k
    using d i x that key' nth_eq_iff_index_eq by blast
  have e: "\<And>k. 0 < k \<Longrightarrow> k < ?n \<Longrightarrow> key (slice h ! parent k) \<le> key (slice h ! k)"
    using ok by (auto simp: heap_ok_def heap_to_def edge_def)
  have lt: "\<And>k. 0 < k \<Longrightarrow> k < ?n \<Longrightarrow> parent k < ?n"
    by (rule parent_lt)
  have "down_ok key' ?n i (slice h)"
  proof -
    have "key (slice h ! parent i) \<le> key (slice h ! k)" if "0 < k" "k < ?n" "parent k = i" "0 < i" for k
      using e [of k] e [of i] that i by auto
    moreover have "parent i \<noteq> i" if "0 < i" using that by auto
    moreover have "parent k = i \<Longrightarrow> 0 < k \<Longrightarrow> k \<noteq> i" for k by auto
    ultimately show ?thesis
      using other e lt i by (auto simp: down_ok_def skips_def edge_def)
  qed
  then have "heap_to key' ?n (slice (heap_sift key' i ?n h))"
    using i by (intro heap_sift_heap) auto
  moreover have r: "rearranged ?n h (heap_sift key' i ?n h)"
    using i by (intro heap_sift_rearranged) auto
  ultimately show ?thesis
    using ok rearranged_length [OF r] by (simp add: heap_Fix_def heap_ok_def rearranged_def)
qed

section \<open>A queue by least key\<close>

text \<open>What the clients of the two heaps rely on: the items, and that the first item has the least key.\<close>

locale min_queue =
  fixes ok :: "('a \<Rightarrow> int) \<Rightarrow> 'q \<Rightarrow> bool"
    and items :: "'q \<Rightarrow> 'a list"
    and push :: "('a \<Rightarrow> int) \<Rightarrow> 'a \<Rightarrow> 'q \<Rightarrow> 'q"
    and pop :: "('a \<Rightarrow> int) \<Rightarrow> 'q \<Rightarrow> 'a \<times> 'q"
  assumes push_ok: "ok k q \<Longrightarrow> x \<notin> set (items q) \<Longrightarrow> ok k (push k x q)"
    and push_items: "ok k q \<Longrightarrow> x \<notin> set (items q) \<Longrightarrow> mset (items (push k x q)) = add_mset x (mset (items q))"
    and first_least: "ok k q \<Longrightarrow> x \<in> set (items q) \<Longrightarrow> k (items q ! 0) \<le> k x"
    and pop_ok: "ok k q \<Longrightarrow> items q \<noteq> [] \<Longrightarrow> ok k (snd (pop k q))"
    and pop_first: "ok k q \<Longrightarrow> items q \<noteq> [] \<Longrightarrow> fst (pop k q) = items q ! 0"
    and pop_items: "ok k q \<Longrightarrow> items q \<noteq> [] \<Longrightarrow>
      mset (items q) = add_mset (items q ! 0) (mset (items (snd (pop k q))))"
begin

lemma push_set: "ok k q \<Longrightarrow> x \<notin> set (items q) \<Longrightarrow> set (items (push k x q)) = insert x (set (items q))"
  using push_items [of k q x] by (metis set_mset_add_mset_insert set_mset_mset)

lemma pop_length: "ok k q \<Longrightarrow> items q \<noteq> [] \<Longrightarrow> length (items (snd (pop k q))) < length (items q)"
  using pop_items [of k q] by (metis lessI size_add_mset size_mset)

lemma first_due: "ok k q \<Longrightarrow> items q \<noteq> [] \<Longrightarrow> k (items q ! 0) \<le> t \<longleftrightarrow> (\<exists>x \<in> set (items q). k x \<le> t)"
  using first_least order_trans by (metis length_greater_0_conv nth_mem)

lemma first_Min: "ok k q \<Longrightarrow> items q \<noteq> [] \<Longrightarrow> k (items q ! 0) = Min (k ` set (items q))"
  by (rule Min_eqI [symmetric]) (auto intro: first_least)

end

lemma heap_min_queue:
  assumes "\<And>x y p. y \<noteq> x \<Longrightarrow> mark x p y = p y"
  shows "min_queue heap_ok slice heap_Push (heap_Pop mark)"
proof
  fix k :: "'a \<Rightarrow> int" and q :: "'a heap" and x :: 'a
  show "heap_ok k (heap_Push k x q)" "mset (slice (heap_Push k x q)) = add_mset x (mset (slice q))"
    if "heap_ok k q" "x \<notin> set (slice q)"
    using heap_Push_ok [OF that] by simp_all
  show "k (slice q ! 0) \<le> k x" if "heap_ok k q" "x \<in> set (slice q)"
    using that by (rule heap_min)
  show "heap_ok k (snd (heap_Pop mark k q))" "fst (heap_Pop mark k q) = slice q ! 0"
    "mset (slice q) = add_mset (slice q ! 0) (mset (slice (snd (heap_Pop mark k q))))"
    if "heap_ok k q" "slice q \<noteq> []"
    using heap_Pop_ok [OF that, of mark] assms by simp_all
qed

interpretation ages: min_queue heap_ok slice heap_Push "heap_Pop keep_mark"
  by (rule heap_min_queue) (simp add: keep_mark_def)

interpretation rotations: min_queue heap_ok slice heap_Push "heap_Pop clear_mark"
  by (rule heap_min_queue) (simp add: clear_mark_def)

end
