(* ===== verification/WalIndex.thy ===== *)
theory WalIndex
  imports GoHeap Admission
begin

text \<open>
  \<open>pkg/wal/index.go\<close>: the closed segments of a repository by prefix, with running totals and a heap of
  creation times.

  An \<open>*ageEntry\<close> is a number; the field \<open>entry_time\<close> holds the \<open>createdAt\<close> of every entry and the heap of the
  theory GoHeap its \<open>index\<close> field. The entries that are linked by \<open>next\<close> from \<open>agesByPath[path]\<close> are a list. The
  admission controller the index notifies is an argument of \<open>Remove\<close>. Where the code ranges over the map
  of segments, \<open>ks\<close> is the order in which Go visits the prefixes; \<open>sort.Slice\<close> leaves ties in an order that
  is not specified, which here is the order of \<open>ks\<close>.
\<close>

section \<open>State\<close>

record segment_info =
  Prefix :: string
  Ulid :: string
  Path :: string
  Size :: int
  CreatedAt :: gotime
  SPriority :: priority

record index =
  segments :: "string \<rightharpoonup> segment_info list"
  totalSize :: int
  sizeByPriority :: "priority \<Rightarrow> int"
  ages :: "nat heap"
  agesByPath :: "string \<rightharpoonup> nat list"
  entry_time :: "nat \<Rightarrow> gotime"
  next_entry :: nat
  subscribers :: "nat list"

definition NewIndex :: index where
  "NewIndex = \<lparr>segments = Map.empty, totalSize = 0, sizeByPriority = (\<lambda>_. 0), ages = empty_heap (\<lambda>_. 0),
     agesByPath = Map.empty, entry_time = (\<lambda>_. tzero), next_entry = 0, subscribers = []\<rparr>"

definition chain :: "index \<Rightarrow> string \<Rightarrow> nat list" where
  "chain i path = (case agesByPath i path of None \<Rightarrow> [] | Some es \<Rightarrow> es)"

definition index_Get :: "string \<Rightarrow> index \<Rightarrow> segment_info list" where
  "index_Get prefix i = (case segments i prefix of None \<Rightarrow> [] | Some ss \<Rightarrow> ss)"

section \<open>Add and Remove\<close>

text \<open>\<open>Add\<close>: the new index and the subscribers that are called with the segment.\<close>

definition index_Add :: "segment_info \<Rightarrow> index \<Rightarrow> index \<times> nat list" where
  "index_Add s i =
     (let e = next_entry i; time = (entry_time i)(e := CreatedAt s);
          i' = i\<lparr>totalSize := totalSize i + Size s,
                 sizeByPriority := (sizeByPriority i)(SPriority s := sizeByPriority i (SPriority s) + Size s),
                 segments := (segments i)(Prefix s \<mapsto> index_Get (Prefix s) i @ [s]),
                 entry_time := time, next_entry := Suc e,
                 ages := heap_Push time e (ages i),
                 agesByPath := (agesByPath i)(Path s \<mapsto> e # chain i (Path s))\<rparr>
      in (i', subscribers i))"

definition Subscribe :: "nat \<Rightarrow> index \<Rightarrow> index" where
  "Subscribe sub i = i\<lparr>subscribers := subscribers i @ [sub]\<rparr>"

definition unsubscribe :: "nat \<Rightarrow> index \<Rightarrow> index" where
  "unsubscribe sub i = i\<lparr>subscribers := filter (\<lambda>v. v \<noteq> sub) (subscribers i)\<rparr>"

text \<open>The first entry of a chain with the given time, and the chain without it.\<close>

fun unlink :: "(nat \<Rightarrow> gotime) \<Rightarrow> gotime \<Rightarrow> nat list \<Rightarrow> (nat \<times> nat list) option" where
  "unlink time c [] = None"
| "unlink time c (e # es) =
     (if time e = c then Some (e, es) else map_option (\<lambda>(x, es'). (x, e # es')) (unlink time c es))"

definition removeAge :: "string \<Rightarrow> gotime \<Rightarrow> index \<Rightarrow> index" where
  "removeAge path c i =
     (case unlink (entry_time i) c (chain i path) of
        None \<Rightarrow> i
      | Some (e, es) \<Rightarrow>
          i\<lparr>ages := snd (heap_Remove keep_mark (entry_time i) (nat (position (ages i) e)) (ages i)),
            agesByPath := (if es = [] then (agesByPath i)(path := None) else (agesByPath i)(path \<mapsto> es))\<rparr>)"

text \<open>The first segment of a list with the given path, and the list without it.\<close>

fun extract_path :: "string \<Rightarrow> segment_info list \<Rightarrow> (segment_info \<times> segment_info list) option" where
  "extract_path path [] = None"
| "extract_path path (s # ss) =
     (if Path s = path then Some (s, ss) else map_option (\<lambda>(x, ss'). (x, s # ss')) (extract_path path ss))"

text \<open>The part of \<open>Remove\<close> under the lock: the new index and the removed segment.\<close>

definition remove_locked :: "segment_info \<Rightarrow> index \<Rightarrow> index \<times> segment_info option" where
  "remove_locked s i =
     (case extract_path (Path s) (index_Get (Prefix s) i) of
        None \<Rightarrow> (i, None)
      | Some (seg, rest) \<Rightarrow>
          let i = i\<lparr>totalSize := totalSize i - Size seg,
                    sizeByPriority := (sizeByPriority i)(SPriority seg := sizeByPriority i (SPriority seg) - Size seg)\<rparr>;
              i = removeAge (Path seg) (CreatedAt seg) i
          in (i\<lparr>segments := (if rest = [] then (segments i)(Prefix s := None) else (segments i)(Prefix s \<mapsto> rest))\<rparr>,
              Some seg))"

definition index_Remove :: "segment_info \<Rightarrow> index \<Rightarrow> admission option \<Rightarrow> index \<times> admission option" where
  "index_Remove s i ao =
     (case remove_locked s i of
        (i', None) \<Rightarrow> (i', ao)
      | (i', Some seg) \<Rightarrow>
          (case DestinationFromPrefix (Prefix seg) of
             (d, None) \<Rightarrow> (i', map_option (Forget d (Path seg)) ao)
           | (d, Some e) \<Rightarrow> (i', ao)))"

section \<open>Queries\<close>

fun older :: "segment_info list \<Rightarrow> segment_info option \<Rightarrow> segment_info option" where
  "older [] acc = acc"
| "older (s # ss) acc =
     older ss (case acc of
                 None \<Rightarrow> Some s
               | Some o' \<Rightarrow> if CreatedAt o' = tzero \<or> CreatedAt s < CreatedAt o' then Some s else acc)"

definition OldestPrefix :: "string list \<Rightarrow> index \<Rightarrow> string" where
  "OldestPrefix ks i =
     (case older (concat (map (\<lambda>k. index_Get k i) ks)) None of None \<Rightarrow> [] | Some s \<Rightarrow> Prefix s)"

definition size_of :: "segment_info list \<Rightarrow> int" where
  "size_of ss = sum_list (map Size ss)"

fun largest_size :: "index \<Rightarrow> string list \<Rightarrow> string \<times> int \<Rightarrow> string \<times> int" where
  "largest_size i [] acc = acc"
| "largest_size i (k # ks) (prefix, largest) =
     (let ss = index_Get k i; sum = size_of ss
      in largest_size i ks (if sum > largest \<or> prefix = [] then (Prefix (hd ss), sum) else (prefix, largest)))"

definition LargestSizePrefix :: "string list \<Rightarrow> index \<Rightarrow> string" where
  "LargestSizePrefix ks i = fst (largest_size i ks ([], 0))"

fun min_age :: "segment_info list \<Rightarrow> gotime \<Rightarrow> gotime" where
  "min_age [] age = age"
| "min_age (s # ss) age = min_age ss (if age = tzero \<or> CreatedAt s < age then CreatedAt s else age)"

fun largest_count :: "index \<Rightarrow> string list \<Rightarrow> string \<times> nat \<times> gotime \<Rightarrow> string \<times> nat \<times> gotime" where
  "largest_count i [] acc = acc"
| "largest_count i (k # ks) (prefix, cnt, minAge) =
     (let ss = index_Get k i; age = min_age ss tzero
      in largest_count i ks
           (if length ss > cnt \<or> prefix = [] then (Prefix (hd ss), length ss, age)
            else if length ss = cnt \<and> age < minAge then (Prefix (hd ss), length ss, age)
            else (prefix, cnt, minAge)))"

definition LargestCountPrefix :: "string list \<Rightarrow> index \<Rightarrow> string" where
  "LargestCountPrefix ks i = fst (largest_count i ks ([], 0, tzero))"

definition TotalSegments :: "string list \<Rightarrow> index \<Rightarrow> nat" where
  "TotalSegments ks i = sum_list (map (\<lambda>k. length (index_Get k i)) ks)"

definition TotalPrefixes :: "string list \<Rightarrow> index \<Rightarrow> nat" where
  "TotalPrefixes ks i = length ks"

definition PrefixesBySize :: "string list \<Rightarrow> index \<Rightarrow> string list" where
  "PrefixesBySize ks i = sort_key (\<lambda>k. size_of (index_Get k i)) ks"

definition Prefixes :: "string list \<Rightarrow> string list \<Rightarrow> string list" where
  "Prefixes ks dst = dst @ ks"

definition PrefixesByAge :: "string list \<Rightarrow> index \<Rightarrow> string list" where
  "PrefixesByAge ks i = sort_key (\<lambda>k. min_age (index_Get k i) tzero) ks"

definition PrefixesByCount :: "string list \<Rightarrow> index \<Rightarrow> string list" where
  "PrefixesByCount ks i = sort_key (\<lambda>k. (length (index_Get k i), k)) ks"

definition TotalSizeByPriority :: "priority \<Rightarrow> index \<Rightarrow> int" where
  "TotalSizeByPriority p i = sizeByPriority i p"

definition index_Contains :: "string \<Rightarrow> index \<Rightarrow> bool" where
  "index_Contains path i = (agesByPath i path \<noteq> None)"

definition Oldest :: "string list \<Rightarrow> int \<Rightarrow> index \<Rightarrow> segment_info list" where
  "Oldest ks n i =
     (if n \<le> 0 then [] else take (nat n) (sort_key CreatedAt (concat (map (\<lambda>k. index_Get k i) ks))))"

definition OldestSegmentAge :: "gotime \<Rightarrow> index \<Rightarrow> duration" where
  "OldestSegmentAge now i =
     (if slice (ages i) = [] then 0 else now - entry_time i (slice (ages i) ! 0))"

section \<open>Invariant\<close>

text \<open>The sum of a weight over all segments of the index.\<close>

definition total :: "(segment_info \<Rightarrow> int) \<Rightarrow> index \<Rightarrow> int" where
  "total w i = sum_map (\<lambda>k ss. sum_list (map w ss)) (segments i)"

definition all_segments :: "index \<Rightarrow> segment_info set" where
  "all_segments i = {s. \<exists>k ss. segments i k = Some ss \<and> s \<in> set ss}"

definition at_path :: "string \<Rightarrow> gotime \<Rightarrow> segment_info \<Rightarrow> int" where
  "at_path path c s = (if Path s = path \<and> CreatedAt s = c then 1 else 0)"

definition entries_with :: "index \<Rightarrow> string \<Rightarrow> gotime \<Rightarrow> int" where
  "entries_with i path c = int (length (filter (\<lambda>e. entry_time i e = c) (chain i path)))"

definition index_inv :: "index \<Rightarrow> bool" where
  "index_inv i \<longleftrightarrow>
     finite (dom (segments i)) \<and>
     (\<forall>k ss. segments i k = Some ss \<longrightarrow> ss \<noteq> [] \<and> (\<forall>s \<in> set ss. Prefix s = k)) \<and>
     totalSize i = total Size i \<and>
     (\<forall>p. sizeByPriority i p = total (\<lambda>s. if SPriority s = p then Size s else 0) i) \<and>
     (\<forall>path c. entries_with i path c = total (at_path path c) i)"

definition ages_inv :: "index \<Rightarrow> bool" where
  "ages_inv i \<longleftrightarrow>
     heap_ok (entry_time i) (ages i) \<and>
     (\<forall>e \<in> set (slice (ages i)). e < next_entry i) \<and>
     set (slice (ages i)) = (\<Union>path. set (chain i path)) \<and>
     (\<forall>path. distinct (chain i path) \<and> agesByPath i path \<noteq> Some []) \<and>
     (\<forall>p q. p \<noteq> q \<longrightarrow> set (chain i p) \<inter> set (chain i q) = {})"

subsection \<open>Preservation\<close>

lemma index_inv_New: "index_inv NewIndex"
  by (simp add: index_inv_def NewIndex_def total_def entries_with_def chain_def)

lemma ages_inv_New: "ages_inv NewIndex"
  by (simp add: ages_inv_def NewIndex_def chain_def) (simp add: empty_heap_def)

lemma total_Add:
  assumes "finite (dom (segments i))"
  shows "total w (fst (index_Add s i)) = total w i + w s"
  using assms
  by (auto simp: total_def index_Add_def Let_def sum_map_upd index_Get_def split: option.split)

lemma entries_with_Add:
  assumes "ages_inv i"
  shows "entries_with (fst (index_Add s i)) path c = entries_with i path c + at_path path c s"
proof -
  define g where "g = fst (index_Add s i)"
  have g: "entry_time g = (entry_time i)(next_entry i := CreatedAt s)"
    "chain g path = (if path = Path s then next_entry i # chain i path else chain i path)"
    by (simp_all add: g_def chain_def index_Add_def Let_def)
  have "entry_time g e = entry_time i e" if "e \<in> set (chain i path)" for e
    using assms that by (fastforce simp: ages_inv_def g)
  then have "filter (\<lambda>e. entry_time g e = c) (chain i path) = filter (\<lambda>e. entry_time i e = c) (chain i path)"
    by (intro filter_cong) auto
  moreover have "entry_time g (next_entry i) = CreatedAt s" by (simp add: g)
  ultimately show ?thesis
    by (auto simp: entries_with_def at_path_def g(2) simp flip: g_def)
qed

lemma index_inv_Add:
  assumes "index_inv i" and "ages_inv i"
  shows "index_inv (fst (index_Add s i))"
proof -
  have fin: "finite (dom (segments i))" using assms(1) by (simp add: index_inv_def)
  have "\<forall>k ss. segments (fst (index_Add s i)) k = Some ss \<longrightarrow> ss \<noteq> [] \<and> (\<forall>s \<in> set ss. Prefix s = k)"
    using assms(1)
    by (cases "segments i (Prefix s)") (auto simp: index_inv_def index_Add_def Let_def index_Get_def split: if_splits)
  moreover have "finite (dom (segments (fst (index_Add s i))))"
    using fin by (simp add: index_Add_def Let_def)
  moreover have "totalSize (fst (index_Add s i)) = totalSize i + Size s"
    "\<And>p. sizeByPriority (fst (index_Add s i)) p = sizeByPriority i p + (if SPriority s = p then Size s else 0)"
    by (simp_all add: index_Add_def Let_def)
  ultimately show ?thesis
    using assms entries_with_Add [OF assms(2)] by (simp add: index_inv_def total_Add [OF fin])
qed

lemma ages_inv_Add:
  assumes "ages_inv i"
  shows "ages_inv (fst (index_Add s i))"
proof -
  let ?e = "next_entry i" and ?t = "(entry_time i)(next_entry i := CreatedAt s)"
  have old: "heap_ok (entry_time i) (ages i)" "\<forall>e \<in> set (slice (ages i)). e < ?e"
    "set (slice (ages i)) = (\<Union>path. set (chain i path))"
    "\<forall>path. distinct (chain i path) \<and> agesByPath i path \<noteq> Some []"
    "\<forall>p q. p \<noteq> q \<longrightarrow> set (chain i p) \<inter> set (chain i q) = {}"
    using assms by (simp_all add: ages_inv_def)
  have fresh: "?e \<notin> set (slice (ages i))" "\<And>p. ?e \<notin> set (chain i p)"
    using old(2,3) by auto
  have ok: "heap_ok ?t (ages i)"
    using old(1,2) by (subst heap_ok_cong [of _ _ "entry_time i"]) auto
  have "heap_ok ?t (heap_Push ?t ?e (ages i))" "set (slice (heap_Push ?t ?e (ages i))) = insert ?e (set (slice (ages i)))"
    using ages.push_ok [OF ok fresh(1)] ages.push_set [OF ok fresh(1)] .
  moreover have ch: "\<And>p. chain (fst (index_Add s i)) p = (if p = Path s then ?e # chain i p else chain i p)"
    by (simp add: chain_def index_Add_def Let_def)
  moreover have "(\<Union>p. set (chain (fst (index_Add s i)) p)) = insert ?e (\<Union>p. set (chain i p))"
    by (auto simp: ch split: if_splits)
  moreover have "set (chain (fst (index_Add s i)) p) \<inter> set (chain (fst (index_Add s i)) q) = {}" if "p \<noteq> q" for p q
    using old(5) fresh(2) that by (auto simp: ch)
  ultimately show ?thesis
    using old fresh by (auto simp: ages_inv_def) (auto simp: index_Add_def Let_def less_SucI)
qed

lemma unlink_None: "unlink time c es = None \<longleftrightarrow> filter (\<lambda>e. time e = c) es = []"
  by (induction es) auto

lemma unlink_Some:
  "unlink time c es = Some (e, es') \<Longrightarrow>
   time e = c \<and> mset es = add_mset e (mset es') \<and>
   int (length (filter (\<lambda>x. time x = c') es)) = int (length (filter (\<lambda>x. time x = c') es')) + (if c' = c then 1 else 0)"
  by (induction es arbitrary: es') (auto split: if_splits)

lemma extract_path_Some:
  "extract_path path ss = Some (s, ss') \<Longrightarrow>
   Path s = path \<and> mset ss = add_mset s (mset ss') \<and> sum_list (map w ss) = sum_list (map w ss') + (w s :: int)"
  by (induction ss arbitrary: ss') (auto split: if_splits)

lemma extract_path_None: "extract_path path ss = None \<longleftrightarrow> (\<forall>s \<in> set ss. Path s \<noteq> path)"
  by (induction ss) auto

lemma removeAge_ages_inv:
  assumes inv: "ages_inv i"
  shows "ages_inv (removeAge path c i)"
proof (cases "unlink (entry_time i) c (chain i path)")
  case None
  then show ?thesis using inv by (simp add: removeAge_def)
next
  case (Some x)
  then obtain e es where u: "unlink (entry_time i) c (chain i path) = Some (e, es)"
    by (cases x) auto
  note U = unlink_Some [OF u]
  have ms: "mset (chain i path) = add_mset e (mset es)" using U by blast
  let ?h = "ages i"
  have ok: "heap_ok (entry_time i) ?h" using inv by (simp add: ages_inv_def)
  have d: "distinct (chain i path)" using inv by (simp add: ages_inv_def)
  have "e \<in> set (chain i path)" using ms by (metis set_mset_mset union_single_eq_member)
  then have "e \<in> set (slice ?h)" using inv by (auto simp: ages_inv_def)
  then obtain k where k: "k < length (slice ?h)" "position ?h e = int k" "slice ?h ! k = e"
    using heap_position [OF ok] by blast
  define g where "g = snd (heap_Remove keep_mark (entry_time i) (nat (position ?h e)) ?h)"
  have g: "heap_ok (entry_time i) g" "add_mset e (mset (slice g)) = mset (slice ?h)"
    using heap_Remove_ok [OF ok k(1), of keep_mark] k by (simp_all add: g_def keep_mark_def)
  have dh: "distinct (slice ?h)" using ok by (simp add: heap_ok_def positioned_def)
  have slice_g: "set (slice g) = set (slice ?h) - {e}"
    using distinct_mset_remove [OF dh] g(2) by metis
  have es: "distinct es" "set es = set (chain i path) - {e}" "e \<notin> set es"
    using distinct_mset_remove [OF d ms] by blast+
  let ?i = "removeAge path c i"
  have r: "ages ?i = g" "entry_time ?i = entry_time i" "next_entry ?i = next_entry i"
    "\<And>p. chain ?i p = (if p = path then es else chain i p)" "\<And>p. agesByPath ?i p = Some [] \<Longrightarrow> agesByPath i p = Some []"
    using u by (auto simp: removeAge_def g_def chain_def split: if_splits)
  have other: "e \<notin> set (chain i p)" if "p \<noteq> path" for p
    using inv that \<open>e \<in> set (chain i path)\<close> unfolding ages_inv_def by blast
  have "(\<Union>p. set (chain ?i p)) = (\<Union>p. set (chain i p)) - {e}"
    using es other by (fastforce simp: r split: if_splits)
  moreover have "set (chain ?i p) \<inter> set (chain ?i q) = {}" if "p \<noteq> q" for p q
  proof -
    have "set (chain ?i p) \<subseteq> set (chain i p)" for p
      using es by (auto simp: r)
    moreover have "set (chain i p) \<inter> set (chain i q) = {}"
      using inv that by (simp add: ages_inv_def)
    ultimately show ?thesis by blast
  qed
  ultimately show ?thesis
    using inv g(1) slice_g es r by (auto simp: ages_inv_def)
qed

lemma removeAge_frame [simp]:
  "segments (removeAge path c i) = segments i" "totalSize (removeAge path c i) = totalSize i"
  "sizeByPriority (removeAge path c i) = sizeByPriority i" "entry_time (removeAge path c i) = entry_time i"
  by (auto simp: removeAge_def split: option.split)

lemma total_removeAge [simp]: "total w (removeAge path c i) = total w i"
  by (simp add: total_def)

lemma entries_with_removeAge:
  assumes "0 < entries_with i path c"
  shows "entries_with (removeAge path c i) path' c' =
         entries_with i path' c' - (if path' = path \<and> c' = c then 1 else 0)"
proof -
  obtain e es where u: "unlink (entry_time i) c (chain i path) = Some (e, es)"
    using assms unlink_None [of "entry_time i" c "chain i path"] by (auto simp: entries_with_def)
  have "chain (removeAge path c i) p = (if p = path then es else chain i p)" for p
    using u by (auto simp: removeAge_def chain_def)
  then show ?thesis
    using unlink_Some [OF u, of c'] by (auto simp: entries_with_def)
qed

lemma total_pos:
  assumes "finite (dom (segments i))" and "\<And>s. 0 \<le> w s"
  shows "0 < total w i \<longleftrightarrow> (\<exists>s \<in> all_segments i. 0 < w s)"
proof -
  have nn: "0 \<le> sum_list (map w ss)" for ss by (induction ss) (auto simp: assms(2))
  have pos: "0 < sum_list (map w ss) \<longleftrightarrow> (\<exists>s \<in> set ss. 0 < w s)" for ss
  proof (induction ss)
    case (Cons s ss)
    then show ?case using nn [of ss] assms(2) [of s] by (auto simp: order_less_le)
  qed simp
  have "0 < total w i \<longleftrightarrow> (\<exists>k \<in> dom (segments i). 0 < sum_list (map w (the (segments i k))))"
    unfolding total_def sum_map_def using assms(1) nn
    by (metis (mono_tags, lifting) not_less order_antisym_conv sum_nonneg sum_nonneg_eq_0_iff)
  also have "\<dots> \<longleftrightarrow> (\<exists>s \<in> all_segments i. 0 < w s)"
    unfolding all_segments_def dom_def pos Bex_def mem_Collect_eq by (metis option.collapse option.sel option.distinct(1))
  finally show ?thesis .
qed

lemma extract_mem: "extract_path path ss = Some (s, ss') \<Longrightarrow> s \<in> set ss \<and> set ss' \<subseteq> set ss"
  by (induction ss arbitrary: ss') (auto split: if_splits)

lemma Get_mem: "s \<in> set (index_Get k i) \<Longrightarrow> s \<in> all_segments i"
  by (cases "segments i k") (auto simp: index_Get_def all_segments_def)

lemma remove_locked_inv:
  assumes inv: "index_inv i" and ag: "ages_inv i"
  shows "index_inv (fst (remove_locked s i)) \<and> ages_inv (fst (remove_locked s i))"
proof (cases "extract_path (Path s) (index_Get (Prefix s) i)")
  case None
  then show ?thesis using assms by (simp add: remove_locked_def)
next
  case (Some x)
  then obtain seg rest where x: "extract_path (Path s) (index_Get (Prefix s) i) = Some (seg, rest)"
    by (cases x) auto
  then obtain ss where ss: "segments i (Prefix s) = Some ss" "extract_path (Path s) ss = Some (seg, rest)"
    by (cases "segments i (Prefix s)") (auto simp: index_Get_def)
  have fin: "finite (dom (segments i))" using inv by (simp add: index_inv_def)
  define j where "j = i\<lparr>totalSize := totalSize i - Size seg,
      sizeByPriority := (sizeByPriority i)(SPriority seg := sizeByPriority i (SPriority seg) - Size seg)\<rparr>"
  have j: "ages_inv j" "entries_with j = entries_with i" "segments j = segments i"
    using ag by (simp_all add: j_def ages_inv_def chain_def entries_with_def fun_eq_iff)
  define i' where "i' = fst (remove_locked s i)"
  have i': "i' = (removeAge (Path seg) (CreatedAt seg) j)\<lparr>segments :=
      (if rest = [] then (segments i)(Prefix s := None) else (segments i)(Prefix s \<mapsto> rest))\<rparr>"
    using x by (simp add: i'_def remove_locked_def j_def Let_def)
  have tot: "total w i' = total w i - w seg" for w
    using ss fin extract_path_Some [OF ss(2), of w]
    by (auto simp: i' total_def sum_map_upd sum_map_del)
  have "seg \<in> all_segments i"
    using extract_mem [OF x] Get_mem by blast
  then have "0 < entries_with j (Path seg) (CreatedAt seg)"
    using inv j total_pos [OF fin, of "at_path (Path seg) (CreatedAt seg)"]
    by (auto simp: index_inv_def at_path_def)
  then have ent: "entries_with i' path c = entries_with i path c - at_path path c seg" for path c
    using entries_with_removeAge [of j "Path seg" "CreatedAt seg" path c] j(2)
    by (auto simp: i' entries_with_def chain_def at_path_def)
  have "\<forall>k ts. segments i' k = Some ts \<longrightarrow> ts \<noteq> [] \<and> (\<forall>t \<in> set ts. Prefix t = k)"
    using inv ss extract_mem [OF ss(2)] by (auto simp: i' index_inv_def split: if_splits)
  moreover have "totalSize i' = totalSize i - Size seg" "finite (dom (segments i'))"
    "\<And>p. sizeByPriority i' p = sizeByPriority i p - (if SPriority seg = p then Size seg else 0)"
    using fin by (simp_all add: i' j_def)
  ultimately have "index_inv i'"
    using inv tot ent by (simp add: index_inv_def)
  moreover have "ages_inv i'"
    using removeAge_ages_inv [OF j(1), of "Path seg" "CreatedAt seg"] by (simp add: i' ages_inv_def chain_def)
  ultimately show ?thesis by (simp add: i'_def)
qed

section \<open>Histories\<close>

datatype index_op = AddOp segment_info | RemoveOp segment_info

fun index_apply :: "index_op \<Rightarrow> index \<times> admission option \<Rightarrow> index \<times> admission option" where
  "index_apply (AddOp s) (i, ao) = (fst (index_Add s i), ao)"
| "index_apply (RemoveOp s) (i, ao) = index_Remove s i ao"

text \<open>The specification: a list of segments for every prefix.\<close>

fun spec_apply :: "index_op \<Rightarrow> (string \<Rightarrow> segment_info list) \<Rightarrow> string \<Rightarrow> segment_info list" where
  "spec_apply (AddOp s) m = m(Prefix s := m (Prefix s) @ [s])"
| "spec_apply (RemoveOp s) m =
     (case extract_path (Path s) (m (Prefix s)) of None \<Rightarrow> m | Some (seg, rest) \<Rightarrow> m(Prefix s := rest))"

lemma fst_index_Remove: "fst (index_Remove s i ao) = fst (remove_locked s i)"
  by (simp add: index_Remove_def split: prod.split option.split)

lemma Get_apply: "(\<lambda>k. index_Get k (fst (index_apply op (i, ao)))) = spec_apply op (\<lambda>k. index_Get k i)"
  by (cases op)
     (auto simp: fst_index_Remove remove_locked_def index_Add_def Let_def index_Get_def fun_eq_iff
       split: option.splits prod.splits if_splits)

lemma apply_inv:
  "index_inv i \<Longrightarrow> ages_inv i \<Longrightarrow>
   index_inv (fst (index_apply op (i, ao))) \<and> ages_inv (fst (index_apply op (i, ao)))"
  by (cases op) (auto simp: fst_index_Remove index_inv_Add ages_inv_Add remove_locked_inv)

lemma history_inv:
  "index_inv i \<Longrightarrow> ages_inv i \<Longrightarrow>
   index_inv (fst (fold index_apply ops (i, ao))) \<and> ages_inv (fst (fold index_apply ops (i, ao))) \<and>
   (\<lambda>k. index_Get k (fst (fold index_apply ops (i, ao)))) = fold spec_apply ops (\<lambda>k. index_Get k i)"
proof (induction ops arbitrary: i ao)
  case (Cons op ops)
  obtain i' ao' where step: "index_apply op (i, ao) = (i', ao')" by fastforce
  then show ?case
    using Cons.IH [of i' ao'] apply_inv [OF Cons.prems, of op ao] Get_apply [of op i ao] by simp
qed simp

lemma chain_path:
  assumes "index_inv i"
  shows "c \<in> entry_time i ` set (chain i path) \<longleftrightarrow> (\<exists>s \<in> all_segments i. Path s = path \<and> CreatedAt s = c)"
proof -
  have "c \<in> entry_time i ` set (chain i path) \<longleftrightarrow> 0 < entries_with i path c"
    by (auto simp: entries_with_def filter_empty_conv)
  also have "\<dots> \<longleftrightarrow> 0 < total (at_path path c) i"
    using assms by (simp add: index_inv_def)
  also have "\<dots> \<longleftrightarrow> (\<exists>s \<in> all_segments i. Path s = path \<and> CreatedAt s = c)"
    using assms total_pos [of i "at_path path c"] by (auto simp: index_inv_def at_path_def)
  finally show ?thesis .
qed

lemma chain_times:
  assumes "index_inv i"
  shows "entry_time i ` set (chain i path) = CreatedAt ` {s \<in> all_segments i. Path s = path}"
proof (rule set_eqI)
  fix c
  show "c \<in> entry_time i ` set (chain i path) \<longleftrightarrow> c \<in> CreatedAt ` {s \<in> all_segments i. Path s = path}"
    unfolding chain_path [OF assms] by auto
qed

lemma Contains_all:
  assumes "index_inv i" and "ages_inv i"
  shows "index_Contains path i \<longleftrightarrow> (\<exists>s \<in> all_segments i. Path s = path)"
proof -
  have "agesByPath i path \<noteq> Some []" using assms(2) by (simp add: ages_inv_def)
  then have "index_Contains path i \<longleftrightarrow> set (chain i path) \<noteq> {}"
    by (cases "agesByPath i path") (auto simp: index_Contains_def chain_def neq_Nil_conv)
  also have "\<dots> \<longleftrightarrow> {s \<in> all_segments i. Path s = path} \<noteq> {}"
    using arg_cong [OF chain_times [OF assms(1), of path], of "\<lambda>A. A = {}"] by simp
  finally show ?thesis by blast
qed

lemma entry_times:
  assumes "index_inv i" and "ages_inv i"
  shows "entry_time i ` set (slice (ages i)) = CreatedAt ` all_segments i"
proof -
  have "entry_time i ` set (slice (ages i)) = (\<Union>path. entry_time i ` set (chain i path))"
    using assms(2) unfolding ages_inv_def by (metis image_UN)
  also have "\<dots> = CreatedAt ` (\<Union>path. {s \<in> all_segments i. Path s = path})"
    unfolding chain_times [OF assms(1)] by (rule image_UN [symmetric])
  finally show ?thesis
    by (simp add: UNION_eq)
qed

lemma OldestSegmentAge_Min:
  assumes "index_inv i" and "ages_inv i"
  shows "OldestSegmentAge now i = (if all_segments i = {} then 0 else now - Min (CreatedAt ` all_segments i))"
proof -
  have "slice (ages i) = [] \<longleftrightarrow> all_segments i = {}"
    using entry_times [OF assms] by (metis image_is_empty set_empty)
  moreover have "heap_ok (entry_time i) (ages i)" using assms(2) by (simp add: ages_inv_def)
  ultimately show ?thesis
    using ages.first_Min [of "entry_time i" "ages i"] entry_times [OF assms] by (simp add: OldestSegmentAge_def)
qed

lemma total_iterates:
  assumes "iterates ks (segments i)"
  shows "total w i = sum_list (map (\<lambda>k. sum_list (map w (index_Get k i))) ks)"
proof -
  have "map (\<lambda>k. sum_list (map w (index_Get k i))) ks = map (\<lambda>k. sum_list (map w (the (segments i k)))) ks"
    using assms by (auto simp: iterates_def index_Get_def)
  then show ?thesis
    using iterates_sum [OF assms, of "\<lambda>k ss. sum_list (map w ss)"] unfolding total_def by metis
qed

lemma all_segments_iterates:
  assumes "iterates ks (segments i)"
  shows "all_segments i = (\<Union>k \<in> set ks. set (index_Get k i))"
proof -
  have "s \<in> (\<Union>k \<in> set ks. set (index_Get k i))" if s: "s \<in> all_segments i" for s
  proof -
    obtain k ss where k: "segments i k = Some ss" "s \<in> set ss"
      using s by (auto simp: all_segments_def)
    then have "k \<in> set ks" "s \<in> set (index_Get k i)"
      using iterates_mem [OF assms, of k] by (auto simp: index_Get_def)
    then show ?thesis by blast
  qed
  then show ?thesis using Get_mem by blast
qed

lemma largest_size_max:
  assumes "\<forall>k \<in> set ks. k \<noteq> [] \<and> Prefix (hd (index_Get k i)) = k"
    and "prefix \<noteq> []" and "largest = size_of (index_Get prefix i)"
    and "largest_size i ks (prefix, largest) = (p, n)"
  shows "p \<in> insert prefix (set ks) \<and> n = size_of (index_Get p i) \<and>
     (\<forall>k \<in> insert prefix (set ks). size_of (index_Get k i) \<le> n)"
  using assms
proof (induction ks arbitrary: prefix largest)
  case (Cons k ks)
  let ?s = "size_of (index_Get k i)"
  have k: "k \<noteq> []" "Prefix (hd (index_Get k i)) = k" using Cons.prems by auto
  show ?case
  proof (cases "?s > largest")
    case True
    then have "largest_size i ks (k, ?s) = (p, n)"
      using Cons.prems(4) k by (simp add: Let_def)
    then show ?thesis
      using Cons.IH [of k ?s] Cons.prems(1,3) k(1) True by auto
  next
    case False
    then have "largest_size i ks (prefix, largest) = (p, n)"
      using Cons.prems(2,4) by (simp add: Let_def)
    then show ?thesis
      using Cons.IH [of prefix largest] Cons.prems(1-3) False by auto
  qed
qed simp

lemma iterates_prefixes:
  assumes "index_inv i" and "iterates ks (segments i)" and "k \<in> set ks"
  shows "index_Get k i \<noteq> [] \<and> (\<forall>s \<in> set (index_Get k i). Prefix s = k) \<and> Prefix (hd (index_Get k i)) = k"
  using assms iterates_mem [OF assms(2), of k] by (fastforce simp: index_inv_def index_Get_def)

section \<open>Properties\<close>

text \<open>
  C19. The index implements a list of segments per prefix. After any sequence of additions and removals
  \<open>Get\<close> returns the segments that were added and not removed, in order; the prefixes are those with a
  segment; and the running totals, the totals by priority, \<open>Contains\<close> and the age from the heap are exactly what
  a scan of these lists gives, in whatever order the map is visited.
\<close>

theorem index_refines_lists:
  fixes now :: gotime and path :: string and p :: priority
  assumes "i = fst (fold index_apply ops (NewIndex, ao))" and "m = fold spec_apply ops (\<lambda>k. [])"
    and "iterates ks (segments i)"
  shows "(\<lambda>k. index_Get k i) = m \<and> set ks = {k. m k \<noteq> []} \<and>
         totalSize i = sum_list (map (\<lambda>k. size_of (m k)) ks) \<and>
         TotalSizeByPriority p i = sum_list (map (\<lambda>k. size_of (filter (\<lambda>s. SPriority s = p) (m k))) ks) \<and>
         TotalSegments ks i = sum_list (map (\<lambda>k. length (m k)) ks) \<and>
         (index_Contains path i \<longleftrightarrow> (\<exists>k. \<exists>s \<in> set (m k). Path s = path)) \<and>
         OldestSegmentAge now i =
           (if ks = [] then 0 else now - Min (CreatedAt ` (\<Union>k \<in> set ks. set (m k))))"
proof -
  have New: "(\<lambda>k. index_Get k NewIndex) = (\<lambda>k. [])"
    by (simp add: index_Get_def NewIndex_def)
  have inv: "index_inv i" "ages_inv i" and m: "(\<lambda>k. index_Get k i) = m"
    using history_inv [OF index_inv_New ages_inv_New, of ops ao] assms(1,2) New by simp_all
  have get: "index_Get k i = m k" for k using m by metis
  have "k \<in> set ks \<longleftrightarrow> m k \<noteq> []" for k
    using iterates_mem [OF assms(3), of k] iterates_prefixes [OF inv(1) assms(3), of k] get [of k]
    by (cases "segments i k") (auto simp: index_Get_def)
  then have ks: "set ks = {k. m k \<noteq> []}" by blast
  have filt: "sum_list (map (\<lambda>s. if SPriority s = p then Size s else 0) ss) = size_of (filter (\<lambda>s. SPriority s = p) ss)" for ss
    by (induction ss) (auto simp: size_of_def)
  have all: "all_segments i = (\<Union>k \<in> set ks. set (m k))" "all_segments i = {} \<longleftrightarrow> ks = []"
    using all_segments_iterates [OF assms(3)] get ks by (auto simp: filter_empty_conv simp flip: set_empty)
  moreover have "index_Contains path i \<longleftrightarrow> (\<exists>k. \<exists>s \<in> set (m k). Path s = path)"
  proof -
    have "all_segments i = (\<Union>k. set (m k))" using all(1) ks by fastforce
    then show ?thesis unfolding Contains_all [OF inv] by blast
  qed
  moreover have "totalSize i = total Size i"
    "sizeByPriority i p = total (\<lambda>s. if SPriority s = p then Size s else 0) i"
    using inv(1) by (simp_all add: index_inv_def)
  ultimately show ?thesis
    using m ks OldestSegmentAge_Min [OF inv, of now]
      total_iterates [OF assms(3), of Size] total_iterates [OF assms(3), of "\<lambda>s. if SPriority s = p then Size s else 0"]
    by (simp add: get filt TotalSizeByPriority_def TotalSegments_def size_of_def)
qed

text \<open>Two segments of one table and one of another; the first is removed again.\<close>

definition demo_seg :: "string \<Rightarrow> string \<Rightarrow> int \<Rightarrow> gotime \<Rightarrow> segment_info" where
  "demo_seg prefix path n c = \<lparr>Prefix = prefix, Ulid = path, Path = path, Size = n, CreatedAt = c, SPriority = PriorityQueued\<rparr>"

theorem index_refines_lists_witness:
  "OldestSegmentAge 100 (fst (fold index_apply [AddOp (demo_seg ''a_b'' ''1'' 10 5), AddOp (demo_seg ''a_b'' ''2'' 20 6),
       AddOp (demo_seg ''a_c'' ''3'' 30 7), RemoveOp (demo_seg ''a_b'' ''1'' 0 0)] (NewIndex, None))) = 94"
proof -
  let ?ops = "[AddOp (demo_seg ''a_b'' ''1'' 10 5), AddOp (demo_seg ''a_b'' ''2'' 20 6),
       AddOp (demo_seg ''a_c'' ''3'' 30 7), RemoveOp (demo_seg ''a_b'' ''1'' 0 0)]"
  let ?i = "fst (fold index_apply ?ops (NewIndex, None))"
  have m: "fold spec_apply ?ops (\<lambda>k. []) =
      (\<lambda>k. [])(''a_b'' := [demo_seg ''a_b'' ''2'' 20 6], ''a_c'' := [demo_seg ''a_c'' ''3'' 30 7])"
    by (auto simp: demo_seg_def fun_eq_iff)
  have "segments ?i = [''a_b'' \<mapsto> [demo_seg ''a_b'' ''2'' 20 6], ''a_c'' \<mapsto> [demo_seg ''a_c'' ''3'' 30 7]]"
    by (auto simp: fst_index_Remove remove_locked_def index_Add_def Let_def index_Get_def NewIndex_def demo_seg_def
        fun_eq_iff index_Remove_def DestinationFromPrefix_def split: prod.split option.split)
  then have "iterates [''a_b'', ''a_c''] (segments ?i)"
    by (auto simp: iterates_def)
  from index_refines_lists [OF refl m [symmetric] this, where now = 100] show ?thesis
    by (simp add: demo_seg_def)
qed

text \<open>
  The orders the batcher relies on. For every reachable index and whatever order Go visits the map, \<open>PrefixesByAge\<close>, \<open>PrefixesBySize\<close> and
  \<open>PrefixesByCount\<close> list every prefix exactly once, by oldest segment, by total size, and by count with ties by
  name; \<open>LargestSizePrefix\<close> is a prefix of maximal total size; \<open>Oldest\<close> returns the oldest segments.
\<close>

lemma prefix_orders:
  assumes "i = fst (fold index_apply ops (NewIndex, ao))" and "iterates ks (segments i)"
  shows "mset (PrefixesByAge ks i) = mset ks \<and> sorted (map (\<lambda>k. min_age (index_Get k i) tzero) (PrefixesByAge ks i)) \<and>
         mset (PrefixesBySize ks i) = mset ks \<and> sorted (map (\<lambda>k. size_of (index_Get k i)) (PrefixesBySize ks i)) \<and>
         mset (PrefixesByCount ks i) = mset ks \<and>
         sorted (map (\<lambda>k. (length (index_Get k i), k)) (PrefixesByCount ks i)) \<and>
         (ks \<noteq> [] \<and> [] \<notin> set ks \<longrightarrow> LargestSizePrefix ks i \<in> set ks \<and>
            (\<forall>k \<in> set ks. size_of (index_Get k i) \<le> size_of (index_Get (LargestSizePrefix ks i) i))) \<and>
         (\<forall>n. length (Oldest ks n i) = min (nat n) (TotalSegments ks i) \<and>
              (\<forall>s \<in> all_segments i. s \<notin> set (Oldest ks n i) \<longrightarrow> (\<forall>o' \<in> set (Oldest ks n i). CreatedAt o' \<le> CreatedAt s)))"
proof -
  have inv: "index_inv i"
    using history_inv [OF index_inv_New ages_inv_New, of ops ao] assms(1) by simp
  have pre: "\<forall>k \<in> set ks. Prefix (hd (index_Get k i)) = k"
    using iterates_prefixes [OF inv assms(2)] by blast
  have big: "LargestSizePrefix ks i \<in> set ks \<and>
      (\<forall>k \<in> set ks. size_of (index_Get k i) \<le> size_of (index_Get (LargestSizePrefix ks i) i))"
    if "ks \<noteq> [] \<and> [] \<notin> set ks"
  proof -
    have ne: "ks \<noteq> []" using that by blast
    have "\<forall>k \<in> set ks. k \<noteq> [] \<and> Prefix (hd (index_Get k i)) = k" using pre that by metis
    moreover obtain k ks' where ks: "ks = k # ks'" using ne by (auto simp: neq_Nil_conv)
    moreover obtain p n where pn: "largest_size i ks' (k, size_of (index_Get k i)) = (p, n)" by fastforce
    ultimately have "LargestSizePrefix ks i = p" by (simp add: LargestSizePrefix_def Let_def)
    then show ?thesis
      using largest_size_max [OF _ _ refl pn] \<open>\<forall>k \<in> set ks. k \<noteq> [] \<and> Prefix (hd (index_Get k i)) = k\<close> ks by auto
  qed
  have len: "length (Oldest ks n i) = min (nat n) (TotalSegments ks i)" for n
    by (auto simp: Oldest_def TotalSegments_def length_concat comp_def)
  have old: "CreatedAt o' \<le> CreatedAt s"
    if "s \<in> all_segments i" "s \<notin> set (Oldest ks n i)" "o' \<in> set (Oldest ks n i)" for s n o'
  proof -
    let ?all = "sort_key CreatedAt (concat (map (\<lambda>k. index_Get k i) ks))"
    have n: "Oldest ks n i = take (nat n) ?all" "n > 0" using that(3) by (auto simp: Oldest_def split: if_splits)
    have "s \<in> set ?all" using that(1) all_segments_iterates [OF assms(2)] by simp
    then have "s \<in> set (drop (nat n) ?all)"
      using that(2) n by (metis UnE append_take_drop_id set_append)
    moreover have "o' \<in> set (take (nat n) ?all)" using that(3) n by simp
    ultimately show ?thesis
      by (intro sorted_take_drop [OF sorted_sort_key])
  qed
  show ?thesis
    using big len old unfolding PrefixesByAge_def PrefixesBySize_def PrefixesByCount_def
    by (intro conjI allI ballI impI) (auto intro: sorted_sort_key)
qed

lemma prefix_orders_instance:
  "LargestSizePrefix [''a_c'', ''a_b''] (fst (fold index_apply [AddOp (demo_seg ''a_b'' ''1'' 10 5),
      AddOp (demo_seg ''a_c'' ''3'' 30 7)] (NewIndex, None))) \<in> {''a_b'', ''a_c''} \<and>
   mset (PrefixesByAge [''a_c'', ''a_b''] (fst (fold index_apply [AddOp (demo_seg ''a_b'' ''1'' 10 5),
      AddOp (demo_seg ''a_c'' ''3'' 30 7)] (NewIndex, None)))) = mset [''a_b'', ''a_c'']"
proof -
  let ?ops = "[AddOp (demo_seg ''a_b'' ''1'' 10 5), AddOp (demo_seg ''a_c'' ''3'' 30 7)]"
  have "iterates [''a_c'', ''a_b''] (segments (fst (fold index_apply ?ops (NewIndex, None))))"
    by (auto simp: iterates_def index_Add_def Let_def index_Get_def NewIndex_def demo_seg_def)
  from prefix_orders [OF refl this] show ?thesis by auto
qed

end
