(* ===== verification/RotationScheduler.thy ===== *)
theory RotationScheduler
  imports GoHeap
begin

text \<open>
  \<open>pkg/wal/rotation_scheduler.go\<close>: the deadlines at which the write-ahead logs rotate their segments. A
  \<open>*WAL\<close> is a number; its field \<open>rotationDeadline\<close> is \<open>deadline\<close> and its field \<open>rotationIndex\<close> is the position
  of the heap, \<open>-1\<close> when it is not scheduled. The goroutine and the timer of \<open>run\<close> are not modelled; what it
  does with the heap is \<open>next\<close> and \<open>popDue\<close>.
\<close>

section \<open>Definitions\<close>

record scheduler =
  entries :: "nat heap"
  deadline :: "nat \<Rightarrow> gotime"

definition newRotationScheduler :: scheduler where
  "newRotationScheduler = \<lparr>entries = empty_heap (\<lambda>_. - 1), deadline = (\<lambda>_. tzero)\<rparr>"

text \<open>\<open>schedule\<close>: the new state and whether the goroutine is woken.\<close>

definition schedule :: "nat \<Rightarrow> gotime \<Rightarrow> scheduler \<Rightarrow> scheduler \<times> bool" where
  "schedule w d s =
     (let dl = (deadline s)(w := d); idx = position (entries s) w;
          h = (if idx \<ge> 0 then heap_Fix dl (nat idx) (entries s) else heap_Push dl w (entries s))
      in (\<lparr>entries = h, deadline = dl\<rparr>, slice h ! 0 = w))"

definition unschedule :: "nat \<Rightarrow> scheduler \<Rightarrow> scheduler" where
  "unschedule w s =
     (let idx = position (entries s) w
      in if idx \<ge> 0 then s\<lparr>entries := snd (heap_Remove clear_mark (deadline s) (nat idx) (entries s))\<rparr> else s)"

definition next_deadline :: "scheduler \<Rightarrow> gotime option" where
  "next_deadline s = (if slice (entries s) = [] then None else Some (deadline s (slice (entries s) ! 0)))"

lemma heap_Pop_shorter:
  assumes "slice h \<noteq> []"
  shows "length (slice (snd (heap_Pop mark key h))) < length (slice h)"
proof -
  let ?n = "length (slice h) - 1"
  have "length (slice (snd (heap_down key 0 ?n (heap_Swap 0 ?n h)))) = length (slice h)"
    using heap_down_rearranged [of ?n "heap_Swap 0 ?n h" key 0] rearranged_length by fastforce
  then show ?thesis
    using assms by (simp add: heap_Pop_def Let_def slice_Pop_def)
qed

function popDue_heap :: "(nat \<Rightarrow> gotime) \<Rightarrow> gotime \<Rightarrow> nat list \<Rightarrow> nat heap \<Rightarrow> nat list \<times> nat heap" where
  "popDue_heap dl now dst h =
     (if slice h \<noteq> [] \<and> dl (slice h ! 0) \<le> now
      then case heap_Pop clear_mark dl h of (w, h') \<Rightarrow> popDue_heap dl now (dst @ [w]) h'
      else (dst, h))"
  by pat_completeness auto
termination
proof (relation "measure (\<lambda>(dl, now, dst, h). length (slice h))")
  fix dl :: "nat \<Rightarrow> gotime" and now dst h x y
  assume "slice h \<noteq> [] \<and> dl (slice h ! 0) \<le> now" and "(x, y) = heap_Pop clear_mark dl h"
  then show "((dl, now, dst @ [x], y), dl, now, dst, h) \<in> measure (\<lambda>(dl, now, dst, h). length (slice h))"
    using heap_Pop_shorter [of h clear_mark dl] by (metis case_prod_conv in_measure snd_conv)
qed simp

declare popDue_heap.simps [simp del]

definition popDue :: "nat list \<Rightarrow> gotime \<Rightarrow> scheduler \<Rightarrow> nat list \<times> scheduler" where
  "popDue dst now s =
     (case popDue_heap (deadline s) now dst (entries s) of (ws, h) \<Rightarrow> (ws, s\<lparr>entries := h\<rparr>))"

section \<open>The scheduler keeps a deadline per log\<close>

definition scheduler_inv :: "scheduler \<Rightarrow> bool" where
  "scheduler_inv s \<longleftrightarrow> heap_ok (deadline s) (entries s) \<and>
     (\<forall>w. w \<notin> set (slice (entries s)) \<longrightarrow> position (entries s) w = - 1)"

text \<open>The specification: the deadlines of the scheduled logs.\<close>

definition deadlines :: "scheduler \<Rightarrow> nat \<rightharpoonup> gotime" where
  "deadlines s = (\<lambda>w. if w \<in> set (slice (entries s)) then Some (deadline s w) else None)"

lemma position_scheduled:
  assumes "scheduler_inv s"
  shows "0 \<le> position (entries s) w \<longleftrightarrow> w \<in> set (slice (entries s))"
    and "w \<in> set (slice (entries s)) \<Longrightarrow> nat (position (entries s) w) < length (slice (entries s)) \<and>
      slice (entries s) ! nat (position (entries s) w) = w"
  using assms heap_position [of "deadline s" "entries s" w] by (auto simp: scheduler_inv_def)

text \<open>What an operation of the heap does to the positions of items that are not in it.\<close>

lemma position_Swap:
  "i < length (slice h) \<Longrightarrow> j < length (slice h) \<Longrightarrow> w \<notin> set (slice h) \<Longrightarrow>
   position (heap_Swap i j h) w = position h w"
  by (auto simp: heap_Swap_def Let_def)

lemma set_Swap:
  "i < length (slice h) \<Longrightarrow> j < length (slice h) \<Longrightarrow> set (slice (heap_Swap i j h)) = set (slice h)"
  by (metis mset_Swap mset_eq_setD slice_Swap)

lemma position_up:
  "j < length (slice h) \<Longrightarrow> w \<notin> set (slice h) \<Longrightarrow> position (heap_up key j h) w = position h w"
proof (induction j arbitrary: h rule: less_induct)
  case (less j)
  show ?case
  proof (cases "j = 0 \<or> \<not> heap_Less key j (parent j) h")
    case True
    then show ?thesis by (simp add: heap_up_step [of key j h])
  next
    case False
    have p: "parent j < j" "parent j < length (slice h)"
      using False parent_less [of j] parent_lt [of j] less.prems by auto
    have "position (heap_up key (parent j) (heap_Swap (parent j) j h)) w = position (heap_Swap (parent j) j h) w"
      using p less.prems set_Swap [of "parent j" h j] by (intro less.IH) auto
    then show ?thesis
      using False p less.prems by (subst heap_up_step) (simp add: position_Swap)
  qed
qed

lemma position_down:
  "n \<le> length (slice h) \<Longrightarrow> w \<notin> set (slice h) \<Longrightarrow> position (snd (heap_down key i n h)) w = position h w"
proof (induction "n - i" arbitrary: i h rule: less_induct)
  case less
  let ?c = "child key i n h"
  show ?case
  proof (cases "n \<le> 2 * i + 1 \<or> \<not> heap_Less key ?c i h")
    case True
    then show ?thesis by (simp add: heap_down_step [of key i n h])
  next
    case False
    then have c: "i < ?c" "?c < n" by (auto simp: child_bounds)
    have "position (snd (heap_down key ?c n (heap_Swap i ?c h))) w = position (heap_Swap i ?c h) w"
      using c less.prems set_Swap [of i h ?c] by (intro less.hyps) auto
    then show ?thesis
      using False c less.prems by (subst heap_down_step) (simp add: position_Swap)
  qed
qed

lemma position_sift:
  assumes "i < n" and "n \<le> length (slice h)" and "w \<notin> set (slice h)"
  shows "position (heap_sift key i n h) w = position h w"
proof -
  obtain i' h' where d: "heap_down key i n h = (i', h')" by fastforce
  have r: "rearranged n h h'" using heap_down_rearranged [OF assms(2), of key i] d by simp
  then have "set (slice h') = set (slice h)" "length (slice h') = length (slice h)"
    using mset_eq_setD rearranged_length unfolding rearranged_def by blast+
  then show ?thesis
    using d position_down [OF assms(2,3), of key i] position_up [of i h' w key] assms by (simp add: heap_sift_def)
qed

lemma position_Push:
  "w \<noteq> x \<Longrightarrow> w \<notin> set (slice h) \<Longrightarrow> position (heap_Push key x h) w = position h w"
  using position_up [of "length (slice h)" "slice_Push x h" w key]
  by (simp add: heap_Push_def Let_def slice_Push_def)

lemma position_slice_Pop:
  assumes "distinct (slice h)" and "slice h \<noteq> []" and "w \<notin> set (slice (snd (slice_Pop clear_mark h)))"
    and "w \<notin> set (slice h) \<Longrightarrow> position h w = - 1"
  shows "position (snd (slice_Pop clear_mark h)) w = - 1"
proof -
  have "set (slice h) = set (butlast (slice h)) \<union> {last (slice h)}"
    using arg_cong [OF append_butlast_last_id [OF assms(2)], of set] by simp
  then show ?thesis
    using assms by (auto simp: slice_Pop_def clear_mark_def Let_def)
qed

lemma scheduler_inv_schedule:
  assumes inv: "scheduler_inv s"
  shows "scheduler_inv (fst (schedule w d s)) \<and> deadlines (fst (schedule w d s)) = (deadlines s)(w \<mapsto> d)"
proof (cases "w \<in> set (slice (entries s))")
  case True
  let ?dl = "(deadline s)(w := d)" and ?i = "nat (position (entries s) w)"
  have i: "?i < length (slice (entries s))" "slice (entries s) ! ?i = w" "0 \<le> position (entries s) w"
    using position_scheduled [OF inv] True by auto
  have h: "fst (schedule w d s) = \<lparr>entries = heap_Fix ?dl ?i (entries s), deadline = ?dl\<rparr>"
    using i(3) by (simp add: schedule_def Let_def)
  have ok: "heap_ok (deadline s) (entries s)" using inv by (simp add: scheduler_inv_def)
  have fx: "heap_ok ?dl (heap_Fix ?dl ?i (entries s)) \<and> mset (slice (heap_Fix ?dl ?i (entries s))) = mset (slice (entries s))"
    by (rule heap_Fix_ok [OF ok i(1,2)]) simp
  then have fixd: "heap_ok ?dl (heap_Fix ?dl ?i (entries s))" "set (slice (heap_Fix ?dl ?i (entries s))) = set (slice (entries s))"
    using mset_eq_setD by blast+
  have "position (heap_Fix ?dl ?i (entries s)) v = - 1" if "v \<notin> set (slice (entries s))" for v
    using position_sift [OF i(1) order_refl that] inv that by (simp add: heap_Fix_def scheduler_inv_def)
  then show ?thesis
    using fixd True by (auto simp: h scheduler_inv_def deadlines_def)
next
  case False
  let ?dl = "(deadline s)(w := d)"
  have "position (entries s) w < 0"
    using position_scheduled(1) [OF inv, of w] False by auto
  then have h: "fst (schedule w d s) = \<lparr>entries = heap_Push ?dl w (entries s), deadline = ?dl\<rparr>"
    by (simp add: schedule_def Let_def)
  have ok: "heap_ok ?dl (entries s)"
    using inv False by (subst heap_ok_cong [of _ _ "deadline s"]) (auto simp: scheduler_inv_def)
  have "position (heap_Push ?dl w (entries s)) v = - 1" if "v \<noteq> w" "v \<notin> set (slice (entries s))" for v
    using position_Push [OF that] inv that by (simp add: scheduler_inv_def)
  then show ?thesis
    using rotations.push_ok [OF ok False] rotations.push_set [OF ok False] False
    by (auto simp: h scheduler_inv_def deadlines_def)
qed

lemma heap_Remove_position:
  assumes ok: "heap_ok key h" and i: "i < length (slice h)"
    and out: "\<And>v. v \<notin> set (slice h) \<Longrightarrow> position h v = - 1"
    and v: "v \<notin> set (slice (snd (heap_Remove clear_mark key i h)))"
  shows "position (snd (heap_Remove clear_mark key i h)) v = - 1"
proof -
  define n where "n = length (slice h) - 1"
  have n: "length (slice h) = Suc n" using i n_def by auto
  define g where "g = (if n \<noteq> i then heap_sift key i n (heap_Swap i n h) else h)"
  have g: "set (slice g) = set (slice h) \<and> distinct (slice g) \<and> (\<forall>v. v \<notin> set (slice h) \<longrightarrow> position g v = - 1)"
  proof (cases "n = i")
    case True
    then show ?thesis using ok out by (auto simp: g_def heap_ok_def positioned_def)
  next
    case False
    let ?s = "heap_Swap i n h"
    have i': "i < n" using False i n by auto
    have r: "rearranged n ?s (heap_sift key i n ?s)"
      using i' n by (intro heap_sift_rearranged) auto
    have "set (slice (heap_sift key i n ?s)) = set (slice ?s)"
      using r mset_eq_setD unfolding rearranged_def by blast
    moreover have "positioned ?s" using ok i' n by (intro positioned_Swap) (auto simp: heap_ok_def)
    moreover have "position (heap_sift key i n ?s) v = - 1" if "v \<notin> set (slice h)" for v
      using position_sift [of i n ?s v key] position_Swap [of i h n v] set_Swap [of i h n] i' n that out by auto
    ultimately show ?thesis
      using False r set_Swap [of i h n] i' n by (auto simp: g_def rearranged_def positioned_def)
  qed
  have "heap_Remove clear_mark key i h = slice_Pop clear_mark g"
    by (simp add: heap_Remove_def Let_def g_def n_def)
  moreover have "slice g \<noteq> []" using g i by auto
  ultimately show ?thesis
    using position_slice_Pop [of g v] g v by auto
qed

lemma scheduler_inv_unschedule:
  assumes inv: "scheduler_inv s"
  shows "scheduler_inv (unschedule w s) \<and> deadlines (unschedule w s) = (deadlines s)(w := None)"
proof (cases "w \<in> set (slice (entries s))")
  case True
  let ?i = "nat (position (entries s) w)"
  let ?h = "snd (heap_Remove clear_mark (deadline s) ?i (entries s))"
  have i: "?i < length (slice (entries s))" "slice (entries s) ! ?i = w" "0 \<le> position (entries s) w"
    using position_scheduled [OF inv] True by auto
  have ok: "heap_ok (deadline s) (entries s)" using inv by (simp add: scheduler_inv_def)
  have "heap_ok (deadline s) ?h" and ms: "mset (slice (entries s)) = add_mset w (mset (slice ?h))"
    using heap_Remove_ok [OF ok i(1), of clear_mark] i(2) by (auto simp: clear_mark_def)
  moreover have "set (slice ?h) = set (slice (entries s)) - {w}"
    using distinct_mset_remove [OF _ ms] ok by (simp add: heap_ok_def positioned_def)
  moreover have "position ?h v = - 1" if "v \<notin> set (slice ?h)" for v
    using heap_Remove_position [OF ok i(1) _ that] inv by (simp add: scheduler_inv_def)
  ultimately show ?thesis
    using i(3) by (auto simp: unschedule_def Let_def scheduler_inv_def deadlines_def fun_eq_iff)
next
  case False
  then show ?thesis
    using position_scheduled(1) [OF inv, of w] inv by (auto simp: unschedule_def Let_def deadlines_def fun_eq_iff)
qed

lemma heap_Pop_position:
  assumes ok: "heap_ok key h" and ne: "slice h \<noteq> []"
    and out: "\<And>v. v \<notin> set (slice h) \<Longrightarrow> position h v = - 1"
    and v: "v \<notin> set (slice (snd (heap_Pop clear_mark key h)))"
  shows "position (snd (heap_Pop clear_mark key h)) v = - 1"
proof -
  define n where "n = length (slice h) - 1"
  have n: "length (slice h) = Suc n" using ne n_def by (cases "slice h") auto
  let ?s = "heap_Swap 0 n h"
  define g where "g = snd (heap_down key 0 n ?s)"
  have r: "rearranged n ?s g"
    using heap_down_rearranged [of n ?s key 0] n by (simp add: g_def)
  have "positioned ?s" using ok n by (intro positioned_Swap) (auto simp: heap_ok_def)
  then have "distinct (slice g)" using r by (auto simp: rearranged_def positioned_def)
  moreover have "set (slice g) = set (slice h)"
  proof -
    have "set (slice g) = set (slice ?s)" using r mset_eq_setD unfolding rearranged_def by blast
    then show ?thesis using set_Swap [of 0 h n] n by simp
  qed
  moreover have "position g u = - 1" if "u \<notin> set (slice h)" for u
    using position_down [of n ?s u key 0] position_Swap [of 0 h n u] set_Swap [of 0 h n] n that out
    by (simp add: g_def)
  moreover have "heap_Pop clear_mark key h = slice_Pop clear_mark g"
    by (simp add: heap_Pop_def Let_def g_def n_def)
  ultimately show ?thesis
    using position_slice_Pop [of g v] ne v by (metis set_empty)
qed

text \<open>What the loop of \<open>popDue\<close> takes off the heap, and in which order.\<close>

lemma popDue_heap_spec:
  assumes "heap_ok dl h" and "\<And>v. v \<notin> set (slice h) \<Longrightarrow> position h v = - 1"
  shows "\<exists>ws h'. popDue_heap dl now dst h = (dst @ ws, h') \<and> heap_ok dl h' \<and>
     (\<forall>v. v \<notin> set (slice h') \<longrightarrow> position h' v = - 1) \<and>
     mset (slice h) = mset ws + mset (slice h') \<and> sorted (map dl ws) \<and>
     (\<forall>w \<in> set ws. dl w \<le> now) \<and> (\<forall>w \<in> set (slice h'). now < dl w)"
  using assms
proof (induction "length (slice h)" arbitrary: dst h rule: less_induct)
  case less
  show ?case
  proof (cases "slice h \<noteq> [] \<and> dl (slice h ! 0) \<le> now")
    case False
    then have "now < dl w" if "w \<in> set (slice h)" for w
      using rotations.first_due [OF less.prems(1), of now] that by (metis empty_iff list.set(1) not_le)
    then show ?thesis
      using False less.prems by (subst popDue_heap.simps) (auto intro!: exI [of _ "[]"])
  next
    case True
    let ?w = "slice h ! 0"
    define h' where "h' = snd (heap_Pop clear_mark dl h)"
    have ne: "slice h \<noteq> []" using True by simp
    have pop: "heap_Pop clear_mark dl h = (?w, h')"
      using rotations.pop_first [OF less.prems(1) ne] by (simp add: h'_def prod_eq_iff)
    have ok: "heap_ok dl h'" and ms: "mset (slice h) = add_mset ?w (mset (slice h'))"
      using rotations.pop_ok [OF less.prems(1) ne] rotations.pop_items [OF less.prems(1) ne] by (simp_all add: h'_def)
    have "position h' v = - 1" if "v \<notin> set (slice h')" for v
      using heap_Pop_position [OF less.prems(1) ne less.prems(2)] that by (simp add: h'_def)
    moreover have "length (slice h') < length (slice h)"
      using rotations.pop_length [OF less.prems(1) ne] by (simp add: h'_def)
    ultimately obtain ws h2 where ih: "popDue_heap dl now (dst @ [?w]) h' = ((dst @ [?w]) @ ws, h2)" "heap_ok dl h2"
        "\<forall>v. v \<notin> set (slice h2) \<longrightarrow> position h2 v = - 1" "mset (slice h') = mset ws + mset (slice h2)"
        "sorted (map dl ws)" "\<forall>w \<in> set ws. dl w \<le> now" "\<forall>w \<in> set (slice h2). now < dl w"
      using less.hyps [of h' "dst @ [?w]"] ok by blast
    have "mset (slice h) = mset (?w # ws @ slice h2)" using ms ih(4) by simp
    then have "set ws \<subseteq> set (slice h)" using mset_eq_setD by fastforce
    then have "sorted (map dl (?w # ws))"
      using ih(5) rotations.first_least [OF less.prems(1)] by auto
    then show ?thesis
      using True pop ih ms by (subst popDue_heap.simps) (auto intro!: exI [of _ "?w # ws"])
  qed
qed

lemma popDue_spec:
  assumes inv: "scheduler_inv s"
  shows "\<exists>ws s'. popDue dst now s = (dst @ ws, s') \<and> scheduler_inv s' \<and> distinct ws \<and>
     set ws = {w. \<exists>d. deadlines s w = Some d \<and> d \<le> now} \<and> sorted (map (deadline s) ws) \<and>
     deadlines s' = (\<lambda>w. if w \<in> set ws then None else deadlines s w)"
proof -
  obtain ws h' where p: "popDue_heap (deadline s) now dst (entries s) = (dst @ ws, h')" "heap_ok (deadline s) h'"
      "\<forall>v. v \<notin> set (slice h') \<longrightarrow> position h' v = - 1" "mset (slice (entries s)) = mset ws + mset (slice h')"
      "sorted (map (deadline s) ws)" "\<forall>w \<in> set ws. deadline s w \<le> now" "\<forall>w \<in> set (slice h'). now < deadline s w"
    using popDue_heap_spec [of "deadline s" "entries s" now dst] inv unfolding scheduler_inv_def by blast
  have ms: "mset (slice (entries s)) = mset (ws @ slice h')" using p(4) by simp
  have "distinct (slice (entries s))" using inv by (simp add: scheduler_inv_def heap_ok_def positioned_def)
  then have d: "distinct (ws @ slice h')" using ms mset_eq_imp_distinct_iff by blast
  have st: "set (slice (entries s)) = set ws \<union> set (slice h')" using mset_eq_setD [OF ms] by simp
  let ?s = "s\<lparr>entries := h'\<rparr>"
  have "popDue dst now s = (dst @ ws, ?s)" using p(1) by (simp add: popDue_def)
  moreover have "scheduler_inv ?s" using p(2,3) by (simp add: scheduler_inv_def)
  moreover have "set ws = {w. \<exists>d. deadlines s w = Some d \<and> d \<le> now}"
    using st p(6,7) by (fastforce simp: deadlines_def split: if_splits)
  moreover have "deadlines ?s = (\<lambda>w. if w \<in> set ws then None else deadlines s w)"
    using st d by (auto simp: deadlines_def fun_eq_iff)
  ultimately show ?thesis using d p(5) by auto
qed

lemma next_deadline_Min:
  assumes "scheduler_inv s"
  shows "next_deadline s = (if deadlines s = Map.empty then None else Some (Min (ran (deadlines s))))"
proof (cases "slice (entries s) = []")
  case True
  then show ?thesis by (auto simp: next_deadline_def deadlines_def)
next
  case False
  then have "deadlines s \<noteq> Map.empty"
    by (metis deadlines_def last_in_set option.distinct(1))
  moreover have "ran (deadlines s) = deadline s ` set (slice (entries s))"
    by (auto simp: ran_def deadlines_def)
  moreover have "heap_ok (deadline s) (entries s)" using assms by (simp add: scheduler_inv_def)
  ultimately show ?thesis
    using False rotations.first_Min by (simp add: next_deadline_def)
qed

section \<open>Histories\<close>

datatype sched_op = ScheduleOp nat gotime | UnscheduleOp nat | PopDueOp gotime

text \<open>An operation of the scheduler and its result; the specification of the same operation.\<close>

fun sched_apply :: "sched_op \<Rightarrow> scheduler \<Rightarrow> nat list \<times> scheduler" where
  "sched_apply (ScheduleOp w d) s = ([], fst (schedule w d s))"
| "sched_apply (UnscheduleOp w) s = ([], unschedule w s)"
| "sched_apply (PopDueOp now) s = popDue [] now s"

fun sched_spec :: "sched_op \<Rightarrow> (nat \<rightharpoonup> gotime) \<Rightarrow> nat set \<times> (nat \<rightharpoonup> gotime)" where
  "sched_spec (ScheduleOp w d) m = ({}, m(w \<mapsto> d))"
| "sched_spec (UnscheduleOp w) m = ({}, m(w := None))"
| "sched_spec (PopDueOp now) m =
     (let due = {w. \<exists>d. m w = Some d \<and> d \<le> now} in (due, \<lambda>w. if w \<in> due then None else m w))"

fun sched_run :: "sched_op list \<Rightarrow> scheduler \<Rightarrow> nat list list \<times> scheduler" where
  "sched_run [] s = ([], s)"
| "sched_run (op # ops) s =
     (case sched_apply op s of (r, s') \<Rightarrow> case sched_run ops s' of (rs, s'') \<Rightarrow> (r # rs, s''))"

fun spec_run :: "sched_op list \<Rightarrow> (nat \<rightharpoonup> gotime) \<Rightarrow> nat set list \<times> (nat \<rightharpoonup> gotime)" where
  "spec_run [] m = ([], m)"
| "spec_run (op # ops) m =
     (case sched_spec op m of (r, m') \<Rightarrow> case spec_run ops m' of (rs, m'') \<Rightarrow> (r # rs, m''))"

lemma sched_apply_spec:
  assumes "scheduler_inv s" and "sched_apply op s = (r, s')"
  shows "scheduler_inv s' \<and> distinct r \<and> sched_spec op (deadlines s) = (set r, deadlines s')"
proof (cases op)
  case (ScheduleOp w d)
  then show ?thesis using assms scheduler_inv_schedule [OF assms(1), of w d] by auto
next
  case (UnscheduleOp w)
  then show ?thesis using assms scheduler_inv_unschedule [OF assms(1), of w] by auto
next
  case (PopDueOp now)
  then show ?thesis using assms popDue_spec [OF assms(1), of "[]" now] by (auto simp: Let_def)
qed

lemma sched_run_spec:
  "scheduler_inv s \<Longrightarrow> sched_run ops s = (rs, s') \<Longrightarrow>
   scheduler_inv s' \<and> (\<forall>r \<in> set rs. distinct r) \<and> spec_run ops (deadlines s) = (map set rs, deadlines s')"
proof (induction ops arbitrary: s rs)
  case (Cons op ops)
  obtain r s1 where a: "sched_apply op s = (r, s1)" by fastforce
  obtain rs1 s2 where b: "sched_run ops s1 = (rs1, s2)" by fastforce
  have "rs = r # rs1" "s' = s2" using Cons.prems(2) a b by auto
  then show ?case
    using sched_apply_spec [OF Cons.prems(1) a] Cons.IH [of s1 rs1] b by auto
qed auto

lemma new_scheduler_inv: "scheduler_inv newRotationScheduler" "deadlines newRotationScheduler = Map.empty"
  by (simp_all add: scheduler_inv_def newRotationScheduler_def deadlines_def) (simp_all add: empty_heap_def)

section \<open>Properties\<close>

text \<open>
  C21. The scheduler is a map from logs to deadlines. For every sequence of schedule, unschedule and popDue,
  rescheduling replaces a deadline, popDue returns each log whose deadline is at or before the given time exactly
  once and keeps the others, and \<open>next\<close> is the least remaining deadline.
\<close>

theorem scheduler_refines_map:
  assumes "sched_run ops newRotationScheduler = (rs, s)"
  shows "spec_run ops Map.empty = (map set rs, deadlines s) \<and> (\<forall>r \<in> set rs. distinct r) \<and>
         next_deadline s = (if deadlines s = Map.empty then None else Some (Min (ran (deadlines s))))"
  using sched_run_spec [OF new_scheduler_inv(1) assms] new_scheduler_inv(2) next_deadline_Min by simp

theorem scheduler_refines_map_witness:
  "\<exists>rs s. sched_run [ScheduleOp 1 50, ScheduleOp 2 30, ScheduleOp 3 40, ScheduleOp 1 20, UnscheduleOp 3, PopDueOp 25]
            newRotationScheduler = (rs, s) \<and> map set rs = [{}, {}, {}, {}, {}, {1}] \<and> deadlines s = [2 \<mapsto> 30]"
proof -
  let ?ops = "[ScheduleOp 1 50, ScheduleOp 2 30, ScheduleOp 3 40, ScheduleOp 1 20, UnscheduleOp 3, PopDueOp 25]"
  obtain rs s where r: "sched_run ?ops newRotationScheduler = (rs, s)" by fastforce
  have "spec_run ?ops Map.empty = ([{}, {}, {}, {}, {}, {1}], [2 \<mapsto> 30])"
    by (auto simp: Let_def fun_eq_iff split: if_splits)
  then show ?thesis using scheduler_refines_map [OF r] r by auto
qed

end
