(* ===== verification/WalSegment.thy ===== *)
theory WalSegment
  imports WalRecovery Admission
begin

text \<open>
  The segment object of \<open>pkg/wal/segment.go\<close>: a file on disk, a buffered writer in front of it, and the
  capacity it holds in the admission controller.

  The world of a segment is a store: the files on disk and the admission controller, if there is one. The methods
  hold \<open>s.mu\<close> while they touch the writer, so each is one step. What the operating system may refuse is an
  argument: a fault of the creation of a file, or the number of bytes a failing write accepted. A
  \<open>bufio.Writer\<close> that has failed once fails ever after (\<open>sg_err\<close>). File names are ASCII.
\<close>

section \<open>State\<close>

record segment =
  sg_id :: string
  sg_prefix :: string
  sg_path :: string
  sg_createdAt :: gotime
  sg_filePos :: int
  sg_buf :: bytes
  sg_err :: bool
  sg_closed :: bool
  sg_budget :: "destination option"

record store =
  disk :: "string \<rightharpoonup> bytes"
  budgets :: "admission option"

section \<open>The buffered writer\<close>

text \<open>\<open>bwPool\<close> hands out writers of 8 KiB.\<close>

definition bufSize :: nat where
  "bufSize = 8 * 1024"

text \<open>
  \<open>bufio.Writer.Write\<close> without a fault: while the input does not fit, an empty buffer is bypassed and
  another one is filled and flushed; the rest is kept. The result is the file and the buffer.
\<close>

function bufio_Write :: "bytes \<Rightarrow> bytes \<Rightarrow> bytes \<Rightarrow> bytes \<times> bytes" where
  "bufio_Write file buf p =
     (if length p > bufSize - length buf then
        if buf = [] then (file @ p, [])
        else (let n = bufSize - length buf in bufio_Write (file @ buf @ take n p) [] (drop n p))
      else (file, buf @ p))"
  by pat_completeness auto
termination
  by (relation "measure (\<lambda>(file, buf, p). length buf + length p)")
     (auto simp flip: length_greater_0_conv)

declare bufio_Write.simps [simp del]

lemma bufio_Write_content: "fst (bufio_Write f buf p) @ snd (bufio_Write f buf p) = f @ buf @ p"
  by (induction f buf p rule: bufio_Write.induct) (subst (1 2) bufio_Write.simps, auto simp: Let_def)

lemma bufio_Write_extends: "\<exists>more. fst (bufio_Write f buf p) = f @ more"
  by (induction f buf p rule: bufio_Write.induct) (subst bufio_Write.simps, auto simp: Let_def)

section \<open>Capacity\<close>

text \<open>A nil budget or controller reserves nothing and never refuses.\<close>

definition reserve_opt ::
  "gotime \<Rightarrow> string \<Rightarrow> destination option \<Rightarrow> int \<Rightarrow> int \<Rightarrow> admission option \<Rightarrow> (wal_error + reservation option) \<times> admission option"
where
  "reserve_opt now path d bytes segments ao =
     (case (d, ao) of
        (Some d, Some a) \<Rightarrow>
          (case Reserve now path d bytes segments a of
             (Inl e, a') \<Rightarrow> (Inl e, Some a')
           | (Inr r, a') \<Rightarrow> (Inr (Some r), Some a'))
      | _ \<Rightarrow> (Inr None, ao))"

text \<open>\<open>Finish(n)\<close> and the deferred \<open>Release\<close>.\<close>

definition finish_release :: "gotime \<Rightarrow> int \<Rightarrow> reservation option \<Rightarrow> admission option \<Rightarrow> admission option" where
  "finish_release now n ro ao =
     (case (ro, ao) of
        (Some r, Some a) \<Rightarrow> (case Finish now n r a of (r', a') \<Rightarrow> Some (snd (Release now r' a')))
      | _ \<Rightarrow> ao)"

section \<open>Creating and opening\<close>

datatype create_fault = CreateOK | CreateFails | HeaderFails | HeaderShort

definition fs_ValidPath :: "string \<Rightarrow> bool" where
  "fs_ValidPath name \<longleftrightarrow>
     name = ''.'' \<or> list_all (\<lambda>e. e \<noteq> [] \<and> e \<noteq> ''.'' \<and> e \<noteq> ''..'') (strings_Split CHR ''/'' name)"

text \<open>\<open>filepath.Join\<close> of a clean directory and a base name.\<close>

definition filepath_Join :: "string \<Rightarrow> string \<Rightarrow> string" where
  "filepath_Join dir name = dir @ ''/'' @ name"

definition segment_fileName :: "string \<Rightarrow> string \<Rightarrow> string" where
  "segment_fileName prefix flakeId = prefix @ ''_'' @ flakeId @ ''.wal''"

definition NewSegment ::
  "gotime \<Rightarrow> create_fault \<Rightarrow> string \<Rightarrow> string \<Rightarrow> string \<Rightarrow> store \<Rightarrow> (wal_error + segment) \<times> store"
where
  "NewSegment now fault flakeId dir prefix st =
     (case ParseFlakeID flakeId of
        None \<Rightarrow> (Inl (ErrOther ''flake''), st)
      | Some created \<Rightarrow>
          let fileName = segment_fileName prefix flakeId; path = filepath_Join dir fileName
          in if \<not> fs_ValidPath fileName \<or> filepath_Base fileName \<noteq> fileName
             then (Inl (ErrOther ''invalid segment filename''), st)
             else
               (case (if budgets st = None then Inr None
                      else case DestinationFromPrefix prefix of (d, None) \<Rightarrow> Inr (Some d) | (d, Some e) \<Rightarrow> Inl e) of
                  Inl e \<Rightarrow> (Inl e, st)
                | Inr d \<Rightarrow>
                    (case reserve_opt now path d 8 1 (budgets st) of
                       (Inl e, ao) \<Rightarrow> (Inl e, st\<lparr>budgets := ao\<rparr>)
                     | (Inr r, ao) \<Rightarrow>
                         (case fault of
                            CreateOK \<Rightarrow>
                              (Inr \<lparr>sg_id = flakeId, sg_prefix = prefix, sg_path = path, sg_createdAt = created,
                                    sg_filePos = 8, sg_buf = [], sg_err = False, sg_closed = False, sg_budget = d\<rparr>,
                               \<lparr>disk = (disk st)(path \<mapsto> segmentMagic), budgets = finish_release now 8 r ao\<rparr>)
                          | CreateFails \<Rightarrow> (Inl ErrIO, st\<lparr>budgets := finish_release now 0 r ao\<rparr>)
                          | HeaderFails \<Rightarrow>
                              (Inl ErrIO, \<lparr>disk = (disk st)(path := None), budgets = finish_release now 0 r ao\<rparr>)
                          | HeaderShort \<Rightarrow>
                              (Inl ErrShortWrite,
                               \<lparr>disk = (disk st)(path := None), budgets = finish_release now 0 r ao\<rparr>)))))"

definition IsSegment :: "string \<Rightarrow> store \<Rightarrow> bool" where
  "IsSegment path st =
     (if filepath_Ext path \<noteq> ''.wal'' then False
      else case disk st path of
        None \<Rightarrow> False
      | Some file \<Rightarrow> 8 \<le> length file \<and> take 6 file = take 6 segmentMagic)"

text \<open>\<open>strings.LastIndex(s, c)\<close>: the text before and after the last separator, if there is one.\<close>

definition split_last :: "char \<Rightarrow> string \<Rightarrow> (string \<times> string) option" where
  "split_last c s =
     (if c \<in> set s
      then Some (rev (tl (dropWhile (\<lambda>x. x \<noteq> c) (rev s))), rev (takeWhile (\<lambda>x. x \<noteq> c) (rev s)))
      else None)"

text \<open>\<open>Open\<close>: when the file name has no separator, \<open>LastIndex\<close> is \<open>-1\<close> and the slice expression panics.\<close>

datatype open_result = OpenOK segment | OpenError wal_error | OpenPanic

definition Open :: "string \<Rightarrow> store \<Rightarrow> open_result \<times> store" where
  "Open path st =
     (if \<not> IsSegment path st then (OpenError ErrInvalidWALSegment, st)
      else
        let base = filepath_Base path; fileName = take (length base - 4) base
        in case split_last CHR ''_'' fileName of
             None \<Rightarrow> (OpenPanic, st)
           | Some (prefix, i) \<Rightarrow>
               (case ParseFlakeID i of
                  None \<Rightarrow> (OpenError (ErrOther ''flake''), st)
                | Some created \<Rightarrow>
                    (case disk st path of
                       None \<Rightarrow> (OpenError ErrIO, st)
                     | Some file \<Rightarrow>
                         let repaired = Repair_bytes file
                         in (OpenOK \<lparr>sg_id = i, sg_prefix = prefix, sg_path = path, sg_createdAt = created,
                                     sg_filePos = int (length repaired), sg_buf = [], sg_err = False,
                                     sg_closed = False, sg_budget = None\<rparr>,
                             st\<lparr>disk := (disk st)(path \<mapsto> repaired)\<rparr>))))"

section \<open>Writing\<close>

text \<open>
  The tail that \<open>blockWrite\<close> and \<open>Append\<close> share, under the lock: reserve, write through the buffer, settle the
  reservation, advance the position. \<open>fault\<close> is the number of bytes a failing write accepts; \<open>blockWrite\<close> settles a failed
  write with that number, \<open>Append\<close> with zero (\<open>partial\<close>).
\<close>

definition write_bytes ::
  "gotime \<Rightarrow> bool \<Rightarrow> nat option \<Rightarrow> bytes \<Rightarrow> segment \<Rightarrow> store \<Rightarrow> (wal_error + int) \<times> segment \<times> store"
where
  "write_bytes now partial fault b s st =
     (case reserve_opt now (sg_path s) (sg_budget s) (int (length b)) 0 (budgets st) of
        (Inl e, ao) \<Rightarrow> (Inl e, s, st\<lparr>budgets := ao\<rparr>)
      | (Inr r, ao) \<Rightarrow>
          (let fault = (if sg_err s then Some 0 else fault);
               accepted = (case fault of None \<Rightarrow> b | Some k \<Rightarrow> take k b);
               (file, buf) = bufio_Write (case disk st (sg_path s) of Some f \<Rightarrow> f | None \<Rightarrow> []) (sg_buf s) accepted;
               n = int (length accepted);
               settled = (if fault = None \<or> partial then n else 0);
               st' = \<lparr>disk = (disk st)(sg_path s \<mapsto> file), budgets = finish_release now settled r ao\<rparr>
           in case fault of
                None \<Rightarrow> (Inr n, s\<lparr>sg_buf := buf, sg_filePos := sg_filePos s + n\<rparr>, st')
              | Some k \<Rightarrow> (Inl ErrIO, s\<lparr>sg_buf := buf, sg_err := True\<rparr>, st')))"

definition segment_Write ::
  "gotime \<Rightarrow> nat option \<Rightarrow> codec \<Rightarrow> write_options \<Rightarrow> bytes \<Rightarrow> segment \<Rightarrow> store \<Rightarrow> (wal_error + int) \<times> segment \<times> store"
where
  "segment_Write now fault c wopts buf s st =
     (if sg_closed s then (Inl ErrSegmentClosed, s, st)
      else if buf = [] then (Inr 0, s, st)
      else write_bytes now True fault (encode_block c wopts buf) s st)"

text \<open>\<open>Append\<close>: \<open>locked\<close> says that another goroutine holds the lock, so that \<open>TryLock\<close> fails.\<close>

definition segment_Append ::
  "gotime \<Rightarrow> nat option \<Rightarrow> bool \<Rightarrow> bytes \<Rightarrow> segment \<Rightarrow> store \<Rightarrow> (wal_error + int) \<times> segment \<times> store"
where
  "segment_Append now fault locked buf s st =
     (case NewSegmentIterator (of_bytes buf) of
        Inl e \<Rightarrow> (Inl e, s, st)
      | Inr it \<Rightarrow>
          (case iterator_Verify it of
             Inl e \<Rightarrow> (Inl e, s, st)
           | Inr n \<Rightarrow>
               if n = 0 then (Inr 0, s, st)
               else if locked then (Inl ErrSegmentLocked, s, st)
               else if sg_closed s then (Inl ErrSegmentClosed, s, st)
               else write_bytes now False fault (drop 8 buf) s st))"

section \<open>Flushing and closing\<close>

text \<open>\<open>bufio.Writer.Flush\<close>: when the file accepts only \<open>k\<close> bytes, the rest stays buffered and the writer has failed.\<close>

definition flush_writer :: "nat option \<Rightarrow> segment \<Rightarrow> store \<Rightarrow> wal_error option \<times> segment \<times> store" where
  "flush_writer fault s st =
     (let file = (case disk st (sg_path s) of Some f \<Rightarrow> f | None \<Rightarrow> [])
      in if sg_err s then (Some ErrIO, s, st)
         else case fault of
           None \<Rightarrow> (None, s\<lparr>sg_buf := []\<rparr>, st\<lparr>disk := (disk st)(sg_path s \<mapsto> file @ sg_buf s)\<rparr>)
         | Some k \<Rightarrow>
             (Some ErrIO, s\<lparr>sg_buf := drop k (sg_buf s), sg_err := True\<rparr>,
              st\<lparr>disk := (disk st)(sg_path s \<mapsto> file @ take k (sg_buf s))\<rparr>))"

text \<open>
  \<open>Flush\<close> hands the request to the flusher goroutine, which ends when the segment is closed: from then on the
  call waits for ever (\<open>None\<close>). The flusher gives up when another goroutine holds the lock.
\<close>

definition segment_Flush ::
  "nat option \<Rightarrow> bool \<Rightarrow> segment \<Rightarrow> store \<Rightarrow> (wal_error option \<times> segment \<times> store) option"
where
  "segment_Flush fault locked s st =
     (if sg_closed s then None
      else if locked then Some (Some (ErrOther ''segment locked''), s, st)
      else Some (flush_writer fault s st))"

definition segment_Close :: "nat option \<Rightarrow> segment \<Rightarrow> store \<Rightarrow> wal_error option \<times> segment \<times> store" where
  "segment_Close fault s st =
     (if sg_closed s then (None, s, st) else flush_writer fault (s\<lparr>sg_closed := True\<rparr>) st)"

definition segment_Size :: "segment \<Rightarrow> int" where
  "segment_Size s = sg_filePos s"

definition segment_Iterator :: "segment \<Rightarrow> store \<Rightarrow> wal_error + iterator" where
  "segment_Iterator s st =
     (if sg_closed s then Inl ErrSegmentClosed
      else case disk st (sg_path s) of None \<Rightarrow> Inl ErrIO | Some file \<Rightarrow> NewSegmentIterator (of_bytes file))"

section \<open>A segment holds its writes\<close>

text \<open>
  The state of a segment after the writes \<open>ws\<close>: what is on disk followed by what is buffered is the
  header and the encoded blocks, and the position is the length of both.
\<close>

definition file_of :: "segment \<Rightarrow> store \<Rightarrow> bytes" where
  "file_of s st = (case disk st (sg_path s) of Some f \<Rightarrow> f | None \<Rightarrow> [])"

definition holds :: "codec \<Rightarrow> wal_write list \<Rightarrow> segment \<Rightarrow> store \<Rightarrow> bool" where
  "holds c ws s st \<longleftrightarrow> disk st (sg_path s) \<noteq> None \<and> \<not> sg_err s \<and>
     file_of s st @ sg_buf s = segmentMagic @ encode_writes c ws \<and>
     sg_filePos s = int (length (segmentMagic @ encode_writes c ws))"

lemma encode_writes_single: "encode_writes c [(o', b)] = encode_block c o' b"
  by (simp add: encode_writes_def encode_write_def)

text \<open>One write through the buffer, whatever the admission controller answers.\<close>

lemma write_bytes_cases:
  assumes "holds c ws s st" and "b = encode_writes c vs"
  shows "case write_bytes now partial None b s st of
      (Inl e, s', st') \<Rightarrow> s' = s \<and> disk st' = disk st
    | (Inr n, s', st') \<Rightarrow> n = int (length b) \<and> holds c (ws @ vs) s' st' \<and> sg_path s' = sg_path s \<and> sg_closed s' = sg_closed s"
proof -
  obtain r ao where res: "reserve_opt now (sg_path s) (sg_budget s) (int (length b)) 0 (budgets st) = (r, ao)"
    by fastforce
  show ?thesis
  proof (cases r)
    case (Inl e)
    then show ?thesis using res by (simp add: write_bytes_def)
  next
    case (Inr ro)
    obtain f buf where w: "bufio_Write (file_of s st) (sg_buf s) b = (f, buf)" by fastforce
    have "f @ buf = segmentMagic @ encode_writes c (ws @ vs)"
      using bufio_Write_content [of "file_of s st" "sg_buf s" b] w assms
      by (simp add: holds_def encode_writes_append)
    then show ?thesis
      using res Inr w assms
      by (simp add: write_bytes_def holds_def file_of_def Let_def encode_writes_append)
  qed
qed

lemma segment_Write_holds:
  assumes "holds c ws s st" and "segment_Write now None c wopts buf s st = (Inr n, s', st')"
  shows "holds c (if buf = [] then ws else ws @ [(wopts, buf)]) s' st' \<and> sg_path s' = sg_path s \<and>
    sg_closed s' = sg_closed s \<and> sg_filePos s' = sg_filePos s + n"
proof (cases "buf = []")
  case True
  then show ?thesis using assms by (auto simp: segment_Write_def split: if_splits)
next
  case False
  then have w: "write_bytes now True None (encode_block c wopts buf) s st = (Inr n, s', st')"
    using assms(2) by (simp add: segment_Write_def split: if_splits)
  then have "sg_filePos s' = sg_filePos s + n"
    using assms(1) by (auto simp: write_bytes_def holds_def Let_def split: prod.splits sum.splits)
  then show ?thesis
    using write_bytes_cases [OF assms(1), of "encode_block c wopts buf" "[(wopts, buf)]" now True] w False
    by (simp add: encode_writes_single)
qed

lemma segment_Write_error:
  assumes "holds c ws s st" and "segment_Write now None c wopts buf s st = (Inl e, s', st')"
  shows "s' = s \<and> disk st' = disk st"
proof (cases "sg_closed s \<or> buf = []")
  case True
  then show ?thesis using assms by (auto simp: segment_Write_def split: if_splits)
next
  case False
  then show ?thesis
    using assms write_bytes_cases [OF assms(1), of "encode_block c wopts buf" "[(wopts, buf)]" now True]
    by (simp add: segment_Write_def encode_writes_single)
qed

lemma Verify_whole:
  assumes "codec_ok c" and "\<forall>w \<in> set vs. writable c w"
  shows "iterator_Verify (at iter0 (encode_writes c vs)) = Inr (length vs)"
proof -
  have "Verify_loop (of_bytes []) k = Inr k" for k
    by (subst Verify_loop.simps) (simp add: ReadFull_def of_bytes_def)
  then show ?thesis
    using Verify_loop_writes [OF assms, of "[]" 0] by (simp add: iterator_Verify_def)
qed

text \<open>A whole segment that was read from a peer is appended block by block.\<close>

lemma segment_Append_holds:
  assumes "holds c ws s st" and "codec_ok c" and "\<forall>w \<in> set vs. writable c w"
    and "segment_Append now None False (segmentMagic @ encode_writes c vs) s st = (Inr n, s', st')"
  shows "holds c (ws @ vs) s' st' \<and> sg_path s' = sg_path s"
proof (cases "vs = []")
  case True
  then show ?thesis
    using assms Verify_whole [OF assms(2,3)]
    by (simp add: segment_Append_def NewSegmentIterator_header)
next
  case False
  then have "write_bytes now False None (encode_writes c vs) s st = (Inr n, s', st')"
    using assms(4) Verify_whole [OF assms(2,3)]
    by (simp add: segment_Append_def NewSegmentIterator_header split: if_splits)
  then show ?thesis
    using write_bytes_cases [OF assms(1) refl, of vs now False] by simp
qed

lemma flush_writer_holds:
  assumes "holds c ws s st"
  shows "\<exists>s' st'. flush_writer None s st = (None, s', st') \<and> holds c ws s' st' \<and> sg_path s' = sg_path s \<and> sg_buf s' = [] \<and>
     sg_closed s' = sg_closed s \<and> budgets st' = budgets st \<and>
     disk st' = (disk st)(sg_path s \<mapsto> segmentMagic @ encode_writes c ws)"
  using assms by (auto simp: flush_writer_def holds_def file_of_def)

lemma segment_Close_holds:
  assumes "holds c ws s st" and "\<not> sg_closed s"
  shows "\<exists>s' st'. segment_Close None s st = (None, s', st') \<and> holds c ws s' st' \<and> sg_path s' = sg_path s \<and>
     sg_closed s' \<and> budgets st' = budgets st \<and> disk st' = (disk st)(sg_path s \<mapsto> segmentMagic @ encode_writes c ws)"
proof -
  have "holds c ws (s\<lparr>sg_closed := True\<rparr>) st" using assms(1) by (simp add: holds_def file_of_def)
  from flush_writer_holds [OF this] show ?thesis using assms(2) by (auto simp: segment_Close_def)
qed

section \<open>The capacity a segment holds\<close>

text \<open>What the controller accounts for a file.\<close>

definition booked :: "destination option \<Rightarrow> string \<Rightarrow> store \<Rightarrow> int option" where
  "booked d path st =
     (case (d, budgets st) of (Some d, Some a) \<Rightarrow> Some (file_bytes (files_of a d) path) | _ \<Rightarrow> None)"

lemma reserve_finish_booked:
  assumes r: "reserve_opt now path d n k (budgets st) = (Inr r, ao)" and n: "n \<noteq> 0"
  shows "booked d path (st\<lparr>budgets := finish_release now' n r ao\<rparr>) = map_option (\<lambda>b. b + n) (booked d path st)"
proof (cases "\<exists>d' a. d = Some d' \<and> budgets st = Some a")
  case False
  then show ?thesis
    using r by (cases d; cases "budgets st") (auto simp: reserve_opt_def booked_def finish_release_def)
next
  case True
  then obtain d' a where da: "d = Some d'" "budgets st = Some a" by auto
  obtain r' a' where res: "Reserve now path d' n k a = (Inr r', a')" "r = Some r'" "ao = Some a'"
    using r da by (auto simp: reserve_opt_def split: prod.splits sum.splits)
  have R: "r' = \<lparr>rtable = Some d', rpath = path, rusage = \<lparr>Bytes = n, Segments = k\<rparr>, ronce = False\<rparr>"
      "files_of a' = files_of a"
    using Reserve_cases [where now = now and path = path and d = d' and b = n and s = k and a = a] res(1) by simp_all
  have "tables a' d' \<noteq> None"
    using res(1) by (auto simp: Reserve_def reserve_global_def Let_def split: prod.splits option.splits if_splits)
  then obtain t where t: "tables a' d' = Some t" by auto
  have ft: "files t = files_of a d'" using t R(2) by (metis files_of_def option.simps(5))
  show ?thesis
    using t n da ft by (simp add: booked_def finish_release_def res R(1) Finish_def Release_def finish_global_def
        files_of_def finish_local_files file_bytes_def)
qed

lemma reserve_error_booked:
  assumes "reserve_opt now path d n k (budgets st) = (Inl e, ao)"
  shows "booked d' path' (st\<lparr>budgets := ao\<rparr>) = booked d' path' st"
proof -
  obtain x a where da: "d = Some x" "budgets st = Some a"
    using assms by (auto simp: reserve_opt_def split: option.splits)
  obtain a' where a': "Reserve now path x n k a = (Inl e, a')" "ao = Some a'"
    using assms da by (auto simp: reserve_opt_def split: prod.splits sum.splits)
  have "files_of a' = files_of a"
    using Reserve_cases [where now = now and path = path and d = x and b = n and s = k and a = a] a' by (simp add: accounts_of_def)
  then show ?thesis using da a' by (simp add: booked_def split: option.splits)
qed

text \<open>A segment whose controller accounts exactly the bytes of its file and its buffer.\<close>

definition settled :: "segment \<Rightarrow> store \<Rightarrow> bool" where
  "settled s st \<longleftrightarrow> (case booked (sg_budget s) (sg_path s) st of None \<Rightarrow> True | Some b \<Rightarrow> b = sg_filePos s)"

lemma settled_cong:
  "sg_budget s' = sg_budget s \<Longrightarrow> sg_path s' = sg_path s \<Longrightarrow> sg_filePos s' = sg_filePos s \<Longrightarrow> budgets st' = budgets st \<Longrightarrow>
   settled s' st' = settled s st"
  unfolding settled_def booked_def by metis

lemma write_bytes_settled:
  assumes "settled s st" and "\<not> sg_err s" and "b \<noteq> []"
  shows "case write_bytes now partial None b s st of (res, s', st') \<Rightarrow> settled s' st' \<and> sg_budget s' = sg_budget s"
proof -
  obtain r ao where res: "reserve_opt now (sg_path s) (sg_budget s) (int (length b)) 0 (budgets st) = (r, ao)"
    by fastforce
  show ?thesis
  proof (cases r)
    case (Inl e)
    then show ?thesis using assms res reserve_error_booked [OF res [unfolded Inl]] by (simp add: write_bytes_def settled_def)
  next
    case (Inr ro)
    have "booked (sg_budget s) (sg_path s) (st\<lparr>budgets := finish_release now (int (length b)) ro ao\<rparr>) =
        map_option (\<lambda>x. x + int (length b)) (booked (sg_budget s) (sg_path s) st)"
      using reserve_finish_booked [OF res [unfolded Inr]] assms(3) by simp
    then show ?thesis
      using assms res Inr by (cases st)
        (auto simp: write_bytes_def settled_def Let_def booked_def split: option.splits prod.splits)
  qed
qed

section \<open>Histories of a segment\<close>

text \<open>
  A history of calls, each with the time it is made: the values that were accepted, in order, and the final state.
  An append carries the blocks of another segment, as a transfer between ingestors does.
\<close>

datatype seg_op = SegWrite write_options bytes | SegAppend "wal_write list" | SegFlush

fun op_writes :: "seg_op \<Rightarrow> wal_write list" where
  "op_writes (SegWrite wopts b) = (if b = [] then [] else [(wopts, b)])"
| "op_writes (SegAppend vs) = vs"
| "op_writes SegFlush = []"

definition seg_apply :: "codec \<Rightarrow> gotime \<Rightarrow> seg_op \<Rightarrow> segment \<Rightarrow> store \<Rightarrow> (wal_error + int) \<times> segment \<times> store" where
  "seg_apply c now op s st =
     (case op of
        SegWrite wopts b \<Rightarrow> segment_Write now None c wopts b s st
      | SegAppend vs \<Rightarrow> segment_Append now None False (segmentMagic @ encode_writes c vs) s st
      | SegFlush \<Rightarrow>
          (case segment_Flush None False s st of
             Some (None, s', st') \<Rightarrow> (Inr 0, s', st')
           | Some (Some e, s', st') \<Rightarrow> (Inl e, s', st')
           | None \<Rightarrow> (Inl ErrSegmentClosed, s, st)))"

fun seg_run :: "codec \<Rightarrow> (gotime \<times> seg_op) list \<Rightarrow> segment \<Rightarrow> store \<Rightarrow> wal_write list \<times> segment \<times> store" where
  "seg_run c [] s st = ([], s, st)"
| "seg_run c ((now, op) # ops) s st =
     (case seg_apply c now op s st of (res, s', st') \<Rightarrow>
      case seg_run c ops s' st' of (ws, s'', st'') \<Rightarrow>
        ((case res of Inl e \<Rightarrow> ws | Inr n \<Rightarrow> op_writes op @ ws), s'', st''))"

text \<open>What an open, healthy segment keeps under every call.\<close>

definition healthy :: "codec \<Rightarrow> wal_write list \<Rightarrow> segment \<Rightarrow> store \<Rightarrow> bool" where
  "healthy c ws s st \<longleftrightarrow> holds c ws s st \<and> settled s st \<and> \<not> sg_closed s"

lemma encode_writes_Nil_iff: "(encode_writes c vs = []) = (vs = [])"
  by (cases vs) (simp_all add: encode_writes_def encode_write_def encode_block_def Let_def PutUint32_def)

lemma healthy_write_bytes:
  assumes "healthy c ws s st" and "b = encode_writes c vs" and "vs \<noteq> []"
    and "write_bytes now partial None b s st = (res, s', st')"
  shows "healthy c (case res of Inl e \<Rightarrow> ws | Inr n \<Rightarrow> ws @ vs) s' st' \<and> sg_path s' = sg_path s \<and>
    sg_budget s' = sg_budget s \<and> (budgets st = None \<longrightarrow> (\<forall>e. res \<noteq> Inl e) \<and> budgets st' = None)"
proof -
  have h: "holds c ws s st" "settled s st" "\<not> sg_closed s" "\<not> sg_err s"
    using assms(1) by (auto simp: healthy_def holds_def)
  have "b \<noteq> []" using assms(2,3) by (simp add: encode_writes_Nil_iff)
  then have S: "settled s' st'" "sg_budget s' = sg_budget s"
    using write_bytes_settled [OF h(2,4), of b now partial] assms(4) by simp_all
  have none: "budgets st = None \<Longrightarrow> (\<forall>e. res \<noteq> Inl e) \<and> budgets st' = None"
    using assms(4) h(4) by (auto simp: write_bytes_def reserve_opt_def finish_release_def Let_def
        split: option.splits prod.splits)
  show ?thesis
  proof (cases res)
    case (Inl x)
    then have "s' = s" "disk st' = disk st"
      using write_bytes_cases [OF h(1) assms(2), of now partial] assms(4) by simp_all
    then show ?thesis using h S Inl none by (auto simp: healthy_def holds_def file_of_def)
  next
    case (Inr n)
    then show ?thesis
      using write_bytes_cases [OF h(1) assms(2), of now partial] assms(4) h S none by (simp add: healthy_def)
  qed
qed

lemma healthy_apply:
  assumes h: "healthy c ws s st" and c: "codec_ok c" "\<forall>w \<in> set (op_writes op). writable c w"
    and run: "seg_apply c now op s st = (res, s', st')"
  shows "healthy c (case res of Inl e \<Rightarrow> ws | Inr n \<Rightarrow> ws @ op_writes op) s' st' \<and> sg_path s' = sg_path s \<and>
    sg_budget s' = sg_budget s \<and> (budgets st = None \<longrightarrow> (\<forall>e. res \<noteq> Inl e) \<and> budgets st' = None)"
proof (cases op)
  case (SegWrite wopts b)
  show ?thesis
  proof (cases "b = []")
    case True
    then show ?thesis using run h SegWrite by (auto simp: seg_apply_def segment_Write_def healthy_def)
  next
    case False
    then have "write_bytes now True None (encode_block c wopts b) s st = (res, s', st')"
      using run h SegWrite by (simp add: seg_apply_def segment_Write_def healthy_def)
    then show ?thesis
      using healthy_write_bytes [OF h, of "encode_block c wopts b" "[(wopts, b)]" now True res s' st'] False SegWrite
      by (cases res) (simp_all add: encode_writes_single)
  qed
next
  case (SegAppend vs)
  show ?thesis
  proof (cases "vs = []")
    case True
    then show ?thesis
      using run h SegAppend Verify_whole [OF c(1), of vs]
      by (auto simp: seg_apply_def segment_Append_def NewSegmentIterator_header)
  next
    case False
    then have "write_bytes now False None (encode_writes c vs) s st = (res, s', st')"
      using run h SegAppend Verify_whole [OF c(1), of vs] c(2)
      by (auto simp: seg_apply_def segment_Append_def NewSegmentIterator_header healthy_def)
    then show ?thesis
      using healthy_write_bytes [OF h refl, of vs now False res s' st'] False SegAppend by (cases res) simp_all
  qed
next
  case SegFlush
  then have f: "s' = s\<lparr>sg_buf := []\<rparr>" "st' = st\<lparr>disk := (disk st)(sg_path s \<mapsto> file_of s st @ sg_buf s)\<rparr>" "res = Inr 0"
    using run h by (auto simp: seg_apply_def segment_Flush_def flush_writer_def healthy_def holds_def file_of_def)
  then have "settled s' st' = settled s st" by (intro settled_cong) simp_all
  then show ?thesis
    using f h SegFlush by (auto simp: healthy_def holds_def file_of_def)
qed

lemma healthy_run:
  assumes "healthy c ws s st" and "codec_ok c" "\<forall>(now, op) \<in> set ops. \<forall>w \<in> set (op_writes op). writable c w"
    and "seg_run c ops s st = (vs, s', st')"
  shows "healthy c (ws @ vs) s' st' \<and> sg_path s' = sg_path s \<and> sg_budget s' = sg_budget s \<and>
    (\<forall>w \<in> set vs. writable c w) \<and> (budgets st = None \<longrightarrow> vs = concat (map (op_writes \<circ> snd) ops))"
  using assms
proof (induction c ops s st arbitrary: ws vs rule: seg_run.induct)
  case (1 c s st)
  then show ?case by simp
next
  case (2 c now op ops s st)
  obtain res s1 st1 where a: "seg_apply c now op s st = (res, s1, st1)" by (metis prod_cases3)
  obtain us where r: "seg_run c ops s1 st1 = (us, s', st')"
    and vs: "vs = (case res of Inl e \<Rightarrow> us | Inr n \<Rightarrow> op_writes op @ us)"
    using 2(5) a by (auto split: prod.splits)
  have op: "\<forall>w \<in> set (op_writes op). writable c w" using 2(4) by auto
  note H = healthy_apply [OF 2(2,3) op a]
  have "\<forall>(now, op) \<in> set ops. \<forall>w \<in> set (op_writes op). writable c w" using 2(4) by auto
  from 2(1) [OF a [symmetric] refl conjunct1 [OF H] 2(3) this r] show ?case
    using H op vs by (cases res) auto
qed

section \<open>Segments read back what they accepted\<close>

text \<open>A segment that was created: its fields, its file, and what its controller has booked.\<close>

lemma NewSegment_created:
  assumes "NewSegment now fault flakeId dir prefix st = (Inr s, st')"
  shows "holds c [] s st' \<and> \<not> sg_closed s \<and> sg_filePos s = 8 \<and> sg_path s = filepath_Join dir (segment_fileName prefix flakeId) \<and>
    sg_prefix s = prefix \<and> sg_id s = flakeId \<and> disk st' = (disk st)(sg_path s \<mapsto> segmentMagic) \<and>
    (budgets st = None \<longrightarrow> sg_budget s = None \<and> budgets st' = None) \<and>
    (\<forall>d. sg_budget s = Some d \<longrightarrow> DestinationFromPrefix prefix = (d, None)) \<and>
    booked (sg_budget s) (sg_path s) st' = map_option (\<lambda>b. b + 8) (booked (sg_budget s) (sg_path s) st)"
proof -
  define path where "path = filepath_Join dir (segment_fileName prefix flakeId)"
  obtain d r ao where d: "(if budgets st = None then d = None else \<exists>x. d = Some x \<and> DestinationFromPrefix prefix = (x, None))"
    and r: "reserve_opt now path d 8 1 (budgets st) = (Inr r, ao)"
    and s: "s = \<lparr>sg_id = flakeId, sg_prefix = prefix, sg_path = path, sg_createdAt = sg_createdAt s,
                 sg_filePos = 8, sg_buf = [], sg_err = False, sg_closed = False, sg_budget = d\<rparr>"
    and st': "st' = \<lparr>disk = (disk st)(path \<mapsto> segmentMagic), budgets = finish_release now 8 r ao\<rparr>"
    using assms(1) unfolding NewSegment_def path_def Let_def
    by (auto split: option.splits if_splits sum.splits prod.splits create_fault.splits)
  have fields: "sg_budget s = d" "sg_path s = path" "sg_filePos s = 8" "sg_prefix s = prefix" "sg_id s = flakeId"
      "\<not> sg_closed s" "\<not> sg_err s" "sg_buf s = []"
    by (subst s, simp)+
  have "booked d path st' = map_option (\<lambda>b. b + 8) (booked d path st)"
    using reserve_finish_booked [OF r, of now] st' by (simp add: booked_def)
  moreover have "budgets st = None \<Longrightarrow> budgets st' = None"
    using r st' by (cases d) (auto simp: reserve_opt_def finish_release_def)
  ultimately show ?thesis
    using fields st' path_def d by (auto simp: holds_def file_of_def encode_writes_def split: if_splits)
qed

lemma NewSegment_failed:
  assumes "NewSegment now fault flakeId dir prefix st = (Inl e, st')"
  shows "disk st' = disk st \<or> disk st' = (disk st)(filepath_Join dir (segment_fileName prefix flakeId) := None)"
  using assms unfolding NewSegment_def Let_def
  by (auto split: option.splits if_splits sum.splits prod.splits create_fault.splits)

lemma NewSegment_healthy:
  assumes "NewSegment now fault flakeId dir prefix st = (Inr s, st')"
    and "\<And>d. DestinationFromPrefix prefix = (d, None) \<Longrightarrow> booked (Some d) (filepath_Join dir (segment_fileName prefix flakeId)) st \<in> {None, Some 0}"
  shows "healthy c [] s st'"
proof -
  note C = NewSegment_created [OF assms(1), of c]
  have "booked (sg_budget s) (sg_path s) st \<in> {None, Some 0}"
    using C assms(2) by (cases "sg_budget s") (auto simp: booked_def)
  then show ?thesis using C by (auto simp: healthy_def settled_def split: option.splits)
qed

lemma healthy_Close:
  assumes h: "healthy c ws s st" and c: "codec_ok c" "\<forall>w \<in> set ws. writable c w"
  shows "\<exists>s' st' file. segment_Close None s st = (None, s', st') \<and> disk st' (sg_path s) = Some file \<and>
    read_segment c file = Inr (map snd ws, NextValue False) \<and> segment_Size s' = int (length file) \<and>
    booked (sg_budget s) (sg_path s) st' \<in> {None, Some (int (length file))} \<and>
    segment_Write now fault c wopts b s' st' = (Inl ErrSegmentClosed, s', st')"
proof -
  have "holds c ws s st" "\<not> sg_closed s" using h by (simp_all add: healthy_def)
  from segment_Close_holds [OF this] obtain s' st' where cl: "segment_Close None s st = (None, s', st')" "holds c ws s' st'"
      "sg_closed s'" "budgets st' = budgets st" "disk st' = (disk st)(sg_path s \<mapsto> segmentMagic @ encode_writes c ws)"
    by blast
  have "booked (sg_budget s) (sg_path s) st' = booked (sg_budget s) (sg_path s) st"
    using cl(4) by (simp add: booked_def)
  then have "booked (sg_budget s) (sg_path s) st' \<in> {None, Some (int (length (segmentMagic @ encode_writes c ws)))}"
    using h by (auto simp: healthy_def settled_def holds_def split: option.splits)
  moreover have "segment_Size s' = int (length (segmentMagic @ encode_writes c ws))"
    using cl(2) by (simp add: segment_Size_def holds_def)
  ultimately show ?thesis
    using cl read_encoded [OF c] by (auto simp: segment_Write_def)
qed

text \<open>
  C23. A segment is a faithful log. Take a segment that was just created, on a path for which nothing is accounted yet, and any
  history of writes, appends of other segments and flushes. After \<open>Close\<close> the file on disk reads back as exactly the
  values that were accepted, in order; its length is the size the segment reports and the number of bytes
  the admission controller holds for it; later writes are refused; and without a controller every value is accepted.
\<close>

theorem segment_reads_back:
  assumes "NewSegment now fault flakeId dir prefix st = (Inr s, st1)"
    and "\<forall>d. DestinationFromPrefix prefix = (d, None) \<longrightarrow>
          booked (Some d) (filepath_Join dir (segment_fileName prefix flakeId)) st \<in> {None, Some 0}"
    and "codec_ok c" and "\<forall>(now, op) \<in> set ops. \<forall>w \<in> set (op_writes op). writable c w"
    and "seg_run c ops s st1 = (ws, s2, st2)"
  shows "(\<exists>s3 st3 file. segment_Close None s2 st2 = (None, s3, st3) \<and> disk st3 (sg_path s) = Some file \<and>
      read_segment c file = Inr (map snd ws, NextValue False) \<and> segment_Size s3 = int (length file) \<and>
      booked (sg_budget s) (sg_path s) st3 \<in> {None, Some (int (length file))} \<and>
      segment_Write now' None c wopts b s3 st3 = (Inl ErrSegmentClosed, s3, st3)) \<and>
    (budgets st = None \<longrightarrow> ws = concat (map (op_writes \<circ> snd) ops))"
proof -
  have n: "healthy c [] s st1" "budgets st = None \<longrightarrow> budgets st1 = None"
    using NewSegment_healthy [OF assms(1)] NewSegment_created [OF assms(1)] assms(2) by blast+
  have h: "healthy c ws s2 st2" "sg_path s2 = sg_path s" "sg_budget s2 = sg_budget s" "\<forall>w \<in> set ws. writable c w"
      "budgets st1 = None \<longrightarrow> ws = concat (map (op_writes \<circ> snd) ops)"
    using healthy_run [OF n(1) assms(3,4,5)] by simp_all
  show ?thesis
    using healthy_Close [OF h(1) assms(3) h(4), of now' None wopts b] h n by auto
qed

text \<open>A short history on an empty store, for the instances below.\<close>

definition demo_store :: store where
  "demo_store = \<lparr>disk = Map.empty, budgets = None\<rparr>"

definition demo_ops :: "(gotime \<times> seg_op) list" where
  "demo_ops = [(1, SegWrite [(MetricSampleType, 3)] [104, 105]), (2, SegFlush), (3, SegAppend two_writes)]"

definition demo_flake :: string where
  "demo_flake = ''4dd38f5900002a''"

lemma demo_ops_writable: "\<forall>(now, op) \<in> set demo_ops. \<forall>w \<in> set (op_writes op). writable stored_codec w"
  using two_writes_writable by (auto simp: demo_ops_def writable_def stored_codec_def length_plain)

lemma demo_new:
  "\<exists>s st. NewSegment 0 CreateOK demo_flake ''/wal'' ''DB_T'' demo_store = (Inr s, st)"
proof -
  have "ParseFlakeID demo_flake \<noteq> None" by code_simp
  moreover have "fs_ValidPath (segment_fileName ''DB_T'' demo_flake)" by code_simp
  moreover have "filepath_Base (segment_fileName ''DB_T'' demo_flake) = segment_fileName ''DB_T'' demo_flake" by code_simp
  ultimately show ?thesis
    by (auto simp: NewSegment_def demo_store_def reserve_opt_def Let_def)
qed

theorem segment_reads_back_witness:
  "\<exists>s st1 s2 st2 s3 st3 file. NewSegment 0 CreateOK demo_flake ''/wal'' ''DB_T'' demo_store = (Inr s, st1) \<and>
     snd (seg_run stored_codec demo_ops s st1) = (s2, st2) \<and> segment_Close None s2 st2 = (None, s3, st3) \<and>
     disk st3 (sg_path s) = Some file \<and>
     read_segment stored_codec file = Inr ([[104, 105], [104, 105], [106]], NextValue False)"
proof -
  obtain s st1 where n: "NewSegment 0 CreateOK demo_flake ''/wal'' ''DB_T'' demo_store = (Inr s, st1)"
    using demo_new by blast
  obtain ws s2 st2 where r: "seg_run stored_codec demo_ops s st1 = (ws, s2, st2)" by (metis prod_cases3)
  have "\<forall>d. DestinationFromPrefix ''DB_T'' = (d, None) \<longrightarrow>
      booked (Some d) (filepath_Join ''/wal'' (segment_fileName ''DB_T'' demo_flake)) demo_store \<in> {None, Some 0}"
    by (simp add: booked_def demo_store_def)
  from segment_reads_back [OF n this codec_ok_stored demo_ops_writable r, of 0 "[]" "[]"]
  have "ws = concat (map (op_writes \<circ> snd) demo_ops)"
    and "\<exists>s3 st3 file. segment_Close None s2 st2 = (None, s3, st3) \<and> disk st3 (sg_path s) = Some file \<and>
      read_segment stored_codec file = Inr (map snd ws, NextValue False)"
    by (auto simp: demo_store_def)
  then show ?thesis using n r by (auto simp: demo_ops_def two_writes_def)
qed

section \<open>Opening a segment\<close>

lemma split_last_append:
  assumes "c \<notin> set b"
  shows "split_last c (a @ c # b) = Some (a, b)"
proof -
  have "takeWhile (\<lambda>x. x \<noteq> c) (rev b @ c # rev a) = rev b" "dropWhile (\<lambda>x. x \<noteq> c) (rev b @ c # rev a) = c # rev a"
    using assms by (auto simp: takeWhile_append dropWhile_append)
  then show ?thesis by (simp add: split_last_def)
qed

lemma Open_named:
  assumes path: "path = filepath_Join dir (segment_fileName prefix flakeId)" and names: "CHR ''/'' \<notin> set prefix" "CHR ''/'' \<notin> set flakeId"
      "CHR ''_'' \<notin> set flakeId" and flake: "ParseFlakeID flakeId = Some created"
    and content: "disk st path = Some f" "8 \<le> length f" "take 6 f = take 6 segmentMagic"
  shows "Open path st =
    (OpenOK \<lparr>sg_id = flakeId, sg_prefix = prefix, sg_path = path, sg_createdAt = created,
       sg_filePos = int (length (Repair_bytes f)), sg_buf = [], sg_err = False, sg_closed = False, sg_budget = None\<rparr>,
     st\<lparr>disk := (disk st)(path \<mapsto> Repair_bytes f)\<rparr>)"
proof -
  have ext: "filepath_Ext path = ''.wal''"
    using filepath_Ext_wal [of "dir @ ''/'' @ prefix @ ''_'' @ flakeId"] by (simp add: path filepath_Join_def segment_fileName_def)
  have base: "filepath_Base path = prefix @ ''_'' @ flakeId @ ''.wal''"
    using names filepath_Base_dir [of "prefix @ ''_'' @ flakeId @ ''.wal''" "dir @ ''/''"]
    by (simp add: path filepath_Join_def segment_fileName_def)
  have "split_last CHR ''_'' (prefix @ CHR ''_'' # flakeId) = Some (prefix, flakeId)"
    by (rule split_last_append [OF names(3)])
  then show ?thesis
    using ext base flake content by (simp add: Open_def IsSegment_def Let_def)
qed


text \<open>
  C24. Restart after a crash. Let the file of a segment be cut anywhere behind its header. \<open>Open\<close> finds the prefix and the
  identifier in the name, keeps exactly the whole blocks, and reports their length as the size; a
  history of further calls on the reopened segment, closed, reads back as the surviving values
  followed by the new ones.
\<close>

theorem Open_torn_segment:
  assumes "path = filepath_Join dir (segment_fileName prefix flakeId)" and "CHR ''/'' \<notin> set prefix"
      "CHR ''/'' \<notin> set flakeId" "CHR ''_'' \<notin> set flakeId" and "ParseFlakeID flakeId = Some created"
    and "codec_ok c" "\<forall>w \<in> set old. writable c w" "8 \<le> n"
    and "disk st path = Some (take n (segmentMagic @ encode_writes c old))"
    and "\<forall>(now, op) \<in> set ops. \<forall>w \<in> set (op_writes op). writable c w"
  shows "\<exists>s st1 ws s2 st2 s3 st3 file. let kept = take (whole_writes c old (n - 8)) old in
    Open path st = (OpenOK s, st1) \<and> sg_prefix s = prefix \<and> sg_id s = flakeId \<and>
    segment_Size s = int (8 + length (encode_writes c kept)) \<and>
    seg_run c ops s st1 = (ws, s2, st2) \<and> segment_Close None s2 st2 = (None, s3, st3) \<and>
    disk st3 path = Some file \<and> read_segment c file = Inr (map snd (kept @ ws), NextValue False)"
proof -
  define kept where "kept = take (whole_writes c old (n - 8)) old"
  have rep: "Repair_bytes (take n (segmentMagic @ encode_writes c old)) = segmentMagic @ encode_writes c kept"
    using Repair_torn_bytes [OF assms(6,7,8)] kept_def by simp
  have kept_ok: "\<forall>w \<in> set kept. writable c w" using assms(7) kept_def by (meson in_set_takeD)
  have "8 \<le> length (take n (segmentMagic @ encode_writes c old))"
    "take 6 (take n (segmentMagic @ encode_writes c old)) = take 6 segmentMagic"
    using assms(8) by (simp_all add: min_def)
  from Open_named [OF assms(1-5,9) this] obtain s st1 where o: "Open path st = (OpenOK s, st1)"
    and s: "sg_id s = flakeId" "sg_prefix s = prefix" "sg_path s = path" "sg_budget s = None" "sg_buf s = []" "\<not> sg_err s"
      "\<not> sg_closed s" "sg_filePos s = int (length (segmentMagic @ encode_writes c kept))"
    and st1: "disk st1 path = Some (segmentMagic @ encode_writes c kept)"
    unfolding rep by auto
  have h: "healthy c kept s st1"
    using s st1 by (simp add: healthy_def holds_def file_of_def settled_def booked_def)
  obtain ws s2 st2 where r: "seg_run c ops s st1 = (ws, s2, st2)" by (metis prod_cases3)
  note H = healthy_run [OF h assms(6,10) r]
  from H kept_ok have "\<forall>w \<in> set (kept @ ws). writable c w" by auto
  from healthy_Close [OF conjunct1 [OF H] assms(6) this] show ?thesis
    unfolding kept_def [symmetric] Let_def using o s r H by (fastforce simp: segment_Size_def)
qed

theorem Open_torn_segment_witness:
  "\<exists>path st s st1 ws s2 st2 s3 st3 file.
     disk st path = Some (take 37 (segmentMagic @ encode_writes stored_codec two_writes)) \<and>
     Open path st = (OpenOK s, st1) \<and> seg_run stored_codec demo_ops s st1 = (ws, s2, st2) \<and>
     segment_Close None s2 st2 = (None, s3, st3) \<and> disk st3 path = Some file \<and>
     read_segment stored_codec file = Inr (map snd (take (whole_writes stored_codec two_writes 29) two_writes @ ws), NextValue False)"
proof -
  define path where "path = filepath_Join ''/wal'' (segment_fileName ''DB_T'' demo_flake)"
  define st where "st = \<lparr>disk = [path \<mapsto> take 37 (segmentMagic @ encode_writes stored_codec two_writes)], budgets = None\<rparr>"
  obtain created where fl: "ParseFlakeID demo_flake = Some created"
    using demo_new by (auto simp: NewSegment_def split: option.splits)
  have d: "disk st path = Some (take 37 (segmentMagic @ encode_writes stored_codec two_writes))"
    by (simp add: st_def)
  have names: "CHR ''/'' \<notin> set ''DB_T''" "CHR ''/'' \<notin> set demo_flake" "CHR ''_'' \<notin> set demo_flake" "8 \<le> (37 :: nat)"
    by (simp_all add: demo_flake_def)
  show ?thesis
    using Open_torn_segment [OF path_def names(1-3) fl codec_ok_stored two_writes_writable names(4) d demo_ops_writable] d
    by (simp add: Let_def) blast
qed

text \<open>
  A stray file stops the process. A \<open>.wal\<close> file that starts with the segment magic and whose name has no
  underscore passes \<open>IsSegment\<close>, and \<open>Open\<close> then panics: \<open>strings.LastIndex\<close> gives \<open>-1\<close>, and the name is sliced with
  it before any check.
\<close>

lemma Open_panics_without_separator:
  assumes "CHR ''_'' \<notin> set name" and "CHR ''/'' \<notin> set name" and "path = filepath_Join dir (name @ ''.wal'')"
    and "disk st path = Some (segmentMagic @ bs)"
  shows "IsSegment path st \<and> Open path st = (OpenPanic, st) \<and> pn_err (ParseFilename path) = Some ErrInvalidWALSegment"
proof -
  have ext: "filepath_Ext path = ''.wal''"
    using filepath_Ext_wal [of "dir @ ''/'' @ name"] by (simp add: assms(3) filepath_Join_def)
  have base: "filepath_Base path = name @ ''.wal''"
    using assms(2) filepath_Base_dir [of "name @ ''.wal''" "dir @ ''/''"] by (simp add: assms(3) filepath_Join_def)
  have seg: "IsSegment path st" using ext assms(4) by (simp add: IsSegment_def)
  moreover have "CHR ''_'' \<notin> set (name @ ''.wal'')" using assms(1) by simp
  then have "strings_Split CHR ''_'' (name @ ''.wal'') = [name @ ''.wal'']" by (rule strings_Split_absent)
  ultimately show ?thesis
    using base ext assms(1) by (simp add: Open_def Let_def split_last_def ParseFilename_def no_name_def)
qed

lemma Open_panics_without_separator_instance:
  "Open ''/wal/backup.wal'' \<lparr>disk = [''/wal/backup.wal'' \<mapsto> segmentMagic], budgets = None\<rparr> =
     (OpenPanic, \<lparr>disk = [''/wal/backup.wal'' \<mapsto> segmentMagic], budgets = None\<rparr>)"
  using Open_panics_without_separator [of "''backup''" "''/wal/backup.wal''" "''/wal''"
      "\<lparr>disk = [''/wal/backup.wal'' \<mapsto> segmentMagic], budgets = None\<rparr>" "[]"]
  by (simp add: filepath_Join_def)

end
