(* ===== verification/Wal.thy ===== *)
theory Wal
  imports WalSegment WalIndex RotationScheduler
begin

text \<open>
  The write-ahead log of one table, \<open>pkg/wal/wal.go\<close>: an active segment that is written, rotated at its size or age, and the index
  of the closed segments that wait for upload.

  The state of a \<open>WAL\<close> object is a record; what it shares with others (files, admission controller,
  index, rotation scheduler, the generator of identifiers) is the world. The clocks, the random jitter, the order in
  which Go visits the index and the faults of the operating system are the fields of an environment, one for each
  attempt of a write. The generator of identifiers is third-party code: \<open>idgen n\<close> is its \<open>n\<close>-th identifier.
  \<open>rotateSegmentIfNecessary\<close> releases its lock once; what other goroutines do there is the
  argument \<open>mid\<close>. A segment is identified by its path.
\<close>

section \<open>State\<close>

record wal_opts =
  StorageDir :: string
  WPrefix :: string
  SegmentMaxSize :: int
  SegmentMaxAge :: duration
  MaxDiskUsage :: int
  MaxSegmentCount :: int
  WPriority :: priority

record wal =
  w_opts :: wal_opts
  w_id :: nat
  w_closed :: bool
  w_segment :: "segment option"
  w_inflight :: int
  w_size :: int
  w_createdAt :: int
  w_jitter :: duration

record world =
  w_store :: store
  w_index :: index
  w_sched :: "scheduler option"
  w_nextId :: nat

record env =
  e_now :: gotime
  e_mono :: int
  e_jitter :: duration
  e_create :: create_fault
  e_write :: "nat option"
  e_close :: "nat option"
  e_remove :: bool
  e_locked :: bool
  e_prefixes :: "string list"

type_synonym idgen = "nat \<Rightarrow> string"

section \<open>Construction\<close>

text \<open>\<open>NewWAL\<close>; the index is always given (\<open>WALOpts.Index\<close>, or a new one).\<close>

definition NewWAL :: "wal_opts \<Rightarrow> nat \<Rightarrow> string + wal" where
  "NewWAL wo i =
     (if StorageDir wo = [] then Inl ''wal storage dir not defined''
      else Inr \<lparr>w_opts = wo, w_id = i, w_closed = False, w_segment = None, w_inflight = 0, w_size = 0,
                w_createdAt = 0, w_jitter = 0\<rparr>)"

text \<open>\<open>monoTime\<close>: a reading of the monotonic clock, in Unix nanoseconds, as a time.\<close>

definition monoTime :: "int \<Rightarrow> gotime" where
  "monoTime ns = ns + 62135596800 * second"

definition segmentMaxAge :: "wal \<Rightarrow> duration" where
  "segmentMaxAge w = SegmentMaxAge (w_opts w) - w_jitter w"

definition newSegment :: "idgen \<Rightarrow> env \<Rightarrow> wal \<Rightarrow> world \<Rightarrow> (wal_error + segment) \<times> world" where
  "newSegment idgen e w W =
     (case NewSegment (e_now e) (e_create e) (idgen (w_nextId W)) (StorageDir (w_opts w)) (WPrefix (w_opts w)) (w_store W) of
        (r, st) \<Rightarrow> (r, W\<lparr>w_store := st, w_nextId := Suc (w_nextId W)\<rparr>))"

section \<open>Rotation\<close>

definition scheduleRotationLocked :: "wal \<Rightarrow> world \<Rightarrow> world" where
  "scheduleRotationLocked w W =
     (case w_sched W of
        None \<Rightarrow> W
      | Some sc \<Rightarrow>
          if w_closed w \<or> SegmentMaxAge (w_opts w) \<le> 0 \<or> w_createdAt w = 0 then W
          else W\<lparr>w_sched := Some (fst (schedule (w_id w) (monoTime (w_createdAt w) + segmentMaxAge w) sc))\<rparr>)"

text \<open>\<open>rotationJitterFraction\<close> is 10; \<open>rand.N(window)\<close> is below its argument.\<close>

definition setSegment :: "env \<Rightarrow> segment option \<Rightarrow> wal \<Rightarrow> world \<Rightarrow> wal \<times> world" where
  "setSegment e seg w W =
     (case seg of
        None \<Rightarrow>
          (w\<lparr>w_segment := None, w_size := 0, w_createdAt := 0\<rparr>,
           W\<lparr>w_sched := map_option (unschedule (w_id w)) (w_sched W)\<rparr>)
      | Some s \<Rightarrow>
          (let window = SegmentMaxAge (w_opts w) div 10;
               w' = w\<lparr>w_segment := Some s, w_size := segment_Size s, w_createdAt := e_mono e,
                      w_jitter := (if window > 0 then e_jitter e mod window else 0)\<rparr>
           in (w', scheduleRotationLocked w' W)))"

definition requiresRotation :: "env \<Rightarrow> wal \<Rightarrow> bool" where
  "requiresRotation e w =
     (if SegmentMaxSize (w_opts w) > 0 \<and> w_size w + w_inflight w \<ge> SegmentMaxSize (w_opts w) then True
      else SegmentMaxAge (w_opts w) > 0 \<and> w_createdAt w \<noteq> 0 \<and> e_mono e - w_createdAt w \<ge> segmentMaxAge w)"

definition isIdle :: "segment option \<Rightarrow> wal \<Rightarrow> bool" where
  "isIdle seg w = (case seg of None \<Rightarrow> False | Some s \<Rightarrow> segment_Size s \<le> 8 \<and> w_inflight w = 0)"

definition createNextSegment :: "idgen \<Rightarrow> env \<Rightarrow> wal \<Rightarrow> world \<Rightarrow> segment option \<times> world" where
  "createNextSegment idgen e w W =
     (case newSegment idgen e w W of (Inl err, W') \<Rightarrow> (None, W') | (Inr s, W') \<Rightarrow> (Some s, W'))"

text \<open>\<open>Remove\<close>: a file that does not exist counts as removed; \<open>e_remove\<close> says that the system refuses.\<close>

definition wal_Remove :: "env \<Rightarrow> string \<Rightarrow> wal \<Rightarrow> world \<Rightarrow> wal_error option \<times> world" where
  "wal_Remove e path w W =
     (if disk (w_store W) path \<noteq> None \<and> e_remove e then (Some ErrIO, W)
      else
        let st = (w_store W)\<lparr>disk := (disk (w_store W))(path := None)\<rparr>
        in (None, W\<lparr>w_store :=
              (case DestinationFromPrefix (WPrefix (w_opts w)) of
                 (d, None) \<Rightarrow> st\<lparr>budgets := map_option (Forget d path) (budgets st)\<rparr>
               | (d, Some err) \<Rightarrow> st)\<rparr>))"

definition discardSegment :: "env \<Rightarrow> segment option \<Rightarrow> wal \<Rightarrow> world \<Rightarrow> world" where
  "discardSegment e seg w W =
     (case seg of
        None \<Rightarrow> W
      | Some s \<Rightarrow>
          (case segment_Close (e_close e) s (w_store W) of (err, s', st) \<Rightarrow>
             snd (wal_Remove e (sg_path s) w (W\<lparr>w_store := st\<rparr>))))"

definition segment_Info :: "wal \<Rightarrow> segment \<Rightarrow> segment_info" where
  "segment_Info w s =
     \<lparr>Prefix = sg_prefix s, Ulid = sg_id s, Path = sg_path s, Size = segment_Size s, CreatedAt = sg_createdAt s,
      SPriority = WPriority (w_opts w)\<rparr>"

text \<open>The tail of \<open>rotateSegmentIfNecessary\<close> and of \<open>closeActiveSegment\<close>: close, then index or delete.\<close>

definition retire :: "env \<Rightarrow> segment \<Rightarrow> wal \<Rightarrow> world \<Rightarrow> world" where
  "retire e s w W =
     (case segment_Close (e_close e) s (w_store W) of (err, s', st) \<Rightarrow>
        let W = W\<lparr>w_store := st\<rparr>
        in if segment_Size s' > 8 then W\<lparr>w_index := fst (index_Add (segment_Info w s') (w_index W))\<rparr>
           else snd (wal_Remove e (sg_path s') w W))"

definition rotateSegmentIfNecessary ::
  "idgen \<Rightarrow> env \<Rightarrow> (wal \<times> world \<Rightarrow> wal \<times> world) \<Rightarrow> wal \<Rightarrow> world \<Rightarrow> wal \<times> world"
where
  "rotateSegmentIfNecessary idgen e mid w W =
     (if \<not> requiresRotation e w \<or> w_closed w then (w, W)
      else
        let cur = w_segment w;
            (nxt, W) = (if \<not> isIdle cur w then createNextSegment idgen e w W else (None, W));
            (w, W) = mid (w, W)
        in if w_closed w \<or> map_option sg_path (w_segment w) \<noteq> map_option sg_path cur \<or> \<not> requiresRotation e w
           then (w, discardSegment e nxt w W)
           else
             let cur = w_segment w;
                 (nxt, W) = (if nxt = None \<and> \<not> isIdle cur w then createNextSegment idgen e w W else (nxt, W));
                 (w, W) = setSegment e nxt w W
             in (w, case cur of None \<Rightarrow> W | Some s \<Rightarrow> retire e s w W))"

definition closeActiveSegment :: "env \<Rightarrow> wal \<Rightarrow> world \<Rightarrow> wal \<times> world" where
  "closeActiveSegment e w W =
     (case w_segment w of
        None \<Rightarrow> (w, W)
      | Some s \<Rightarrow> (case setSegment e None w W of (w, W) \<Rightarrow> (w, retire e s w W)))"

section \<open>Writing\<close>

definition wal_validateLimits :: "env \<Rightarrow> wal \<Rightarrow> world \<Rightarrow> wal_error option" where
  "wal_validateLimits e w W =
     (let full = SegmentMaxSize (w_opts w) > 0 \<and> w_size w > 8 \<and> w_size w + w_inflight w \<ge> SegmentMaxSize (w_opts w)
      in if budgets (w_store W) \<noteq> None then (if full then Some ErrMaxSegmentSizeExceeded else None)
         else
           let total = totalSize (w_index W) + w_inflight w + (case w_segment w of None \<Rightarrow> 0 | Some s \<Rightarrow> segment_Size s)
           in if MaxDiskUsage (w_opts w) > 0 \<and> total \<ge> MaxDiskUsage (w_opts w) then Some ErrMaxDiskUsageExceeded
              else if MaxSegmentCount (w_opts w) > 0 \<and> int (TotalSegments (e_prefixes e) (w_index W)) \<ge> MaxSegmentCount (w_opts w)
              then Some ErrMaxSegmentsExceeded
              else if full then Some ErrMaxSegmentSizeExceeded
              else None)"

type_synonym seg_write = "segment \<Rightarrow> store \<Rightarrow> (wal_error + int) \<times> segment \<times> store"

text \<open>The common text of \<open>tryWrite\<close> and \<open>tryAppend\<close>: \<open>f\<close> is the call on the segment.\<close>

definition try_segment :: "idgen \<Rightarrow> env \<Rightarrow> seg_write \<Rightarrow> wal \<Rightarrow> world \<Rightarrow> (wal_error + int) \<times> wal \<times> world" where
  "try_segment idgen e f w W =
     (case wal_validateLimits e w W of
        Some err \<Rightarrow> (Inl err, w, W)
      | None \<Rightarrow>
          (case (case w_segment w of
                   Some s \<Rightarrow> (Inr s, w, W)
                 | None \<Rightarrow>
                     if w_closed w then (Inl ErrSegmentClosed, w, W)
                     else case newSegment idgen e w W of
                       (Inl err, W) \<Rightarrow> (Inl err, w, W)
                     | (Inr s, W) \<Rightarrow> (case setSegment e (Some s) w W of (w, W) \<Rightarrow> (Inr s, w, W))) of
             (Inl err, w, W) \<Rightarrow> (Inl err, w, W)
           | (Inr s, w, W) \<Rightarrow>
               (case f s (w_store W) of (r, s', st) \<Rightarrow> (r, w\<lparr>w_segment := Some s'\<rparr>, W\<lparr>w_store := st\<rparr>))))"

definition tryWrite ::
  "idgen \<Rightarrow> env \<Rightarrow> codec \<Rightarrow> write_options \<Rightarrow> bytes \<Rightarrow> wal \<Rightarrow> world \<Rightarrow> (wal_error + int) \<times> wal \<times> world"
where
  "tryWrite idgen e c wopts buf = try_segment idgen e (segment_Write (e_now e) (e_write e) c wopts buf)"

definition tryAppend :: "idgen \<Rightarrow> env \<Rightarrow> bytes \<Rightarrow> wal \<Rightarrow> world \<Rightarrow> (wal_error + int) \<times> wal \<times> world" where
  "tryAppend idgen e buf = try_segment idgen e (segment_Append (e_now e) (e_write e) (e_locked e) buf)"

definition maxSegmentClosedRetries :: nat where
  "maxSegmentClosedRetries = 16"

text \<open>
  \<open>writeWithRetry\<close>. The environment \<open>env k\<close>, the call \<open>write k\<close>, what other goroutines do before it and in the middle of its rotation
  (\<open>others k False\<close> and \<open>others k True\<close>) and the state of the context after it (\<open>ctx k\<close>) belong to the \<open>k\<close>-th attempt; the first component of the result is the number of attempts.
\<close>

function writeWithRetry ::
  "idgen \<Rightarrow> (nat \<Rightarrow> env) \<Rightarrow> (nat \<Rightarrow> bool \<Rightarrow> wal \<times> world \<Rightarrow> wal \<times> world) \<Rightarrow> (nat \<Rightarrow> wal_error option) \<Rightarrow>
   (nat \<Rightarrow> wal \<Rightarrow> world \<Rightarrow> (wal_error + int) \<times> wal \<times> world) \<Rightarrow> nat \<Rightarrow> nat \<Rightarrow> nat \<Rightarrow> wal \<Rightarrow> world \<Rightarrow>
   nat \<times> wal_error option \<times> wal \<times> world"
where
  "writeWithRetry idgen env others ctx write k rotations closedRetries w W =
     (case others k False (w, W) of (w, W) \<Rightarrow>
      case write k w W of
        (Inr n, w, W) \<Rightarrow> (Suc k, None, w\<lparr>w_size := w_size w + n\<rparr>, W)
      | (Inl err, w, W) \<Rightarrow>
          if err = ErrMaxSegmentSizeExceeded \<and> rotations < maxSegmentClosedRetries then
            (case rotateSegmentIfNecessary idgen (env k) (others k True) w W of (w, W) \<Rightarrow>
               (case ctx k of
                  Some ce \<Rightarrow> (Suc k, Some ce, w, W)
                | None \<Rightarrow> writeWithRetry idgen env others ctx write (Suc k) (Suc rotations) closedRetries w W))
          else if err = ErrSegmentClosed \<and> closedRetries < maxSegmentClosedRetries then
            (case ctx k of
               Some ce \<Rightarrow> (Suc k, Some ce, w, W)
             | None \<Rightarrow> writeWithRetry idgen env others ctx write (Suc k) rotations (Suc closedRetries) w W)
          else
            (case err of
               TableOverloadedError d reason after \<Rightarrow>
                 (case closeActiveSegment (env k) w W of (w, W) \<Rightarrow> (Suc k, Some err, w, W))
             | _ \<Rightarrow> (Suc k, Some err, w, W)))"
  by pat_completeness auto
termination
  by (relation "measure (\<lambda>(idgen, env, others, ctx, write, k, rot, cl, w, W).
        (maxSegmentClosedRetries - rot) + (maxSegmentClosedRetries - cl))") auto

declare writeWithRetry.simps [simp del]

definition wal_Write ::
  "idgen \<Rightarrow> (nat \<Rightarrow> env) \<Rightarrow> (nat \<Rightarrow> bool \<Rightarrow> wal \<times> world \<Rightarrow> wal \<times> world) \<Rightarrow> (nat \<Rightarrow> wal_error option) \<Rightarrow> codec \<Rightarrow>
   write_options \<Rightarrow> bytes \<Rightarrow> wal \<Rightarrow> world \<Rightarrow> nat \<times> wal_error option \<times> wal \<times> world"
where
  "wal_Write idgen env others ctx c wopts buf w W =
     (case writeWithRetry idgen env others ctx (\<lambda>k. tryWrite idgen (env k) c wopts buf) 0 0 0
             (w\<lparr>w_inflight := w_inflight w + int (length buf)\<rparr>) W of
        (k, err, w, W) \<Rightarrow> (k, err, w\<lparr>w_inflight := w_inflight w - int (length buf)\<rparr>, W))"

definition wal_Append ::
  "idgen \<Rightarrow> (nat \<Rightarrow> env) \<Rightarrow> (nat \<Rightarrow> bool \<Rightarrow> wal \<times> world \<Rightarrow> wal \<times> world) \<Rightarrow> (nat \<Rightarrow> wal_error option) \<Rightarrow> bytes \<Rightarrow>
   wal \<Rightarrow> world \<Rightarrow> nat \<times> wal_error option \<times> wal \<times> world"
where
  "wal_Append idgen env others ctx buf w W =
     (case writeWithRetry idgen env others ctx (\<lambda>k. tryAppend idgen (env k) buf) 0 0 0
             (w\<lparr>w_inflight := w_inflight w + int (length buf)\<rparr>) W of
        (k, err, w, W) \<Rightarrow> (k, err, w\<lparr>w_inflight := w_inflight w - int (length buf)\<rparr>, W))"

section \<open>Closing, flushing, removing\<close>

text \<open>\<open>Close\<close>: unlike \<open>retire\<close>, a failed close leaves the segment out of the index, and an empty one is indexed.\<close>

definition wal_Close :: "env \<Rightarrow> wal \<Rightarrow> world \<Rightarrow> wal_error option \<times> wal \<times> world" where
  "wal_Close e w W =
     (let seg = w_segment w
      in case setSegment e None (w\<lparr>w_closed := True\<rparr>) W of (w, W) \<Rightarrow>
           (case seg of
              None \<Rightarrow> (None, w, W)
            | Some s \<Rightarrow>
                let info = segment_Info w s
                in case segment_Close (e_close e) s (w_store W) of
                     (Some err, s', st) \<Rightarrow> (Some err, w, W\<lparr>w_store := st\<rparr>)
                   | (None, s', st) \<Rightarrow>
                       (None, w, W\<lparr>w_store := st, w_index := fst (index_Add info (w_index W))\<rparr>)))"

fun remove_segments :: "env \<Rightarrow> segment_info list \<Rightarrow> wal \<Rightarrow> world \<Rightarrow> wal_error option \<times> world" where
  "remove_segments e [] w W = (None, W)"
| "remove_segments e (i # is) w W =
     (case wal_Remove e (Path i) w W of
        (Some err, W) \<Rightarrow> (Some err, W)
      | (None, W) \<Rightarrow>
          (case index_Remove i (w_index W) (budgets (w_store W)) of (ix, ao) \<Rightarrow>
             remove_segments e is w (W\<lparr>w_index := ix, w_store := (w_store W)\<lparr>budgets := ao\<rparr>\<rparr>)))"

definition wal_RemoveAll :: "env \<Rightarrow> wal \<Rightarrow> world \<Rightarrow> wal_error option \<times> world" where
  "wal_RemoveAll e w W =
     (if \<not> w_closed w then (Some (ErrOther ''wal not closed''), W)
      else case remove_segments e (index_Get (WPrefix (w_opts w)) (w_index W)) w W of
        (Some err, W) \<Rightarrow> (Some err, W)
      | (None, W) \<Rightarrow> (case w_segment w of None \<Rightarrow> (None, W) | Some s \<Rightarrow> wal_Remove e (sg_path s) w W))"

text \<open>\<open>Flush\<close>: \<open>None\<close> is a call that never returns.\<close>

definition wal_Flush :: "env \<Rightarrow> wal \<Rightarrow> world \<Rightarrow> (wal_error option \<times> wal \<times> world) option" where
  "wal_Flush e w W =
     (case w_segment w of
        None \<Rightarrow> Some (None, w, W)
      | Some s \<Rightarrow>
          map_option (\<lambda>(err, s', st). (err, w\<lparr>w_segment := Some s'\<rparr>, W\<lparr>w_store := st\<rparr>))
            (segment_Flush (e_write e) (e_locked e) s (w_store W)))"

definition wal_Size :: "wal \<Rightarrow> int" where
  "wal_Size w = (case w_segment w of None \<Rightarrow> 0 | Some s \<Rightarrow> segment_Size s)"

definition wal_Path :: "wal \<Rightarrow> string" where
  "wal_Path w = (case w_segment w of None \<Rightarrow> [] | Some s \<Rightarrow> sg_path s)"

end
