(* ===== verification/WalLog.thy ===== *)
theory WalLog
  imports Wal
begin

text \<open>
  Correctness of the write-ahead log of \<open>Wal\<close>: the contract the log relies on of a call on its segment (the locale
  \<open>segment_writer\<close>, interpreted on \<open>segment_Write\<close> and proved of \<open>segment_Append\<close>), the invariant of a log with its
  indexed files and its active segment, that every operation keeps it, and that writes end and make progress.
\<close>

section \<open>What a call on the segment promises\<close>

text \<open>
  The log relies on this of the call it makes on the active segment: it either refuses and changes neither the segment
  nor a file, or appends the blocks of \<open>vs\<close> to that segment and reports their length.
\<close>

locale segment_writer =
  fixes c :: codec and vs :: "wal_write list" and f :: "env \<Rightarrow> seg_write"
  assumes refuses: "\<lbrakk>e_write e = None; holds c ws s st; \<not> sg_closed s; f e s st = (Inl err, s', st')\<rbrakk> \<Longrightarrow>
      s' = s \<and> disk st' = disk st \<and> err \<noteq> ErrMaxSegmentSizeExceeded \<and> err \<noteq> ErrSegmentClosed"
    and accepts: "\<lbrakk>e_write e = None; holds c ws s st; \<not> sg_closed s; f e s st = (Inr n, s', st')\<rbrakk> \<Longrightarrow>
      holds c (ws @ vs) s' st' \<and> \<not> sg_closed s' \<and> sg_path s' = sg_path s \<and> sg_prefix s' = sg_prefix s \<and>
      sg_filePos s' = sg_filePos s + n \<and> (\<forall>p. p \<noteq> sg_path s \<longrightarrow> disk st' p = disk st p)"
    and uncapped: "\<lbrakk>e_write e = None; \<not> e_locked e; holds c ws s st; \<not> sg_closed s; budgets st = None\<rbrakk> \<Longrightarrow>
      \<exists>n s' st'. f e s st = (Inr n, s', st') \<and> budgets st' = None"

lemma write_bytes_frame:
  assumes "\<not> sg_err s" and "write_bytes now partial None b s st = (res, s', st')"
  shows "sg_prefix s' = sg_prefix s \<and> sg_path s' = sg_path s \<and> sg_closed s' = sg_closed s \<and>
    (\<forall>p. p \<noteq> sg_path s \<longrightarrow> disk st' p = disk st p) \<and> (\<forall>n. res = Inr n \<longrightarrow> sg_filePos s' = sg_filePos s + n) \<and>
    (\<forall>err. res = Inl err \<longrightarrow> err \<noteq> ErrMaxSegmentSizeExceeded \<and> err \<noteq> ErrSegmentClosed) \<and>
    (budgets st = None \<longrightarrow> (\<exists>n. res = Inr n) \<and> budgets st' = None)"
proof -
  obtain r ao where r: "reserve_opt now (sg_path s) (sg_budget s) (int (length b)) 0 (budgets st) = (r, ao)" by fastforce
  have none: "budgets st = None \<Longrightarrow> r = Inr None \<and> ao = None"
    using r by (cases "sg_budget s") (auto simp: reserve_opt_def)
  have err: "err \<noteq> ErrMaxSegmentSizeExceeded \<and> err \<noteq> ErrSegmentClosed" if i: "r = Inl err" for err
  proof -
    obtain d a where da: "sg_budget s = Some d" "budgets st = Some a"
      using r i by (auto simp: reserve_opt_def split: option.splits)
    obtain a' where "Reserve now (sg_path s) d (int (length b)) 0 a = (Inl err, a')"
      using r i da by (auto simp: reserve_opt_def split: prod.splits sum.splits)
    then show ?thesis
      using Reserve_cases [where now = now and path = "sg_path s" and d = d and b = "int (length b)" and s = 0 and a = a]
      by (auto split: wal_error.splits)
  qed
  obtain f bf where w: "bufio_Write (case disk st (sg_path s) of Some f \<Rightarrow> f | None \<Rightarrow> []) (sg_buf s) b = (f, bf)"
    by fastforce
  show ?thesis
    using assms r none err w by (cases r) (auto simp: write_bytes_def Let_def finish_release_def)
qed

lemma segment_writer_bytes:
  assumes "e_write e = None" "holds c ws s st" "\<not> sg_closed s" "b = encode_writes c vs"
    and "write_bytes now partial (e_write e) b s st = (res, s', st')"
  shows "case res of
      Inl err \<Rightarrow> s' = s \<and> disk st' = disk st \<and> err \<noteq> ErrMaxSegmentSizeExceeded \<and> err \<noteq> ErrSegmentClosed
    | Inr n \<Rightarrow> holds c (ws @ vs) s' st' \<and> \<not> sg_closed s' \<and> sg_path s' = sg_path s \<and> sg_prefix s' = sg_prefix s \<and>
        sg_filePos s' = sg_filePos s + n \<and> (\<forall>p. p \<noteq> sg_path s \<longrightarrow> disk st' p = disk st p)"
proof -
  have w: "write_bytes now partial None b s st = (res, s', st')" "\<not> sg_err s"
    using assms by (simp_all add: holds_def)
  show ?thesis
    using write_bytes_cases [OF assms(2,4), of now partial] write_bytes_frame [OF w(2,1)] w assms(3) by (cases res) auto
qed

lemma encode_writes_op: "b \<noteq> [] \<Longrightarrow> encode_block c wopts b = encode_writes c (op_writes (SegWrite wopts b))"
  by (simp add: encode_writes_single)

interpretation seg_Write: segment_writer c "op_writes (SegWrite wopts b)" "\<lambda>e. segment_Write (e_now e) (e_write e) c wopts b"
  for c wopts b
proof
  fix e ws s st err s' st'
  assume a: "e_write e = None" "holds c ws s st" "\<not> sg_closed s"
    and w: "segment_Write (e_now e) (e_write e) c wopts b s st = (Inl err, s', st')"
  then show "s' = s \<and> disk st' = disk st \<and> err \<noteq> ErrMaxSegmentSizeExceeded \<and> err \<noteq> ErrSegmentClosed"
    using segment_writer_bytes [OF a encode_writes_op, of b] by (cases "b = []") (fastforce simp: segment_Write_def)+
next
  fix e ws s st n s' st'
  assume a: "e_write e = None" "holds c ws s st" "\<not> sg_closed s"
    and w: "segment_Write (e_now e) (e_write e) c wopts b s st = (Inr n, s', st')"
  then show "holds c (ws @ op_writes (SegWrite wopts b)) s' st' \<and> \<not> sg_closed s' \<and> sg_path s' = sg_path s \<and>
      sg_prefix s' = sg_prefix s \<and> sg_filePos s' = sg_filePos s + n \<and> (\<forall>p. p \<noteq> sg_path s \<longrightarrow> disk st' p = disk st p)"
    using segment_writer_bytes [OF a encode_writes_op, of b] by (cases "b = []") (fastforce simp: segment_Write_def)+
next
  fix e ws s st
  assume a: "e_write e = None" "\<not> e_locked e" "holds c ws s st" "\<not> sg_closed s" "budgets st = None"
  obtain r s' st' where w: "write_bytes (e_now e) True None (encode_block c wopts b) s st = (r, s', st')" by (metis prod_cases3)
  show "\<exists>n s' st'. segment_Write (e_now e) (e_write e) c wopts b s st = (Inr n, s', st') \<and> budgets st' = None"
    using write_bytes_frame [OF _ w] w a by (auto simp: segment_Write_def holds_def)
qed

lemma segment_writer_Append:
  assumes c: "codec_ok c" "\<forall>w \<in> set vs. writable c w"
  shows "segment_writer c vs (\<lambda>e. segment_Append (e_now e) (e_write e) (e_locked e) (segmentMagic @ encode_writes c vs))"
proof -
  note V = Verify_whole [OF c]
  have A: "segment_Append now fault locked (segmentMagic @ encode_writes c vs) s st =
      (if vs = [] then (Inr 0, s, st) else if locked then (Inl ErrSegmentLocked, s, st)
       else if sg_closed s then (Inl ErrSegmentClosed, s, st) else write_bytes now False fault (encode_writes c vs) s st)"
    for now fault locked s st
    using V by (simp add: segment_Append_def NewSegmentIterator_header)
  show ?thesis
  proof
    fix e ws s st err s' st'
    assume a: "e_write e = None" "holds c ws s st" "\<not> sg_closed s"
      and w: "segment_Append (e_now e) (e_write e) (e_locked e) (segmentMagic @ encode_writes c vs) s st = (Inl err, s', st')"
    then show "s' = s \<and> disk st' = disk st \<and> err \<noteq> ErrMaxSegmentSizeExceeded \<and> err \<noteq> ErrSegmentClosed"
      using segment_writer_bytes [OF a refl] unfolding A by (fastforce split: if_splits)
  next
    fix e ws s st n s' st'
    assume a: "e_write e = None" "holds c ws s st" "\<not> sg_closed s"
      and w: "segment_Append (e_now e) (e_write e) (e_locked e) (segmentMagic @ encode_writes c vs) s st = (Inr n, s', st')"
    then show "holds c (ws @ vs) s' st' \<and> \<not> sg_closed s' \<and> sg_path s' = sg_path s \<and> sg_prefix s' = sg_prefix s \<and>
        sg_filePos s' = sg_filePos s + n \<and> (\<forall>p. p \<noteq> sg_path s \<longrightarrow> disk st' p = disk st p)"
      using segment_writer_bytes [OF a refl] unfolding A by (fastforce split: if_splits)
  next
    fix e ws s st
    assume a: "e_write e = None" "\<not> e_locked e" "holds c ws s st" "\<not> sg_closed s" "budgets st = None"
    obtain r s' st' where w: "write_bytes (e_now e) False None (encode_writes c vs) s st = (r, s', st')" by (metis prod_cases3)
    show "\<exists>n s' st'. segment_Append (e_now e) (e_write e) (e_locked e) (segmentMagic @ encode_writes c vs) s st = (Inr n, s', st') \<and>
        budgets st' = None"
      using write_bytes_frame [OF _ w] w a unfolding A by (auto simp: holds_def)
  qed
qed

section \<open>The log invariant\<close>

text \<open>
  \<open>closed\<close> pairs each indexed segment of the log with the writes in its file. The files of the index are whole and
  as long as the index says, and no file has a name that the generator has yet to give.
\<close>

definition segment_path :: "idgen \<Rightarrow> wal_opts \<Rightarrow> nat \<Rightarrow> string" where
  "segment_path idgen wo n = filepath_Join (StorageDir wo) (segment_fileName (WPrefix wo) (idgen n))"

lemma segment_path_eq: "inj idgen \<Longrightarrow> segment_path idgen wo n = segment_path idgen wo m \<longleftrightarrow> n = m"
  by (auto simp: segment_path_def filepath_Join_def segment_fileName_def inj_eq)

definition world_inv :: "idgen \<Rightarrow> codec \<Rightarrow> wal_opts \<Rightarrow> (segment_info \<times> wal_write list) list \<Rightarrow> world \<Rightarrow> bool" where
  "world_inv idgen c wo closed W \<longleftrightarrow> inj idgen \<and>
     index_Get (WPrefix wo) (w_index W) = map fst closed \<and>
     (\<forall>(i, vs) \<in> set closed. disk (w_store W) (Path i) = Some (segmentMagic @ encode_writes c vs) \<and>
        Size i = int (length (segmentMagic @ encode_writes c vs))) \<and>
     (\<forall>n \<ge> w_nextId W. disk (w_store W) (segment_path idgen wo n) = None)"

text \<open>An open segment of the log with its writes.\<close>

definition seg_ok :: "codec \<Rightarrow> wal_opts \<Rightarrow> (segment_info \<times> wal_write list) list \<Rightarrow> world \<Rightarrow> wal_write list \<Rightarrow> segment \<Rightarrow> bool" where
  "seg_ok c wo closed W vs s \<longleftrightarrow> holds c vs s (w_store W) \<and> \<not> sg_closed s \<and> sg_prefix s = WPrefix wo \<and>
     sg_path s \<notin> Path ` fst ` set closed"

definition wal_inv :: "idgen \<Rightarrow> codec \<Rightarrow> (segment_info \<times> wal_write list) list \<Rightarrow> wal_write list \<Rightarrow> wal \<Rightarrow> world \<Rightarrow> bool" where
  "wal_inv idgen c closed active w W \<longleftrightarrow> world_inv idgen c (w_opts w) closed W \<and>
     (case w_segment w of
        None \<Rightarrow> active = [] \<and> w_size w = 0
      | Some s \<Rightarrow> seg_ok c (w_opts w) closed W active s \<and> w_size w = sg_filePos s)"

text \<open>The values of a log: those in the indexed files, in index order, then those of the active segment.\<close>

definition wal_log :: "idgen \<Rightarrow> codec \<Rightarrow> wal_write list \<Rightarrow> wal \<Rightarrow> world \<Rightarrow> bool" where
  "wal_log idgen c hist w W \<longleftrightarrow>
     (\<exists>closed active. wal_inv idgen c closed active w W \<and> hist = concat (map snd closed) @ active)"

lemma holds_cong: "disk st' (sg_path s) = disk st (sg_path s) \<Longrightarrow> holds c vs s st' = holds c vs s st"
  by (simp add: holds_def file_of_def)

lemma seg_ok_cong:
  "disk (w_store W') (sg_path s) = disk (w_store W) (sg_path s) \<Longrightarrow> seg_ok c wo closed W' vs s = seg_ok c wo closed W vs s"
  using holds_cong [of "w_store W'" s "w_store W" c vs] by (simp add: seg_ok_def)

lemma world_inv_cong:
  assumes "disk (w_store W') = disk (w_store W)" "w_index W' = w_index W" "w_nextId W' = w_nextId W"
  shows "world_inv idgen c wo closed W' = world_inv idgen c wo closed W"
  using assms by (simp add: world_inv_def)

lemma world_inv_mono:
  assumes "world_inv idgen c wo closed W" and "w_index W' = w_index W"
    and "\<And>p. p \<in> Path ` fst ` set closed \<Longrightarrow> disk (w_store W') p = disk (w_store W) p"
    and "\<And>n. n \<ge> w_nextId W' \<Longrightarrow> disk (w_store W') (segment_path idgen wo n) = None"
  shows "world_inv idgen c wo closed W'"
  unfolding world_inv_def
proof (intro conjI ballI allI impI)
  show "inj idgen" "index_Get (WPrefix wo) (w_index W') = map fst closed"
    using assms(1,2) by (simp_all add: world_inv_def)
  fix x assume x: "x \<in> set closed"
  obtain i vs where "x = (i, vs)" by fastforce
  moreover have "Path i \<in> Path ` fst ` set closed" using x calculation by force
  ultimately show "case x of (i, vs) \<Rightarrow> disk (w_store W') (Path i) = Some (segmentMagic @ encode_writes c vs) \<and>
      Size i = int (length (segmentMagic @ encode_writes c vs))"
    using assms(1,3) x by (auto simp: world_inv_def)
qed (simp add: assms(4))

lemma world_inv_fresh: "world_inv idgen c wo closed W \<Longrightarrow> n \<ge> w_nextId W \<Longrightarrow> disk (w_store W) (segment_path idgen wo n) = None"
  by (simp add: world_inv_def)

lemma world_inv_present: "world_inv idgen c wo closed W \<Longrightarrow> p \<in> Path ` fst ` set closed \<Longrightarrow> disk (w_store W) p \<noteq> None"
  by (auto simp: world_inv_def)

text \<open>Changing one file that is not in the index, and adding a whole file to the index.\<close>

lemma world_inv_store:
  assumes inv: "world_inv idgen c wo closed W" and p: "p \<notin> Path ` fst ` set closed" "disk (w_store W) p \<noteq> None"
    and other: "\<And>q. q \<noteq> p \<Longrightarrow> disk st q = disk (w_store W) q"
  shows "world_inv idgen c wo closed (W\<lparr>w_store := st\<rparr>)"
proof (rule world_inv_mono [OF inv])
  show "w_index (W\<lparr>w_store := st\<rparr>) = w_index W" by simp
  fix q assume "q \<in> Path ` fst ` set closed"
  with p(1) have "q \<noteq> p" by blast
  then show "disk (w_store (W\<lparr>w_store := st\<rparr>)) q = disk (w_store W) q" using other by simp
next
  fix n assume "n \<ge> w_nextId (W\<lparr>w_store := st\<rparr>)"
  then have none: "disk (w_store W) (segment_path idgen wo n) = None" using world_inv_fresh [OF inv] by simp
  then have "segment_path idgen wo n \<noteq> p" using p(2) by metis
  then show "disk (w_store (W\<lparr>w_store := st\<rparr>)) (segment_path idgen wo n) = None" using none other by simp
qed

lemma world_inv_Add:
  assumes "world_inv idgen c wo closed W" and "Prefix i = WPrefix wo"
    and "disk (w_store W) (Path i) = Some (segmentMagic @ encode_writes c vs)"
    and "Size i = int (length (segmentMagic @ encode_writes c vs))"
  shows "world_inv idgen c wo (closed @ [(i, vs)]) (W\<lparr>w_index := fst (index_Add i (w_index W))\<rparr>)"
  using assms by (auto simp: world_inv_def index_Add_def index_Get_def Let_def)

lemma setSegment_frame:
  assumes "setSegment e seg w W = (w', W')"
  shows "w_opts w' = w_opts w \<and> w_closed w' = w_closed w \<and> w_inflight w' = w_inflight w \<and> w_segment w' = seg \<and>
    w_size w' = (case seg of None \<Rightarrow> 0 | Some s \<Rightarrow> sg_filePos s) \<and>
    w_store W' = w_store W \<and> w_index W' = w_index W \<and> w_nextId W' = w_nextId W"
  using assms by (auto simp: setSegment_def scheduleRotationLocked_def Let_def segment_Size_def split: option.splits if_splits)

lemma newSegment_inv:
  assumes inv: "world_inv idgen c (w_opts w) closed W" and new: "newSegment idgen e w W = (r, W')"
  shows "world_inv idgen c (w_opts w) closed W' \<and> w_index W' = w_index W \<and>
    (\<forall>s. r = Inr s \<longrightarrow> seg_ok c (w_opts w) closed W' [] s \<and> sg_filePos s = 8 \<and> disk (w_store W) (sg_path s) = None \<and>
       (budgets (w_store W) = None \<longrightarrow> budgets (w_store W') = None)) \<and>
    (\<forall>p. disk (w_store W) p \<noteq> None \<longrightarrow> disk (w_store W') p = disk (w_store W) p)"
proof -
  obtain st where st: "NewSegment (e_now e) (e_create e) (idgen (w_nextId W)) (StorageDir (w_opts w)) (WPrefix (w_opts w)) (w_store W) = (r, st)"
      "W' = W\<lparr>w_store := st, w_nextId := Suc (w_nextId W)\<rparr>"
    using new by (auto simp: newSegment_def split: prod.splits)
  let ?p = "segment_path idgen (w_opts w) (w_nextId W)"
  have free: "disk (w_store W) ?p = None" using inv by (simp add: world_inv_def)
  have later: "n \<ge> Suc (w_nextId W) \<Longrightarrow> segment_path idgen (w_opts w) n \<noteq> ?p" for n
    using inv segment_path_eq by (auto simp: world_inv_def)
  have kept: "?p \<notin> Path ` fst ` set closed"
    using world_inv_present [OF inv] free by metis
  show ?thesis
  proof (cases r)
    case (Inl err)
    then have "disk st = disk (w_store W)"
      using NewSegment_failed [OF st(1) [unfolded Inl]] free by (auto simp: segment_path_def fun_eq_iff)
    then show ?thesis using inv st(2) Inl by (simp add: world_inv_def)
  next
    case (Inr s)
    note C = NewSegment_created [OF st(1) [unfolded Inr], of c]
    have d: "disk st = (disk (w_store W))(?p \<mapsto> segmentMagic)" "sg_path s = ?p"
      using C by (simp_all add: segment_path_def)
    have "p \<noteq> ?p \<Longrightarrow> disk (w_store W') p = disk (w_store W) p" for p
      using d st(2) by simp
    moreover have "world_inv idgen c (w_opts w) closed W'"
    proof (rule world_inv_mono [OF inv])
      show "w_index W' = w_index W" using st(2) by simp
      show "disk (w_store W') p = disk (w_store W) p" if "p \<in> Path ` fst ` set closed" for p
        using kept that calculation by metis
      show "disk (w_store W') (segment_path idgen (w_opts w) n) = None" if "n \<ge> w_nextId W'" for n
        using later [of n] world_inv_fresh [OF inv, of n] that st(2) calculation by simp
    qed
    ultimately show ?thesis
      using st(2) Inr C d free kept by (auto simp: seg_ok_def)
  qed
qed

lemma createNextSegment_inv:
  assumes "world_inv idgen c (w_opts w) closed W" and "createNextSegment idgen e w W = (nxt, W')"
  shows "world_inv idgen c (w_opts w) closed W' \<and> w_index W' = w_index W \<and>
    (\<forall>s. nxt = Some s \<longrightarrow> seg_ok c (w_opts w) closed W' [] s \<and> sg_filePos s = 8 \<and> disk (w_store W) (sg_path s) = None) \<and>
    (\<forall>p. disk (w_store W) p \<noteq> None \<longrightarrow> disk (w_store W') p = disk (w_store W) p)"
proof -
  obtain r where r: "newSegment idgen e w W = (r, W')" "nxt = (case r of Inl _ \<Rightarrow> None | Inr s \<Rightarrow> Some s)"
    using assms(2) by (auto simp: createNextSegment_def split: prod.splits sum.splits)
  show ?thesis using newSegment_inv [OF assms(1) r(1)] r(2) by (cases r) auto
qed

lemma wal_Remove_inv:
  assumes "world_inv idgen c wo closed W" and "path \<notin> Path ` fst ` set closed" and "wal_Remove e path w W = (err, W')"
  shows "world_inv idgen c wo closed W' \<and> (\<forall>p. p \<noteq> path \<longrightarrow> disk (w_store W') p = disk (w_store W) p)"
proof -
  have "W' = W \<or> (\<exists>ao. w_store W' = \<lparr>disk = (disk (w_store W))(path := None), budgets = ao\<rparr> \<and> w_index W' = w_index W \<and> w_nextId W' = w_nextId W)"
    using assms(3) by (cases "w_store W") (auto simp: wal_Remove_def Let_def split: if_splits prod.splits option.splits)
  then show ?thesis
  proof
    assume "W' = W"
    then show ?thesis using assms(1) by simp
  next
    assume "\<exists>ao. w_store W' = \<lparr>disk = (disk (w_store W))(path := None), budgets = ao\<rparr> \<and> w_index W' = w_index W \<and> w_nextId W' = w_nextId W"
    then have other: "p \<noteq> path \<Longrightarrow> disk (w_store W') p = disk (w_store W) p" and gone: "disk (w_store W') path = None"
      and same: "w_index W' = w_index W" "w_nextId W' = w_nextId W" for p
      by auto
    have "world_inv idgen c wo closed W'"
      using assms(2) world_inv_fresh [OF assms(1)] other gone same by (intro world_inv_mono [OF assms(1)]) metis+
    then show ?thesis using other by blast
  qed
qed

text \<open>Closing a segment moves its writes to the index, or deletes its file when it has none.\<close>

lemma retire_inv:
  assumes inv: "world_inv idgen c wo closed W" "w_opts w = wo" and s: "seg_ok c wo closed W vs s" and e: "e_close e = None"
  shows "\<exists>closed'. world_inv idgen c wo closed' (retire e s w W) \<and> concat (map snd closed') = concat (map snd closed) @ vs \<and>
    Path ` fst ` set closed' \<subseteq> insert (sg_path s) (Path ` fst ` set closed) \<and>
    (\<forall>p. p \<noteq> sg_path s \<longrightarrow> disk (w_store (retire e s w W)) p = disk (w_store W) p)"
proof -
  have h: "holds c vs s (w_store W)" "\<not> sg_closed s" using s by (simp_all add: seg_ok_def)
  obtain s' st where cl: "segment_Close None s (w_store W) = (None, s', st)" "holds c vs s' st" "sg_path s' = sg_path s"
      "disk st = (disk (w_store W))(sg_path s \<mapsto> segmentMagic @ encode_writes c vs)" "sg_prefix s' = sg_prefix s"
    using segment_Close_holds [OF h] h by (auto simp: segment_Close_def flush_writer_def Let_def holds_def)
  let ?W = "W\<lparr>w_store := st\<rparr>"
  have present: "disk (w_store W) (sg_path s) \<noteq> None" using h(1) by (simp add: holds_def)
  have inv': "world_inv idgen c wo closed ?W"
    using s cl(4) by (intro world_inv_store [OF inv(1) _ present]) (simp_all add: seg_ok_def)
  have size: "segment_Size s' = int (length (segmentMagic @ encode_writes c vs))"
    using cl(2) by (simp add: holds_def segment_Size_def)
  show ?thesis
  proof (cases "vs = []")
    case True
    then have r: "retire e s w W = snd (wal_Remove e (sg_path s) w ?W)"
      using cl e size by (simp add: retire_def Let_def encode_writes_def)
    obtain err W' where rem: "wal_Remove e (sg_path s) w ?W = (err, W')" by fastforce
    have "sg_path s \<notin> Path ` fst ` set closed" using s by (simp add: seg_ok_def)
    from wal_Remove_inv [OF inv' this rem] show ?thesis
      using r rem True cl(4) by (intro exI [of _ closed]) auto
  next
    case False
    then have "segment_Size s' > 8" using size by (simp add: encode_writes_Nil_iff)
    then have r: "retire e s w W = ?W\<lparr>w_index := fst (index_Add (segment_Info w s') (w_index W))\<rparr>"
      using cl e by (simp add: retire_def Let_def)
    have "world_inv idgen c wo (closed @ [(segment_Info w s', vs)]) (retire e s w W)"
      using world_inv_Add [OF inv', of "segment_Info w s'" vs] cl size s by (simp add: r segment_Info_def seg_ok_def)
    then show ?thesis
      using cl by (intro exI [of _ "closed @ [(segment_Info w s', vs)]"]) (auto simp: r segment_Info_def)
  qed
qed

section \<open>Rotation keeps the log\<close>

definition cur_ok :: "codec \<Rightarrow> wal_opts \<Rightarrow> (segment_info \<times> wal_write list) list \<Rightarrow> world \<Rightarrow> wal_write list \<Rightarrow> segment option \<Rightarrow> bool" where
  "cur_ok c wo closed W active cur = (case cur of None \<Rightarrow> active = [] | Some s \<Rightarrow> seg_ok c wo closed W active s)"

definition nxt_ok :: "codec \<Rightarrow> wal_opts \<Rightarrow> (segment_info \<times> wal_write list) list \<Rightarrow> world \<Rightarrow> segment option \<Rightarrow> segment option \<Rightarrow> bool" where
  "nxt_ok c wo closed W cur nxt \<longleftrightarrow>
     (\<forall>s. nxt = Some s \<longrightarrow> seg_ok c wo closed W [] s \<and> sg_filePos s = 8 \<and> (\<forall>s0. cur = Some s0 \<longrightarrow> sg_path s \<noteq> sg_path s0))"

lemma wal_inv_cur:
  "wal_inv idgen c closed active w W \<longleftrightarrow> world_inv idgen c (w_opts w) closed W \<and>
     cur_ok c (w_opts w) closed W active (w_segment w) \<and> w_size w = (case w_segment w of None \<Rightarrow> 0 | Some s \<Rightarrow> sg_filePos s)"
  by (auto simp: wal_inv_def cur_ok_def split: option.splits)

lemma create_ok:
  assumes "world_inv idgen c (w_opts w) closed W" "cur_ok c (w_opts w) closed W active cur"
    and "createNextSegment idgen e w W = (nxt, W')"
  shows "world_inv idgen c (w_opts w) closed W' \<and> cur_ok c (w_opts w) closed W' active cur \<and> nxt_ok c (w_opts w) closed W' cur nxt"
proof -
  note N = createNextSegment_inv [OF assms(1,3)]
  have cur: "cur = Some s \<Longrightarrow> disk (w_store W) (sg_path s) \<noteq> None" for s
    using assms(2) by (simp add: cur_ok_def seg_ok_def holds_def)
  have "cur_ok c (w_opts w) closed W' active cur"
  proof (cases cur)
    case None
    then show ?thesis using assms(2) by (simp add: cur_ok_def)
  next
    case (Some s)
    then have "disk (w_store W') (sg_path s) = disk (w_store W) (sg_path s)" using N cur by blast
    then show ?thesis using assms(2) Some seg_ok_cong [of W' s W] by (simp add: cur_ok_def)
  qed
  moreover have "nxt_ok c (w_opts w) closed W' cur nxt"
    using N cur by (fastforce simp: nxt_ok_def)
  ultimately show ?thesis using N by simp
qed

text \<open>Replacing the active segment and retiring the old one.\<close>

lemma swap_log:
  assumes inv: "world_inv idgen c (w_opts w) closed W" "cur_ok c (w_opts w) closed W active cur"
      "nxt_ok c (w_opts w) closed W cur nxt" and e: "e_close e = None"
    and set: "setSegment e nxt w W = (w', W1)"
  shows "wal_log idgen c (concat (map snd closed) @ active) w' (case cur of None \<Rightarrow> W1 | Some s \<Rightarrow> retire e s w' W1)"
proof -
  note F = setSegment_frame [OF set]
  have inv1: "world_inv idgen c (w_opts w') closed W1"
    using inv(1) F world_inv_cong [of W1 W] by simp
  have ok1: "seg_ok c (w_opts w') closed W1 vs s = seg_ok c (w_opts w) closed W vs s" for vs s
    using F seg_ok_cong [of W1 s W] by simp
  have size: "w_size w' = (case w_segment w' of None \<Rightarrow> 0 | Some s \<Rightarrow> sg_filePos s)" using F by simp
  show ?thesis
  proof (cases cur)
    case None
    then have "wal_inv idgen c closed [] w' W1"
      using inv1 inv(3) ok1 F size by (auto simp: wal_inv_cur cur_ok_def nxt_ok_def split: option.splits)
    then show ?thesis using None inv(2) by (auto simp: wal_log_def cur_ok_def)
  next
    case (Some s)
    have s: "seg_ok c (w_opts w') closed W1 active s" using inv(2) Some ok1 by (simp add: cur_ok_def)
    obtain closed' where c': "world_inv idgen c (w_opts w') closed' (retire e s w' W1)"
      "concat (map snd closed') = concat (map snd closed) @ active"
      "Path ` fst ` set closed' \<subseteq> insert (sg_path s) (Path ` fst ` set closed)"
      "\<forall>p. p \<noteq> sg_path s \<longrightarrow> disk (w_store (retire e s w' W1)) p = disk (w_store W1) p"
      using retire_inv [OF inv1 refl s e] by blast
    have "cur_ok c (w_opts w') closed' (retire e s w' W1) [] (w_segment w')"
    proof (cases nxt)
      case None
      then show ?thesis using F by (simp add: cur_ok_def)
    next
      case (Some t)
      then have t: "seg_ok c (w_opts w') closed W1 [] t" "sg_path t \<noteq> sg_path s"
        using inv(3) ok1 \<open>cur = Some s\<close> by (simp_all add: nxt_ok_def)
      then have "seg_ok c (w_opts w') closed (retire e s w' W1) [] t"
        using c'(4) seg_ok_cong [of "retire e s w' W1" t W1] by simp
      then show ?thesis using t(2) c'(3) F Some by (auto simp: cur_ok_def seg_ok_def)
    qed
    then have "wal_inv idgen c closed' [] w' (retire e s w' W1)" using c'(1) size by (simp add: wal_inv_cur)
    then show ?thesis using c'(2) Some unfolding wal_log_def by fastforce
  qed
qed

lemma rotate_log:
  assumes log: "wal_log idgen c hist w W" and e: "e_close e = None"
    and rot: "rotateSegmentIfNecessary idgen e (\<lambda>x. x) w W = (w', W')"
  shows "wal_log idgen c hist w' W' \<and> w_opts w' = w_opts w \<and> w_closed w' = w_closed w \<and> w_inflight w' = w_inflight w \<and>
    (\<not> w_closed w \<and> requiresRotation e w \<longrightarrow> w_size w' \<le> 8)"
proof (cases "\<not> requiresRotation e w \<or> w_closed w")
  case True
  then show ?thesis using log rot by (auto simp: rotateSegmentIfNecessary_def)
next
  case False
  obtain closed active where inv: "world_inv idgen c (w_opts w) closed W" "cur_ok c (w_opts w) closed W active (w_segment w)"
    and hist: "hist = concat (map snd closed) @ active"
    using log by (auto simp: wal_log_def wal_inv_cur)
  let ?cur = "w_segment w"
  obtain n1 W1 where c1: "(if \<not> isIdle ?cur w then createNextSegment idgen e w W else (None, W)) = (n1, W1)" by fastforce
  have ok1: "world_inv idgen c (w_opts w) closed W1 \<and> cur_ok c (w_opts w) closed W1 active ?cur \<and> nxt_ok c (w_opts w) closed W1 ?cur n1"
    using create_ok [OF inv, of e n1 W1] inv c1 by (auto simp: nxt_ok_def split: if_splits)
  obtain n2 W2 where c2: "(if n1 = None \<and> \<not> isIdle ?cur w then createNextSegment idgen e w W1 else (n1, W1)) = (n2, W2)" by fastforce
  have ok2: "world_inv idgen c (w_opts w) closed W2 \<and> cur_ok c (w_opts w) closed W2 active ?cur \<and> nxt_ok c (w_opts w) closed W2 ?cur n2"
    using create_ok [of idgen c w closed W1 active ?cur e n2 W2] ok1 c2 by (auto split: if_splits)
  obtain W3 where set: "setSegment e n2 w W2 = (w', W3)" and W': "W' = (case ?cur of None \<Rightarrow> W3 | Some s \<Rightarrow> retire e s w' W3)"
    using rot False c1 c2 by (auto simp: rotateSegmentIfNecessary_def Let_def split: prod.splits)
  have "wal_log idgen c hist w' W'"
    unfolding hist W' using ok2 by (intro swap_log [OF _ _ _ e set]) simp_all
  moreover have "w_size w' \<le> 8"
    using setSegment_frame [OF set] ok2 by (auto simp: nxt_ok_def split: option.splits)
  ultimately show ?thesis using setSegment_frame [OF set] by simp
qed

lemma closeActive_log:
  assumes log: "wal_log idgen c hist w W" and e: "e_close e = None" and cl: "closeActiveSegment e w W = (w', W')"
  shows "wal_log idgen c hist w' W' \<and> w_opts w' = w_opts w \<and> w_closed w' = w_closed w \<and> w_inflight w' = w_inflight w \<and>
    w_segment w' = None"
proof (cases "w_segment w")
  case None
  then show ?thesis using log cl by (auto simp: closeActiveSegment_def)
next
  case (Some s)
  then obtain W1 where set: "setSegment e None w W = (w', W1)" and W': "W' = retire e s w' W1"
    using cl by (auto simp: closeActiveSegment_def split: prod.splits)
  obtain closed active where inv: "world_inv idgen c (w_opts w) closed W" "cur_ok c (w_opts w) closed W active (w_segment w)"
    and hist: "hist = concat (map snd closed) @ active"
    using log by (auto simp: wal_log_def wal_inv_cur)
  show ?thesis
    using swap_log [OF inv _ e set] hist W' Some setSegment_frame [OF set] by (simp add: nxt_ok_def)
qed

section \<open>Writing keeps the log\<close>

context segment_writer
begin

lemma active_segment:
  assumes "wal_inv idgen c closed active w W"
    and "(case w_segment w of
            Some s \<Rightarrow> (Inr s, w, W)
          | None \<Rightarrow>
              if w_closed w then (Inl ErrSegmentClosed, w, W)
              else case newSegment idgen e w W of
                (Inl err, W) \<Rightarrow> (Inl err, w, W)
              | (Inr s, W) \<Rightarrow> (case setSegment e (Some s) w W of (w, W) \<Rightarrow> (Inr s, w, W))) = (r, w', W')"
  shows "wal_inv idgen c closed active w' W' \<and> w_opts w' = w_opts w \<and> w_closed w' = w_closed w \<and> w_inflight w' = w_inflight w \<and>
    (\<forall>s. r = Inr s \<longrightarrow> w_segment w' = Some s)"
proof (cases "w_segment w = None \<and> \<not> w_closed w")
  case False
  then show ?thesis using assms by (auto split: option.splits)
next
  case True
  obtain q W1 where n: "newSegment idgen e w W = (q, W1)" by fastforce
  have inv: "world_inv idgen c (w_opts w) closed W" "active = []" "w_size w = 0"
    using assms(1) True by (simp_all add: wal_inv_def)
  note N = newSegment_inv [OF inv(1) n]
  show ?thesis
  proof (cases q)
    case (Inl err)
    then show ?thesis using assms(2) True n N inv by (auto simp: wal_inv_def)
  next
    case (Inr s)
    then obtain w1 W2 where set: "setSegment e (Some s) w W1 = (w1, W2)" by fastforce
    note F = setSegment_frame [OF set]
    have "r = Inr s" "w' = w1" "W' = W2" using assms(2) True n Inr set by auto
    moreover have "world_inv idgen c (w_opts w) closed W2" "seg_ok c (w_opts w) closed W2 [] s"
      using N Inr F world_inv_cong [of W2 W1] seg_ok_cong [of W2 s W1] by simp_all
    ultimately show ?thesis using F inv(2) by (simp add: wal_inv_def)
  qed
qed

lemma try_log:
  assumes log: "wal_log idgen c hist w W" and e: "e_write e = None" and t: "try_segment idgen e (f e) w W = (r, w', W')"
  shows "(case r of Inl err \<Rightarrow> wal_log idgen c hist w' W' | Inr n \<Rightarrow> wal_log idgen c (hist @ vs) (w'\<lparr>w_size := w_size w' + n\<rparr>) W') \<and>
    w_opts w' = w_opts w \<and> w_closed w' = w_closed w \<and> w_inflight w' = w_inflight w"
proof (cases "wal_validateLimits e w W")
  case (Some err)
  then show ?thesis using t log by (auto simp: try_segment_def)
next
  case None
  obtain closed active where inv: "wal_inv idgen c closed active w W" and hist: "hist = concat (map snd closed) @ active"
    using log by (auto simp: wal_log_def)
  let ?x = "case w_segment w of
            Some s \<Rightarrow> (Inr s, w, W)
          | None \<Rightarrow>
              if w_closed w then (Inl ErrSegmentClosed, w, W)
              else case newSegment idgen e w W of
                (Inl err, W) \<Rightarrow> (Inl err, w, W)
              | (Inr s, W) \<Rightarrow> (case setSegment e (Some s) w W of (w, W) \<Rightarrow> (Inr s, w, W))"
  obtain q w1 W1 where x: "?x = (q, w1, W1)" using prod_cases3 [of ?x] by blast
  note A = active_segment [OF inv x]
  show ?thesis
  proof (cases q)
    case (Inl err)
    then have "r = Inl err" "w' = w1" "W' = W1" using t None x by (simp_all add: try_segment_def)
    then show ?thesis using A hist by (auto simp: wal_log_def)
  next
    case (Inr s)
    then obtain s' st where fs: "f e s (w_store W1) = (r, s', st)" "w' = w1\<lparr>w_segment := Some s'\<rparr>" "W' = W1\<lparr>w_store := st\<rparr>"
      using t None x by (cases "f e s (w_store W1)") (auto simp: try_segment_def)
    have ok: "world_inv idgen c (w_opts w1) closed W1" "seg_ok c (w_opts w1) closed W1 active s" "w_size w1 = sg_filePos s"
      using A Inr by (auto simp: wal_inv_def)
    then have h: "holds c active s (w_store W1)" "\<not> sg_closed s" "disk (w_store W1) (sg_path s) \<noteq> None"
      by (simp_all add: seg_ok_def holds_def)
    show ?thesis
    proof (cases r)
      case (Inl err)
      then have "s' = s" "disk st = disk (w_store W1)" using refuses [OF e h(1,2)] fs(1) by blast+
      then have "wal_inv idgen c closed active w' W'"
        using ok fs world_inv_cong [of W' W1] seg_ok_cong [of W' s W1] by (simp add: wal_inv_def)
      then show ?thesis using Inl A fs hist by (auto simp: wal_log_def)
    next
      case (Inr n)
      then have a: "holds c (active @ vs) s' st" "\<not> sg_closed s'" "sg_path s' = sg_path s" "sg_prefix s' = sg_prefix s"
          "sg_filePos s' = sg_filePos s + n" "\<And>p. p \<noteq> sg_path s \<Longrightarrow> disk st p = disk (w_store W1) p"
        using accepts [OF e h(1,2)] fs(1) by blast+
      have "world_inv idgen c (w_opts w1) closed W'"
        using ok(2) h(3) a(6) fs(3) by (auto simp: seg_ok_def intro!: world_inv_store [OF ok(1)])
      then have "wal_inv idgen c closed (active @ vs) (w'\<lparr>w_size := w_size w' + n\<rparr>) W'"
        using ok a fs by (simp add: wal_inv_def seg_ok_def)
      then show ?thesis using Inr A fs hist by (auto simp: wal_log_def)
    qed
  qed
qed

lemma retry_log:
  assumes "wal_log idgen c hist w W" and "\<And>k. e_write (env k) = None \<and> e_close (env k) = None"
    and "writeWithRetry idgen env (\<lambda>_ _ x. x) ctx (\<lambda>k. try_segment idgen (env k) (f (env k))) k rot cl w W = (n, err, w', W')"
  shows "wal_log idgen c (if err = None then hist @ vs else hist) w' W' \<and> w_opts w' = w_opts w \<and> w_closed w' = w_closed w \<and>
    w_inflight w' = w_inflight w \<and>
    ((\<exists>d r a. err = Some (TableOverloadedError d r a)) \<and> ctx = (\<lambda>_. None) \<longrightarrow> w_segment w' = None)"
  using assms(1,3)
proof (induction "(maxSegmentClosedRetries - rot) + (maxSegmentClosedRetries - cl)" arbitrary: k rot cl w W rule: less_induct)
  case less
  obtain r w1 W1 where t: "try_segment idgen (env k) (f (env k)) w W = (r, w1, W1)" by (metis prod_cases3)
  note T = try_log [OF less.prems(1) _ t]
  note step = less.prems(2) [unfolded writeWithRetry.simps [of idgen env _ ctx _ k rot cl w W] prod.case t]
  show ?case
  proof (cases r)
    case (Inr m)
    then show ?thesis using step T assms(2) by auto
  next
    case (Inl e)
    have log1: "wal_log idgen c hist w1 W1" "w_opts w1 = w_opts w" "w_closed w1 = w_closed w" "w_inflight w1 = w_inflight w"
      using T Inl assms(2) by simp_all
    obtain w2 W2 where rot: "rotateSegmentIfNecessary idgen (env k) (\<lambda>x. x) w1 W1 = (w2, W2)" by fastforce
    note R = rotate_log [OF log1(1) _ rot]
    obtain w3 W3 where ca: "closeActiveSegment (env k) w1 W1 = (w3, W3)" by fastforce
    note C = closeActive_log [OF log1(1) _ ca]
    show ?thesis
    proof (cases "e = ErrMaxSegmentSizeExceeded \<and> rot < maxSegmentClosedRetries")
      case True
      have next2: "wal_log idgen c hist w2 W2" "w_opts w2 = w_opts w" "w_closed w2 = w_closed w" "w_inflight w2 = w_inflight w"
        using R log1 assms(2) by simp_all
      show ?thesis
      proof (cases "ctx k")
        case None
        have "maxSegmentClosedRetries - Suc rot + (maxSegmentClosedRetries - cl) <
            maxSegmentClosedRetries - rot + (maxSegmentClosedRetries - cl)" using True by linarith
        from less.hyps [OF this next2(1), of "Suc k"] show ?thesis using step Inl True rot None next2 by simp
      next
        case (Some ce)
        then show ?thesis using step Inl True rot next2 by auto
      qed
    next
      case False
      show ?thesis
      proof (cases "e = ErrSegmentClosed \<and> cl < maxSegmentClosedRetries")
        case True
        then have "maxSegmentClosedRetries - rot + (maxSegmentClosedRetries - Suc cl) <
            maxSegmentClosedRetries - rot + (maxSegmentClosedRetries - cl)" by linarith
        from less.hyps [OF this log1(1), of "Suc k"] show ?thesis
          using step Inl True False log1 by (cases "ctx k") auto
      next
        case False2: False
        show ?thesis
        proof (cases "\<exists>d x a. e = TableOverloadedError d x a")
          case True
          then show ?thesis using step Inl ca C log1 assms(2) by auto
        next
          case F3: False
          then have "err = Some e \<and> w' = w1 \<and> W' = W1"
            using step Inl False False2 by (auto split: if_splits wal_error.splits)
          then show ?thesis using log1 F3 by auto
        qed
      qed
    qed
  qed
qed

end

section \<open>Attempts and progress\<close>

lemma writeWithRetry_attempts:
  "k < fst (writeWithRetry idgen env others ctx wr k rot cl w W) \<and>
   fst (writeWithRetry idgen env others ctx wr k rot cl w W) \<le> Suc k + (maxSegmentClosedRetries - rot) + (maxSegmentClosedRetries - cl)"
proof (induction "(maxSegmentClosedRetries - rot) + (maxSegmentClosedRetries - cl)" arbitrary: k rot cl w W rule: less_induct)
  case less
  obtain w0 W0 where oth: "others k False (w, W) = (w0, W0)" by fastforce
  obtain r w1 W1 where t: "wr k w0 W0 = (r, w1, W1)" by (metis prod_cases3)
  obtain w2 W2 where rt: "rotateSegmentIfNecessary idgen (env k) (others k True) w1 W1 = (w2, W2)" by fastforce
  note S = writeWithRetry.simps [of idgen env others ctx wr k rot cl w W, unfolded oth prod.case t]
  have ca: "fst (case closeActiveSegment (env k) w1 W1 of (w, W) \<Rightarrow> (Suc k, err, w, W)) = Suc k" for err
    by (simp split: prod.splits)
  show ?case
  proof (cases r)
    case (Inr n)
    then show ?thesis using S by simp
  next
    case (Inl e)
    consider (rotate) "e = ErrMaxSegmentSizeExceeded" "rot < maxSegmentClosedRetries"
      | (retry) "e = ErrSegmentClosed" "cl < maxSegmentClosedRetries"
      | (stop) "\<not> (e = ErrMaxSegmentSizeExceeded \<and> rot < maxSegmentClosedRetries)"
          "\<not> (e = ErrSegmentClosed \<and> cl < maxSegmentClosedRetries)"
      by blast
    then show ?thesis
    proof cases
      case rotate
      then have "maxSegmentClosedRetries - Suc rot + (maxSegmentClosedRetries - cl) <
          maxSegmentClosedRetries - rot + (maxSegmentClosedRetries - cl)" by linarith
      note I = less.hyps [OF this, of "Suc k" w2 W2]
      show ?thesis using S Inl rotate rt I by (cases "ctx k") auto
    next
      case retry
      then have "maxSegmentClosedRetries - rot + (maxSegmentClosedRetries - Suc cl) <
          maxSegmentClosedRetries - rot + (maxSegmentClosedRetries - cl)" by linarith
      note I = less.hyps [OF this, of "Suc k" w1 W1]
      show ?thesis using S Inl retry I by (cases "ctx k") auto
    next
      case stop
      then have "fst (writeWithRetry idgen env others ctx wr k rot cl w W) = Suc k"
        using S Inl ca by (auto split: wal_error.splits)
      then show ?thesis by simp
    qed
  qed
qed

lemma wal_Remove_budgets: "budgets (w_store W) = None \<Longrightarrow> budgets (w_store (snd (wal_Remove e p w W))) = None"
  by (auto simp: wal_Remove_def Let_def split: prod.splits option.splits)

lemma retire_budgets: "budgets (w_store W) = None \<Longrightarrow> budgets (w_store (retire e s w W)) = None"
  by (auto simp: retire_def Let_def segment_Close_def flush_writer_def wal_Remove_budgets split: prod.splits option.splits if_splits)

lemma NewSegment_budgets:
  assumes "budgets st = None"
  shows "budgets (snd (NewSegment now fault flakeId dir prefix st)) = None"
  using assms by (auto simp: NewSegment_def Let_def reserve_opt_def finish_release_def split: option.splits create_fault.splits)

lemma create_budgets: "budgets (w_store W) = None \<Longrightarrow> budgets (w_store (snd (createNextSegment idgen e w W))) = None"
  using NewSegment_budgets [of "w_store W" "e_now e" "e_create e" "idgen (w_nextId W)" "StorageDir (w_opts w)" "WPrefix (w_opts w)"]
  by (auto simp: createNextSegment_def newSegment_def split: prod.splits sum.splits)

lemma rotate_budgets:
  assumes b: "budgets (w_store W) = None" and rot: "rotateSegmentIfNecessary idgen e (\<lambda>x. x) w W = (w', W')"
  shows "budgets (w_store W') = None"
proof (cases "\<not> requiresRotation e w \<or> w_closed w")
  case True
  then show ?thesis using assms by (auto simp: rotateSegmentIfNecessary_def)
next
  case False
  let ?cur = "w_segment w"
  obtain n1 W1 where c1: "(if \<not> isIdle ?cur w then createNextSegment idgen e w W else (None, W)) = (n1, W1)" by fastforce
  obtain n2 W2 where c2: "(if n1 = None \<and> \<not> isIdle ?cur w then createNextSegment idgen e w W1 else (n1, W1)) = (n2, W2)" by fastforce
  have "budgets (w_store W1) = None" using create_budgets [OF b, of idgen e w] c1 b by (auto split: if_splits)
  then have b2: "budgets (w_store W2) = None" using create_budgets [of W1 idgen e w] c2 by (auto split: if_splits)
  obtain W3 where set: "setSegment e n2 w W2 = (w', W3)" and W': "W' = (case ?cur of None \<Rightarrow> W3 | Some s \<Rightarrow> retire e s w' W3)"
    using rot False c1 c2 by (auto simp: rotateSegmentIfNecessary_def Let_def split: prod.splits)
  show ?thesis using setSegment_frame [OF set] b2 retire_budgets [of W3] W' by (auto split: option.splits)
qed

text \<open>Identifiers from which a file name can be made.\<close>

definition names_ok :: "idgen \<Rightarrow> wal_opts \<Rightarrow> bool" where
  "names_ok idgen wo \<longleftrightarrow> (\<forall>n. let f = segment_fileName (WPrefix wo) (idgen n)
     in ParseFlakeID (idgen n) \<noteq> None \<and> fs_ValidPath f \<and> filepath_Base f = f)"

lemma newSegment_succeeds:
  assumes "names_ok idgen (w_opts w)" "budgets (w_store W) = None" "e_create e = CreateOK"
  shows "\<exists>s W'. newSegment idgen e w W = (Inr s, W')"
proof -
  obtain created where "ParseFlakeID (idgen (w_nextId W)) = Some created"
    using assms(1) by (auto simp: names_ok_def Let_def)
  then show ?thesis
    using assms by (auto simp: newSegment_def NewSegment_def names_ok_def Let_def reserve_opt_def split: option.splits prod.splits)
qed

definition full :: "wal \<Rightarrow> bool" where
  "full w \<longleftrightarrow> SegmentMaxSize (w_opts w) > 0 \<and> w_size w > 8 \<and> w_size w + w_inflight w \<ge> SegmentMaxSize (w_opts w)"

definition unlimited :: "wal \<Rightarrow> bool" where
  "unlimited w \<longleftrightarrow> MaxDiskUsage (w_opts w) \<le> 0 \<and> MaxSegmentCount (w_opts w) \<le> 0"

lemma validate_unlimited:
  "unlimited w \<Longrightarrow> budgets (w_store W) = None \<Longrightarrow>
   wal_validateLimits e w W = (if full w then Some ErrMaxSegmentSizeExceeded else None)"
  by (simp add: wal_validateLimits_def unlimited_def full_def Let_def)

context segment_writer
begin

lemma try_succeeds:
  assumes log: "wal_log idgen c hist w W" and e: "e_write e = None" "\<not> e_locked e" "e_create e = CreateOK"
    and w: "\<not> w_closed w" "unlimited w" "\<not> full w" "names_ok idgen (w_opts w)" and b: "budgets (w_store W) = None"
  shows "\<exists>n w' W'. try_segment idgen e (f e) w W = (Inr n, w', W')"
proof -
  obtain closed active where inv: "wal_inv idgen c closed active w W" using log by (auto simp: wal_log_def)
  have v: "wal_validateLimits e w W = None" using validate_unlimited [OF w(2) b] w(3) by simp
  show ?thesis
  proof (cases "w_segment w")
    case (Some s)
    then have "holds c active s (w_store W)" "\<not> sg_closed s" using inv by (simp_all add: wal_inv_def seg_ok_def)
    from uncapped [OF e(1,2) this b] show ?thesis using v Some by (auto simp: try_segment_def)
  next
    case None
    obtain s W1 where n: "newSegment idgen e w W = (Inr s, W1)" using newSegment_succeeds [OF w(4) b e(3)] by blast
    have "world_inv idgen c (w_opts w) closed W" using inv by (simp add: wal_inv_def)
    from newSegment_inv [OF this n] b have N: "seg_ok c (w_opts w) closed W1 [] s" "budgets (w_store W1) = None" by simp_all
    obtain w2 W2 where set: "setSegment e (Some s) w W1 = (w2, W2)" by fastforce
    have "w_store W2 = w_store W1" using setSegment_frame [OF set] by simp
    then have "holds c [] s (w_store W2)" "\<not> sg_closed s" "budgets (w_store W2) = None" using N by (simp_all add: seg_ok_def)
    from uncapped [OF e(1,2) this] show ?thesis using v None w(1) n set by (auto simp: try_segment_def)
  qed
qed

text \<open>With room on disk, a write of a live log succeeds at the latest after one rotation.\<close>

lemma retry_succeeds:
  assumes log: "wal_log idgen c hist w W"
    and e: "\<And>k. e_write (env k) = None \<and> e_close (env k) = None \<and> \<not> e_locked (env k) \<and> e_create (env k) = CreateOK"
    and w: "\<not> w_closed w" "unlimited w" "names_ok idgen (w_opts w)" and b: "budgets (w_store W) = None"
  shows "\<exists>n w' W'. n \<le> 2 \<and>
    writeWithRetry idgen env (\<lambda>_ _ x. x) (\<lambda>_. None) (\<lambda>k. try_segment idgen (env k) (f (env k))) 0 0 0 w W = (n, None, w', W')"
proof (cases "full w")
  case False
  obtain n w' W' where "try_segment idgen (env 0) (f (env 0)) w W = (Inr n, w', W')"
    using try_succeeds [OF log _ _ _ w(1,2) False w(3) b, of "env 0"] e [of 0] by auto
  then show ?thesis by (subst writeWithRetry.simps) simp
next
  case True
  have t: "try_segment idgen (env 0) (f (env 0)) w W = (Inl ErrMaxSegmentSizeExceeded, w, W)"
    using validate_unlimited [OF w(2) b] True by (simp add: try_segment_def)
  obtain w1 W1 where rot: "rotateSegmentIfNecessary idgen (env 0) (\<lambda>x. x) w W = (w1, W1)" by fastforce
  have "requiresRotation (env 0) w" using True by (simp add: full_def requiresRotation_def)
  then have R: "wal_log idgen c hist w1 W1" "w_opts w1 = w_opts w" "\<not> w_closed w1" "\<not> full w1"
    using rotate_log [OF log _ rot] e w(1) by (auto simp: full_def)
  obtain n w' W' where t2: "try_segment idgen (env (Suc 0)) (f (env (Suc 0))) w1 W1 = (Inr n, w', W')"
    using try_succeeds [OF R(1) _ _ _ R(3) _ R(4) _ rotate_budgets [OF b rot], of "env (Suc 0)"] e w R(2)
    by (auto simp: unlimited_def)
  have "writeWithRetry idgen env (\<lambda>_ _ x. x) (\<lambda>_. None) (\<lambda>k. try_segment idgen (env k) (f (env k))) (Suc 0) (Suc 0) 0 w1 W1 =
      (Suc (Suc 0), None, w'\<lparr>w_size := w_size w' + n\<rparr>, W')"
    by (subst writeWithRetry.simps) (simp add: t2)
  then show ?thesis
    by (subst writeWithRetry.simps) (simp add: t rot maxSegmentClosedRetries_def)
qed

end

section \<open>Histories of a log\<close>

lemma wal_log_inflight [simp]: "wal_log idgen c hist (w\<lparr>w_inflight := x\<rparr>) W = wal_log idgen c hist w W"
  by (cases "w_segment w") (simp_all add: wal_log_def wal_inv_def)

definition quiet_env :: "env \<Rightarrow> bool" where
  "quiet_env e \<longleftrightarrow> e_write e = None \<and> e_close e = None"

lemma wal_Write_log:
  assumes "wal_log idgen c hist w W" and "\<And>k. quiet_env (env k)"
    and "wal_Write idgen env (\<lambda>_ _ x. x) ctx c wopts b w W = (n, err, w', W')"
  shows "wal_log idgen c (if err = None then hist @ op_writes (SegWrite wopts b) else hist) w' W' \<and> w_closed w' = w_closed w \<and>
    w_opts w' = w_opts w \<and>
    ((\<exists>d r a. err = Some (TableOverloadedError d r a)) \<and> ctx = (\<lambda>_. None) \<longrightarrow> w_segment w' = None)"
proof -
  obtain w1 where r: "writeWithRetry idgen env (\<lambda>_ _ x. x) ctx (\<lambda>k. tryWrite idgen (env k) c wopts b) 0 0 0
      (w\<lparr>w_inflight := w_inflight w + int (length b)\<rparr>) W = (n, err, w1, W')"
    and w': "w' = w1\<lparr>w_inflight := w_inflight w1 - int (length b)\<rparr>"
    using assms(3) by (auto simp: wal_Write_def split: prod.splits)
  show ?thesis
    using seg_Write.retry_log [OF _ _ r [unfolded tryWrite_def], of hist] assms(1,2) w' by (simp add: quiet_env_def)
qed

lemma wal_Append_log:
  assumes "wal_log idgen c hist w W" and "\<And>k. quiet_env (env k)" and "codec_ok c" "\<forall>w \<in> set vs. writable c w"
    and "wal_Append idgen env (\<lambda>_ _ x. x) ctx (segmentMagic @ encode_writes c vs) w W = (n, err, w', W')"
  shows "wal_log idgen c (if err = None then hist @ vs else hist) w' W' \<and> w_closed w' = w_closed w \<and> w_opts w' = w_opts w"
proof -
  let ?b = "segmentMagic @ encode_writes c vs"
  obtain w1 where r: "writeWithRetry idgen env (\<lambda>_ _ x. x) ctx (\<lambda>k. tryAppend idgen (env k) ?b) 0 0 0
      (w\<lparr>w_inflight := w_inflight w + int (length ?b)\<rparr>) W = (n, err, w1, W')"
    and w': "w' = w1\<lparr>w_inflight := w_inflight w1 - int (length ?b)\<rparr>"
    using assms(5) by (auto simp: wal_Append_def split: prod.splits)
  show ?thesis
    using segment_writer.retry_log [OF segment_writer_Append [OF assms(3,4)] _ _ r [unfolded tryAppend_def], of hist] assms(1,2) w'
    by (simp add: quiet_env_def)
qed

lemma wal_Close_log:
  assumes log: "wal_log idgen c hist w W" and e: "quiet_env e" and cl: "wal_Close e w W = (err, w', W')"
  shows "wal_log idgen c hist w' W' \<and> w_closed w' \<and> w_segment w' = None \<and> w_opts w' = w_opts w"
proof -
  obtain closed active where inv: "wal_inv idgen c closed active w W" and hist: "hist = concat (map snd closed) @ active"
    using log by (auto simp: wal_log_def)
  obtain w1 W1 where set: "setSegment e None (w\<lparr>w_closed := True\<rparr>) W = (w1, W1)" by fastforce
  note F = setSegment_frame [OF set]
  have inv1: "world_inv idgen c (w_opts w1) closed W1" using inv F world_inv_cong [of W1 W] by (simp add: wal_inv_def)
  show ?thesis
  proof (cases "w_segment w")
    case None
    then have "w' = w1" "W' = W1" "active = []" using cl set inv by (simp_all add: wal_Close_def wal_inv_def)
    then show ?thesis using inv1 F hist unfolding wal_log_def
      by (intro conjI exI [of _ closed] exI [of _ "[]"]) (simp_all add: wal_inv_def)
  next
    case (Some s)
    then have s: "seg_ok c (w_opts w1) closed W1 active s"
      using inv F seg_ok_cong [of W1 s W] by (simp add: wal_inv_def)
    then have h: "holds c active s (w_store W1)" "\<not> sg_closed s" by (simp_all add: seg_ok_def)
    obtain s' st where c1: "segment_Close None s (w_store W1) = (None, s', st)"
        "disk st = (disk (w_store W1))(sg_path s \<mapsto> segmentMagic @ encode_writes c active)"
      using segment_Close_holds [OF h] by blast
    have W': "err = None" "w' = w1" "W' = W1\<lparr>w_store := st, w_index := fst (index_Add (segment_Info w1 s) (w_index W1))\<rparr>"
      using cl set Some c1 e by (auto simp: wal_Close_def quiet_env_def)
    have present: "disk (w_store W1) (sg_path s) \<noteq> None" using h by (simp add: holds_def)
    have "world_inv idgen c (w_opts w1) closed (W1\<lparr>w_store := st\<rparr>)"
      using s c1(2) by (intro world_inv_store [OF inv1 _ present]) (simp_all add: seg_ok_def)
    from world_inv_Add [OF this, of "segment_Info w1 s" active]
    have "world_inv idgen c (w_opts w1) (closed @ [(segment_Info w1 s, active)]) W'"
      using s h c1(2) by (simp add: W' seg_ok_def segment_Info_def segment_Size_def holds_def)
    then show ?thesis
      using W' F hist unfolding wal_log_def
      by (intro conjI exI [of _ "closed @ [(segment_Info w1 s, active)]"] exI [of _ "[]"]) (simp_all add: wal_inv_def)
  qed
qed

lemma wal_Flush_log:
  assumes log: "wal_log idgen c hist w W" and e: "quiet_env e"
  shows "\<exists>err w' W'. wal_Flush e w W = Some (err, w', W') \<and> wal_log idgen c hist w' W' \<and> w_closed w' = w_closed w \<and> w_opts w' = w_opts w"
proof -
  obtain closed active where inv: "wal_inv idgen c closed active w W" and hist: "hist = concat (map snd closed) @ active"
    using log by (auto simp: wal_log_def)
  show ?thesis
  proof (cases "w_segment w")
    case None
    then show ?thesis using log by (simp add: wal_Flush_def)
  next
    case (Some s)
    then have ok: "world_inv idgen c (w_opts w) closed W" "seg_ok c (w_opts w) closed W active s" "w_size w = sg_filePos s"
      using inv by (simp_all add: wal_inv_def)
    then have h: "holds c active s (w_store W)" "\<not> sg_closed s" "sg_path s \<notin> Path ` fst ` set closed"
      by (simp_all add: seg_ok_def)
    show ?thesis
    proof (cases "e_locked e")
      case True
      have "wal_log idgen c hist (w\<lparr>w_segment := Some s\<rparr>) W"
        using log Some by (simp add: wal_log_def wal_inv_def)
      then show ?thesis
        using Some h True log by (simp add: wal_Flush_def segment_Flush_def)
    next
      case False
      from flush_writer_holds [OF h(1)] obtain s' st where f: "flush_writer None s (w_store W) = (None, s', st)" "holds c active s' st"
          "sg_path s' = sg_path s" "sg_closed s' = sg_closed s" "disk st = (disk (w_store W))(sg_path s \<mapsto> segmentMagic @ encode_writes c active)"
        by blast
      have s': "sg_prefix s' = sg_prefix s" "sg_filePos s' = sg_filePos s"
        using f(1) h(1) by (auto simp: flush_writer_def holds_def Let_def)
      have "world_inv idgen c (w_opts w) closed (W\<lparr>w_store := st\<rparr>)"
        using h f(5) by (intro world_inv_store [OF ok(1) h(3)]) (auto simp: holds_def)
      then have "wal_inv idgen c closed active (w\<lparr>w_segment := Some s'\<rparr>) (W\<lparr>w_store := st\<rparr>)"
        using ok(2,3) f s' by (simp add: wal_inv_def seg_ok_def)
      moreover have "wal_Flush e w W = Some (None, w\<lparr>w_segment := Some s'\<rparr>, W\<lparr>w_store := st\<rparr>)"
        using Some h(2) False f(1) e by (simp add: wal_Flush_def segment_Flush_def quiet_env_def)
      ultimately show ?thesis using hist by (auto simp: wal_log_def)
    qed
  qed
qed

text \<open>A history of a log: each call with its environments, one for each attempt.\<close>

datatype wal_op = OpWrite write_options bytes | OpAppend "wal_write list" | OpRotate | OpFlush | OpClose

fun wal_op_writes :: "wal_op \<Rightarrow> wal_write list" where
  "wal_op_writes (OpWrite wopts b) = (if b = [] then [] else [(wopts, b)])"
| "wal_op_writes (OpAppend vs) = vs"
| "wal_op_writes _ = []"

definition wal_apply :: "idgen \<Rightarrow> codec \<Rightarrow> (nat \<Rightarrow> env) \<Rightarrow> wal_op \<Rightarrow> wal \<Rightarrow> world \<Rightarrow> bool \<times> wal \<times> world" where
  "wal_apply idgen c env op w W =
     (case op of
        OpWrite wopts b \<Rightarrow>
          (case wal_Write idgen env (\<lambda>_ _ x. x) (\<lambda>_. None) c wopts b w W of (n, err, w', W') \<Rightarrow> (err = None, w', W'))
      | OpAppend vs \<Rightarrow>
          (case wal_Append idgen env (\<lambda>_ _ x. x) (\<lambda>_. None) (segmentMagic @ encode_writes c vs) w W of
             (n, err, w', W') \<Rightarrow> (err = None, w', W'))
      | OpRotate \<Rightarrow> (True, rotateSegmentIfNecessary idgen (env 0) (\<lambda>x. x) w W)
      | OpFlush \<Rightarrow> (case wal_Flush (env 0) w W of Some (err, w', W') \<Rightarrow> (True, w', W') | None \<Rightarrow> (False, w, W))
      | OpClose \<Rightarrow> (case wal_Close (env 0) w W of (err, w', W') \<Rightarrow> (True, w', W')))"

fun wal_run :: "idgen \<Rightarrow> codec \<Rightarrow> ((nat \<Rightarrow> env) \<times> wal_op) list \<Rightarrow> wal \<Rightarrow> world \<Rightarrow> wal_write list \<times> wal \<times> world" where
  "wal_run idgen c [] w W = ([], w, W)"
| "wal_run idgen c ((env, op) # ops) w W =
     (case wal_apply idgen c env op w W of (ok, w', W') \<Rightarrow>
      case wal_run idgen c ops w' W' of (ws, w'', W'') \<Rightarrow> (if ok then wal_op_writes op @ ws else ws, w'', W''))"

lemma wal_apply_log:
  assumes log: "wal_log idgen c hist w W" and "\<And>k. quiet_env (env k)" and "codec_ok c" "\<forall>v \<in> set (wal_op_writes op). writable c v"
    and run: "wal_apply idgen c env op w W = (ok, w', W')"
  shows "wal_log idgen c (if ok then hist @ wal_op_writes op else hist) w' W' \<and> w_opts w' = w_opts w"
proof (cases op)
  case (OpWrite wopts b)
  then obtain n err where a: "wal_Write idgen env (\<lambda>_ _ x. x) (\<lambda>_. None) c wopts b w W = (n, err, w', W')"
      and ok: "ok = (err = None)"
    using run by (auto simp: wal_apply_def split: prod.splits)
  show ?thesis using wal_Write_log [OF log assms(2) a] OpWrite ok by (auto split: if_splits)
next
  case (OpAppend vs)
  then obtain n err where a: "wal_Append idgen env (\<lambda>_ _ x. x) (\<lambda>_. None) (segmentMagic @ encode_writes c vs) w W = (n, err, w', W')"
      and ok: "ok = (err = None)"
    using run by (auto simp: wal_apply_def split: prod.splits)
  have "\<forall>v \<in> set vs. writable c v" using assms(4) OpAppend by simp
  then show ?thesis using wal_Append_log [OF log assms(2,3) _ a] OpAppend ok by (auto split: if_splits)
next
  case OpRotate
  then show ?thesis
    using run rotate_log [OF log, of "env 0" w' W'] assms(2) [of 0] by (auto simp: wal_apply_def quiet_env_def)
next
  case OpFlush
  then show ?thesis using run wal_Flush_log [OF log, of "env 0"] assms(2) [of 0] by (auto simp: wal_apply_def)
next
  case OpClose
  then obtain err where "wal_Close (env 0) w W = (err, w', W')"
    using run by (auto simp: wal_apply_def split: prod.splits)
  then show ?thesis using run OpClose wal_Close_log [OF log assms(2)] by (auto simp: wal_apply_def)
qed

lemma wal_run_log:
  assumes "wal_log idgen c hist w W" and "codec_ok c"
    and "\<forall>(env, op) \<in> set ops. (\<forall>k. quiet_env (env k)) \<and> (\<forall>v \<in> set (wal_op_writes op). writable c v)"
    and "wal_run idgen c ops w W = (ws, w', W')"
  shows "wal_log idgen c (hist @ ws) w' W' \<and> w_opts w' = w_opts w \<and> (\<forall>v \<in> set ws. writable c v)"
  using assms
proof (induction idgen c ops w W arbitrary: hist ws rule: wal_run.induct)
  case (1 idgen c w W)
  then show ?case by simp
next
  case (2 idgen c env op ops w W)
  obtain ok w1 W1 where a: "wal_apply idgen c env op w W = (ok, w1, W1)" by (metis prod_cases3)
  obtain us where r: "wal_run idgen c ops w1 W1 = (us, w', W')" and ws: "ws = (if ok then wal_op_writes op @ us else us)"
    using 2(5) a by (auto split: prod.splits)
  have op: "\<And>k. quiet_env (env k)" "\<forall>v \<in> set (wal_op_writes op). writable c v" using 2(4) by auto
  note L = wal_apply_log [OF 2(2) op(1) 2(3) op(2) a]
  have "\<forall>(env, op) \<in> set ops. (\<forall>k. quiet_env (env k)) \<and> (\<forall>v \<in> set (wal_op_writes op). writable c v)" using 2(4) by auto
  from 2(1) [OF a [symmetric] refl conjunct1 [OF L] 2(3) this r] show ?case
    using L op ws by (auto split: if_splits)
qed

text \<open>What a reader of the index and of the active segment sees of a log.\<close>

lemma wal_log_read:
  assumes "wal_log idgen c hist w W" and "codec_ok c" "\<forall>v \<in> set hist. writable c v"
  shows "\<exists>parts active. hist = concat parts @ active \<and>
    list_all2 (\<lambda>i vs. \<exists>f. disk (w_store W) (Path i) = Some f \<and> Size i = int (length f) \<and> read_segment c f = Inr (map snd vs, NextValue False))
      (index_Get (WPrefix (w_opts w)) (w_index W)) parts \<and>
    (case w_segment w of
       None \<Rightarrow> active = []
     | Some s \<Rightarrow> read_segment c (file_of s (w_store W) @ sg_buf s) = Inr (map snd active, NextValue False) \<and>
                 segment_Size s = int (length (file_of s (w_store W) @ sg_buf s)))"
proof -
  obtain closed active where inv: "wal_inv idgen c closed active w W" and hist: "hist = concat (map snd closed) @ active"
    using assms(1) by (auto simp: wal_log_def)
  have W: "index_Get (WPrefix (w_opts w)) (w_index W) = map fst closed"
    "\<forall>(i, vs) \<in> set closed. disk (w_store W) (Path i) = Some (segmentMagic @ encode_writes c vs) \<and>
        Size i = int (length (segmentMagic @ encode_writes c vs))"
    using inv by (simp_all add: wal_inv_def world_inv_def)
  have rd: "read_segment c (segmentMagic @ encode_writes c vs) = Inr (map snd vs, NextValue False)" if "set vs \<subseteq> set hist" for vs
    using that assms(3) by (intro read_encoded [OF assms(2)]) blast
  have "list_all2 (\<lambda>i vs. \<exists>f. disk (w_store W) (Path i) = Some f \<and> Size i = int (length f) \<and> read_segment c f = Inr (map snd vs, NextValue False))
      (map fst closed) (map snd closed)"
  proof (rule list_all2_all_nthI)
    fix n assume "n < length (map fst closed)"
    then have n: "closed ! n \<in> set closed" "map fst closed ! n = fst (closed ! n)" "map snd closed ! n = snd (closed ! n)" by simp_all
    have "set (snd (closed ! n)) \<subseteq> set hist" using n(1) hist by auto
    then show "\<exists>f. disk (w_store W) (Path (map fst closed ! n)) = Some f \<and> Size (map fst closed ! n) = int (length f) \<and>
        read_segment c f = Inr (map snd (map snd closed ! n), NextValue False)"
      using W(2) n rd by (auto simp: case_prod_beta)
  qed simp
  moreover have "case w_segment w of
       None \<Rightarrow> active = []
     | Some s \<Rightarrow> read_segment c (file_of s (w_store W) @ sg_buf s) = Inr (map snd active, NextValue False) \<and>
                 segment_Size s = int (length (file_of s (w_store W) @ sg_buf s))"
  proof (cases "w_segment w")
    case None
    then show ?thesis using inv by (simp add: wal_inv_def)
  next
    case (Some s)
    then have "file_of s (w_store W) @ sg_buf s = segmentMagic @ encode_writes c active"
      "sg_filePos s = int (length (segmentMagic @ encode_writes c active))"
      using inv by (simp_all add: wal_inv_def seg_ok_def holds_def)
    then show ?thesis using rd [of active] hist Some by (simp add: segment_Size_def)
  qed
  ultimately show ?thesis using W(1) hist by (intro exI [of _ "map snd closed"] exI [of _ active]) simp
qed

lemma NewWAL_log:
  assumes "NewWAL wo i = Inr w" and "inj idgen" and "index_Get (WPrefix wo) (w_index W) = []"
    and "\<And>n. n \<ge> w_nextId W \<Longrightarrow> disk (w_store W) (segment_path idgen wo n) = None"
  shows "wal_log idgen c [] w W \<and> w_opts w = wo"
proof -
  have "wal_inv idgen c [] [] w W"
    using assms by (auto simp: NewWAL_def wal_inv_def world_inv_def split: if_splits)
  then have "wal_log idgen c [] w W" unfolding wal_log_def by (intro exI [of _ "[]"]) simp
  then show ?thesis using assms(1) by (auto simp: NewWAL_def split: if_splits)
qed

section \<open>Properties of the log\<close>

text \<open>
  C26. The log is the sequence of accepted writes. Take a new log on an index without segments of its prefix, with a generator
  that gives distinct identifiers whose files do not exist, and any history of writes, appends of transferred segments,
  rotations, flushes and closes, in which creating and deleting files may fail but written bytes reach the disk. The
  accepted values are exactly those read from the files the index lists, in its order, followed by
  those of the active segment; every listed size is the length of its file; and once the log is closed,
  all of them are in the index.
\<close>

theorem wal_is_its_history:
  assumes "NewWAL wo i = Inr w" and "inj idgen" and "index_Get (WPrefix wo) (w_index W) = []"
    and "\<forall>n. n \<ge> w_nextId W \<longrightarrow> disk (w_store W) (segment_path idgen wo n) = None" and "codec_ok c"
    and "\<forall>(env, op) \<in> set ops. (\<forall>k. quiet_env (env k)) \<and> (\<forall>v \<in> set (wal_op_writes op). writable c v)"
    and "wal_run idgen c ops w W = (ws, w', W')"
  shows "\<exists>parts active. ws = concat parts @ active \<and>
    list_all2 (\<lambda>i vs. \<exists>f. disk (w_store W') (Path i) = Some f \<and> Size i = int (length f) \<and> read_segment c f = Inr (map snd vs, NextValue False))
      (index_Get (WPrefix wo) (w_index W')) parts \<and>
    (case w_segment w' of
       None \<Rightarrow> active = []
     | Some s \<Rightarrow> read_segment c (file_of s (w_store W') @ sg_buf s) = Inr (map snd active, NextValue False) \<and>
                 segment_Size s = int (length (file_of s (w_store W') @ sg_buf s))) \<and>
    w_segment (fst (snd (wal_apply idgen c env OpClose w' W'))) = None"
proof -
  have "wal_log idgen c [] w W \<and> w_opts w = wo" using NewWAL_log [OF assms(1,2,3)] assms(4) by blast
  with wal_run_log [OF _ assms(5,6,7)] have L: "wal_log idgen c ws w' W'" "w_opts w' = wo" "\<forall>v \<in> set ws. writable c v"
    by fastforce+
  have "w_segment (fst (snd (wal_apply idgen c env OpClose w' W'))) = None"
    by (auto simp: wal_apply_def wal_Close_def setSegment_def Let_def split: prod.splits option.splits)
  with wal_log_read [OF L(1) assms(5) L(3)] L(2) show ?thesis by simp
qed

text \<open>
  C27. Writing ends. Whatever other goroutines do between the attempts and during a rotation, whatever the environment answers and
  whenever the context is cancelled, \<open>Write\<close> and \<open>Append\<close> return after at least one and at most 33 attempts (one, and sixteen retries for
  each of the two reasons to retry).
\<close>

theorem wal_write_ends:
  "fst (wal_Write idgen env others ctx c wopts b w W) \<in> {1..33} \<and>
   fst (wal_Append idgen env others ctx buf w W) \<in> {1..33}"
proof -
  have "fst (writeWithRetry idgen env others ctx wr 0 0 0 v W) \<in> {1..33}" for wr v
    using writeWithRetry_attempts [of 0 idgen env others ctx wr 0 0 v W] by (simp add: maxSegmentClosedRetries_def)
  moreover have "fst (wal_Write idgen env others ctx c wopts b w W) = fst (writeWithRetry idgen env others ctx
      (\<lambda>k. tryWrite idgen (env k) c wopts b) 0 0 0 (w\<lparr>w_inflight := w_inflight w + int (length b)\<rparr>) W)"
    by (simp add: wal_Write_def split: prod.splits)
  moreover have "fst (wal_Append idgen env others ctx buf w W) = fst (writeWithRetry idgen env others ctx
      (\<lambda>k. tryAppend idgen (env k) buf) 0 0 0 (w\<lparr>w_inflight := w_inflight w + int (length buf)\<rparr>) W)"
    by (simp add: wal_Append_def split: prod.splits)
  ultimately show ?thesis by metis
qed

text \<open>
  C28. A live log makes progress. Without admission control, disk and segment limits, and with an operating system that does
  not fail, a write to a log that is not closed is accepted, by the first attempt or by the second after one rotation,
  and the value is the last one of the log.
\<close>

theorem wal_write_succeeds:
  assumes "wal_log idgen c hist w W" and "\<forall>k. quiet_env (env k) \<and> \<not> e_locked (env k) \<and> e_create (env k) = CreateOK"
    and "\<not> w_closed w" "unlimited w" "names_ok idgen (w_opts w)" "budgets (w_store W) = None" "b \<noteq> []"
  shows "\<exists>n w' W'. wal_Write idgen env (\<lambda>_ _ x. x) (\<lambda>_. None) c wopts b w W = (n, None, w', W') \<and> n \<le> 2 \<and>
    wal_log idgen c (hist @ [(wopts, b)]) w' W'"
proof -
  let ?w = "w\<lparr>w_inflight := w_inflight w + int (length b)\<rparr>"
  have e: "e_write (env k) = None \<and> e_close (env k) = None \<and> \<not> e_locked (env k) \<and> e_create (env k) = CreateOK" for k
    using assms(2) by (simp add: quiet_env_def)
  have "wal_log idgen c hist ?w W" "\<not> w_closed ?w" "unlimited ?w" "names_ok idgen (w_opts ?w)"
    using assms by (simp_all add: unlimited_def)
  from seg_Write.retry_succeeds [where wopts = wopts and b = b and env = env, OF this(1) e this(2,3,4) assms(6)]
  obtain n w' W' where r: "n \<le> 2" "writeWithRetry idgen env (\<lambda>_ _ x. x) (\<lambda>_. None)
      (\<lambda>k. try_segment idgen (env k) (segment_Write (e_now (env k)) (e_write (env k)) c wopts b)) 0 0 0 ?w W = (n, None, w', W')"
    by blast
  then have wr: "wal_Write idgen env (\<lambda>_ _ x. x) (\<lambda>_. None) c wopts b w W =
      (n, None, w'\<lparr>w_inflight := w_inflight w' - int (length b)\<rparr>, W')"
    by (simp add: wal_Write_def tryWrite_def)
  have "quiet_env (env k)" for k using assms(2) by simp
  from wal_Write_log [OF assms(1) this wr] show ?thesis using wr r(1) assms(7) by auto
qed

text \<open>
  C29. A throttled table can drain. When a write is refused because the budget of its table is exhausted, the log has no active segment
  afterwards: everything it has accepted is in files of the index, where the uploader finds it.
\<close>

theorem overloaded_log_is_indexed:
  assumes "wal_log idgen c hist w W" and "\<forall>k. quiet_env (env k)" and "codec_ok c" "\<forall>v \<in> set hist. writable c v"
    and "wal_Write idgen env (\<lambda>_ _ x. x) (\<lambda>_. None) c wopts b w W = (n, Some (TableOverloadedError d reason after), w', W')"
  shows "w_segment w' = None \<and> (\<exists>parts. hist = concat parts \<and>
    list_all2 (\<lambda>i vs. \<exists>f. disk (w_store W') (Path i) = Some f \<and> Size i = int (length f) \<and> read_segment c f = Inr (map snd vs, NextValue False))
      (index_Get (WPrefix (w_opts w)) (w_index W')) parts)"
proof -
  have q: "quiet_env (env k)" for k using assms(2) by simp
  have L: "wal_log idgen c hist w' W'" "w_segment w' = None" "w_opts w' = w_opts w"
    using wal_Write_log [OF assms(1) q assms(5)] by simp_all
  from wal_log_read [OF L(1) assms(3,4)] show ?thesis using L(2,3) by auto
qed

section \<open>Concrete logs\<close>

text \<open>A generator whose \<open>n\<close>-th identifier is one with \<open>n\<close> leading zeros.\<close>

definition demo_idgen :: idgen where
  "demo_idgen n = replicate n CHR ''0'' @ ''1''"

definition demo_opts :: "int \<Rightarrow> wal_opts" where
  "demo_opts maxSize = \<lparr>StorageDir = ''/wal'', WPrefix = ''DB_T'', SegmentMaxSize = maxSize, SegmentMaxAge = 0,
     MaxDiskUsage = 0, MaxSegmentCount = 0, WPriority = PriorityQueued\<rparr>"

definition demo_env :: env where
  "demo_env = \<lparr>e_now = 1, e_mono = 1, e_jitter = 0, e_create = CreateOK, e_write = None, e_close = None, e_remove = False,
     e_locked = False, e_prefixes = []\<rparr>"

definition demo_wal :: "int \<Rightarrow> wal" where
  "demo_wal maxSize = \<lparr>w_opts = demo_opts maxSize, w_id = 0, w_closed = False, w_segment = None, w_inflight = 0, w_size = 0,
     w_createdAt = 0, w_jitter = 0\<rparr>"

definition demo_world :: world where
  "demo_world = \<lparr>w_store = demo_store, w_index = NewIndex, w_sched = None, w_nextId = 0\<rparr>"

definition demo_run :: "((nat \<Rightarrow> env) \<times> wal_op) list" where
  "demo_run = [(\<lambda>_. demo_env, OpWrite [(MetricSampleType, 3)] [104, 105]), (\<lambda>_. demo_env, OpFlush),
     (\<lambda>_. demo_env, OpAppend two_writes), (\<lambda>_. demo_env, OpRotate)]"

lemma inj_demo: "inj demo_idgen"
proof (rule injI)
  fix a b assume "demo_idgen a = demo_idgen b"
  then have "length (demo_idgen a) = length (demo_idgen b)" by simp
  then show "a = b" by (simp add: demo_idgen_def)
qed

lemma demo_new_wal: "NewWAL (demo_opts m) 0 = Inr (demo_wal m)"
  by (simp add: NewWAL_def demo_opts_def demo_wal_def)

lemma demo_index: "index_Get p (w_index demo_world) = []"
  by (simp add: demo_world_def NewIndex_def index_Get_def)

lemma demo_disk: "disk (w_store demo_world) p = None" "budgets (w_store demo_world) = None"
  by (simp_all add: demo_world_def demo_store_def)

lemma demo_run_ok:
  "\<forall>(env, op) \<in> set demo_run. (\<forall>k. quiet_env (env k)) \<and> (\<forall>v \<in> set (wal_op_writes op). writable stored_codec v)"
  using two_writes_writable
  by (auto simp: demo_run_def quiet_env_def demo_env_def writable_def stored_codec_def length_plain)

lemma demo_names: "names_ok demo_idgen (demo_opts m)"
  unfolding names_ok_def Let_def
proof (intro allI conjI)
  fix n
  let ?f = "segment_fileName (WPrefix (demo_opts m)) (demo_idgen n)"
  have "hex_value (replicate n CHR ''0'' @ ''1'') 0 = Some 1"
    by (induction n) (simp_all add: hex_digit_def Let_def)
  moreover have "case demo_idgen n of c # cs \<Rightarrow> c \<noteq> CHR ''-'' \<and> c \<noteq> CHR ''+'' | [] \<Rightarrow> False"
    by (cases n) (simp_all add: demo_idgen_def)
  ultimately show "ParseFlakeID (demo_idgen n) \<noteq> None"
    by (auto simp: ParseFlakeID_def ParseInt16_def Let_def demo_idgen_def split: list.splits)
  have free: "CHR ''/'' \<notin> set ?f" "?f \<noteq> []" by (simp_all add: segment_fileName_def demo_opts_def demo_idgen_def)
  then show "filepath_Base ?f = ?f" by (rule filepath_Base_id)
  show "fs_ValidPath ?f"
    using strings_Split_absent [OF free(1)] by (simp add: fs_ValidPath_def segment_fileName_def demo_opts_def)
qed

theorem wal_is_its_history_witness:
  "\<exists>ws w' W' parts active. wal_run demo_idgen stored_codec demo_run (demo_wal 40) demo_world = (ws, w', W') \<and>
    ws = concat parts @ active \<and>
    list_all2 (\<lambda>i vs. \<exists>f. disk (w_store W') (Path i) = Some f \<and> Size i = int (length f) \<and>
        read_segment stored_codec f = Inr (map snd vs, NextValue False))
      (index_Get ''DB_T'' (w_index W')) parts"
proof -
  obtain ws w' W' where r: "wal_run demo_idgen stored_codec demo_run (demo_wal 40) demo_world = (ws, w', W')" by (metis prod_cases3)
  have idx: "index_Get (WPrefix (demo_opts 40)) (w_index demo_world) = []" by (rule demo_index)
  have fresh: "\<forall>n. n \<ge> w_nextId demo_world \<longrightarrow> disk (w_store demo_world) (segment_path demo_idgen (demo_opts 40) n) = None"
    by (simp add: demo_disk)
  have "WPrefix (demo_opts 40) = ''DB_T''" by (simp add: demo_opts_def)
  then show ?thesis
    using wal_is_its_history [OF demo_new_wal inj_demo idx fresh codec_ok_stored demo_run_ok r, of "\<lambda>_. demo_env"] r by auto
qed

theorem wal_write_succeeds_witness:
  "\<exists>n w' W'. wal_Write demo_idgen (\<lambda>_. demo_env) (\<lambda>_ _ x. x) (\<lambda>_. None) stored_codec [] [7] (demo_wal 40) demo_world = (n, None, w', W') \<and>
     n \<le> 2 \<and> wal_log demo_idgen stored_codec [([], [7])] w' W'"
proof -
  have log: "wal_log demo_idgen stored_codec [] (demo_wal 40) demo_world"
    using NewWAL_log [OF demo_new_wal inj_demo demo_index] demo_disk by blast
  have "\<forall>k :: nat. quiet_env demo_env \<and> \<not> e_locked demo_env \<and> e_create demo_env = CreateOK"
    by (simp add: demo_env_def quiet_env_def)
  moreover have "\<not> w_closed (demo_wal 40)" "unlimited (demo_wal 40)" "w_opts (demo_wal 40) = demo_opts 40"
    by (simp_all add: demo_wal_def unlimited_def demo_opts_def)
  ultimately show ?thesis
    using wal_write_succeeds [OF log, of "\<lambda>_. demo_env" "[7]" "[]"] demo_names [of 40] demo_disk(2) by simp
qed

text \<open>A log whose active segment holds two writes and whose table budget is spent.\<close>

definition spent_segment :: segment where
  "spent_segment = \<lparr>sg_id = ''1'', sg_prefix = ''DB_T'', sg_path = segment_path demo_idgen (demo_opts 0) 0, sg_createdAt = 0,
     sg_filePos = int (length (segmentMagic @ encode_writes stored_codec two_writes)), sg_buf = [], sg_err = False, sg_closed = False,
     sg_budget = Some \<lparr>Database = ''DB'', Table = ''T''\<rparr>\<rparr>"

definition spent_wal :: wal where
  "spent_wal = (demo_wal 0)\<lparr>w_segment := Some spent_segment, w_size := sg_filePos spent_segment\<rparr>"

definition spent_world :: world where
  "spent_world = demo_world\<lparr>w_nextId := 1, w_store :=
     \<lparr>disk = [sg_path spent_segment \<mapsto> segmentMagic @ encode_writes stored_codec two_writes],
      budgets = Some (NewAdmission \<lparr>Global = usage0, Default = \<lparr>Bytes = 1, Segments = 0\<rparr>, Overrides = [], Enforce = True,
            RealtimeReservedBytes = 0, Policy = None\<rparr>)\<rparr>\<rparr>"

lemma spent_log: "wal_log demo_idgen stored_codec two_writes spent_wal spent_world"
proof -
  have "segment_path demo_idgen (demo_opts 0) n \<noteq> sg_path spent_segment" if "n \<ge> 1" for n
    using that segment_path_eq [OF inj_demo] by (simp add: spent_segment_def)
  moreover have "w_opts spent_wal = demo_opts 0" "WPrefix (demo_opts 0) = ''DB_T''"
    by (simp_all add: spent_wal_def demo_wal_def demo_opts_def)
  ultimately have "world_inv demo_idgen stored_codec (w_opts spent_wal) [] spent_world"
    using inj_demo demo_index by (simp add: world_inv_def spent_world_def)
  moreover have "seg_ok stored_codec (w_opts spent_wal) [] spent_world two_writes spent_segment"
    by (simp add: seg_ok_def holds_def file_of_def spent_world_def spent_segment_def spent_wal_def demo_wal_def demo_opts_def)
  ultimately have "wal_inv demo_idgen stored_codec [] two_writes spent_wal spent_world"
    by (simp add: wal_inv_def spent_wal_def)
  then show ?thesis unfolding wal_log_def by (intro exI [of _ "[]"] exI [of _ two_writes]) simp
qed

lemma spent_refuses:
  "\<exists>n w' W'. wal_Write demo_idgen (\<lambda>_. demo_env) (\<lambda>_ _ x. x) (\<lambda>_. None) stored_codec [] [7] spent_wal spent_world =
     (n, Some (TableOverloadedError \<lparr>Database = ''DB'', Table = ''T''\<rparr> ''bytes'' (5 * second)), w', W')"
proof -
  let ?d = "\<lparr>Database = ''DB'', Table = ''T''\<rparr>"
  obtain ao where res: "reserve_opt 1 (sg_path spent_segment) (Some ?d) (int (length (encode_block stored_codec [] [7]))) 0
      (budgets (w_store spent_world)) = (Inl (TableOverloadedError ?d ''bytes'' (5 * second)), ao)"
    by (simp add: reserve_opt_def spent_world_def Reserve_def NewAdmission_def admission_Table_def Let_def reserve_local_def
        new_budget_def resolveLimit_def encode_block_def PutUint32_def)
  let ?w = "spent_wal\<lparr>w_inflight := w_inflight spent_wal + 1\<rparr>"
  have "wal_validateLimits demo_env ?w spent_world = None"
    by (simp add: wal_validateLimits_def spent_world_def spent_wal_def demo_wal_def demo_opts_def)
  then obtain w1 W1 where "tryWrite demo_idgen demo_env stored_codec [] [7] ?w spent_world =
      (Inl (TableOverloadedError ?d ''bytes'' (5 * second)), w1, W1)"
    using res by (simp add: tryWrite_def try_segment_def segment_Write_def write_bytes_def spent_wal_def demo_env_def spent_segment_def)
  then show ?thesis
    by (simp add: wal_Write_def writeWithRetry.simps [of _ _ _ _ _ 0] split: prod.splits)
qed

theorem overloaded_log_is_indexed_witness:
  "\<exists>n err w' W' parts. wal_Write demo_idgen (\<lambda>_. demo_env) (\<lambda>_ _ x. x) (\<lambda>_. None) stored_codec [] [7] spent_wal spent_world = (n, Some err, w', W') \<and>
     w_segment w' = None \<and> two_writes = concat parts \<and>
     list_all2 (\<lambda>i vs. \<exists>f. disk (w_store W') (Path i) = Some f \<and> Size i = int (length f) \<and>
         read_segment stored_codec f = Inr (map snd vs, NextValue False)) (index_Get ''DB_T'' (w_index W')) parts"
proof -
  have "WPrefix (w_opts spent_wal) = ''DB_T''" by (simp add: spent_wal_def demo_wal_def demo_opts_def)
  moreover have "\<forall>k :: nat. quiet_env demo_env" by (simp add: demo_env_def quiet_env_def)
  ultimately show ?thesis
    using spent_refuses overloaded_log_is_indexed [OF spent_log, of "\<lambda>_. demo_env"] codec_ok_stored two_writes_writable by fastforce
qed

end
