(* ===== verification/PartMap.thy ===== *)
theory PartMap
  imports Prelude
begin

text \<open>
  \<open>pkg/partmap/partmap.go\<close>: a string-keyed map split into partitions, each with its own lock. The
  repository keeps its write-ahead logs in one. The hash \<open>xxhash.Sum64String\<close> is third-party code and is the
  argument \<open>h\<close>; nothing is assumed of it. A map without partitions panics on its first use, so the
  operations are those of a map that has one (\<open>NewMap\<close> is called with a positive constant).

  Every operation holds the lock of one partition, so it is atomic; \<open>getOrCreate\<close> looks the key up a second time
  under the write lock, which is the look-up that counts.
\<close>

section \<open>Definitions\<close>

type_synonym 'v syncMap = "string \<rightharpoonup> 'v"
type_synonym 'v partmap = "'v syncMap list"
type_synonym hash = "string \<Rightarrow> 64 word"

definition sync_get :: "string \<Rightarrow> 'v syncMap \<Rightarrow> 'v option" where
  "sync_get key s = s key"

text \<open>\<open>set\<close> keeps a value that is already there and returns the value that is in the map afterwards.\<close>

definition sync_set :: "string \<Rightarrow> 'v \<Rightarrow> 'v syncMap \<Rightarrow> 'v \<times> 'v syncMap" where
  "sync_set key value s = (case s key of Some v \<Rightarrow> (v, s) | None \<Rightarrow> (value, s(key \<mapsto> value)))"

definition sync_delete :: "string \<Rightarrow> 'v syncMap \<Rightarrow> 'v option \<times> 'v syncMap" where
  "sync_delete key s = (case s key of None \<Rightarrow> (None, s) | Some v \<Rightarrow> (Some v, s(key := None)))"

definition sync_getOrCreate :: "string \<Rightarrow> 'e + 'v \<Rightarrow> 'v syncMap \<Rightarrow> ('e + 'v) \<times> 'v syncMap" where
  "sync_getOrCreate key created s =
     (case s key of
        Some v \<Rightarrow> (Inr v, s)
      | None \<Rightarrow> (case created of Inl e \<Rightarrow> (Inl e, s) | Inr v \<Rightarrow> (Inr v, s(key \<mapsto> v))))"

text \<open>\<open>mutate\<close>: \<open>fn\<close> may be nil; a missing key gives it the zero value; an error leaves the map as it was.\<close>

datatype 'e mutate_error = FnIsNil | FnError 'e

definition sync_mutate :: "'v \<Rightarrow> string \<Rightarrow> ('v \<Rightarrow> 'e + 'v) option \<Rightarrow> 'v syncMap \<Rightarrow> 'e mutate_error option \<times> 'v syncMap" where
  "sync_mutate zero key fno s =
     (case fno of
        None \<Rightarrow> (Some FnIsNil, s)
      | Some fn \<Rightarrow>
          (case fn (case s key of Some v \<Rightarrow> v | None \<Rightarrow> zero) of
             Inl e \<Rightarrow> (Some (FnError e), s)
           | Inr v \<Rightarrow> (None, s(key \<mapsto> v))))"

text \<open>\<open>apply\<close> calls \<open>fn\<close> for the keys in the order \<open>ks\<close> and stops at the first error; \<open>fn\<close> changes the caller's state.\<close>

fun sync_apply :: "string list \<Rightarrow> (string \<Rightarrow> 'v \<Rightarrow> 'st \<Rightarrow> 'e option \<times> 'st) \<Rightarrow> 'v syncMap \<Rightarrow> 'st \<Rightarrow> 'e option \<times> 'st" where
  "sync_apply [] fn s st = (None, st)"
| "sync_apply (k # ks) fn s st =
     (case s k of
        None \<Rightarrow> sync_apply ks fn s st
      | Some v \<Rightarrow> (case fn k v st of (Some e, st') \<Rightarrow> (Some e, st') | (None, st') \<Rightarrow> sync_apply ks fn s st'))"

definition NewMap :: "nat \<Rightarrow> 'v partmap" where
  "NewMap n = replicate n Map.empty"

definition partition_of :: "hash \<Rightarrow> string \<Rightarrow> 'v partmap \<Rightarrow> nat" where
  "partition_of h key m = unat (h key) mod length m"

definition map_Get :: "hash \<Rightarrow> string \<Rightarrow> 'v partmap \<Rightarrow> 'v option" where
  "map_Get h key m = sync_get key (m ! partition_of h key m)"

text \<open>Run an operation of the key's partition.\<close>

definition at_partition :: "hash \<Rightarrow> string \<Rightarrow> ('v syncMap \<Rightarrow> 'r \<times> 'v syncMap) \<Rightarrow> 'v partmap \<Rightarrow> 'r \<times> 'v partmap" where
  "at_partition h key f m = (let i = partition_of h key m in case f (m ! i) of (r, s) \<Rightarrow> (r, m[i := s]))"

definition map_Set :: "hash \<Rightarrow> string \<Rightarrow> 'v \<Rightarrow> 'v partmap \<Rightarrow> 'v \<times> 'v partmap" where
  "map_Set h key value = at_partition h key (sync_set key value)"

definition map_Delete :: "hash \<Rightarrow> string \<Rightarrow> 'v partmap \<Rightarrow> 'v option \<times> 'v partmap" where
  "map_Delete h key = at_partition h key (sync_delete key)"

definition map_GetOrCreate :: "hash \<Rightarrow> string \<Rightarrow> 'e + 'v \<Rightarrow> 'v partmap \<Rightarrow> ('e + 'v) \<times> 'v partmap" where
  "map_GetOrCreate h key created = at_partition h key (sync_getOrCreate key created)"

definition map_Mutate :: "hash \<Rightarrow> 'v \<Rightarrow> string \<Rightarrow> ('v \<Rightarrow> 'e + 'v) option \<Rightarrow> 'v partmap \<Rightarrow> 'e mutate_error option \<times> 'v partmap" where
  "map_Mutate h zero key fno = at_partition h key (sync_mutate zero key fno)"

text \<open>\<open>Each\<close>: one pass over every partition; \<open>kss\<close> are the orders in which Go visits them.\<close>

fun map_Each :: "string list list \<Rightarrow> (string \<Rightarrow> 'v \<Rightarrow> 'st \<Rightarrow> 'e option \<times> 'st) \<Rightarrow> 'v partmap \<Rightarrow> 'st \<Rightarrow> 'e option \<times> 'st" where
  "map_Each (ks # kss) fn (s # m) st =
     (case sync_apply ks fn s st of (Some e, st') \<Rightarrow> (Some e, st') | (None, st') \<Rightarrow> map_Each kss fn m st')"
| "map_Each _ fn _ st = (None, st)"

definition map_Count :: "'v partmap \<Rightarrow> nat" where
  "map_Count m = sum_list (map (\<lambda>s. card (dom s)) m)"

section \<open>A map by key\<close>

text \<open>
  The contract of a map whose writers agree on the value: the first value stored under a key stays
  until the key is deleted, and other keys are not touched.
\<close>

locale shared_map =
  fixes ok :: "'m \<Rightarrow> bool"
    and get :: "'k \<Rightarrow> 'm \<Rightarrow> 'v option"
    and put :: "'k \<Rightarrow> 'v \<Rightarrow> 'm \<Rightarrow> 'v \<times> 'm"
    and del :: "'k \<Rightarrow> 'm \<Rightarrow> 'v option \<times> 'm"
  assumes put_ok: "ok m \<Longrightarrow> ok (snd (put k v m))"
    and del_ok: "ok m \<Longrightarrow> ok (snd (del k m))"
    and put_get: "ok m \<Longrightarrow> (\<lambda>j. get j (snd (put k v m))) = (if get k m = None then (\<lambda>j. get j m)(k \<mapsto> v) else (\<lambda>j. get j m))"
    and put_result: "ok m \<Longrightarrow> fst (put k v m) = (case get k m of None \<Rightarrow> v | Some w \<Rightarrow> w)"
    and del_get: "ok m \<Longrightarrow> (\<lambda>j. get j (snd (del k m))) = (\<lambda>j. get j m)(k := None)"
    and del_result: "ok m \<Longrightarrow> fst (del k m) = get k m"
begin

text \<open>Whoever stores second is given the first value: all callers share one.\<close>

lemma put_put:
  assumes "ok m"
  shows "fst (put k v' (snd (put k v m))) = fst (put k v m)"
proof -
  have "get k (snd (put k v m)) = Some (fst (put k v m))"
    using fun_cong [OF put_get [OF assms, of k v], of k] put_result [OF assms, of k v] by (cases "get k m") auto
  then show ?thesis using put_result [OF put_ok [OF assms]] by simp
qed

lemma put_idem:
  assumes "ok m"
  shows "get j (snd (put k v' (snd (put k v m)))) = get j (snd (put k v m))"
proof -
  have "get k (snd (put k v m)) \<noteq> None"
    using fun_cong [OF put_get [OF assms, of k v], of k] by (cases "get k m") auto
  then show ?thesis
    using fun_cong [OF put_get [OF put_ok [OF assms]], of j k v'] by simp
qed

lemma del_put:
  assumes "ok m" and "get k m = None"
  shows "get j (snd (del k (snd (put k v m)))) = get j m"
  using fun_cong [OF del_get [OF put_ok [OF assms(1)]], of j k k v] fun_cong [OF put_get [OF assms(1), of k v], of j] assms(2)
  by (auto split: if_splits)

end

section \<open>Correctness\<close>

lemma partition_less: "m \<noteq> [] \<Longrightarrow> partition_of h key m < length m"
  by (simp add: partition_of_def)

lemma partition_update [simp]: "partition_of h key (m[i := s]) = partition_of h key m"
  by (simp add: partition_of_def)

text \<open>What an operation on one partition does to the whole map, seen through \<open>Get\<close>.\<close>

lemma Get_at_partition:
  assumes "m \<noteq> []" and "\<And>j. j \<noteq> key \<Longrightarrow> snd (f (m ! partition_of h key m)) j = (m ! partition_of h key m) j"
  shows "map_Get h j (snd (at_partition h key f m)) =
    (if j = key then snd (f (m ! partition_of h key m)) key else map_Get h j m)"
proof -
  let ?i = "partition_of h key m"
  have e: "snd (at_partition h key f m) = m[?i := snd (f (m ! ?i))]"
    by (simp add: at_partition_def Let_def split: prod.split)
  show ?thesis
    using partition_less [OF assms(1)] assms(2) [of j]
    by (auto simp: e map_Get_def sync_get_def nth_list_update)
qed

lemma at_partition_result: "fst (at_partition h key f m) = fst (f (m ! partition_of h key m))"
  by (simp add: at_partition_def Let_def split: prod.split)

lemma at_partition_nonempty: "m \<noteq> [] \<Longrightarrow> snd (at_partition h key f m) \<noteq> []"
  by (simp add: at_partition_def Let_def split: prod.split)

lemma Get_sync: "map_Get h key m = (m ! partition_of h key m) key"
  by (simp add: map_Get_def sync_get_def)

interpretation pm: shared_map "\<lambda>m. m \<noteq> []" "map_Get h" "map_Set h" "map_Delete h" for h
proof
  fix m :: "'a partmap" and k v
  assume m: "m \<noteq> []"
  show "snd (map_Set h k v m) \<noteq> []" "snd (map_Delete h k m) \<noteq> []"
    using at_partition_nonempty [OF m] by (simp_all add: map_Set_def map_Delete_def)
  show "(\<lambda>j. map_Get h j (snd (map_Set h k v m))) =
      (if map_Get h k m = None then (\<lambda>j. map_Get h j m)(k \<mapsto> v) else (\<lambda>j. map_Get h j m))"
    using Get_at_partition [OF m, of k "sync_set k v" h]
    by (auto simp: map_Set_def fun_eq_iff sync_set_def Get_sync split: option.splits)
  show "fst (map_Set h k v m) = (case map_Get h k m of None \<Rightarrow> v | Some w \<Rightarrow> w)"
    by (simp add: map_Set_def at_partition_result sync_set_def Get_sync split: option.split)
  show "(\<lambda>j. map_Get h j (snd (map_Delete h k m))) = (\<lambda>j. map_Get h j m)(k := None)"
    using Get_at_partition [OF m, of k "sync_delete k" h]
    by (auto simp: map_Delete_def fun_eq_iff sync_delete_def split: option.splits)
  show "fst (map_Delete h k m) = map_Get h k m"
    by (simp add: map_Delete_def at_partition_result sync_delete_def Get_sync split: option.split)
qed

lemma GetOrCreate_Get:
  assumes "m \<noteq> []"
  shows "map_Get h j (snd (map_GetOrCreate h key created m)) =
    (if j = key \<and> map_Get h key m = None then (case created of Inl e \<Rightarrow> None | Inr v \<Rightarrow> Some v) else map_Get h j m)"
  using Get_at_partition [OF assms, of key "sync_getOrCreate key created" h j]
  by (auto simp: map_GetOrCreate_def sync_getOrCreate_def Get_sync split: option.splits sum.splits)

lemma GetOrCreate_result:
  "fst (map_GetOrCreate h key created m) = (case map_Get h key m of Some v \<Rightarrow> Inr v | None \<Rightarrow> created)"
  by (simp add: map_GetOrCreate_def at_partition_result sync_getOrCreate_def Get_sync split: option.split sum.split)

lemma Mutate_Get:
  assumes "m \<noteq> []"
  shows "map_Get h j (snd (map_Mutate h zero key (Some fn) m)) =
    (if j = key then (case fn (case map_Get h key m of Some v \<Rightarrow> v | None \<Rightarrow> zero) of
                        Inl e \<Rightarrow> map_Get h key m | Inr v \<Rightarrow> Some v)
     else map_Get h j m)"
  using Get_at_partition [OF assms, of key "sync_mutate zero key (Some fn)" h j]
  by (auto simp: map_Mutate_def sync_mutate_def Get_sync split: option.splits sum.splits)

lemma Mutate_result:
  "fst (map_Mutate h zero key (Some fn) m) =
     (case fn (case map_Get h key m of Some v \<Rightarrow> v | None \<Rightarrow> zero) of Inl e \<Rightarrow> Some (FnError e) | Inr v \<Rightarrow> None)"
  by (simp add: map_Mutate_def at_partition_result sync_mutate_def Get_sync split: sum.split)

lemma Mutate_nil: "map_Mutate h zero key None m = (Some FnIsNil, m)"
  by (simp add: map_Mutate_def at_partition_def sync_mutate_def Let_def)

text \<open>\<open>Each\<close> with a function that never fails folds over the keys of all partitions in order.\<close>

lemma sync_apply_fold:
  assumes "\<And>k v st. fst (fn k v st) = None"
  shows "sync_apply ks fn s st = (None, fold (\<lambda>k st. case s k of None \<Rightarrow> st | Some v \<Rightarrow> snd (fn k v st)) ks st)"
proof (induction ks arbitrary: st)
  case (Cons k ks)
  then show ?case using assms by (auto split: option.split prod.split) (metis fst_conv option.distinct(1))+
qed simp

text \<open>The map a partitioned map stands for.\<close>

definition view :: "hash \<Rightarrow> 'v partmap \<Rightarrow> string \<rightharpoonup> 'v" where
  "view h m = (\<lambda>j. map_Get h j m)"

section \<open>Properties\<close>

text \<open>
  C22. A partitioned map is a map, whatever the hash and the number of partitions: seen through \<open>Get\<close>, a new map is
  empty, \<open>Set\<close> and \<open>GetOrCreate\<close> store a value only where there is none and return the value that stays, so that all callers
  share it, a constructor that fails stores nothing, \<open>Delete\<close> removes exactly its key, and \<open>Mutate\<close> replaces one value
  or, on an error, which it returns, none; without a function it is an error. \<open>Set\<close> does not replace a value, although its comment says that it sets it.
\<close>

theorem partmap_refines_map:
  fixes m :: "'v partmap" and created :: "'e + 'v" and fn :: "'v \<Rightarrow> 'e + 'v"
  assumes "m \<noteq> []"
  shows "(0 < n \<longrightarrow> view h (NewMap n :: 'v partmap) = Map.empty) \<and>
         view h (snd (map_Set h k v m)) = (if view h m k = None then (view h m)(k \<mapsto> v) else view h m) \<and>
         Some (fst (map_Set h k v m)) = view h (snd (map_Set h k v m)) k \<and>
         view h (snd (map_GetOrCreate h k created m)) =
           (case (view h m k, created) of (None, Inr w) \<Rightarrow> (view h m)(k \<mapsto> w) | _ \<Rightarrow> view h m) \<and>
         fst (map_GetOrCreate h k created m) = (case view h m k of Some w \<Rightarrow> Inr w | None \<Rightarrow> created) \<and>
         view h (snd (map_Delete h k m)) = (view h m)(k := None) \<and> fst (map_Delete h k m) = view h m k \<and>
         map_Mutate h zero k (None :: ('v \<Rightarrow> 'e + 'v) option) m = (Some FnIsNil, m) \<and>
         fst (map_Mutate h zero k (Some fn) m) =
           (case fn (case view h m k of Some w \<Rightarrow> w | None \<Rightarrow> zero) of Inl e \<Rightarrow> Some (FnError e) | Inr w \<Rightarrow> None) \<and>
         view h (snd (map_Mutate h zero k (Some fn) m)) =
           (case fn (case view h m k of Some w \<Rightarrow> w | None \<Rightarrow> zero) of Inl e \<Rightarrow> view h m | Inr w \<Rightarrow> (view h m)(k \<mapsto> w))"
proof -
  have new: "view h (NewMap n :: 'v partmap) = Map.empty" if "0 < n"
    using that by (auto simp: view_def NewMap_def map_Get_def sync_get_def partition_of_def)
  have set: "view h (snd (map_Set h k v m)) = (if view h m k = None then (view h m)(k \<mapsto> v) else view h m)"
    using pm.put_get [OF assms(1)] by (simp add: view_def)
  have res: "fst (map_Set h k v m) = (case view h m k of None \<Rightarrow> v | Some w \<Rightarrow> w)"
    using pm.put_result [OF assms(1)] by (simp add: view_def)
  have create: "view h (snd (map_GetOrCreate h k created m)) =
      (case (view h m k, created) of (None, Inr w) \<Rightarrow> (view h m)(k \<mapsto> w) | _ \<Rightarrow> view h m)"
    by (auto simp: view_def GetOrCreate_Get [OF assms(1)] fun_eq_iff split: option.split sum.split)
  have mut: "view h (snd (map_Mutate h zero k (Some fn) m)) =
      (case fn (case view h m k of Some w \<Rightarrow> w | None \<Rightarrow> zero) of Inl e \<Rightarrow> view h m | Inr w \<Rightarrow> (view h m)(k \<mapsto> w))"
    by (auto simp: view_def Mutate_Get [OF assms(1)] fun_eq_iff split: sum.split)
  have made: "fst (map_GetOrCreate h k created m) = (case view h m k of Some w \<Rightarrow> Inr w | None \<Rightarrow> created)"
    by (simp add: view_def GetOrCreate_result)
  have del: "view h (snd (map_Delete h k m)) = (view h m)(k := None)" "fst (map_Delete h k m) = view h m k"
    using pm.del_get [OF assms(1)] pm.del_result [OF assms(1)] by (simp_all add: view_def)
  have "Some (fst (map_Set h k v m)) = view h (snd (map_Set h k v m)) k"
    unfolding set res by (simp split: option.split)
  then show ?thesis
    using new set create mut made del Mutate_nil [of h zero k m] Mutate_result [of h zero k fn m] unfolding view_def by blast
qed

theorem partmap_refines_map_witness:
  "view (\<lambda>s. of_nat (length s)) (snd (map_Set (\<lambda>s. of_nat (length s)) ''abc'' 7 (NewMap 4 :: nat partmap))) = [''abc'' \<mapsto> 7]"
proof -
  let ?m = "NewMap 4 :: nat partmap" and ?h = "\<lambda>s :: string. of_nat (length s) :: 64 word"
  have m: "?m \<noteq> []" by (simp add: NewMap_def)
  have "view ?h ?m = Map.empty \<and>
      view ?h (snd (map_Set ?h ''abc'' 7 ?m)) = (if view ?h ?m ''abc'' = None then (view ?h ?m)(''abc'' \<mapsto> 7) else view ?h ?m)"
    using partmap_refines_map [OF m, of 4 ?h "''abc''" 7 "Inl ()" 0 Inr] by simp
  then show ?thesis by simp
qed

end
