(* ===== verification/Repository.thy ===== *)
theory Repository
  imports Wal PartMap
begin

text \<open>
  The collection of logs, \<open>pkg/wal/repository.go\<close>: one write-ahead log for each prefix in a partitioned map, the
  options each is given by its ingestion priority, and the recovery of the segments a previous process left on disk.

  \<open>openStartupSegments\<close> runs the files one after the other (\<open>StartupOpenConcurrency\<close> of at most one). The background
  sampling of sizes, the debug printer and the directory listing of \<open>Open\<close> are not modelled; the listing is the
  argument \<open>paths\<close>.
\<close>

section \<open>Options\<close>

record rotation_policy =
  RSegmentMaxAge :: duration
  RSegmentMaxSize :: int

record repository_opts =
  RStorageDir :: string
  ROSegmentMaxSize :: int
  ROSegmentMaxAge :: duration
  ROMaxDiskUsage :: int
  RPolicy :: "policy option"
  Realtime :: rotation_policy
  RealtimeReservedDiskBytes :: int

definition repo_MaxDiskUsage :: "repository_opts \<Rightarrow> priority \<Rightarrow> int" where
  "repo_MaxDiskUsage ro p =
     (let mx = ROMaxDiskUsage ro; reserved = RealtimeReservedDiskBytes ro
      in if p = PriorityRealtime \<or> mx \<le> 0 \<or> reserved \<le> 0 \<or> reserved \<ge> mx \<or> \<not> HasRealtime (RPolicy ro) then mx
         else mx - reserved)"

definition repo_priority :: "repository_opts \<Rightarrow> string \<Rightarrow> priority" where
  "repo_priority ro prefix =
     (if \<not> HasRealtime (RPolicy ro) then PriorityQueued
      else case ParsePrefix prefix of
        Inl err \<Rightarrow> PriorityQueued
      | Inr (database, table) \<Rightarrow> Priority (RPolicy ro) database table)"

definition walOpts :: "repository_opts \<Rightarrow> string \<Rightarrow> wal_opts" where
  "walOpts ro prefix =
     (let p = repo_priority ro prefix; rt = Realtime ro
      in \<lparr>StorageDir = RStorageDir ro, WPrefix = prefix,
          SegmentMaxSize = (if p = PriorityRealtime \<and> RSegmentMaxSize rt > 0 then RSegmentMaxSize rt else ROSegmentMaxSize ro),
          SegmentMaxAge = (if p = PriorityRealtime \<and> RSegmentMaxAge rt > 0 then RSegmentMaxAge rt else ROSegmentMaxAge ro),
          MaxDiskUsage = repo_MaxDiskUsage ro p, MaxSegmentCount = 0, WPriority = p\<rparr>)"

section \<open>State and access\<close>

record repository =
  rp_opts :: repository_opts
  rp_wals :: "wal partmap"
  rp_world :: world
  rp_nextWal :: nat

definition NewRepository :: "repository_opts \<Rightarrow> store \<Rightarrow> repository" where
  "NewRepository ro st = \<lparr>rp_opts = ro, rp_wals = NewMap 64,
     rp_world = \<lparr>w_store = st, w_index = NewIndex, w_sched = Some newRotationScheduler, w_nextId = 0\<rparr>, rp_nextWal = 0\<rparr>"

definition newWAL :: "repository \<Rightarrow> string \<Rightarrow> string + wal" where
  "newWAL rp prefix = NewWAL (walOpts (rp_opts rp) prefix) (rp_nextWal rp)"

definition repo_Get :: "hash \<Rightarrow> string \<Rightarrow> repository \<Rightarrow> (string + wal) \<times> repository" where
  "repo_Get h key rp =
     (case map_GetOrCreate h key (newWAL rp key) (rp_wals rp) of
        (r, m) \<Rightarrow> (r, rp\<lparr>rp_wals := m, rp_nextWal := Suc (rp_nextWal rp)\<rparr>))"

definition repo_Count :: "repository \<Rightarrow> nat" where
  "repo_Count rp = map_Count (rp_wals rp)"

text \<open>\<open>Remove\<close>: an absent log is not an error; one that is not closed is, and stays.\<close>

definition repo_Remove :: "hash \<Rightarrow> env \<Rightarrow> string \<Rightarrow> repository \<Rightarrow> wal_error option \<times> repository" where
  "repo_Remove h e key rp =
     (case map_Get h key (rp_wals rp) of
        None \<Rightarrow> (None, rp)
      | Some w \<Rightarrow>
          (case wal_RemoveAll e w (rp_world rp) of
             (Some err, W) \<Rightarrow> (Some err, rp\<lparr>rp_world := W\<rparr>)
           | (None, W) \<Rightarrow> (None, rp\<lparr>rp_world := W, rp_wals := snd (map_Delete h key (rp_wals rp))\<rparr>)))"

text \<open>\<open>Keys\<close> and \<open>IsActiveSegment\<close> range over the partitions in the orders \<open>kss\<close>.\<close>

definition repo_Keys :: "string list list \<Rightarrow> repository \<Rightarrow> string list" where
  "repo_Keys kss rp = sort (snd (map_Each kss (\<lambda>k v ks. (None :: unit option, ks @ [k])) (rp_wals rp) []))"

definition IsActiveSegment :: "string list list \<Rightarrow> string \<Rightarrow> repository \<Rightarrow> bool" where
  "IsActiveSegment kss path rp =
     snd (map_Each kss (\<lambda>k v found. (None :: unit option, if \<not> found \<and> wal_Path v = path then True else found)) (rp_wals rp) False)"

text \<open>\<open>sweepRotations\<close>: the logs that are due.\<close>

definition sweep_due :: "string list list \<Rightarrow> env \<Rightarrow> repository \<Rightarrow> string list" where
  "sweep_due kss e rp =
     snd (map_Each kss (\<lambda>k v due. (None :: unit option, if requiresRotation e v then due @ [k] else due)) (rp_wals rp) [])"

definition RemoveSegment :: "segment_info \<Rightarrow> repository \<Rightarrow> repository" where
  "RemoveSegment si rp =
     (let W = rp_world rp
      in case index_Remove si (w_index W) (budgets (w_store W)) of (ix, ao) \<Rightarrow>
           rp\<lparr>rp_world := W\<lparr>w_index := ix, w_store := (w_store W)\<lparr>budgets := ao\<rparr>\<rparr>\<rparr>)"

section \<open>Recovery\<close>

datatype startup = StartupOK repository | StartupError string repository | StartupPanic

definition set_disk :: "string \<Rightarrow> bytes option \<Rightarrow> repository \<Rightarrow> repository" where
  "set_disk path f rp =
     (let W = rp_world rp; st = w_store W in rp\<lparr>rp_world := W\<lparr>w_store := st\<lparr>disk := (disk st)(path := f)\<rparr>\<rparr>\<rparr>)"

text \<open>
  \<open>openStartupSegment\<close>. \<open>rm\<close> says that the system lets files be removed; a failed removal is only logged. \<open>Open\<close> repairs
  the file; its error is only logged, its panic is not caught.
\<close>

definition repo_open :: "string \<Rightarrow> repository \<Rightarrow> repository option" where
  "repo_open path rp =
     (case Open path (w_store (rp_world rp)) of
        (OpenPanic, st) \<Rightarrow> None
      | (OpenError err, st) \<Rightarrow> Some (rp\<lparr>rp_world := (rp_world rp)\<lparr>w_store := st\<rparr>\<rparr>)
      | (OpenOK s, st) \<Rightarrow>
          (case segment_Close None s st of (err, s', st) \<Rightarrow> Some (rp\<lparr>rp_world := (rp_world rp)\<lparr>w_store := st\<rparr>\<rparr>)))"

definition startup_prefix :: "parsed_name \<Rightarrow> string" where
  "startup_prefix p =
     (let prefix = pn_database p @ ''_'' @ pn_table p in if pn_schema p \<noteq> [] then prefix @ ''_'' @ pn_schema p else prefix)"

definition startup_index :: "hash \<Rightarrow> gotime \<Rightarrow> string \<Rightarrow> string \<Rightarrow> string \<Rightarrow> gotime \<Rightarrow> int \<Rightarrow> repository \<Rightarrow> startup" where
  "startup_index h now path prefix epoch created sz rp =
     (let info = \<lparr>Prefix = prefix, Ulid = epoch, Path = path, Size = sz, CreatedAt = created,
                  SPriority = repo_priority (rp_opts rp) prefix\<rparr>;
          W = rp_world rp;
          st = (case DestinationFromPrefix prefix of
                  (d, None) \<Rightarrow> (w_store W)\<lparr>budgets := map_option (Restore now path d sz) (budgets (w_store W))\<rparr>
                | (d, Some err) \<Rightarrow> w_store W);
          rp = rp\<lparr>rp_world := W\<lparr>w_index := fst (index_Add info (w_index W)), w_store := st\<rparr>\<rparr>
      in case repo_Get h prefix rp of (Inl err, rp) \<Rightarrow> StartupError err rp | (Inr w, rp) \<Rightarrow> StartupOK rp)"

definition openStartupSegment :: "hash \<Rightarrow> gotime \<Rightarrow> bool \<Rightarrow> string \<Rightarrow> repository \<Rightarrow> startup" where
  "openStartupSegment h now rm path rp =
     (if \<not> IsSegment path (w_store (rp_world rp)) then StartupOK (if rm then set_disk path None rp else rp)
      else case repo_open path rp of
        None \<Rightarrow> StartupPanic
      | Some rp \<Rightarrow>
          let p = ParseFilename (filepath_Base path)
          in if pn_err p \<noteq> None then StartupOK rp
             else case ParseFlakeID (pn_epoch p) of
               None \<Rightarrow> StartupOK rp
             | Some created \<Rightarrow>
                 (case disk (w_store (rp_world rp)) path of
                    None \<Rightarrow> StartupOK rp
                  | Some f \<Rightarrow>
                      if length f = 8 then StartupOK (if rm then set_disk path None rp else rp)
                      else startup_index h now path (startup_prefix p) (pn_epoch p) created (int (length f)) rp))"

fun openStartupSegments :: "hash \<Rightarrow> gotime \<Rightarrow> bool \<Rightarrow> string list \<Rightarrow> repository \<Rightarrow> startup" where
  "openStartupSegments h now rm [] rp = StartupOK rp"
| "openStartupSegments h now rm (path # paths) rp =
     (case openStartupSegment h now rm path rp of
        StartupOK rp \<Rightarrow> openStartupSegments h now rm paths rp
      | StartupError err rp \<Rightarrow> StartupError err rp
      | StartupPanic \<Rightarrow> StartupPanic)"

text \<open>The files of the directory that \<open>Open\<close> passes on.\<close>

definition wal_paths :: "string \<Rightarrow> (string \<times> bool) list \<Rightarrow> string list" where
  "wal_paths dir ds =
     map (\<lambda>(n, d). filepath_Join dir n) (filter (\<lambda>(n, d). \<not> d \<and> filepath_Ext (filepath_Join dir n) = ''.wal'') ds)"

section \<open>Properties\<close>

text \<open>
  One limit. The disk usage at which a log refuses writes on its own is the limit the admission controller
  applies to the log's destination, when both are configured alike: queued tables leave the
  realtime reservation free, realtime tables do not. The limit is positive and at most the instance limit when there is one.
\<close>

lemma wal_limit_is_global_limit:
  assumes "CHR ''/'' \<notin> set prefix" and "DestinationFromPrefix prefix = (d, None)"
    and "Bytes (Global ao) = ROMaxDiskUsage ro" "RealtimeReservedBytes ao = RealtimeReservedDiskBytes ro" "Policy ao = RPolicy ro"
  shows "MaxDiskUsage (walOpts ro prefix) = globalBytesLimit ao d \<and>
    (HasRealtime (RPolicy ro) \<longrightarrow> WPriority (walOpts ro prefix) = Priority (RPolicy ro) (Database d) (Table d)) \<and>
    (0 < ROMaxDiskUsage ro \<longrightarrow> 0 < MaxDiskUsage (walOpts ro prefix) \<and> MaxDiskUsage (walOpts ro prefix) \<le> ROMaxDiskUsage ro)"
proof -
  have "ParsePrefix prefix = Inr (Database d, Table d)"
    using ParsePrefix_eq [OF assms(1)] assms(2) by simp
  then show ?thesis
    using assms by (auto simp: walOpts_def repo_MaxDiskUsage_def repo_priority_def globalBytesLimit_def Let_def)
qed

text \<open>A repository with one realtime table and a reservation of a tenth of its disk.\<close>

definition demo_repo_opts :: repository_opts where
  "demo_repo_opts = \<lparr>RStorageDir = ''/wal'', ROSegmentMaxSize = 1000, ROSegmentMaxAge = 0, ROMaxDiskUsage = 100,
     RPolicy = (case New [\<lparr>TDatabase = ''Logs'', TTable = ''Hot''\<rparr>] of Inr p \<Rightarrow> Some p | Inl _ \<Rightarrow> None),
     Realtime = \<lparr>RSegmentMaxAge = 0, RSegmentMaxSize = 0\<rparr>, RealtimeReservedDiskBytes = 10\<rparr>"

lemma startup_prefix_name:
  "segment_fileName (startup_prefix \<lparr>pn_database = database, pn_table = table, pn_schema = schema, pn_epoch = e, pn_err = x\<rparr>) epoch =
     Filename database table schema epoch"
  by (simp add: segment_fileName_def startup_prefix_def Filename_def Let_def)

lemma startup_destination:
  assumes "database \<noteq> []" "table \<noteq> []" and "\<forall>s \<in> {database, table, schema}. CHR ''_'' \<notin> set s \<and> CHR ''/'' \<notin> set s"
  shows "DestinationFromPrefix (startup_prefix \<lparr>pn_database = database, pn_table = table, pn_schema = schema, pn_epoch = e, pn_err = x\<rparr>) =
    (\<lparr>Database = database, Table = table\<rparr>, None)"
proof -
  have "startup_prefix \<lparr>pn_database = database, pn_table = table, pn_schema = schema, pn_epoch = e, pn_err = x\<rparr> @ ''_0.wal'' =
      Filename database table schema ''0''"
    by (simp add: startup_prefix_def Filename_def Let_def)
  then show ?thesis
    using ParseFilename_parts [of database table "''0''" schema "[]"] assms
    by (simp add: DestinationFromPrefix_def DestinationFromFilename_def)
qed

lemma Restore_booked:
  "booked (Some d) path (st\<lparr>budgets := map_option (Restore now path d n) (budgets st)\<rparr>) =
     map_option (\<lambda>a. if files_of a d path = None then n else file_bytes (files_of a d) path) (budgets st)"
proof (cases "budgets st")
  case (Some a)
  obtain t a' where t: "admission_Table d a = (t, a')" by fastforce
  note A = admission_Table_eq [OF t]
  have "files t = files_of a d" using A by (metis accounts_of_def files_of_def option.simps(5) prod.inject)
  moreover have "files_of a' d = files_of a d" using A by (simp add: accounts_of_def)
  ultimately show ?thesis
    using Some t by (auto simp: booked_def Restore_def files_of_def file_bytes_def)
qed (simp add: booked_def)

lemma repo_open_named:
  assumes "path = filepath_Join dir (segment_fileName prefix epoch)" and "CHR ''/'' \<notin> set prefix" "CHR ''/'' \<notin> set epoch"
      "CHR ''_'' \<notin> set epoch" and "ParseFlakeID epoch = Some created" and "disk (w_store (rp_world rp)) path = Some f" "8 \<le> length f"
      "take 6 f = take 6 segmentMagic"
  shows "repo_open path rp = Some (set_disk path (Some (Repair_bytes f)) rp)"
  by (simp add: repo_open_def Open_named [OF assms] segment_Close_def flush_writer_def set_disk_def Let_def)

lemma repo_Get_new:
  assumes "rp_wals rp \<noteq> []" and "RStorageDir (rp_opts rp) \<noteq> []"
  shows "\<exists>w rp'. repo_Get h key rp = (Inr w, rp') \<and> rp_world rp' = rp_world rp \<and> rp_opts rp' = rp_opts rp \<and> rp_wals rp' \<noteq> [] \<and>
    map_Get h key (rp_wals rp') = Some w \<and>
    (map_Get h key (rp_wals rp) = None \<longrightarrow> w_opts w = walOpts (rp_opts rp) key \<and> w_segment w = None)"
proof -
  obtain w0 where n: "newWAL rp key = Inr w0" "w_opts w0 = walOpts (rp_opts rp) key" "w_segment w0 = None"
    using assms(2) by (auto simp: newWAL_def NewWAL_def walOpts_def Let_def)
  obtain r m where g: "map_GetOrCreate h key (newWAL rp key) (rp_wals rp) = (r, m)" by fastforce
  have "m \<noteq> []" using at_partition_nonempty [OF assms(1)] g by (metis map_GetOrCreate_def snd_conv)
  moreover have "r = (case map_Get h key (rp_wals rp) of Some v \<Rightarrow> Inr v | None \<Rightarrow> Inr w0)"
    using GetOrCreate_result [of h key "newWAL rp key" "rp_wals rp"] g n by (cases "map_Get h key (rp_wals rp)") simp_all
  moreover have "map_Get h key m = (case map_Get h key (rp_wals rp) of None \<Rightarrow> Some w0 | Some v \<Rightarrow> Some v)"
    using GetOrCreate_Get [OF assms(1), of h key key "newWAL rp key"] g n by (auto split: option.splits)
  ultimately show ?thesis
    using g n by (cases "map_Get h key (rp_wals rp)") (auto simp: repo_Get_def)
qed

lemma startup_index_ok:
  assumes "DestinationFromPrefix prefix = (d, None)" and "rp_wals rp \<noteq> []" "RStorageDir (rp_opts rp) \<noteq> []"
  shows "\<exists>rp'. startup_index h now path prefix epoch created sz rp = StartupOK rp' \<and>
    disk (w_store (rp_world rp')) = disk (w_store (rp_world rp)) \<and>
    index_Get prefix (w_index (rp_world rp')) = index_Get prefix (w_index (rp_world rp)) @
      [\<lparr>Prefix = prefix, Ulid = epoch, Path = path, Size = sz, CreatedAt = created,
        SPriority = repo_priority (rp_opts rp) prefix\<rparr>] \<and>
    (\<forall>a. budgets (w_store (rp_world rp)) = Some a \<and> files_of a d path = None \<longrightarrow>
       booked (Some d) path (w_store (rp_world rp')) = Some sz) \<and>
    (\<exists>w. map_Get h prefix (rp_wals rp') = Some w)"
proof -
  let ?W = "rp_world rp"
  let ?i = "\<lparr>Prefix = prefix, Ulid = epoch, Path = path, Size = sz, CreatedAt = created,
        SPriority = repo_priority (rp_opts rp) prefix\<rparr>"
  let ?st = "(w_store ?W)\<lparr>budgets := map_option (Restore now path d sz) (budgets (w_store ?W))\<rparr>"
  let ?rp = "rp\<lparr>rp_world := ?W\<lparr>w_index := fst (index_Add ?i (w_index ?W)), w_store := ?st\<rparr>\<rparr>"
  have "rp_wals ?rp \<noteq> []" "RStorageDir (rp_opts ?rp) \<noteq> []" using assms by simp_all
  from repo_Get_new [OF this, of h prefix] obtain w rp' where g: "repo_Get h prefix ?rp = (Inr w, rp')" "rp_world rp' = rp_world ?rp"
      "map_Get h prefix (rp_wals rp') = Some w"
    by blast
  have "startup_index h now path prefix epoch created sz rp = StartupOK rp'"
    using g(1) assms(1) by (simp add: startup_index_def Let_def)
  moreover have "index_Get prefix (w_index (rp_world rp')) = index_Get prefix (w_index ?W) @ [?i]"
    by (simp add: g(2) index_Add_def index_Get_def Let_def)
  moreover have "booked (Some d) path (w_store (rp_world rp')) = Some sz"
    if "budgets (w_store ?W) = Some a" "files_of a d path = None" for a
    using that Restore_booked [where d = d and path = path and st = "w_store ?W" and now = now and n = sz] by (simp add: g(2))
  ultimately show ?thesis using g(2,3) by auto
qed

text \<open>
  C31. Recovery at startup. A segment file with a well-formed name that a previous process left in the storage directory
  is repaired. If nothing but the header survives, the file is removed and the index stays as it was. Otherwise
  it is indexed, behind the segments of its table, with the length of the repaired file, the time of its
  identifier and the priority of its table; the admission controller books the same number of bytes;
  and a log for its prefix exists.
\<close>

theorem startup_recovers_segment:
  assumes names: "database \<noteq> []" "table \<noteq> []" "\<forall>s \<in> {database, table, schema, epoch}. CHR ''_'' \<notin> set s \<and> CHR ''/'' \<notin> set s"
    and path: "path = filepath_Join dir (Filename database table schema epoch)" and flake: "ParseFlakeID epoch = Some created"
    and f: "disk (w_store (rp_world rp)) path = Some f" "8 \<le> length f" "take 6 f = take 6 segmentMagic"
    and rp: "rp_wals rp \<noteq> []" "RStorageDir (rp_opts rp) \<noteq> []"
  shows "\<exists>rp'. openStartupSegment h now True path rp = StartupOK rp' \<and>
    (let r = Repair_bytes f; W = rp_world rp; W' = rp_world rp'; d = \<lparr>Database = database, Table = table\<rparr>;
         prefix = database @ ''_'' @ table @ (if schema = [] then [] else ''_'' @ schema)
     in if length r = 8 then disk (w_store W') = (disk (w_store W))(path := None) \<and> w_index W' = w_index W
        else disk (w_store W') = (disk (w_store W))(path \<mapsto> r) \<and>
          index_Get prefix (w_index W') = index_Get prefix (w_index W) @
            [\<lparr>Prefix = prefix, Ulid = epoch, Path = path, Size = int (length r), CreatedAt = created,
              SPriority = repo_priority (rp_opts rp) prefix\<rparr>] \<and>
          (\<forall>a. budgets (w_store W) = Some a \<and> files_of a d path = None \<longrightarrow>
             booked (Some d) path (w_store W') = Some (int (length r))) \<and>
          (\<exists>w. map_Get h prefix (rp_wals rp') = Some w))"
proof -
  define p where "p = \<lparr>pn_database = database, pn_table = table, pn_schema = schema, pn_epoch = epoch, pn_err = None\<rparr>"
  define prefix where "prefix = startup_prefix p"
  define rp1 where "rp1 = set_disk path (Some (Repair_bytes f)) rp"
  have prefix: "prefix = database @ ''_'' @ table @ (if schema = [] then [] else ''_'' @ schema)"
    by (simp add: prefix_def p_def startup_prefix_def Let_def)
  have named: "path = filepath_Join dir (segment_fileName prefix epoch)"
    using startup_prefix_name path by (simp add: prefix_def p_def)
  have slash: "CHR ''/'' \<notin> set prefix" "CHR ''/'' \<notin> set epoch" "CHR ''_'' \<notin> set epoch" using names(3) prefix by auto
  have ep: "epoch \<noteq> []" using flake by (auto simp: ParseFlakeID_def ParseInt16_def)
  have base: "filepath_Base path = Filename database table schema epoch"
    using filepath_Base_dir [of "Filename database table schema epoch" "dir @ ''/''"] names(3)
    by (auto simp: path filepath_Join_def Filename_def)
  have parse: "ParseFilename (filepath_Base path) = p"
    using ParseFilename_parts [OF names(1,2) ep names(3), of "[]"] by (simp add: base p_def)
  have seg: "IsSegment path (w_store (rp_world rp))"
    using f filepath_Ext_wal [of "dir @ ''/'' @ prefix @ ''_'' @ epoch"] named
    by (simp add: IsSegment_def filepath_Join_def segment_fileName_def)
  have opn: "repo_open path rp = Some rp1"
    unfolding rp1_def by (rule repo_open_named [OF named slash flake f])
  have disk1: "disk (w_store (rp_world rp1)) = (disk (w_store (rp_world rp)))(path \<mapsto> Repair_bytes f)"
      "w_index (rp_world rp1) = w_index (rp_world rp)" "budgets (w_store (rp_world rp1)) = budgets (w_store (rp_world rp))"
      "rp_wals rp1 = rp_wals rp" "rp_opts rp1 = rp_opts rp"
    by (simp_all add: rp1_def set_disk_def Let_def)
  have run: "openStartupSegment h now True path rp =
      (if length (Repair_bytes f) = 8 then StartupOK (set_disk path None rp1)
       else startup_index h now path prefix epoch created (int (length (Repair_bytes f))) rp1)"
    using seg opn parse flake disk1(1) by (simp add: openStartupSegment_def Let_def p_def prefix_def)
  show ?thesis
  proof (cases "length (Repair_bytes f) = 8")
    case True
    then show ?thesis using run disk1 by (simp add: set_disk_def Let_def)
  next
    case False
    have d: "DestinationFromPrefix prefix = (\<lparr>Database = database, Table = table\<rparr>, None)"
      using startup_destination [OF names(1,2)] names(3) by (simp add: prefix_def p_def)
    have "rp_wals rp1 \<noteq> []" "RStorageDir (rp_opts rp1) \<noteq> []" using rp disk1 by simp_all
    from startup_index_ok [OF d this, of h now path epoch created "int (length (Repair_bytes f))"] show ?thesis
      unfolding run Let_def prefix [symmetric] using False disk1 by auto
  qed
qed


theorem startup_recovers_segment_witness:
  "\<exists>rp'. openStartupSegment (\<lambda>_. 0) 5 True ''/wal/DB_T_1.wal''
      (NewRepository demo_repo_opts \<lparr>disk = [''/wal/DB_T_1.wal'' \<mapsto> segmentMagic @ [1, 2, 3]], budgets = None\<rparr>) = StartupOK rp' \<and>
     disk (w_store (rp_world rp')) ''/wal/DB_T_1.wal'' = None"
proof -
  let ?rp = "NewRepository demo_repo_opts \<lparr>disk = [''/wal/DB_T_1.wal'' \<mapsto> segmentMagic @ [1, 2, 3]], budgets = None\<rparr>"
  obtain created where fl: "ParseFlakeID ''1'' = Some created" by (simp add: ParseFlakeID_def ParseInt16_def hex_digit_def Let_def)
  have path: "''/wal/DB_T_1.wal'' = filepath_Join ''/wal'' (Filename ''DB'' ''T'' [] ''1'')"
    by (simp add: filepath_Join_def Filename_def)
  have names: "''DB'' \<noteq> []" "''T'' \<noteq> []" "\<forall>s \<in> {''DB'', ''T'', [], ''1''}. CHR ''_'' \<notin> set s \<and> CHR ''/'' \<notin> set s" by simp_all
  have "disk (w_store (rp_world ?rp)) ''/wal/DB_T_1.wal'' = Some (segmentMagic @ [1, 2, 3])" "rp_wals ?rp \<noteq> []" "RStorageDir (rp_opts ?rp) \<noteq> []"
    by (simp_all add: NewRepository_def NewMap_def demo_repo_opts_def)
  moreover have "length (Repair_bytes (segmentMagic @ [1, 2, 3])) = 8" by code_simp
  ultimately show ?thesis
    using startup_recovers_segment [OF names path fl, of ?rp "segmentMagic @ [1, 2, 3]" "\<lambda>_. 0" 5] by (auto simp: Let_def)
qed

end
