(* ===== verification/Rendezvous.thy ===== *)
theory Rendezvous
  imports WalNames "HOL-Library.Product_Lexorder"
begin

text \<open>
  Placement of work on the nodes of a cluster, \<open>ingestor/cluster/rendezvous.go\<close>, \<open>partition.go\<close> and \<open>backoff.go\<close>: the owner of a key by
  highest-random-weight hashing, the partitioner over the nodes of a cluster, the number of workers kept for queued
  batches (\<open>priority_queue.go\<close>), and the back-off of destinations on a peer.

  The hash \<open>xxhash.Sum64\<close> is third-party code and is the argument \<open>h\<close>; nothing is assumed of it. The nodes are
  those the map of a partitioner has, each once.
\<close>

section \<open>Highest random weight\<close>

type_synonym hash64 = "string \<Rightarrow> 64 word"

definition node_hash :: "hash64 \<Rightarrow> string \<Rightarrow> string \<Rightarrow> 64 word" where
  "node_hash h node key = h (key @ node)"

text \<open>The loop of \<open>Get\<close>, with its running maximum; \<open>bytes.Compare\<close> is the order of strings.\<close>

fun get_loop :: "hash64 \<Rightarrow> string \<Rightarrow> string list \<Rightarrow> 64 word \<Rightarrow> string \<Rightarrow> string" where
  "get_loop h key [] maxScore maxNode = maxNode"
| "get_loop h key (node # nodes) maxScore maxNode =
     (let score = node_hash h node key
      in if score > maxScore \<or> (score = maxScore \<and> node < maxNode) then get_loop h key nodes score node
         else get_loop h key nodes maxScore maxNode)"

definition hash_Get :: "hash64 \<Rightarrow> string list \<Rightarrow> string \<Rightarrow> string" where
  "hash_Get h nodes key = get_loop h key nodes 0 []"

definition hash_Add :: "string list \<Rightarrow> string list \<Rightarrow> string list" where
  "hash_Add new nodes = nodes @ new"

text \<open>\<open>GetN\<close>: the nodes by descending score, equal scores by name.\<close>

definition hash_GetN :: "hash64 \<Rightarrow> string list \<Rightarrow> nat \<Rightarrow> string \<Rightarrow> string list" where
  "hash_GetN h nodes n key = take n (sort_key (\<lambda>node. (2 ^ 64 - uint (node_hash h node key), node)) nodes)"

section \<open>The partitioner\<close>

record partitioner =
  pt_nodes :: "string list"
  pt_addrs :: "string \<rightharpoonup> string"

text \<open>\<open>NewPartition\<close>; \<open>ks\<close> is the order in which Go visits the map.\<close>

definition NewPartition :: "string list \<Rightarrow> (string \<rightharpoonup> string) \<Rightarrow> partitioner" where
  "NewPartition ks nodes = \<lparr>pt_nodes = hash_Add (sort ks) [], pt_addrs = nodes\<rparr>"

definition Owner :: "hash64 \<Rightarrow> string \<Rightarrow> partitioner \<Rightarrow> string \<times> string" where
  "Owner h b p =
     (let v = hash_Get h (pt_nodes p) b
      in if v = [] then ([], []) else (v, case pt_addrs p v of Some a \<Rightarrow> a | None \<Rightarrow> []))"

section \<open>Reserved workers\<close>

text \<open>Go's integer division truncates; the dividend is not negative here.\<close>

definition ReservedWorkers :: "int \<Rightarrow> int \<Rightarrow> int" where
  "ReservedWorkers n percent =
     (if n \<le> 1 then 0
      else
        let percent = (if percent \<le> 0 then 10 else percent); reserved = (n * percent + 99) div 100
        in max 1 (min reserved (n - 1)))"

section \<open>Back-off\<close>

type_synonym backoff = "(string \<times> destination) \<rightharpoonup> gotime"

text \<open>\<open>deferUntil\<close> drops the deadlines that have passed before it sets one.\<close>

definition deferUntil :: "gotime \<Rightarrow> string \<Rightarrow> destination \<Rightarrow> gotime \<Rightarrow> backoff \<Rightarrow> backoff" where
  "deferUntil now peer d deadline b =
     (\<lambda>k. case b k of Some t \<Rightarrow> if t > now then Some t else None | None \<Rightarrow> None)((peer, d) \<mapsto> deadline)"

definition ready :: "string \<Rightarrow> destination \<Rightarrow> gotime \<Rightarrow> backoff \<Rightarrow> bool \<times> backoff" where
  "ready peer d now b =
     (let deadline = (case b (peer, d) of Some t \<Rightarrow> t | None \<Rightarrow> tzero)
      in if deadline > now then (False, b) else (True, b((peer, d) := None)))"

section \<open>The owner is the best node\<close>

text \<open>A node is better when its score is higher, or equal and its name smaller; the empty name stands for no node.\<close>

definition better :: "hash64 \<Rightarrow> string \<Rightarrow> string \<Rightarrow> string \<Rightarrow> bool" where
  "better h key a b \<longleftrightarrow> node_hash h a key > node_hash h b key \<or> (node_hash h a key = node_hash h b key \<and> a \<le> b)"

text \<open>What the loop has found among the nodes \<open>N\<close>: nothing but zero scores, or the best node.\<close>

definition found :: "hash64 \<Rightarrow> string \<Rightarrow> string set \<Rightarrow> 64 word \<Rightarrow> string \<Rightarrow> bool" where
  "found h key N m x \<longleftrightarrow>
     m = 0 \<and> x = [] \<and> (\<forall>n \<in> N. node_hash h n key = 0) \<or>
     m > 0 \<and> m = node_hash h x key \<and> x \<in> N \<and> (\<forall>n \<in> N. better h key x n)"

lemma better_antisym: "better h key a b \<Longrightarrow> better h key b a \<Longrightarrow> a = b"
  by (auto simp: better_def)

lemma better_trans: "better h key a b \<Longrightarrow> better h key b c \<Longrightarrow> better h key a c"
  by (auto simp: better_def)

lemma better_total: "better h key a b \<or> better h key b a"
  by (auto simp: better_def)

lemma found_step:
  assumes f: "found h key N m x"
  shows "if node_hash h n key > m \<or> (node_hash h n key = m \<and> n < x) then found h key (insert n N) (node_hash h n key) n
    else found h key (insert n N) m x"
proof -
  consider (none) "m = 0" "x = []" "\<forall>k \<in> N. node_hash h k key = 0" | (some) "m > 0" "m = node_hash h x key" "x \<in> N" "\<forall>k \<in> N. better h key x k"
    using f by (auto simp: found_def)
  then show ?thesis
  proof cases
    case none
    then show ?thesis by (auto simp: found_def better_def word_gt_0)
  next
    case some
    show ?thesis
    proof (cases "node_hash h n key > m \<or> (node_hash h n key = m \<and> n < x)")
      case True
      then have nx: "better h key n x" "node_hash h n key > 0" using some(1,2) by (auto simp: better_def word_gt_0)
      then have "\<forall>k \<in> insert n N. better h key n k" using some(4) better_trans [OF nx(1)] by (auto simp: better_def)
      then show ?thesis using True nx(2) by (simp add: found_def)
    next
      case False
      then have "better h key x n" using some(2) by (auto simp: better_def)
      then show ?thesis using False some by (auto simp: found_def)
    qed
  qed
qed

lemma get_loop_found: "found h key N m x \<Longrightarrow> \<exists>m'. found h key (N \<union> set nodes) m' (get_loop h key nodes m x)"
proof (induction nodes arbitrary: N m x)
  case Nil
  then show ?case by auto
next
  case (Cons n nodes)
  show ?case
  proof (cases "node_hash h n key > m \<or> (node_hash h n key = m \<and> n < x)")
    case True
    then have "found h key (insert n N) (node_hash h n key) n" using found_step [OF Cons.prems, of n] by simp
    from Cons.IH [OF this] True show ?thesis by (simp add: Let_def)
  next
    case False
    then have "found h key (insert n N) m x" using found_step [OF Cons.prems, of n] by (simp del: not_less)
    from Cons.IH [OF this] False show ?thesis by (auto simp: Let_def)
  qed
qed

lemma hash_Get_found: "\<exists>m. found h key (set nodes) m (hash_Get h nodes key)"
  using get_loop_found [of h key "{}" 0 "[]" nodes] by (simp add: hash_Get_def found_def)

lemma found_unique:
  assumes "found h key N m x" "found h key N m' x'"
  shows "x = x'"
  using assms better_antisym by (fastforce simp: found_def)

text \<open>The owner depends on the set of nodes only.\<close>

lemma hash_Get_set: "set nodes = set nodes' \<Longrightarrow> hash_Get h nodes key = hash_Get h nodes' key"
  using hash_Get_found found_unique by metis

text \<open>Adding a node moves a key to that node or not at all.\<close>

lemma found_insert:
  assumes "found h key N m x" "found h key (insert n N) m' x'"
  shows "x' = x \<or> x' = n"
proof -
  have "found h key (insert n N) (node_hash h n key) n \<or> found h key (insert n N) m x"
    using found_step [OF assms(1), of n] by (auto split: if_splits)
  then show ?thesis using found_unique assms(2) by blast
qed

lemma NewPartition_set: "iterates ks nodes \<Longrightarrow> set (pt_nodes (NewPartition ks nodes)) = dom nodes"
  by (simp add: NewPartition_def hash_Add_def iterates_def)

lemma Owner_fst: "fst (Owner h b p) = hash_Get h (pt_nodes p) b"
  by (simp add: Owner_def Let_def)

section \<open>Properties\<close>

text \<open>
  C32. Placement is stable. The owner of a key does not depend on the order in which the nodes are
  listed, so that all ingestors of a cluster agree; it is a node of the cluster, with that node's address, that no node beats; a
  node that joins takes keys only for itself, and so a node that leaves gives up only its own keys.
  The node is missing only if every score is zero.
\<close>

theorem Owner_stable:
  assumes "iterates ks nodes" and "iterates ks' nodes" and "[] \<notin> dom nodes" and "iterates ls (nodes(n \<mapsto> a))"
  shows "let (v, addr) = Owner h key (NewPartition ks nodes); v' = fst (Owner h key (NewPartition ls (nodes(n \<mapsto> a))))
    in fst (Owner h key (NewPartition ks' nodes)) = v \<and> (v' = v \<or> v' = n) \<and>
       (if v = [] then \<forall>k \<in> dom nodes. node_hash h k key = 0
        else nodes v = Some addr \<and> (\<forall>k \<in> dom nodes. better h key v k))"
proof -
  let ?v = "hash_Get h (pt_nodes (NewPartition ks nodes)) key"
  let ?v' = "hash_Get h (pt_nodes (NewPartition ls (nodes(n \<mapsto> a)))) key"
  obtain m where f: "found h key (dom nodes) m ?v"
    using hash_Get_found NewPartition_set [OF assms(1)] by metis
  obtain m' where f': "found h key (insert n (dom nodes)) m' ?v'"
    using hash_Get_found [of h key "pt_nodes (NewPartition ls (nodes(n \<mapsto> a)))"] NewPartition_set [OF assms(4)] by auto
  have same: "hash_Get h (pt_nodes (NewPartition ks' nodes)) key = ?v"
    using NewPartition_set [OF assms(1)] NewPartition_set [OF assms(2)] by (intro hash_Get_set) simp
  have best: "if ?v = [] then \<forall>k \<in> dom nodes. node_hash h k key = 0
      else nodes ?v = Some (snd (Owner h key (NewPartition ks nodes))) \<and> (\<forall>k \<in> dom nodes. better h key ?v k)"
    using f assms(3) by (auto simp: found_def Owner_def Let_def NewPartition_def split: option.splits)
  show ?thesis
    using same best found_insert [OF f f'] by (simp add: Owner_fst Let_def case_prod_beta)
qed

theorem Owner_stable_witness:
  "let nodes = [''a'' \<mapsto> ''10.0.0.1'', ''b'' \<mapsto> ''10.0.0.2'']; h = (\<lambda>s. of_nat (length s))
   in fst (Owner h ''k'' (NewPartition [''a'', ''b''] nodes)) = fst (Owner h ''k'' (NewPartition [''b'', ''a''] nodes)) \<and>
      Owner h ''k'' (NewPartition [''a'', ''b''] nodes) = (''a'', ''10.0.0.1'')"
proof -
  let ?nodes = "[''a'' \<mapsto> ''10.0.0.1'', ''b'' \<mapsto> ''10.0.0.2'']" and ?h = "\<lambda>s :: string. of_nat (length s) :: 64 word"
  have "iterates [''a'', ''b''] ?nodes" "iterates [''b'', ''a''] ?nodes" "[] \<notin> dom ?nodes"
      "iterates [''a'', ''b'', ''c''] (?nodes(''c'' \<mapsto> ''10.0.0.3''))"
    by (auto simp: iterates_def)
  from Owner_stable [OF this, of ?h "''k''"]
  have "fst (Owner ?h ''k'' (NewPartition [''a'', ''b''] ?nodes)) = fst (Owner ?h ''k'' (NewPartition [''b'', ''a''] ?nodes))"
    by (auto simp: Let_def case_prod_beta)
  moreover have "Owner ?h ''k'' (NewPartition [''a'', ''b''] ?nodes) = (''a'', ''10.0.0.1'')" by code_simp
  ultimately show ?thesis by (simp add: Let_def)
qed

text \<open>
  Dropping passed deadlines is invisible: whatever was deferred before, a destination on a peer is ready at a time \<open>t\<close> not
  before \<open>now\<close> exactly when its own last deadline has come, and asking about one key changes the answer for no other.
\<close>

lemma backoff_exact:
  assumes "now \<le> t" and "tzero < now"
  shows "(fst (ready q e t (deferUntil now peer d deadline b)) \<longleftrightarrow>
      (if (q, e) = (peer, d) then deadline \<le> t else fst (ready q e t b))) \<and>
    (fst (ready q e t (snd (ready q' e' t' b))) \<longleftrightarrow> fst (ready q e t b) \<or> (q, e) = (q', e') \<and> fst (ready q' e' t' b))"
  using assms by (auto simp: ready_def deferUntil_def Let_def split: option.splits)

text \<open>A pool of at least two workers keeps one of each kind.\<close>

lemma ReservedWorkers_bounds: "2 \<le> n \<Longrightarrow> 1 \<le> ReservedWorkers n percent \<and> ReservedWorkers n percent \<le> n - 1"
  by (simp add: ReservedWorkers_def Let_def)

end
