(* ===== verification/Batcher.thy ===== *)
theory Batcher
  imports WalIndex PartMap Rendezvous
begin

text \<open>
  Grouping closed segments into batches, \<open>ingestor/cluster/batcher.go\<close>: the claims that keep a segment in at most one batch, the
  splitting of a prefix into batches to upload and one batch to transfer, the periodic scan, the cap per table, and
  the release and removal of batches.

  The index is reached through the interface \<open>Segmenter\<close>: \<open>get\<close> and \<open>byAge\<close> are its \<open>Get\<close> and \<open>PrefixesByAge\<close>. \<open>owner\<close> and
  \<open>healthy\<close> are the partitioner and the health reporter, \<open>now\<close> is the clock and \<open>h\<close> the hash of the claims map. Sizes are sums of
  file sizes and do not overflow. Metrics and channel capacities are not modelled.
\<close>

section \<open>State\<close>

record batch =
  Segs :: "segment_info list"
  BDatabase :: string
  BTable :: string
  BPrefix :: string
  BPriority :: priority
  released :: bool
  removed :: bool
  retryDelay :: duration
  completion :: "destination option"

record batcher =
  maxTransferAge :: duration
  maxTransferSize :: int
  minUploadSize :: int
  maxBatchSegments :: nat
  maxTableBatches :: int
  hostname :: string
  transferDisabled :: bool
  has_realtime :: bool
  has_queued :: bool

type_synonym claims = "int partmap"

text \<open>\<open>NewBatcher\<close>: the defaults of the options.\<close>

definition NewBatcher :: "int \<Rightarrow> int \<Rightarrow> int \<Rightarrow> duration \<Rightarrow> int \<Rightarrow> string \<Rightarrow> bool \<Rightarrow> bool \<Rightarrow> bool \<Rightarrow> batcher" where
  "NewBatcher minUpload maxSegs tableBatches transferAge transferSize host disabled rt subscriber =
     \<lparr>maxTransferAge = transferAge, maxTransferSize = transferSize,
      minUploadSize = (if minUpload = 0 then 100 * 1024 * 1024 else minUpload),
      maxBatchSegments = (if maxSegs > 0 then nat maxSegs else 25), maxTableBatches = max 2 tableBatches,
      hostname = host, transferDisabled = disabled, has_realtime = subscriber \<and> rt, has_queued = subscriber\<rparr>"

section \<open>Claims\<close>

definition IsBatched :: "hash \<Rightarrow> claims \<Rightarrow> string \<Rightarrow> bool" where
  "IsBatched h m path = ((case map_Get h path m of Some n \<Rightarrow> n | None \<Rightarrow> 0) > 0)"

definition claim :: "hash \<Rightarrow> segment_info \<Rightarrow> claims \<Rightarrow> claims" where
  "claim h si m = snd (map_Mutate h 0 (Path si) (Some (\<lambda>n. Inr (n + 1) :: unit + int)) m)"

definition batcher_Release :: "hash \<Rightarrow> batch \<Rightarrow> claims \<Rightarrow> claims" where
  "batcher_Release h b m = fold (\<lambda>si m. snd (map_Delete h (Path si) m)) (Segs b) m"

text \<open>The event batcher that is told about a released prefix, if there is one: \<open>True\<close> is the realtime one.\<close>

definition released_to :: "batcher \<Rightarrow> batch \<Rightarrow> bool option" where
  "released_to bc b =
     (if removed b then None
      else if has_realtime bc \<and> BPriority b = PriorityRealtime then Some True
      else if has_queued bc then Some False else None)"

text \<open>\<open>Batch.Release\<close> acts once; the last component is the completion that is called.\<close>

definition batch_Release :: "hash \<Rightarrow> batch \<Rightarrow> claims \<Rightarrow> batch \<times> claims \<times> (destination \<times> duration) option" where
  "batch_Release h b m =
     (if released b then (b, m, None)
      else (b\<lparr>released := True\<rparr>, batcher_Release h b m, map_option (\<lambda>d. (d, retryDelay b)) (completion b)))"

definition RetryAfter :: "duration \<Rightarrow> batch \<Rightarrow> batch" where
  "RetryAfter delay b = b\<lparr>retryDelay := delay\<rparr>"

text \<open>
  \<open>Remove\<close>: a file that cannot be removed stays in the index; \<open>refused\<close> are the paths the system refuses to remove. The queued
  event batcher is told too: that is \<open>eb_removed\<close> in the step \<open>Remove\<close> of theory \<open>EventBatcher\<close>.
\<close>

fun remove_all :: "(string \<Rightarrow> bool) \<Rightarrow> segment_info list \<Rightarrow> (string \<rightharpoonup> bytes) \<times> index \<times> admission option \<Rightarrow>
    (string \<rightharpoonup> bytes) \<times> index \<times> admission option"
where
  "remove_all refused [] (fs, ix, ao) = (fs, ix, ao)"
| "remove_all refused (si # sis) (fs, ix, ao) =
     (if fs (Path si) \<noteq> None \<and> refused (Path si) then remove_all refused sis (fs, ix, ao)
      else case index_Remove si ix ao of (ix', ao') \<Rightarrow> remove_all refused sis (fs(Path si := None), ix', ao'))"

type_synonym removal = "(string \<rightharpoonup> bytes) \<times> index \<times> admission option"

definition batcher_Remove :: "(string \<Rightarrow> bool) \<Rightarrow> batch \<Rightarrow> removal \<Rightarrow> removal" where
  "batcher_Remove refused b w = remove_all refused (Segs b) w"

definition batch_Remove :: "(string \<Rightarrow> bool) \<Rightarrow> batch \<Rightarrow> removal \<Rightarrow> batch \<times> removal" where
  "batch_Remove refused b w = (b\<lparr>removed := True\<rparr>, batcher_Remove refused b w)"

section \<open>Splitting a prefix\<close>

definition new_batch :: "string \<Rightarrow> string \<Rightarrow> string \<Rightarrow> priority \<Rightarrow> segment_info list \<Rightarrow> batch" where
  "new_batch prefix db table p segs =
     \<lparr>Segs = segs, BDatabase = db, BTable = table, BPrefix = prefix, BPriority = p, released = False, removed = False,
      retryDelay = 0, completion = None\<rparr>"

text \<open>Whether the batch \<open>segs\<close>, with \<open>si\<close> appended last, is cut and uploaded directly.\<close>

definition cut_batch :: "batcher \<Rightarrow> gotime \<Rightarrow> segment_info list \<Rightarrow> int \<Rightarrow> segment_info \<Rightarrow> bool" where
  "cut_batch bc now segs batchSize si \<longleftrightarrow>
     length segs \<ge> maxBatchSegments bc \<or>
     (minUploadSize bc > 0 \<and> batchSize \<ge> minUploadSize bc) \<or>
     (maxTransferSize bc > 0 \<and> batchSize \<ge> maxTransferSize bc) \<or>
     (maxTransferAge bc > 0 \<and> now - CreatedAt si > maxTransferAge bc)"

fun split_loop ::
  "hash \<Rightarrow> batcher \<Rightarrow> gotime \<Rightarrow> segment_info list \<Rightarrow> segment_info list \<Rightarrow> int \<Rightarrow> segment_info list list \<Rightarrow> claims \<Rightarrow>
   segment_info list list \<times> segment_info list \<times> claims"
where
  "split_loop h bc now [] cur batchSize owned m = (owned, cur, m)"
| "split_loop h bc now (si # sis) cur batchSize owned m =
     (let cur = cur @ [si]; batchSize = batchSize + Size si; m = claim h si m
      in if cut_batch bc now cur batchSize si then split_loop h bc now sis [] 0 (owned @ [cur]) m
         else split_loop h bc now sis cur batchSize owned m)"

definition splitPrefix ::
  "hash \<Rightarrow> batcher \<Rightarrow> (string \<Rightarrow> string) \<Rightarrow> (string \<Rightarrow> bool) \<Rightarrow> gotime \<Rightarrow> string \<Rightarrow> segment_info list \<Rightarrow> claims \<Rightarrow>
   batch list \<times> batch list \<times> claims"
where
  "splitPrefix h bc owner healthy now prefix v m =
     (case sort_key Path v of
        [] \<Rightarrow> ([], [], m)
      | s # ss \<Rightarrow>
          let p = ParseFilename (Path s)
          in if pn_err p \<noteq> None then ([], [], m)
             else
               let mk = new_batch prefix (pn_database p) (pn_table p) (SPriority s);
                   (owned, cur, m) = split_loop h bc now (s # ss) [] 0 [] m
               in if cur = [] then (map mk owned, [], m)
                  else if owner prefix = hostname bc \<or> \<not> healthy (owner prefix) \<or> transferDisabled bc \<or> SPriority s = PriorityRealtime
                  then (map mk (owned @ [cur]), [], m)
                  else (map mk owned, [mk cur], m))"

section \<open>The periodic scan\<close>

text \<open>
  \<open>math.Round(float64(len(a)) * 0.2)\<close> is the nearest integer to a fifth of the length, which is never halfway
  between two.
\<close>

definition prioritizeOldest :: "string list \<Rightarrow> string list" where
  "prioritizeOldest a = (let idx = length a - (2 * length a + 5) div 10 in rev (drop idx a) @ take idx a)"

definition unbatched :: "hash \<Rightarrow> claims \<Rightarrow> segment_info list \<Rightarrow> segment_info list" where
  "unbatched h m segs = filter (\<lambda>si. \<not> IsBatched h m (Path si)) segs"

fun group_loop ::
  "hash \<Rightarrow> batcher \<Rightarrow> (string \<Rightarrow> segment_info list) \<Rightarrow> claims \<Rightarrow> string list \<Rightarrow> (string \<Rightarrow> segment_info list) \<Rightarrow> string \<Rightarrow> segment_info list"
where
  "group_loop h bc get m [] groups = groups"
| "group_loop h bc get m (prefix # ps) groups =
     (let tempSet = unbatched h m (get prefix)
      in if tempSet = [] \<or> (has_realtime bc \<and> SPriority (hd tempSet) = PriorityRealtime) then group_loop h bc get m ps groups
         else group_loop h bc get m ps (groups(prefix := groups prefix @ tempSet)))"

fun split_all ::
  "hash \<Rightarrow> batcher \<Rightarrow> (string \<Rightarrow> string) \<Rightarrow> (string \<Rightarrow> bool) \<Rightarrow> gotime \<Rightarrow> (string \<Rightarrow> segment_info list) \<Rightarrow> string list \<Rightarrow> claims \<Rightarrow>
   batch list \<times> batch list \<times> claims"
where
  "split_all h bc owner healthy now groups [] m = ([], [], m)"
| "split_all h bc owner healthy now groups (prefix # ps) m =
     (case splitPrefix h bc owner healthy now prefix (groups prefix) m of (ow, n, m) \<Rightarrow>
      case split_all h bc owner healthy now groups ps m of (ow', n', m) \<Rightarrow> (ow @ ow', n @ n', m))"

definition processSegments ::
  "hash \<Rightarrow> batcher \<Rightarrow> (string \<Rightarrow> string) \<Rightarrow> (string \<Rightarrow> bool) \<Rightarrow> gotime \<Rightarrow> (string \<Rightarrow> segment_info list) \<Rightarrow> string list \<Rightarrow> claims \<Rightarrow>
   batch list \<times> batch list \<times> claims"
where
  "processSegments h bc owner healthy now get byAge m =
     (let ps = prioritizeOldest (rev byAge)
      in split_all h bc owner healthy now (group_loop h bc get m ps (\<lambda>_. [])) ps m)"

text \<open>\<open>boundedBatches\<close>: the batches that stay, and the claims after the others are released.\<close>

fun bounded_loop :: "hash \<Rightarrow> int \<Rightarrow> (destination \<Rightarrow> int) \<Rightarrow> batch list \<Rightarrow> claims \<Rightarrow> batch list \<times> claims" where
  "bounded_loop h limit counts [] m = ([], m)"
| "bounded_loop h limit counts (b # bs) m =
     (let d = \<lparr>Database = BDatabase b, Table = BTable b\<rparr>
      in if counts d \<ge> limit then bounded_loop h limit counts bs (fst (snd (batch_Release h b m)))
         else case bounded_loop h limit (counts(d := counts d + 1)) bs m of (r, m) \<Rightarrow> (b # r, m))"

definition boundedBatches :: "hash \<Rightarrow> batch list \<Rightarrow> int \<Rightarrow> claims \<Rightarrow> batch list \<times> claims" where
  "boundedBatches h batches limit m = (if limit \<le> 0 then (batches, m) else bounded_loop h limit (\<lambda>_. 0) batches m)"

text \<open>\<open>BatchSegments\<close> without event batchers: what is sent, in order; \<open>True\<close> marks a transfer.\<close>

definition send_order :: "batch list \<Rightarrow> batch list \<Rightarrow> (bool \<times> batch) list" where
  "send_order owned notOwned =
     concat (map (\<lambda>p. map (Pair False) (filter (\<lambda>b. BPriority b = p) owned) @ map (Pair True) (filter (\<lambda>b. BPriority b = p) notOwned))
       [PriorityRealtime, PriorityQueued])"

definition BatchSegments ::
  "hash \<Rightarrow> batcher \<Rightarrow> (string \<Rightarrow> string) \<Rightarrow> (string \<Rightarrow> bool) \<Rightarrow> gotime \<Rightarrow> (string \<Rightarrow> segment_info list) \<Rightarrow> string list \<Rightarrow> claims \<Rightarrow>
   (bool \<times> batch) list \<times> claims"
where
  "BatchSegments h bc owner healthy now get byAge m =
     (case processSegments h bc owner healthy now get byAge m of (owned, notOwned, m) \<Rightarrow>
      case boundedBatches h owned (maxTableBatches bc) m of (owned, m) \<Rightarrow>
      case boundedBatches h notOwned (maxTableBatches bc) m of (notOwned, m) \<Rightarrow> (send_order owned notOwned, m))"

section \<open>Claims are counted per path\<close>

definition claimed :: "hash \<Rightarrow> claims \<Rightarrow> string \<Rightarrow> int" where
  "claimed h m path = (case map_Get h path m of Some n \<Rightarrow> n | None \<Rightarrow> 0)"

lemma IsBatched_claimed: "IsBatched h m path \<longleftrightarrow> claimed h m path > 0"
  by (simp add: IsBatched_def claimed_def)

lemma claimed_claim:
  assumes "m \<noteq> []"
  shows "claimed h (claim h si m) p = claimed h m p + (if p = Path si then 1 else 0)" and "claim h si m \<noteq> []"
  using Mutate_Get [OF assms, of h p 0 "Path si" "\<lambda>n. Inr (n + 1) :: unit + int"] at_partition_nonempty [OF assms]
  by (auto simp: claim_def claimed_def map_Mutate_def split: option.splits)

lemma claimed_Delete:
  assumes "m \<noteq> []"
  shows "claimed h (snd (map_Delete h q m)) p = (if p = q then 0 else claimed h m p)" and "snd (map_Delete h q m) \<noteq> []"
  using fun_cong [OF pm.del_get [OF assms, of h q], of p] pm.del_ok [OF assms] by (auto simp: claimed_def)

lemma claimed_Release:
  assumes "m \<noteq> []"
  shows "claimed h (batcher_Release h b m) p = (if p \<in> Path ` set (Segs b) then 0 else claimed h m p) \<and> batcher_Release h b m \<noteq> []"
proof -
  have "claimed h (fold (\<lambda>si m. snd (map_Delete h (Path si) m)) ss m) p = (if p \<in> Path ` set ss then 0 else claimed h m p) \<and>
      fold (\<lambda>si m. snd (map_Delete h (Path si) m)) ss m \<noteq> []" for ss
    using assms by (induction ss arbitrary: m) (auto simp: claimed_Delete)
  then show ?thesis unfolding batcher_Release_def by blast
qed

section \<open>Splitting loses nothing and claims everything once\<close>

text \<open>The batches that are cut: no longer than the maximum, and below the upload size without their last segment.\<close>

definition batch_ok :: "batcher \<Rightarrow> segment_info list \<Rightarrow> bool" where
  "batch_ok bc segs \<longleftrightarrow> segs \<noteq> [] \<and> length segs \<le> maxBatchSegments bc \<and>
     (minUploadSize bc > 0 \<longrightarrow> size_of (butlast segs) < minUploadSize bc) \<and>
     (maxTransferSize bc > 0 \<longrightarrow> size_of (butlast segs) < maxTransferSize bc)"

text \<open>A batch that is still open.\<close>

definition open_ok :: "batcher \<Rightarrow> segment_info list \<Rightarrow> int \<Rightarrow> bool" where
  "open_ok bc cur sz \<longleftrightarrow> sz = size_of cur \<and> length cur < maxBatchSegments bc \<and>
     (minUploadSize bc > 0 \<longrightarrow> sz < minUploadSize bc) \<and> (maxTransferSize bc > 0 \<longrightarrow> sz < maxTransferSize bc)"

lemma size_of_append: "size_of (a @ b) = size_of a + size_of b"
  by (simp add: size_of_def)

lemma split_loop_ok:
  assumes "split_loop h bc now sis cur sz owned m = (owned', cur', m')" and "open_ok bc cur sz" and "m \<noteq> []" and "0 < maxBatchSegments bc"
    and "list_all (batch_ok bc) owned"
  shows "concat owned' @ cur' = concat owned @ cur @ sis \<and> list_all (batch_ok bc) owned' \<and> open_ok bc cur' (size_of cur') \<and>
    m' \<noteq> [] \<and> (\<forall>p. claimed h m' p = claimed h m p + int (count_list (map Path sis) p))"
  using assms
proof (induction sis arbitrary: cur sz owned m)
  case Nil
  then show ?case by (auto simp: open_ok_def)
next
  case (Cons si sis)
  let ?cur = "cur @ [si]" and ?m = "claim h si m"
  have sz: "sz + Size si = size_of ?cur" "sz = size_of cur" using Cons.prems(2) by (simp_all add: open_ok_def size_of_append size_of_def)
  have m: "?m \<noteq> []" "claimed h ?m p = claimed h m p + (if p = Path si then 1 else 0)" for p
    using claimed_claim [OF Cons.prems(3)] by simp_all
  show ?case
  proof (cases "cut_batch bc now ?cur (sz + Size si) si")
    case True
    have "batch_ok bc ?cur" using Cons.prems(2) sz(2) by (auto simp: batch_ok_def open_ok_def)
    moreover have "open_ok bc [] 0" using Cons.prems(4) by (auto simp: open_ok_def size_of_def)
    moreover have "split_loop h bc now sis [] 0 (owned @ [?cur]) ?m = (owned', cur', m')"
      using Cons.prems(1) True by (simp add: Let_def)
    ultimately show ?thesis
      using Cons.IH [of "[]" 0 "owned @ [?cur]" ?m] Cons.prems(4,5) m by auto
  next
    case False
    then have "open_ok bc ?cur (sz + Size si)" using sz by (auto simp: cut_batch_def open_ok_def)
    moreover have "split_loop h bc now sis ?cur (sz + Size si) owned ?m = (owned', cur', m')"
      using Cons.prems(1) False by (simp add: Let_def)
    ultimately show ?thesis
      using Cons.IH [of ?cur "sz + Size si" owned ?m] Cons.prems(4,5) m by auto
  qed
qed

lemma open_batch_ok:
  assumes "open_ok bc cur (size_of cur)" and "cur \<noteq> []" and "\<forall>si \<in> set cur. 0 \<le> Size si"
  shows "batch_ok bc cur"
proof -
  have "size_of cur = size_of (butlast cur) + Size (last cur)"
    using size_of_append [of "butlast cur" "[last cur]"] assms(2) by (simp add: size_of_def)
  moreover have "0 \<le> Size (last cur)" using assms(2,3) by simp
  ultimately show ?thesis using assms(1,2) by (auto simp: batch_ok_def open_ok_def)
qed

text \<open>The segments of a prefix that \<open>splitPrefix\<close> can batch: all, or none when the first name cannot be parsed.\<close>

definition splittable :: "segment_info list \<Rightarrow> segment_info list" where
  "splittable v =
     (case sort_key Path v of [] \<Rightarrow> [] | s # ss \<Rightarrow> if pn_err (ParseFilename (Path s)) \<noteq> None then [] else s # ss)"

definition same_table :: "string \<Rightarrow> segment_info \<Rightarrow> batch \<Rightarrow> bool" where
  "same_table prefix s b \<longleftrightarrow> BPrefix b = prefix \<and> BDatabase b = pn_database (ParseFilename (Path s)) \<and>
     BTable b = pn_table (ParseFilename (Path s)) \<and> BPriority b = SPriority s \<and> \<not> released b \<and> \<not> removed b"

lemma splitPrefix_ok:
  assumes "splitPrefix h bc owner healthy now prefix v m = (ow, n, m')" and "m \<noteq> []" and "0 < maxBatchSegments bc"
    and "\<forall>si \<in> set v. 0 \<le> Size si"
  shows "concat (map Segs (ow @ n)) = splittable v \<and>
    (\<forall>b \<in> set (ow @ n). batch_ok bc (Segs b) \<and> same_table prefix (hd (sort_key Path v)) b) \<and>
    length n \<le> 1 \<and>
    (n \<noteq> [] \<longrightarrow> owner prefix \<noteq> hostname bc \<and> healthy (owner prefix) \<and> \<not> transferDisabled bc \<and>
        SPriority (hd (sort_key Path v)) = PriorityQueued) \<and>
    m' \<noteq> [] \<and> (\<forall>p. claimed h m' p = claimed h m p + int (count_list (map Path (splittable v)) p))"
proof (cases "splittable v")
  case Nil
  then have "ow = []" "n = []" "m' = m"
    using assms(1) by (auto simp: splitPrefix_def splittable_def Let_def split: list.splits if_splits)
  then show ?thesis using Nil assms(2) by simp
next
  case (Cons s ss)
  then have v: "sort_key Path v = s # ss" "pn_err (ParseFilename (Path s)) = None"
    by (auto simp: splittable_def split: list.splits if_splits)
  obtain owned cur m1 where l: "split_loop h bc now (s # ss) [] 0 [] m = (owned, cur, m1)" by (metis prod_cases3)
  have "open_ok bc [] 0" using assms(3) by (auto simp: open_ok_def size_of_def)
  from split_loop_ok [OF l this assms(2,3)]
  have L: "concat owned @ cur = s # ss" "list_all (batch_ok bc) owned" "open_ok bc cur (size_of cur)" "m1 \<noteq> []"
      "\<forall>p. claimed h m1 p = claimed h m p + int (count_list (map Path (s # ss)) p)"
    by simp_all
  have "set cur \<subseteq> set (s # ss)" using L(1) by (metis Un_upper2 set_append)
  then have "\<forall>si \<in> set cur. 0 \<le> Size si" using assms(4) v(1) by (metis set_sort subsetD)
  then have cur: "cur \<noteq> [] \<Longrightarrow> batch_ok bc cur" using open_batch_ok [OF L(3)] by blast
  let ?mk = "new_batch prefix (pn_database (ParseFilename (Path s))) (pn_table (ParseFilename (Path s))) (SPriority s)"
  have mk: "Segs (?mk x) = x" "same_table prefix s (?mk x)" for x by (simp_all add: new_batch_def same_table_def)
  have segs: "map Segs (map ?mk x) = x" for x by (induction x) (simp_all add: mk(1))
  have "splitPrefix h bc owner healthy now prefix v m =
      (if cur = [] then (map ?mk owned, [], m1)
       else if owner prefix = hostname bc \<or> \<not> healthy (owner prefix) \<or> transferDisabled bc \<or> SPriority s = PriorityRealtime
       then (map ?mk (owned @ [cur]), [], m1) else (map ?mk owned, [?mk cur], m1))"
    using v l by (simp add: splitPrefix_def Let_def)
  then have r: "ow @ n = map ?mk (owned @ (if cur = [] then [] else [cur]))" "m' = m1" "length n \<le> 1"
    "n \<noteq> [] \<longrightarrow> owner prefix \<noteq> hostname bc \<and> healthy (owner prefix) \<and> \<not> transferDisabled bc \<and> SPriority s \<noteq> PriorityRealtime"
    using assms(1) by (auto split: if_splits)
  have "concat (map Segs (ow @ n)) = s # ss" unfolding r(1) segs using L(1) by (cases "cur = []") simp_all
  moreover have "\<forall>b \<in> set (ow @ n). batch_ok bc (Segs b) \<and> same_table prefix s b"
    unfolding r(1) using L(2) cur by (auto simp: mk list_all_iff)
  moreover have "SPriority s \<noteq> PriorityRealtime \<Longrightarrow> SPriority s = PriorityQueued" by (cases "SPriority s") simp_all
  ultimately show ?thesis using r L(4,5) Cons v(1) by auto
qed

section \<open>The scan batches every free segment once\<close>

text \<open>What the scan wants of a prefix.\<close>

definition wanted :: "hash \<Rightarrow> batcher \<Rightarrow> claims \<Rightarrow> segment_info list \<Rightarrow> segment_info list" where
  "wanted h bc m segs =
     (let t = unbatched h m segs
      in if t = [] \<or> (has_realtime bc \<and> SPriority (hd t) = PriorityRealtime) then [] else t)"

lemma group_loop_wanted:
  "distinct ps \<Longrightarrow> (\<forall>p \<in> set ps. groups p = []) \<Longrightarrow>
   group_loop h bc get m ps groups p = (if p \<in> set ps then wanted h bc m (get p) else groups p)"
proof (induction ps arbitrary: groups)
  case (Cons q ps)
  let ?t = "unbatched h m (get q)"
  let ?skip = "?t = [] \<or> (has_realtime bc \<and> SPriority (hd ?t) = PriorityRealtime)"
  let ?g = "if ?skip then groups else groups(q := groups q @ ?t)"
  have "group_loop h bc get m (q # ps) groups = group_loop h bc get m ps ?g" by (simp add: Let_def)
  moreover have "\<forall>p \<in> set ps. ?g p = []" "distinct ps" "q \<notin> set ps" using Cons.prems by auto
  moreover have "?g q = wanted h bc m (get q)" using Cons.prems by (auto simp: wanted_def Let_def)
  ultimately show ?case using Cons.IH [of ?g] by auto
qed simp

lemma split_all_ok:
  assumes "split_all h bc owner healthy now groups ps m = (ow, n, m')" and "m \<noteq> []" and "0 < maxBatchSegments bc"
    and "\<forall>p \<in> set ps. \<forall>si \<in> set (groups p). 0 \<le> Size si"
  shows "mset (concat (map Segs (ow @ n))) = mset (concat (map (\<lambda>p. splittable (groups p)) ps)) \<and>
    (\<forall>b \<in> set (ow @ n). batch_ok bc (Segs b) \<and> \<not> released b) \<and> m' \<noteq> [] \<and>
    (\<forall>p. claimed h m' p = claimed h m p + int (count_list (map Path (concat (map (\<lambda>p. splittable (groups p)) ps))) p))"
  using assms
proof (induction ps arbitrary: m ow n m')
  case Nil
  then show ?case by simp
next
  case (Cons q ps)
  obtain o1 n1 m1 where s: "splitPrefix h bc owner healthy now q (groups q) m = (o1, n1, m1)" by (metis prod_cases3)
  obtain o2 n2 m2 where r: "split_all h bc owner healthy now groups ps m1 = (o2, n2, m2)" by (metis prod_cases3)
  have e: "ow = o1 @ o2" "n = n1 @ n2" "m' = m2" using Cons.prems(1) s r by auto
  have "\<forall>si \<in> set (groups q). 0 \<le> Size si" using Cons.prems(4) by simp
  note S = splitPrefix_ok [OF s Cons.prems(2,3) this]
  have m1: "m1 \<noteq> []" using S by blast
  have "\<forall>p \<in> set ps. \<forall>si \<in> set (groups p). 0 \<le> Size si" using Cons.prems(4) by simp
  note R = Cons.IH [OF r m1 Cons.prems(3) this]
  have "mset (concat (map Segs (ow @ n))) = mset (concat (map Segs (o1 @ n1))) + mset (concat (map Segs (o2 @ n2)))"
    unfolding e by simp
  also have "\<dots> = mset (splittable (groups q)) + mset (concat (map (\<lambda>p. splittable (groups p)) ps))"
    using S R by (simp only:)
  finally have "mset (concat (map Segs (ow @ n))) = mset (concat (map (\<lambda>p. splittable (groups p)) (q # ps)))" by simp
  moreover have "\<forall>b \<in> set (ow @ n). batch_ok bc (Segs b) \<and> \<not> released b"
    using S R e by (auto simp: same_table_def)
  ultimately show ?case using S R e by simp
qed

lemma mset_prioritizeOldest: "mset (prioritizeOldest a) = mset a"
  unfolding prioritizeOldest_def Let_def mset_append mset_rev
  by (metis append_take_drop_id mset_append union_commute)

lemma set_prioritizeOldest: "set (prioritizeOldest a) = set a" "distinct (prioritizeOldest a) = distinct a"
  using mset_prioritizeOldest [of a] mset_eq_setD mset_eq_imp_distinct_iff by blast+

lemma splittable_subset: "set (splittable v) \<subseteq> set v"
proof -
  have "set (splittable v) \<subseteq> set (sort_key Path v)" by (cases "sort_key Path v") (auto simp: splittable_def simp del: set_sort)
  then show ?thesis by simp
qed

lemma wanted_subset: "set (wanted h bc m segs) \<subseteq> {si \<in> set segs. \<not> IsBatched h m (Path si)}"
  by (auto simp: wanted_def unbatched_def Let_def split: if_splits)

text \<open>The segments that a scan of the prefixes \<open>ps\<close> batches.\<close>

definition scanned :: "hash \<Rightarrow> batcher \<Rightarrow> claims \<Rightarrow> (string \<Rightarrow> segment_info list) \<Rightarrow> string list \<Rightarrow> segment_info list" where
  "scanned h bc m get ps = concat (map (\<lambda>p. splittable (wanted h bc m (get p))) ps)"

lemma processSegments_ok:
  assumes run: "processSegments h bc owner healthy now get byAge m = (ow, n, m')" and "m \<noteq> []" and "0 < maxBatchSegments bc"
    and "distinct byAge" and "\<forall>p \<in> set byAge. \<forall>si \<in> set (get p). 0 \<le> Size si"
  shows "mset (concat (map Segs (ow @ n))) = mset (scanned h bc m get byAge) \<and>
    (\<forall>b \<in> set (ow @ n). batch_ok bc (Segs b) \<and> \<not> released b) \<and> m' \<noteq> [] \<and>
    (\<forall>p. claimed h m' p = claimed h m p + int (count_list (map Path (scanned h bc m get byAge)) p))"
proof -
  define ps where "ps = prioritizeOldest (rev byAge)"
  have ps: "distinct ps" "set ps = set byAge" "mset ps = mset byAge"
    using assms(4) set_prioritizeOldest [of "rev byAge"] mset_prioritizeOldest [of "rev byAge"] by (simp_all add: ps_def)
  let ?g = "group_loop h bc get m ps (\<lambda>_. [])"
  have g: "p \<in> set ps \<Longrightarrow> ?g p = wanted h bc m (get p)" for p using group_loop_wanted [OF ps(1)] by simp
  have "\<forall>p \<in> set ps. \<forall>si \<in> set (?g p). 0 \<le> Size si"
    using g wanted_subset ps(2) assms(5) by fastforce
  moreover have "split_all h bc owner healthy now ?g ps m = (ow, n, m')"
    using run by (simp add: processSegments_def ps_def Let_def)
  ultimately have A: "mset (concat (map Segs (ow @ n))) = mset (concat (map (\<lambda>p. splittable (?g p)) ps)) \<and>
      (\<forall>b \<in> set (ow @ n). batch_ok bc (Segs b) \<and> \<not> released b) \<and> m' \<noteq> [] \<and>
      (\<forall>p. claimed h m' p = claimed h m p + int (count_list (map Path (concat (map (\<lambda>p. splittable (?g p)) ps))) p))"
    using split_all_ok assms(2,3) by blast
  have e: "concat (map (\<lambda>p. splittable (?g p)) ps) = scanned h bc m get ps"
    by (simp add: scanned_def g cong: map_cong)
  have "mset (scanned h bc m get ps) = mset (scanned h bc m get byAge)"
    using ps(3) by (simp add: scanned_def mset_concat flip: sum_mset_sum_list)
  then have "count_list (map Path (scanned h bc m get ps)) p = count_list (map Path (scanned h bc m get byAge)) p" for p
    by (metis count_mset mset_map)
  then show ?thesis using A e \<open>mset (scanned h bc m get ps) = _\<close> by simp
qed

lemma distinct_splittable: "distinct (map Path v) \<Longrightarrow> distinct (map Path (splittable v))"
proof -
  assume d: "distinct (map Path v)"
  have "splittable v = [] \<or> splittable v = sort_key Path v"
    by (cases "sort_key Path v") (simp_all add: splittable_def)
  moreover have "distinct (map Path (sort_key Path v))"
    using d mset_eq_imp_distinct_iff [of "map Path (sort_key Path v)" "map Path v"] by simp
  ultimately show ?thesis by auto
qed

lemma distinct_wanted: "distinct (map Path v) \<Longrightarrow> distinct (map Path (wanted h bc m v))"
  by (simp add: wanted_def unbatched_def Let_def distinct_map_filter)

lemma set_scanned: "set (scanned h bc m get ps) \<subseteq> {si. (\<exists>p \<in> set ps. si \<in> set (get p)) \<and> \<not> IsBatched h m (Path si)}"
proof
  fix si assume "si \<in> set (scanned h bc m get ps)"
  then obtain p where p: "p \<in> set ps" "si \<in> set (splittable (wanted h bc m (get p)))" by (auto simp: scanned_def)
  then have "si \<in> set (wanted h bc m (get p))" using splittable_subset by blast
  then show "si \<in> {si. (\<exists>p \<in> set ps. si \<in> set (get p)) \<and> \<not> IsBatched h m (Path si)}"
    using p(1) wanted_subset by blast
qed

lemma distinct_scanned: "distinct (map Path (concat (map get ps))) \<Longrightarrow> distinct (map Path (scanned h bc m get ps))"
proof (induction ps)
  case (Cons p ps)
  let ?w = "splittable (wanted h bc m (get p))"
  have "set ?w \<subseteq> set (get p)" using splittable_subset wanted_subset by blast
  moreover have "set (scanned h bc m get ps) \<subseteq> set (concat (map get ps))" using set_scanned by fastforce
  moreover have "Path ` set (get p) \<inter> Path ` set (concat (map get ps)) = {}" using Cons.prems by simp
  ultimately have "Path ` set ?w \<inter> Path ` set (scanned h bc m get ps) = {}" by blast
  moreover have "distinct (map Path ?w)" using Cons.prems by (intro distinct_splittable distinct_wanted) simp
  moreover have "distinct (map Path (scanned h bc m get ps))" using Cons by simp
  moreover have "scanned h bc m get (p # ps) = ?w @ scanned h bc m get ps" by (simp add: scanned_def)
  ultimately show ?case by simp
qed (simp add: scanned_def)

lemma splittable_full: "splittable v \<noteq> [] \<Longrightarrow> set (splittable v) = set v"
proof -
  assume "splittable v \<noteq> []"
  then have "splittable v = sort_key Path v" by (cases "sort_key Path v") (auto simp: splittable_def split: if_splits)
  then show ?thesis by simp
qed

text \<open>A prefix from which nothing is taken shares no path with those from which something is.\<close>

lemma scanned_other:
  "distinct (map Path (concat (map get ps))) \<Longrightarrow> p \<in> set ps \<Longrightarrow> splittable (wanted h bc m (get p)) = [] \<Longrightarrow> si \<in> set (get p) \<Longrightarrow>
   Path si \<notin> Path ` set (scanned h bc m get ps)"
proof (induction ps)
  case (Cons q ps)
  let ?w = "splittable (wanted h bc m (get q))"
  have dis: "Path ` set (get q) \<inter> Path ` set (concat (map get ps)) = {}" "distinct (map Path (concat (map get ps)))"
    using Cons.prems(1) by simp_all
  have sub: "set ?w \<subseteq> set (get q)" "set (scanned h bc m get ps) \<subseteq> set (concat (map get ps))"
    using splittable_subset wanted_subset set_scanned by fastforce+
  have eq: "scanned h bc m get (q # ps) = ?w @ scanned h bc m get ps" by (simp add: scanned_def)
  show ?case
  proof (cases "p \<in> set ps")
    case True
    then have "Path si \<notin> Path ` set (scanned h bc m get ps)" using Cons.IH dis(2) Cons.prems(3,4) by blast
    moreover have "Path si \<in> Path ` set (concat (map get ps))" using True Cons.prems(4) by auto
    then have "Path si \<notin> Path ` set ?w" using dis(1) sub(1) by blast
    ultimately show ?thesis unfolding eq by auto
  next
    case False
    then have "p = q" using Cons.prems(2) by simp
    then have "?w = []" "Path si \<in> Path ` set (get q)" using Cons.prems(3,4) by auto
    moreover have "Path ` set (scanned h bc m get ps) \<subseteq> Path ` set (concat (map get ps))" using sub(2) by (rule image_mono)
    ultimately have "Path si \<notin> Path ` set (scanned h bc m get ps)" using dis(1) by blast
    then show ?thesis unfolding eq \<open>?w = []\<close> by simp
  qed
qed simp

section \<open>The interface to the index\<close>

text \<open>
  The part of \<open>Segmenter\<close> the scan relies on: the prefixes are listed once each and every segment is under a listed one.
\<close>

locale segmenter =
  fixes ok :: "'s \<Rightarrow> bool" and get :: "'s \<Rightarrow> string \<Rightarrow> segment_info list" and prefixes :: "'s \<Rightarrow> string list"
  assumes prefixes_distinct: "ok s \<Longrightarrow> distinct (prefixes s)"
    and prefixes_complete: "ok s \<Longrightarrow> get s p \<noteq> [] \<Longrightarrow> p \<in> set (prefixes s)"
begin

text \<open>
  A scan batches exactly the free segments, each once, and claims them; a scan right behind it finds nothing
  to do. The paths of the segments are distinct.
\<close>

lemma scan_exact:
  assumes ok: "ok s" and run: "processSegments h bc owner healthy now (get s) (prefixes s) m = (ow, n, m')"
    and m: "m \<noteq> []" "0 < maxBatchSegments bc" "\<forall>p. \<forall>si \<in> set (get s p). 0 \<le> Size si"
    and pos: "\<forall>p. 0 \<le> claimed h m p" and paths: "distinct (map Path (concat (map (get s) (prefixes s))))"
  shows "mset (concat (map Segs (ow @ n))) = mset (scanned h bc m (get s) (prefixes s)) \<and>
    (\<forall>b \<in> set (ow @ n). batch_ok bc (Segs b) \<and> (\<forall>si \<in> set (Segs b). \<not> IsBatched h m (Path si) \<and> IsBatched h m' (Path si))) \<and>
    distinct (map Path (concat (map Segs (ow @ n)))) \<and>
    (\<forall>p. \<forall>si \<in> set (splittable (wanted h bc m (get s p))). \<exists>b \<in> set (ow @ n). si \<in> set (Segs b))"
proof -
  have A: "mset (concat (map Segs (ow @ n))) = mset (scanned h bc m (get s) (prefixes s))"
      "\<forall>b \<in> set (ow @ n). batch_ok bc (Segs b)"
      "\<forall>p. claimed h m' p = claimed h m p + int (count_list (map Path (scanned h bc m (get s) (prefixes s))) p)"
    using processSegments_ok [OF run m(1,2) prefixes_distinct [OF ok]] m(3) by blast+
  have "mset (map Path (concat (map Segs (ow @ n)))) = mset (map Path (scanned h bc m (get s) (prefixes s)))"
    using A(1) by (metis mset_map)
  then have "distinct (map Path (concat (map Segs (ow @ n))))"
    using distinct_scanned [OF paths] mset_eq_imp_distinct_iff by blast
  moreover have "\<not> IsBatched h m (Path si) \<and> IsBatched h m' (Path si)" if "b \<in> set (ow @ n)" "si \<in> set (Segs b)" for b si
  proof -
    have "si \<in> set (concat (map Segs (ow @ n)))" using that by auto
    then have si: "si \<in> set (scanned h bc m (get s) (prefixes s))" using A(1) mset_eq_setD by blast
    then have "0 < count_list (map Path (scanned h bc m (get s) (prefixes s))) (Path si)"
      by (metis count_list_0_iff gr0I image_eqI list.set_map)
    moreover have "\<not> IsBatched h m (Path si)" using si set_scanned by blast
    ultimately show ?thesis using A(3) pos [rule_format, of "Path si"] by (simp add: IsBatched_claimed)
  qed
  moreover have "\<exists>b \<in> set (ow @ n). si \<in> set (Segs b)" if "si \<in> set (splittable (wanted h bc m (get s p)))" for si p
  proof -
    have "si \<in> set (get s p)" using that splittable_subset wanted_subset by blast
    then have "p \<in> set (prefixes s)" using prefixes_complete [OF ok] by (metis empty_iff list.set(1))
    then have "si \<in> set (scanned h bc m (get s) (prefixes s))" using that by (auto simp: scanned_def)
    then have "si \<in> set (concat (map Segs (ow @ n)))" using A(1) mset_eq_setD by metis
    then show ?thesis by auto
  qed
  ultimately show ?thesis using A by blast
qed

lemma rescan_empty:
  assumes ok: "ok s" and run: "processSegments h bc owner healthy now (get s) (prefixes s) m = (ow, n, m')"
    and m: "m \<noteq> []" "0 < maxBatchSegments bc" "\<forall>p. \<forall>si \<in> set (get s p). 0 \<le> Size si"
    and pos: "\<forall>p. 0 \<le> claimed h m p" and paths: "distinct (map Path (concat (map (get s) (prefixes s))))"
  shows "\<exists>m''. processSegments h bc owner' healthy' now' (get s) (prefixes s) m' = ([], [], m'')"
proof -
  let ?sc = "scanned h bc m (get s) (prefixes s)"
  have A: "m' \<noteq> []" "\<forall>p. claimed h m' p = claimed h m p + int (count_list (map Path ?sc) p)"
    using processSegments_ok [OF run m(1,2) prefixes_distinct [OF ok]] m(3) by blast+
  have "splittable (wanted h bc m' (get s p)) = []" if p: "p \<in> set (prefixes s)" for p
  proof (cases "splittable (wanted h bc m (get s p)) = []")
    case False
    then have all: "set (wanted h bc m (get s p)) \<subseteq> set ?sc" "wanted h bc m (get s p) = unbatched h m (get s p)"
      using p splittable_full [OF False] by (auto simp: scanned_def wanted_def Let_def split: if_splits)
    have "IsBatched h m' (Path si)" if "si \<in> set (get s p)" for si
    proof (cases "IsBatched h m (Path si)")
      case True
      then show ?thesis using A(2) by (simp add: IsBatched_claimed add_pos_nonneg)
    next
      case False
      then have "si \<in> set ?sc" using that all by (auto simp: unbatched_def)
      then have "0 < count_list (map Path ?sc) (Path si)" by (metis count_list_0_iff gr0I image_eqI list.set_map)
      then show ?thesis using A(2) pos [rule_format, of "Path si"] by (simp add: IsBatched_claimed)
    qed
    then have "unbatched h m' (get s p) = []" by (simp add: unbatched_def filter_empty_conv)
    then show ?thesis by (simp add: wanted_def splittable_def Let_def)
  next
    case True
    have "IsBatched h m' (Path si) = IsBatched h m (Path si)" if "si \<in> set (get s p)" for si
    proof -
      have "Path si \<notin> Path ` set ?sc" using scanned_other [OF paths p True that] by simp
      then have "count_list (map Path ?sc) (Path si) = 0" by (simp add: count_list_0_iff)
      then show ?thesis using A(2) by (simp add: IsBatched_claimed)
    qed
    then have "unbatched h m' (get s p) = unbatched h m (get s p)" by (auto simp: unbatched_def intro: filter_cong)
    then show ?thesis using True by (simp add: wanted_def)
  qed
  then have none: "scanned h bc m' (get s) (prefixes s) = []" by (simp add: scanned_def)
  obtain ow' n' m'' where run': "processSegments h bc owner' healthy' now' (get s) (prefixes s) m' = (ow', n', m'')"
    by (metis prod_cases3)
  have B: "mset (concat (map Segs (ow' @ n'))) = mset []" "\<forall>b \<in> set (ow' @ n'). batch_ok bc (Segs b)"
    using processSegments_ok [OF run' A(1) m(2) prefixes_distinct [OF ok]] m(3) none by simp_all
  then have "set (ow' @ n') = {}" by (auto simp: batch_ok_def)
  then have "ow' = []" "n' = []" by simp_all
  then show ?thesis using run' by simp
qed

end

text \<open>The index is such an interface, in whatever order Go visits its map.\<close>

interpretation ix: segmenter "\<lambda>(ks, i). iterates ks (segments i)" "\<lambda>(ks, i) p. index_Get p i" "\<lambda>(ks, i). PrefixesByAge ks i"
proof
  show "distinct ((\<lambda>(ks, i). PrefixesByAge ks i) s)" if "(\<lambda>(ks, i). iterates ks (segments i)) s" for s
    using that by (cases s) (auto simp: PrefixesByAge_def iterates_def)
  show "p \<in> set ((\<lambda>(ks, i). PrefixesByAge ks i) s)"
    if "(\<lambda>(ks, i). iterates ks (segments i)) s" "(\<lambda>(ks, i) p. index_Get p i) s p \<noteq> []" for s p
    using that by (cases s) (auto simp: PrefixesByAge_def iterates_def index_Get_def split: option.splits)
qed

section \<open>The cap per table\<close>

definition for_dest :: "destination \<Rightarrow> batch \<Rightarrow> bool" where
  "for_dest d b \<longleftrightarrow> \<lparr>Database = BDatabase b, Table = BTable b\<rparr> = d"

text \<open>What is kept and what is dropped partition the batches, and dropping releases the claims.\<close>

lemma bounded_loop_ok:
  assumes "bounded_loop h limit counts bs m = (kept, m')" and "m \<noteq> []" and "\<forall>b \<in> set bs. \<not> released b"
    and "\<forall>d. counts d \<le> limit"
  shows "(\<forall>d. filter (for_dest d) kept = take (nat (limit - counts d)) (filter (for_dest d) bs)) \<and> m' \<noteq> [] \<and>
    (\<exists>dropped. mset bs = mset kept + mset dropped \<and>
       (\<forall>p. claimed h m' p = (if p \<in> Path ` set (concat (map Segs dropped)) then 0 else claimed h m p)))"
  using assms
proof (induction bs arbitrary: counts m kept m')
  case Nil
  then show ?case by simp
next
  case (Cons b bs)
  let ?d = "\<lparr>Database = BDatabase b, Table = BTable b\<rparr>"
  have fd: "for_dest d b \<longleftrightarrow> d = ?d" for d by (auto simp: for_dest_def)
  show ?case
  proof (cases "counts ?d \<ge> limit")
    case True
    let ?m = "batcher_Release h b m"
    have m: "?m \<noteq> []" "\<And>p. claimed h ?m p = (if p \<in> Path ` set (Segs b) then 0 else claimed h m p)"
      using claimed_Release [OF Cons.prems(2)] by blast+
    have "bounded_loop h limit counts bs ?m = (kept, m')"
      using Cons.prems(1,3) True by (simp add: Let_def batch_Release_def)
    from Cons.IH [OF this m(1) _ Cons.prems(4)] Cons.prems(3) obtain dropped where
      r: "\<forall>d. filter (for_dest d) kept = take (nat (limit - counts d)) (filter (for_dest d) bs)" "m' \<noteq> []"
        "mset bs = mset kept + mset dropped"
        "\<forall>p. claimed h m' p = (if p \<in> Path ` set (concat (map Segs dropped)) then 0 else claimed h ?m p)"
      by auto
    have "filter (for_dest d) kept = take (nat (limit - counts d)) (filter (for_dest d) (b # bs))" for d
      using r(1) True by (cases "d = ?d") (simp_all add: fd)
    moreover have "mset (b # bs) = mset kept + mset (b # dropped)" using r(3) by simp
    moreover have "\<forall>p. claimed h m' p = (if p \<in> Path ` set (concat (map Segs (b # dropped))) then 0 else claimed h m p)"
      using r(4) m(2) by auto
    ultimately show ?thesis using r(2) by blast
  next
    case False
    let ?c = "counts(?d := counts ?d + 1)"
    obtain k where k: "bounded_loop h limit ?c bs m = (k, m')" "kept = b # k"
      using Cons.prems(1) False by (auto simp: Let_def split: prod.splits)
    have "\<forall>d. ?c d \<le> limit" using Cons.prems(4) False by auto
    from Cons.IH [OF k(1) Cons.prems(2) _ this] Cons.prems(3) obtain dropped where
      r: "\<forall>d. filter (for_dest d) k = take (nat (limit - ?c d)) (filter (for_dest d) bs)" "m' \<noteq> []"
        "mset bs = mset k + mset dropped"
        "\<forall>p. claimed h m' p = (if p \<in> Path ` set (concat (map Segs dropped)) then 0 else claimed h m p)"
      by auto
    have "nat (limit - counts ?d) = Suc (nat (limit - (counts ?d + 1)))" using False by simp
    then have "filter (for_dest d) kept = take (nat (limit - counts d)) (filter (for_dest d) (b # bs))" for d
      using r(1) [rule_format, of d] k(2) by (cases "d = ?d") (simp_all add: fd)
    moreover have "mset (b # bs) = mset kept + mset dropped" using r(3) k(2) by simp
    ultimately show ?thesis using r(2,4) by blast
  qed
qed

lemma boundedBatches_ok:
  assumes "boundedBatches h bs limit m = (kept, m')" and "m \<noteq> []" and "\<forall>b \<in> set bs. \<not> released b" and "0 < limit"
  shows "(\<forall>d. filter (for_dest d) kept = take (nat limit) (filter (for_dest d) bs)) \<and> m' \<noteq> [] \<and>
    (\<exists>dropped. mset bs = mset kept + mset dropped \<and>
       (\<forall>p. claimed h m' p = (if p \<in> Path ` set (concat (map Segs dropped)) then 0 else claimed h m p)))"
  using bounded_loop_ok [of h limit "\<lambda>_. 0" bs m kept m'] assms by (simp add: boundedBatches_def)

lemma send_order_mset: "mset (send_order ow n) = mset (map (Pair False) ow) + mset (map (Pair True) n)"
proof -
  have "mset (filter (\<lambda>b. BPriority b = PriorityRealtime) x) + mset (filter (\<lambda>b. BPriority b = PriorityQueued) x) = mset x"
    for x :: "batch list"
  proof (induction x)
    case (Cons b x)
    then show ?case by (cases "BPriority b") auto
  qed simp
  then have "image_mset f (mset x) = image_mset f (mset (filter (\<lambda>b. BPriority b = PriorityRealtime) x)) +
      image_mset f (mset (filter (\<lambda>b. BPriority b = PriorityQueued) x))" for x and f :: "batch \<Rightarrow> bool \<times> batch"
    by (metis image_mset_union)
  then show ?thesis by (simp add: send_order_def)
qed

lemma sorted_wrt_all: "(\<And>x y. x \<in> set xs \<Longrightarrow> y \<in> set xs \<Longrightarrow> P x y) \<Longrightarrow> sorted_wrt P xs"
  by (induction xs) auto

section \<open>Properties\<close>

text \<open>
  Splitting a prefix. The batches hold exactly the segments of the prefix, in order of their paths (or none, when the first name is not
  a WAL name); every batch is within the limits, belongs to the table and is neither released nor removed; at most one batch is
  handed to the transfer queue, and only for a queued table that a healthy peer owns; every segment is claimed once more.
\<close>

lemma splitPrefix_partitions:
  assumes "splitPrefix h bc owner healthy now prefix v m = (ow, n, m')" and "m \<noteq> []" and "0 < maxBatchSegments bc"
    and "\<forall>si \<in> set v. 0 \<le> Size si"
  shows "concat (map Segs (ow @ n)) =
      (if v = [] \<or> pn_err (ParseFilename (Path (hd (sort_key Path v)))) \<noteq> None then [] else sort_key Path v) \<and>
    (\<forall>b \<in> set (ow @ n). batch_ok bc (Segs b) \<and> same_table prefix (hd (sort_key Path v)) b) \<and>
    length n \<le> 1 \<and>
    (n \<noteq> [] \<longrightarrow> owner prefix \<noteq> hostname bc \<and> healthy (owner prefix) \<and> \<not> transferDisabled bc \<and>
        SPriority (hd (sort_key Path v)) = PriorityQueued) \<and>
    (\<forall>p. claimed h m' p = claimed h m p + int (count_list (map Path (concat (map Segs (ow @ n)))) p))"
proof -
  note S = splitPrefix_ok [OF assms]
  have "v = [] \<longleftrightarrow> sort_key Path v = []" by (metis set_empty set_sort)
  then have "splittable v = (if v = [] \<or> pn_err (ParseFilename (Path (hd (sort_key Path v)))) \<noteq> None then [] else sort_key Path v)"
    by (cases "sort_key Path v") (simp_all add: splittable_def)
  then show ?thesis using S by simp
qed

definition demo_batcher :: batcher where
  "demo_batcher = NewBatcher 0 0 0 0 0 ''host-0'' False False False"

lemma demo_batcher_limits [simp]: "maxBatchSegments demo_batcher = 25" "maxTableBatches demo_batcher = 2"
  by (simp_all add: demo_batcher_def NewBatcher_def)

definition demo_hash :: hash where
  "demo_hash s = of_nat (length s)"

lemma demo_claims [simp]: "(NewMap 64 :: claims) \<noteq> []" "claimed h (NewMap 64) p = 0"
  by (simp_all add: NewMap_def claimed_def map_Get_def sync_get_def partition_of_def)

lemma demo_name: "pn_err (ParseFilename ''A_B_1.wal'') = None"
  by code_simp

lemma splitPrefix_partitions_instance:
  "let r = splitPrefix demo_hash demo_batcher (\<lambda>_. ''host-1'') (\<lambda>_. True) 9 ''A_B''
       [demo_seg ''A_B'' ''A_B_2.wal'' 20 6, demo_seg ''A_B'' ''A_B_1.wal'' 10 5] (NewMap 64)
   in concat (map Segs (fst r @ fst (snd r))) = [demo_seg ''A_B'' ''A_B_1.wal'' 10 5, demo_seg ''A_B'' ''A_B_2.wal'' 20 6] \<and>
      length (fst (snd r)) \<le> 1 \<and> claimed demo_hash (snd (snd r)) ''A_B_2.wal'' = 1"
proof -
  let ?v = "[demo_seg ''A_B'' ''A_B_2.wal'' 20 6, demo_seg ''A_B'' ''A_B_1.wal'' 10 5]"
  let ?r = "splitPrefix demo_hash demo_batcher (\<lambda>_. ''host-1'') (\<lambda>_. True) 9 ''A_B'' ?v (NewMap 64)"
  have sorted: "sort_key Path ?v = [demo_seg ''A_B'' ''A_B_1.wal'' 10 5, demo_seg ''A_B'' ''A_B_2.wal'' 20 6]"
    by (simp add: demo_seg_def)
  have r: "?r = (fst ?r, fst (snd ?r), snd (snd ?r))" by simp
  have "0 < maxBatchSegments demo_batcher" "\<forall>si \<in> set ?v. 0 \<le> Size si" by (simp_all add: demo_seg_def)
  note S = splitPrefix_partitions [OF r demo_claims(1) this, unfolded sorted]
  have "concat (map Segs (fst ?r @ fst (snd ?r))) = [demo_seg ''A_B'' ''A_B_1.wal'' 10 5, demo_seg ''A_B'' ''A_B_2.wal'' 20 6]"
    using conjunct1 [OF S] demo_name by (simp add: demo_seg_def)
  moreover from this have "claimed demo_hash (snd (snd ?r)) ''A_B_2.wal'' = 1"
    using conjunct2 [OF conjunct2 [OF conjunct2 [OF conjunct2 [OF S]]], THEN spec, of "''A_B_2.wal''"]
    by (simp add: demo_seg_def)
  ultimately show ?thesis unfolding Let_def using conjunct1 [OF conjunct2 [OF conjunct2 [OF S]]] by blast
qed

text \<open>
  C35. The scan over the index. For a reachable index whose paths are distinct, one scan puts each free segment of a table
  with a WAL name in exactly one batch, takes no segment that is already in a batch, and claims what it takes; a second scan
  right behind it, whatever the ownership, the health of the peers and the clock then say, makes no batch at all.
\<close>

theorem scan_batches_once:
  assumes "i = fst (fold index_apply ops (NewIndex, ao))" and "iterates ks (segments i)"
    and "processSegments h bc owner healthy now (\<lambda>p. index_Get p i) (PrefixesByAge ks i) m = (ow, n, m')"
    and "m \<noteq> []" and "0 < maxBatchSegments bc" and "\<forall>p. \<forall>si \<in> set (index_Get p i). 0 \<le> Size si"
    and "\<forall>p. 0 \<le> claimed h m p" and "distinct (map Path (concat (map (\<lambda>p. index_Get p i) ks)))"
  shows "(\<forall>b \<in> set (ow @ n). batch_ok bc (Segs b) \<and>
       (\<forall>si \<in> set (Segs b). si \<in> all_segments i \<and> \<not> IsBatched h m (Path si) \<and> IsBatched h m' (Path si))) \<and>
    distinct (map Path (concat (map Segs (ow @ n)))) \<and>
    (\<forall>p. \<forall>si \<in> set (splittable (wanted h bc m (index_Get p i))). \<exists>b \<in> set (ow @ n). si \<in> set (Segs b)) \<and>
    (\<exists>m''. processSegments h bc owner' healthy' now' (\<lambda>p. index_Get p i) (PrefixesByAge ks i) m' = ([], [], m''))"
proof -
  let ?P = "PrefixesByAge ks i" and ?g = "\<lambda>p. index_Get p i"
  have "mset (map Path (concat (map ?g ?P))) = mset (map Path (concat (map ?g ks)))"
    by (simp add: PrefixesByAge_def mset_concat flip: sum_mset_sum_list)
  then have d: "distinct (map Path (concat (map ?g ?P)))" using assms(8) mset_eq_imp_distinct_iff by blast
  note A = ix.scan_exact [of "(ks, i)", unfolded prod.case, OF assms(2-7) d]
  note B = ix.rescan_empty [of "(ks, i)", unfolded prod.case, OF assms(2-7) d, of owner' healthy' now']
  have "si \<in> all_segments i" if "b \<in> set (ow @ n)" "si \<in> set (Segs b)" for b si
  proof -
    have "si \<in> set (concat (map Segs (ow @ n)))" using that by auto
    then have "si \<in> set (scanned h bc m ?g ?P)" unfolding mset_eq_setD [OF conjunct1 [OF A]] .
    then obtain p where "si \<in> set (index_Get p i)" using set_scanned [of h bc m ?g ?P] by auto
    then show ?thesis by (rule Get_mem)
  qed
  moreover have "batch_ok bc (Segs b) \<and> (\<forall>si \<in> set (Segs b). \<not> IsBatched h m (Path si) \<and> IsBatched h m' (Path si))"
    if "b \<in> set (ow @ n)" for b using conjunct1 [OF conjunct2 [OF A]] that by (rule bspec)
  moreover have "distinct (map Path (concat (map Segs (ow @ n))))" using conjunct1 [OF conjunct2 [OF conjunct2 [OF A]]] .
  moreover have "\<exists>b \<in> set (ow @ n). si \<in> set (Segs b)" if "si \<in> set (splittable (wanted h bc m (index_Get p i)))" for p si
    using conjunct2 [OF conjunct2 [OF conjunct2 [OF A]]] that by blast
  ultimately show ?thesis using B by blast
qed

theorem scan_batches_once_witness:
  "let i = fst (index_Add (demo_seg ''A_B'' ''A_B_1.wal'' 10 5) NewIndex);
       r = processSegments demo_hash demo_batcher (\<lambda>_. ''host-1'') (\<lambda>_. True) 9 (\<lambda>p. index_Get p i) (PrefixesByAge [''A_B''] i) (NewMap 64);
       r' = processSegments demo_hash demo_batcher (\<lambda>_. ''host-0'') (\<lambda>_. False) 12 (\<lambda>p. index_Get p i) (PrefixesByAge [''A_B''] i) (snd (snd r))
   in (\<exists>b \<in> set (fst r @ fst (snd r)). demo_seg ''A_B'' ''A_B_1.wal'' 10 5 \<in> set (Segs b)) \<and> fst r' = [] \<and> fst (snd r') = []"
proof -
  let ?si = "demo_seg ''A_B'' ''A_B_1.wal'' 10 5"
  let ?i = "fst (index_Add ?si NewIndex)"
  let ?r = "processSegments demo_hash demo_batcher (\<lambda>_. ''host-1'') (\<lambda>_. True) 9 (\<lambda>p. index_Get p ?i) (PrefixesByAge [''A_B''] ?i) (NewMap 64)"
  have i: "?i = fst (fold index_apply [AddOp ?si] (NewIndex, None))" by simp
  have seg: "segments ?i = [''A_B'' \<mapsto> [?si]]"
    by (simp add: index_Add_def Let_def index_Get_def NewIndex_def demo_seg_def)
  then have get: "index_Get p ?i = (if p = ''A_B'' then [?si] else [])" for p by (simp add: index_Get_def)
  have it: "iterates [''A_B''] (segments ?i)" by (simp add: seg iterates_def)
  have r: "?r = (fst ?r, fst (snd ?r), snd (snd ?r))" by simp
  have sp: "splittable (wanted demo_hash demo_batcher (NewMap 64) [?si]) = [?si]"
    using demo_name by (simp add: splittable_def wanted_def unbatched_def IsBatched_claimed Let_def demo_batcher_def NewBatcher_def demo_seg_def)
  have "\<forall>p. \<forall>si \<in> set (index_Get p ?i). 0 \<le> Size si" by (simp add: get) (simp add: demo_seg_def)
  moreover have "distinct (map Path (concat (map (\<lambda>p. index_Get p ?i) [''A_B''])))" by (simp add: get)
  ultimately have main: "(\<forall>p. \<forall>si \<in> set (splittable (wanted demo_hash demo_batcher (NewMap 64) (index_Get p ?i))).
        \<exists>b \<in> set (fst ?r @ fst (snd ?r)). si \<in> set (Segs b)) \<and>
      (\<exists>m''. processSegments demo_hash demo_batcher (\<lambda>_. ''host-0'') (\<lambda>_. False) 12 (\<lambda>p. index_Get p ?i)
         (PrefixesByAge [''A_B''] ?i) (snd (snd ?r)) = ([], [], m''))"
    using scan_batches_once [OF i it r, of "\<lambda>_. ''host-0''" "\<lambda>_. False" 12] by (simp only: demo_claims demo_batcher_limits) simp
  have "?si \<in> set (splittable (wanted demo_hash demo_batcher (NewMap 64) (index_Get ''A_B'' ?i)))"
    unfolding get by (simp add: sp)
  then have "\<exists>b \<in> set (fst ?r @ fst (snd ?r)). ?si \<in> set (Segs b)"
    by (rule bspec [OF conjunct1 [OF main, THEN spec, of "''A_B''"]])
  then show ?thesis using conjunct2 [OF main] unfolding Let_def by (metis fst_conv snd_conv)
qed

text \<open>
  C36. No claim leaks. After \<open>BatchSegments\<close> the claimed paths are those that were claimed before and those of the batches that
  were sent, also when the cap per table drops batches; per table at most \<open>maxTableBatches\<close> batches are sent to each queue, and
  realtime batches come first.
\<close>

theorem BatchSegments_claims:
  assumes "BatchSegments h bc owner healthy now get byAge m = (sent, m')"
    and "m \<noteq> []" and "0 < maxBatchSegments bc" and "0 < maxTableBatches bc" and "distinct byAge"
    and "\<forall>p \<in> set byAge. \<forall>si \<in> set (get p). 0 \<le> Size si"
    and "\<forall>p. 0 \<le> claimed h m p" and "distinct (map Path (concat (map get byAge)))"
  shows "(\<forall>path. IsBatched h m' path \<longleftrightarrow> IsBatched h m path \<or> path \<in> Path ` set (concat (map (Segs \<circ> snd) sent))) \<and>
    distinct (map Path (concat (map (Segs \<circ> snd) sent))) \<and>
    (\<forall>t d. int (length (filter (\<lambda>x. fst x = t \<and> for_dest d (snd x)) sent)) \<le> maxTableBatches bc) \<and>
    sorted_wrt (\<lambda>x y. BPriority (snd x) = PriorityQueued \<longrightarrow> BPriority (snd y) = PriorityQueued) sent"
proof -
  obtain ow n m1 where p: "processSegments h bc owner healthy now get byAge m = (ow, n, m1)" by (metis prod_cases3)
  obtain k1 m2 where b1: "boundedBatches h ow (maxTableBatches bc) m1 = (k1, m2)" by fastforce
  obtain k2 where b2: "boundedBatches h n (maxTableBatches bc) m2 = (k2, m')" and sent: "sent = send_order k1 k2"
    using assms(1) p b1 by (auto simp: BatchSegments_def split: prod.splits)
  let ?sc = "scanned h bc m get byAge"
  have P: "mset (concat (map Segs (ow @ n))) = mset ?sc" "\<forall>b \<in> set (ow @ n). \<not> released b" "m1 \<noteq> []"
      "\<forall>p. claimed h m1 p = claimed h m p + int (count_list (map Path ?sc) p)"
    using processSegments_ok [OF p assms(2,3,5,6)] by blast+
  obtain d1 where B1: "mset ow = mset k1 + mset d1" "m2 \<noteq> []"
      "\<forall>p. claimed h m2 p = (if p \<in> Path ` set (concat (map Segs d1)) then 0 else claimed h m1 p)"
      "\<forall>d. filter (for_dest d) k1 = take (nat (maxTableBatches bc)) (filter (for_dest d) ow)"
    using boundedBatches_ok [OF b1 P(3) _ assms(4)] P(2) by auto
  obtain d2 where B2: "mset n = mset k2 + mset d2"
      "\<forall>p. claimed h m' p = (if p \<in> Path ` set (concat (map Segs d2)) then 0 else claimed h m2 p)"
      "\<forall>d. filter (for_dest d) k2 = take (nat (maxTableBatches bc)) (filter (for_dest d) n)"
    using boundedBatches_ok [OF b2 B1(2) _ assms(4)] P(2) by auto
  let ?S = "map Path (concat (map (Segs \<circ> snd) sent))" and ?D = "map Path (concat (map Segs (d1 @ d2)))"
  have "mset (map snd sent) = mset k1 + mset k2"
    unfolding sent using arg_cong [OF send_order_mset [of k1 k2], of "image_mset snd"] by (simp add: image_mset.compositionality comp_def)
  then have "mset (map snd sent @ d1 @ d2) = mset (ow @ n)" using B1(1) B2(1) by simp
  then have "mset (concat (map Segs (map snd sent @ d1 @ d2))) = mset ?sc"
    unfolding P(1) [symmetric] by (metis mset_concat mset_map sum_mset_sum_list)
  then have parts: "mset (?S @ ?D) = mset (map Path ?sc)"
    by (metis concat_append map_append map_map mset_map)
  then have dist: "distinct (?S @ ?D)" using distinct_scanned [OF assms(8)] mset_eq_imp_distinct_iff by blast
  have set_sc: "Path ` set ?sc = set ?S \<union> set ?D" using mset_eq_setD [OF parts] by simp
  have claimed': "claimed h m' p = (if p \<in> set ?D then 0 else claimed h m1 p)" for p
    using B1(3) B2(2) by auto
  have "IsBatched h m' path \<longleftrightarrow> IsBatched h m path \<or> path \<in> set ?S" for path
  proof (cases "path \<in> Path ` set ?sc")
    case True
    then have "\<not> IsBatched h m path" using set_scanned [of h bc m get byAge] by auto
    moreover have "0 < claimed h m1 path"
    proof -
      have "0 < count_list (map Path ?sc) path" using True by (metis count_list_0_iff gr0I list.set_map)
      then show ?thesis using P(4) assms(7) [rule_format, of path] by simp
    qed
    moreover have "path \<in> set ?S \<longleftrightarrow> path \<notin> set ?D"
      using True dist unfolding set_sc distinct_append by blast
    ultimately show ?thesis using claimed' by (simp add: IsBatched_claimed)
  next
    case False
    then have "count_list (map Path ?sc) path = 0" by (simp add: count_list_0_iff)
    then show ?thesis using False set_sc P(4) claimed' by (simp add: IsBatched_claimed)
  qed
  moreover have "int (length (filter (\<lambda>x. fst x = t \<and> for_dest d (snd x)) sent)) \<le> maxTableBatches bc" for t d
  proof -
    let ?k = "if t then k2 else k1"
    have "mset (filter (\<lambda>x. fst x = t \<and> for_dest d (snd x)) sent) = image_mset (Pair t) (mset (filter (for_dest d) ?k))"
      unfolding sent mset_filter send_order_mset by (auto simp: filter_mset_image_mset comp_def)
    then have "length (filter (\<lambda>x. fst x = t \<and> for_dest d (snd x)) sent) = length (filter (for_dest d) ?k)"
      by (metis size_image_mset size_mset)
    also have "\<dots> \<le> nat (maxTableBatches bc)" using B1(4) B2(3) by simp
    finally show ?thesis using assms(4) by simp
  qed
  moreover have "sorted_wrt (\<lambda>x y. BPriority (snd x) = PriorityQueued \<longrightarrow> BPriority (snd y) = PriorityQueued) sent"
    unfolding sent send_order_def by (simp add: sorted_wrt_append, intro conjI sorted_wrt_all) auto
  ultimately show ?thesis using dist by auto
qed

theorem BatchSegments_claims_witness:
  "let get = (\<lambda>p. if p = ''A_B'' then [demo_seg ''A_B'' ''A_B_1.wal'' 10 5] else []);
       r = BatchSegments demo_hash demo_batcher (\<lambda>_. ''host-1'') (\<lambda>_. True) 9 get [''A_B''] (NewMap 64)
   in \<forall>path. IsBatched demo_hash (snd r) path = (path \<in> Path ` set (concat (map (Segs \<circ> snd) (fst r))))"
proof -
  let ?get = "\<lambda>p. if p = ''A_B'' then [demo_seg ''A_B'' ''A_B_1.wal'' 10 5] else []"
  let ?r = "BatchSegments demo_hash demo_batcher (\<lambda>_. ''host-1'') (\<lambda>_. True) 9 ?get [''A_B''] (NewMap 64)"
  have "?r = (fst ?r, snd ?r)" by simp
  from BatchSegments_claims [OF this] show ?thesis
    by (simp add: demo_seg_def IsBatched_claimed [of _ "NewMap 64"] Let_def)
qed

end
