(* ===== verification/FairQueue.thy ===== *)
theory FairQueue
  imports Batcher "HOL-Library.Multiset"
begin

text \<open>
  Sharing the workers between tables, \<open>ingestor/cluster/fair_queue.go\<close>: bounded queues per destination, scheduled by deficit
  round robin.

  \<open>runFairQueue\<close> is one goroutine that reacts to one event at a time; each iteration is \<open>fq_iteration\<close>. What the select
  statement can choose is the type \<open>fq_event\<close>, and the batches the workers hold are the multiset \<open>fq_flight\<close> of a
  step relation. Every iteration reads the clock once for \<open>selectCandidate\<close> and again for the event. The table of the metrics is not
  modelled.
\<close>

section \<open>State\<close>

record fairTable =
  queue :: "batch list"
  running :: int
  deficit :: int
  lastRound :: int
  retryAt :: gotime

record FairQueueOpts =
  Workers :: int
  Quantum :: int
  QueueDepth :: int
  Reserved :: int

text \<open>The variables of \<open>runFairQueue\<close>.\<close>

record fq =
  tables :: "destination \<rightharpoonup> fairTable"
  order :: "destination list"
  cursor :: nat
  round :: int

definition withDefaults :: "FairQueueOpts \<Rightarrow> FairQueueOpts" where
  "withDefaults q =
     (let q = (if Workers q < 1 then q\<lparr>Workers := 1\<rparr> else q);
          q = (if Quantum q \<le> 0 then q\<lparr>Quantum := 1024 * 1024\<rparr> else q);
          q = (if QueueDepth q \<le> 0 then q\<lparr>QueueDepth := max 2 (Workers q * 2)\<rparr> else q);
          q = (if Reserved q \<le> 0 \<and> Workers q > 1 then q\<lparr>Reserved := 1\<rparr> else q)
      in if Reserved q \<ge> Workers q then q\<lparr>Reserved := Workers q - 1\<rparr> else q)"

definition worker_limit :: "FairQueueOpts \<Rightarrow> int" where
  "worker_limit q = max (Workers q - Reserved q) 1"

definition fq_init :: fq where
  "fq_init = \<lparr>tables = Map.empty, order = [], cursor = 0, round = 0\<rparr>"

section \<open>Operations\<close>

definition batchBytes :: "batch \<Rightarrow> int" where
  "batchBytes b = (if size_of (Segs b) < 1 then 1 else size_of (Segs b))"

definition skipped :: "gotime \<Rightarrow> int \<Rightarrow> fairTable option \<Rightarrow> bool" where
  "skipped now limit t \<longleftrightarrow> (case t of None \<Rightarrow> True | Some t \<Rightarrow> queue t = [] \<or> running t \<ge> limit \<or> retryAt t > now)"

definition wrap :: "fq \<Rightarrow> fq" where
  "wrap q = (if cursor q \<ge> length (order q) then q\<lparr>cursor := 0, round := round q + 1\<rparr> else q)"

text \<open>The credit a table earns when the cursor comes to it in a new round.\<close>

definition credit :: "int \<Rightarrow> int \<Rightarrow> fairTable \<Rightarrow> fairTable" where
  "credit r quantum t = (if lastRound t \<noteq> r then t\<lparr>deficit := deficit t + quantum, lastRound := r\<rparr> else t)"

text \<open>One pass through the body of the loop of \<open>selectCandidate\<close>: the candidate, if it returns one, and the state.\<close>

definition visit :: "gotime \<Rightarrow> int \<Rightarrow> int \<Rightarrow> fq \<Rightarrow> destination option \<times> fq" where
  "visit now limit quantum q =
     (let q = wrap q; d = order q ! cursor q
      in if skipped now limit (tables q d) then (None, q\<lparr>cursor := cursor q + 1\<rparr>)
         else let t = credit (round q) quantum (the (tables q d)); q = q\<lparr>tables := (tables q)(d \<mapsto> t)\<rparr>
              in if batchBytes (hd (queue t)) \<le> deficit t then (Some d, q) else (None, q\<lparr>cursor := cursor q + 1\<rparr>))"

fun select_loop :: "nat \<Rightarrow> gotime \<Rightarrow> int \<Rightarrow> int \<Rightarrow> fq \<Rightarrow> destination option \<times> fq" where
  "select_loop 0 now limit quantum q = (None, q)"
| "select_loop (Suc n) now limit quantum q =
     (if order q = [] then (None, q)
      else case visit now limit quantum q of
        (Some d, q) \<Rightarrow> (Some d, q)
      | (None, q) \<Rightarrow> select_loop n now limit quantum q)"

text \<open>The candidate is the head of the queue of the destination that is returned.\<close>

definition selectCandidate :: "gotime \<Rightarrow> int \<Rightarrow> int \<Rightarrow> fq \<Rightarrow> destination option \<times> fq" where
  "selectCandidate now limit quantum q = select_loop (length (order q) + 1) now limit quantum q"

text \<open>\<open>retire\<close> drops a destination without work.\<close>

fun index_in :: "'a \<Rightarrow> 'a list \<Rightarrow> nat option" where
  "index_in x [] = None"
| "index_in x (y # ys) = (if y = x then Some 0 else map_option Suc (index_in x ys))"

definition fq_retire :: "gotime \<Rightarrow> destination \<Rightarrow> fq \<Rightarrow> fq" where
  "fq_retire now d q =
     (case tables q d of
        None \<Rightarrow> q
      | Some t \<Rightarrow>
          if queue t \<noteq> [] \<or> running t > 0 \<or> retryAt t > now then q
          else
            let q = q\<lparr>tables := (tables q)(d := None)\<rparr>
            in case index_in d (order q) of
                 None \<Rightarrow> q
               | Some i \<Rightarrow> q\<lparr>order := take i (order q) @ drop (i + 1) (order q),
                            cursor := (if cursor q > i then cursor q - 1 else cursor q)\<rparr>)"

definition batch_dest :: "batch \<Rightarrow> destination" where
  "batch_dest b =
     (if BDatabase b = [] \<and> Segs b \<noteq> [] then fst (DestinationFromFilename (Path (hd (Segs b))))
      else \<lparr>Database = BDatabase b, Table = BTable b\<rparr>)"

definition new_table :: "int \<Rightarrow> fairTable" where
  "new_table r = \<lparr>queue = [], running = 0, deficit = 0, lastRound = r, retryAt = 0\<rparr>"

text \<open>\<open>tables[d]\<close>, created when it is missing.\<close>

definition ensure_table :: "destination \<Rightarrow> fq \<Rightarrow> fq" where
  "ensure_table d q =
     (case tables q d of
        None \<Rightarrow> q\<lparr>tables := (tables q)(d \<mapsto> new_table (round q)), order := order q @ [d]\<rparr>
      | Some _ \<Rightarrow> q)"

definition update_table :: "(fairTable \<Rightarrow> fairTable) \<Rightarrow> destination \<Rightarrow> fq \<Rightarrow> fq" where
  "update_table f d q = q\<lparr>tables := (tables q)(d := map_option f (tables q d))\<rparr>"

text \<open>The completion of the candidate is set before the select statement and cleared behind it when it was not dispatched.\<close>

definition mark_head :: "destination option \<Rightarrow> fairTable \<Rightarrow> fairTable" where
  "mark_head c t = t\<lparr>queue := (case queue t of [] \<Rightarrow> [] | b # bs \<Rightarrow> b\<lparr>completion := c\<rparr> # bs)\<rparr>"

definition mark_candidate :: "destination option \<Rightarrow> destination option \<Rightarrow> fq \<Rightarrow> fq" where
  "mark_candidate cand c q = (case cand of None \<Rightarrow> q | Some d \<Rightarrow> update_table (mark_head c) d q)"

definition dispatch_table :: "fairTable \<Rightarrow> fairTable" where
  "dispatch_table t =
     (let b = hd (queue t); t = t\<lparr>queue := tl (queue t), deficit := deficit t - batchBytes b, running := running t + 1\<rparr>
      in if queue t = [] then t\<lparr>deficit := 0\<rparr> else t)"

definition complete_table :: "gotime \<Rightarrow> duration \<Rightarrow> fairTable \<Rightarrow> fairTable" where
  "complete_table now delay t =
     (let t = t\<lparr>running := running t - 1\<rparr>
      in if delay > 0 \<and> now + delay > retryAt t then t\<lparr>retryAt := now + delay\<rparr> else t)"

datatype fq_event = InputNil | Input batch | Dispatch | Done destination duration | Tick

text \<open>
  One iteration of the loop behind \<open>selectCandidate\<close> that returned \<open>cand\<close>: the new state, the batch that a worker received and
  the batch that was released because the queue of its table is full. \<open>Dispatch\<close> needs a candidate.
\<close>

definition fq_handle ::
  "gotime \<Rightarrow> FairQueueOpts \<Rightarrow> fq_event \<Rightarrow> destination option \<Rightarrow> fq \<Rightarrow> fq \<times> batch option \<times> batch option"
where
  "fq_handle now fo ev cand q =
     (let q = mark_candidate cand cand q
      in case ev of
           InputNil \<Rightarrow> (q, None, None)
         | Input b \<Rightarrow>
             let d = batch_dest b; q = ensure_table d q
             in if int (length (queue (the (tables q d)))) \<ge> QueueDepth fo then (q, None, Some b)
                else (mark_candidate cand None (update_table (\<lambda>t. t\<lparr>queue := queue t @ [b]\<rparr>) d q), None, None)
         | Dispatch \<Rightarrow>
             (case cand of
                None \<Rightarrow> (q, None, None)
              | Some d \<Rightarrow> (update_table dispatch_table d q, Some (hd (queue (the (tables q d)))), None))
         | Done d delay \<Rightarrow>
             (mark_candidate cand None
                (if tables q d = None then q else fq_retire now d (update_table (complete_table now delay) d q)), None, None)
         | Tick \<Rightarrow> (mark_candidate cand None (fold (fq_retire now) (order q) q), None, None))"

definition fq_iteration ::
  "gotime \<Rightarrow> gotime \<Rightarrow> FairQueueOpts \<Rightarrow> fq_event \<Rightarrow> fq \<Rightarrow> fq \<times> batch option \<times> batch option"
where
  "fq_iteration now now' fo ev q =
     (case selectCandidate now (worker_limit fo) (Quantum fo) q of (cand, q) \<Rightarrow> fq_handle now' fo ev cand q)"

text \<open>
  What the deferred function releases when the queue stops: every batch that is held, in the order \<open>ks\<close> in which Go visits
  the map, then those still in the input channel.
\<close>

definition fq_shutdown :: "hash \<Rightarrow> destination list \<Rightarrow> batch option list \<Rightarrow> fq \<Rightarrow> claims \<Rightarrow> claims" where
  "fq_shutdown h ks input q m =
     fold (\<lambda>b m. fst (snd (batch_Release h b m)))
       (map (\<lambda>b. b\<lparr>completion := None\<rparr>) (concat (map (\<lambda>d. queue (the (tables q d))) ks)) @ concat (map (case_option [] (\<lambda>b. [b])) input)) m"

section \<open>The queue and its workers\<close>

text \<open>
  The queue with what it accepted, handed to workers and turned away so far, and the destinations of the batches that workers hold.
  A worker that releases its batch calls the completion set at dispatch, which is the event \<open>Done\<close>.
\<close>

record fq_sys =
  fs_q :: fq
  fs_flight :: "destination multiset"
  fs_accepted :: "batch list"
  fs_sent :: "batch list"
  fs_dropped :: "batch list"

definition fq_record :: "fq_event \<Rightarrow> fq \<times> batch option \<times> batch option \<Rightarrow> fq_sys \<Rightarrow> fq_sys" where
  "fq_record ev r s =
     (case r of (q, out, rel) \<Rightarrow>
      \<lparr>fs_q = q,
       fs_flight = (case ev of Done d delay \<Rightarrow> fs_flight s - {#d#} | _ \<Rightarrow> fs_flight s) +
         (case out of None \<Rightarrow> {#} | Some b \<Rightarrow> {#the (completion b)#}),
       fs_accepted = fs_accepted s @ (case ev of Input b \<Rightarrow> if rel = None then [b] else [] | _ \<Rightarrow> []),
       fs_sent = fs_sent s @ (case out of None \<Rightarrow> [] | Some b \<Rightarrow> [b]),
       fs_dropped = fs_dropped s @ (case rel of None \<Rightarrow> [] | Some b \<Rightarrow> [b])\<rparr>)"

inductive fq_step :: "FairQueueOpts \<Rightarrow> fq_sys \<Rightarrow> fq_sys \<Rightarrow> bool" for fo where
  "fq_iteration now now' fo ev (fs_q s) = r \<Longrightarrow> (\<forall>d delay. ev = Done d delay \<longrightarrow> d \<in># fs_flight s) \<Longrightarrow>
   (ev = Dispatch \<longrightarrow> fst (snd r) \<noteq> None) \<Longrightarrow> fq_step fo s (fq_record ev r s)"

inductive_cases fq_stepE: "fq_step fo s s'"

definition fq_start :: "fq_sys \<Rightarrow> bool" where
  "fq_start s \<longleftrightarrow> s = \<lparr>fs_q = fq_init, fs_flight = {#}, fs_accepted = [], fs_sent = [], fs_dropped = []\<rparr>"

section \<open>The invariant\<close>

definition queue_of :: "fq \<Rightarrow> destination \<Rightarrow> batch list" where
  "queue_of q d = (case tables q d of None \<Rightarrow> [] | Some t \<Rightarrow> queue t)"

text \<open>A batch up to its completion, which the queue sets and clears.\<close>

definition core :: "batch \<Rightarrow> batch" where
  "core b = b\<lparr>completion := None\<rparr>"

lemma core_simps [simp]: "Segs (core b) = Segs b" "batch_dest (core b) = batch_dest b" "batch_dest (b\<lparr>completion := c\<rparr>) = batch_dest b"
  "core (b\<lparr>completion := c\<rparr>) = core b" "batchBytes (b\<lparr>completion := c\<rparr>) = batchBytes b" "batchBytes (core b) = batchBytes b"
  by (simp_all add: core_def batch_dest_def batchBytes_def)

lemma batchBytes_pos: "0 < batchBytes b"
  by (simp add: batchBytes_def)

definition table_inv :: "FairQueueOpts \<Rightarrow> int \<Rightarrow> int \<Rightarrow> int \<Rightarrow> destination \<Rightarrow> fairTable \<Rightarrow> bool" where
  "table_inv fo busy sent r d t \<longleftrightarrow>
     running t = busy \<and> 0 \<le> busy \<and> busy \<le> worker_limit fo \<and> 0 \<le> deficit t \<and> int (length (queue t)) \<le> QueueDepth fo \<and>
     lastRound t \<le> r \<and> (\<forall>b \<in> set (queue t). batch_dest b = d) \<and> sent + deficit t \<le> Quantum fo * lastRound t"

text \<open>\<open>busy\<close> counts the batches in flight and \<open>sent\<close> the bytes sent, per destination.\<close>

definition q_inv :: "FairQueueOpts \<Rightarrow> (destination \<Rightarrow> int) \<Rightarrow> (destination \<Rightarrow> int) \<Rightarrow> fq \<Rightarrow> bool" where
  "q_inv fo busy sent q \<longleftrightarrow>
     distinct (order q) \<and> set (order q) = dom (tables q) \<and> cursor q \<le> length (order q) \<and>
     (\<forall>d. tables q d = None \<longrightarrow> busy d = 0) \<and> (\<forall>d t. tables q d = Some t \<longrightarrow> table_inv fo (busy d) (sent d) (round q) d t) \<and>
     (\<forall>d. sent d \<le> Quantum fo * round q)"

lemma q_invD:
  assumes "q_inv fo busy sent q"
  shows "distinct (order q)" "set (order q) = dom (tables q)" "cursor q \<le> length (order q)" "sent d \<le> Quantum fo * round q"
    "tables q d = None \<Longrightarrow> busy d = 0" "tables q d = Some t \<Longrightarrow> table_inv fo (busy d) (sent d) (round q) d t"
  using assms unfolding q_inv_def by (auto dest: spec [of _ d])

lemma update_table_fields [simp]: "order (update_table f d q) = order q" "cursor (update_table f d q) = cursor q"
  "round (update_table f d q) = round q" "tables (update_table f d q) e = (if e = d then map_option f (tables q d) else tables q e)"
  by (simp_all add: update_table_def)

lemma q_inv_update:
  assumes "q_inv fo busy sent q" and "tables q d = Some t"
    and "table_inv fo (busy' d) (sent' d) (round q) d (f t)" and "sent' d \<le> Quantum fo * round q"
    and "\<And>e. e \<noteq> d \<Longrightarrow> busy' e = busy e \<and> sent' e = sent e"
  shows "q_inv fo busy' sent' (update_table f d q)"
proof -
  have "sent' e \<le> Quantum fo * round q" for e using assms(4,5) q_invD(4) [OF assms(1), of e] by (cases "e = d") auto
  moreover have "tables (update_table f d q) e = None \<Longrightarrow> busy' e = 0" for e
    using assms(2,5) q_invD(5) [OF assms(1), of e] by (cases "e = d") (auto simp: update_table_def)
  moreover have "tables (update_table f d q) e = Some t' \<Longrightarrow> table_inv fo (busy' e) (sent' e) (round q) e t'" for e t'
    using assms(2,3,5) q_invD(6) [OF assms(1), of e t'] by (cases "e = d") (auto simp: update_table_def)
  moreover have "dom (tables (update_table f d q)) = dom (tables q)" using assms(2) by (auto simp: update_table_def)
  moreover have "distinct (order q)" "set (order q) = dom (tables q)" "cursor q \<le> length (order q)" using q_invD [OF assms(1)] by auto
  ultimately show ?thesis unfolding q_inv_def by (simp add: update_table_def)
qed

lemma queue_of_update: "queue_of (update_table f d q) e = (if e = d then case tables q d of None \<Rightarrow> [] | Some t \<Rightarrow> queue (f t) else queue_of q e)"
  by (simp add: queue_of_def update_table_def split: option.split)

text \<open>Choosing a candidate: it belongs to a table that may run another batch and can pay for it.\<close>

definition cand_ok :: "FairQueueOpts \<Rightarrow> destination option \<Rightarrow> fq \<Rightarrow> bool" where
  "cand_ok fo c q \<longleftrightarrow>
     (case c of None \<Rightarrow> True
      | Some d \<Rightarrow> \<exists>t. tables q d = Some t \<and> queue t \<noteq> [] \<and> running t < worker_limit fo \<and> batchBytes (hd (queue t)) \<le> deficit t)"

lemma wrap_inv:
  assumes "q_inv fo busy sent q" and "order q \<noteq> []" and "0 < Quantum fo"
  shows "q_inv fo busy sent (wrap q) \<and> cursor (wrap q) < length (order q) \<and> order (wrap q) = order q \<and> tables (wrap q) = tables q"
proof -
  have "Quantum fo * round q \<le> Quantum fo * (round q + 1)" using assms(3) by simp
  then have "\<forall>d. sent d \<le> Quantum fo * (round q + 1)" using q_invD(4) [OF assms(1)] by (meson order.trans)
  moreover have "tables q d = Some t \<Longrightarrow> table_inv fo (busy d) (sent d) (round q + 1) d t" for d t
    using q_invD(6) [OF assms(1), of d t] by (simp add: table_inv_def)
  ultimately show ?thesis using assms unfolding q_inv_def wrap_def by auto
qed

lemma credit_inv:
  assumes "table_inv fo busy sent r d t" and "0 < Quantum fo"
  shows "table_inv fo busy sent r d (credit r (Quantum fo) t)" and "queue (credit r (Quantum fo) t) = queue t" "running (credit r (Quantum fo) t) = running t"
proof -
  have "Quantum fo * lastRound t + Quantum fo \<le> Quantum fo * r" if "lastRound t < r"
  proof -
    have "Quantum fo * (lastRound t + 1) \<le> Quantum fo * r" using that assms(2) by (intro mult_left_mono) simp_all
    then show ?thesis by (simp add: algebra_simps)
  qed
  then show "table_inv fo busy sent r d (credit r (Quantum fo) t)"
    using assms by (auto simp: table_inv_def credit_def)
qed (simp_all add: credit_def)

lemma visit_inv:
  assumes "q_inv fo busy sent q" and "order q \<noteq> []" and "0 < Quantum fo"
    and "visit now (worker_limit fo) (Quantum fo) q = (c, q')"
  shows "q_inv fo busy sent q' \<and> order q' = order q \<and> queue_of q' = queue_of q \<and> cand_ok fo c q'"
proof -
  let ?q = "wrap q"
  let ?d = "order ?q ! cursor ?q"
  have w: "q_inv fo busy sent ?q" "cursor ?q < length (order q)" "order ?q = order q" "tables ?q = tables q"
    using wrap_inv [OF assms(1-3)] by auto
  have w': "queue_of ?q = queue_of q" using w(4) by (simp add: queue_of_def fun_eq_iff)
  have next_inv: "q_inv fo busy sent (p\<lparr>cursor := cursor ?q + 1\<rparr>)" if "q_inv fo busy sent p" "order p = order q" for p
    using that w(2) by (simp add: q_inv_def)
  show ?thesis
  proof (cases "skipped now (worker_limit fo) (tables ?q ?d)")
    case True
    then have "c = None" "q' = ?q\<lparr>cursor := cursor ?q + 1\<rparr>" using assms(4) by (simp_all add: visit_def Let_def)
    then show ?thesis using next_inv [OF w(1,3)] w(3) w' by (simp add: queue_of_def fun_eq_iff cand_ok_def)
  next
    case False
    then obtain t where t: "tables ?q ?d = Some t" "queue t \<noteq> []" "running t < worker_limit fo"
      by (cases "tables ?q ?d") (auto simp: skipped_def)
    let ?t = "credit (round ?q) (Quantum fo) t"
    let ?p = "?q\<lparr>tables := (tables ?q)(?d \<mapsto> ?t)\<rparr>"
    note cr = credit_inv [OF q_invD(6) [OF w(1) t(1)] assms(3)]
    have eq: "?p = update_table (credit (round ?q) (Quantum fo)) ?d ?q" using t(1) by (simp add: update_table_def)
    have p: "q_inv fo busy sent ?p" unfolding eq
      by (rule q_inv_update [where busy = busy and sent = sent and t = t])
         (use w(1) t(1) cr(1) q_invD(4) [OF w(1)] in simp_all)
    have qo: "queue_of ?p = queue_of q" using t(1) w(4) cr(2) by (auto simp: queue_of_def fun_eq_iff)
    have "(c, q') = (if batchBytes (hd (queue ?t)) \<le> deficit ?t then (Some ?d, ?p) else (None, ?p\<lparr>cursor := cursor ?q + 1\<rparr>))"
      using assms(4) False t(1) by (simp add: visit_def Let_def split: if_splits)
    then show ?thesis using p qo next_inv [OF p] w(3) t(2,3) cr(2,3) by (auto simp: queue_of_def fun_eq_iff cand_ok_def split: if_splits)
  qed
qed

lemma select_loop_inv:
  assumes "q_inv fo busy sent q" and "0 < Quantum fo" and "select_loop n now (worker_limit fo) (Quantum fo) q = (c, q')"
  shows "q_inv fo busy sent q' \<and> order q' = order q \<and> queue_of q' = queue_of q \<and> cand_ok fo c q'"
  using assms
proof (induction n arbitrary: q)
  case (Suc n)
  show ?case
  proof (cases "order q = []")
    case False
    obtain c1 q1 where v: "visit now (worker_limit fo) (Quantum fo) q = (c1, q1)" by fastforce
    note V = visit_inv [OF Suc.prems(1) False Suc.prems(2) v]
    show ?thesis
    proof (cases c1)
      case None
      then have "select_loop n now (worker_limit fo) (Quantum fo) q1 = (c, q')" using Suc.prems(3) False v by simp
      then show ?thesis using Suc.IH [of q1] V Suc.prems(2) by simp
    next
      case (Some d)
      then have "c = Some d" "q' = q1" using Suc.prems(3) False v by simp_all
      then show ?thesis using V Some by simp
    qed
  qed (use Suc.prems in \<open>simp add: cand_ok_def\<close>)
qed (simp add: cand_ok_def)

text \<open>The events.\<close>

lemma mark_head_inv:
  "table_inv fo n s r d (mark_head c t) = table_inv fo n s r d t" "map core (queue (mark_head c t)) = map core (queue t)"
  "queue (mark_head c t) = [] \<longleftrightarrow> queue t = []" "running (mark_head c t) = running t" "deficit (mark_head c t) = deficit t"
  by (cases "queue t"; simp add: mark_head_def table_inv_def)+

lemma mark_candidate_inv:
  assumes "q_inv fo busy sent q" and "case cand of None \<Rightarrow> True | Some d \<Rightarrow> tables q d \<noteq> None"
  shows "q_inv fo busy sent (mark_candidate cand c q)"
proof (cases cand)
  case (Some d)
  then obtain t where t: "tables q d = Some t" using assms(2) by auto
  have "q_inv fo busy sent (update_table (mark_head c) d q)"
    by (rule q_inv_update [where busy = busy and sent = sent and t = t])
       (use t assms(1) q_invD(4,6) [OF assms(1)] in \<open>simp_all add: mark_head_inv\<close>)
  then show ?thesis using Some by (simp add: mark_candidate_def)
qed (simp add: mark_candidate_def assms(1))

lemma mark_candidate_queues: "map core (queue_of (mark_candidate cand c q) d) = map core (queue_of q d)"
  "order (mark_candidate cand c q) = order q" "tables (mark_candidate cand c q) d = None \<longleftrightarrow> tables q d = None"
  by (auto simp: mark_candidate_def queue_of_def mark_head_inv split: option.split)

lemma index_in_remove1: "index_in x xs = Some i \<Longrightarrow> take i xs @ drop (i + 1) xs = remove1 x xs \<and> i < length xs"
  by (induction xs arbitrary: i) (auto split: if_splits)

lemma index_in_None: "index_in x xs = None \<longleftrightarrow> x \<notin> set xs"
  by (induction xs) auto

lemma fq_retire_inv:
  assumes "q_inv fo busy sent q"
  shows "q_inv fo busy sent (fq_retire now d q) \<and> queue_of (fq_retire now d q) = queue_of q"
proof (cases "tables q d")
  case (Some t)
  note T = q_invD(6) [OF assms Some]
  show ?thesis
  proof (cases "queue t \<noteq> [] \<or> running t > 0 \<or> retryAt t > now")
    case False
    then have idle: "queue t = []" "busy d = 0" using T by (auto simp: table_inv_def)
    have "d \<in> set (order q)" using q_invD(2) [OF assms] Some by auto
    then obtain i where i: "index_in d (order q) = Some i" using index_in_None [of d "order q"] by auto
    note I = index_in_remove1 [OF i]
    let ?q = "fq_retire now d q"
    have q: "tables ?q = (tables q)(d := None)" "order ?q = remove1 d (order q)" "round ?q = round q"
        "cursor ?q = (if cursor q > i then cursor q - 1 else cursor q)"
      using Some False i I by (simp_all add: fq_retire_def Let_def)
    have "cursor ?q \<le> length (order ?q)"
      using q_invD(3) [OF assms] I \<open>d \<in> set (order q)\<close> by (simp add: q length_remove1) arith
    moreover have "set (order ?q) = dom (tables ?q)" "distinct (order ?q)"
      using q_invD(1,2) [OF assms] by (simp_all add: q set_remove1_eq)
    ultimately have "q_inv fo busy sent ?q"
      using assms idle(2) unfolding q_inv_def by (simp add: q)
    moreover have "queue_of ?q = queue_of q" using Some idle(1) by (auto simp: queue_of_def q fun_eq_iff)
    ultimately show ?thesis by blast
  qed (use Some assms in \<open>auto simp: fq_retire_def\<close>)
qed (simp add: fq_retire_def assms)

lemma fq_retire_candidate: "tables q d = Some t \<Longrightarrow> queue t \<noteq> [] \<Longrightarrow> tables (fq_retire now e q) d = Some t"
  by (auto simp: fq_retire_def Let_def split: option.split)

lemma fq_retire_all_inv:
  assumes "q_inv fo busy sent q"
  shows "q_inv fo busy sent (fold (fq_retire now) ds q) \<and> queue_of (fold (fq_retire now) ds q) = queue_of q \<and>
    (tables q d = Some t \<longrightarrow> queue t \<noteq> [] \<longrightarrow> tables (fold (fq_retire now) ds q) d = Some t)"
  using assms
proof (induction ds arbitrary: q)
  case (Cons e ds)
  note R = fq_retire_inv [OF Cons.prems, of now e]
  show ?case using Cons.IH [of "fq_retire now e q"] R fq_retire_candidate [of q d t now e] by simp
qed simp

lemma ensure_table_inv:
  assumes "q_inv fo busy sent q" and "1 \<le> QueueDepth fo"
  shows "q_inv fo busy sent (ensure_table d q) \<and> queue_of (ensure_table d q) = queue_of q \<and>
    (\<exists>t. tables (ensure_table d q) d = Some t \<and> queue t = queue_of q d) \<and> (e \<noteq> d \<longrightarrow> tables (ensure_table d q) e = tables q e)
    \<and> (tables q e \<noteq> None \<longrightarrow> tables (ensure_table d q) e \<noteq> None)"
proof (cases "tables q d")
  case None
  have "busy d = 0" "sent d \<le> Quantum fo * round q" using q_invD(4,5) [OF assms(1)] None by blast+
  then have "table_inv fo (busy d) (sent d) (round q) d (new_table (round q))"
    using assms(2) by (simp add: table_inv_def new_table_def worker_limit_def)
  moreover have "d \<notin> set (order q)" using q_invD(2) [OF assms(1)] None by auto
  ultimately have "q_inv fo busy sent (ensure_table d q)"
    using None assms(1) unfolding q_inv_def ensure_table_def by auto
  then show ?thesis using None by (auto simp: ensure_table_def queue_of_def new_table_def fun_eq_iff)
next
  case (Some t)
  then show ?thesis using assms(1) by (auto simp: ensure_table_def queue_of_def)
qed

lemma cand_ok_mark: "cand_ok fo cand (mark_candidate cand c q) = cand_ok fo cand q"
proof -
  have "batchBytes (hd (queue (mark_head c t))) = batchBytes (hd (queue t))" if "queue t \<noteq> []" for t
    using that by (cases "queue t") (simp_all add: mark_head_def)
  then show ?thesis
    by (auto simp: cand_ok_def mark_candidate_def mark_head_inv split: option.split)
qed

lemma cand_ok_table: "cand_ok fo cand q \<Longrightarrow> case cand of None \<Rightarrow> True | Some d \<Rightarrow> tables q d \<noteq> None"
  by (auto simp: cand_ok_def split: option.splits)

text \<open>A table whose head is sent pays for it.\<close>

lemma dispatch_inv:
  assumes "q_inv fo busy sent q" and "cand_ok fo (Some d) q" and "b = hd (queue_of q d)" and "0 < Quantum fo"
  shows "batch_dest b = d \<and> q_inv fo (busy(d := busy d + 1)) (sent(d := sent d + batchBytes b)) (update_table dispatch_table d q) \<and>
    queue_of q d = b # queue_of (update_table dispatch_table d q) d"
proof -
  obtain t where t: "tables q d = Some t" "queue t \<noteq> []" "running t < worker_limit fo" "batchBytes (hd (queue t)) \<le> deficit t"
    using assms(2) by (auto simp: cand_ok_def)
  have b: "b = hd (queue t)" using assms(3) t(1) by (simp add: queue_of_def)
  note T = q_invD(6) [OF assms(1) t(1)]
  have qt: "queue t = b # tl (queue t)" using t(2) b by simp
  have bt: "batch_dest b = d" using T t(2) b by (simp add: table_inv_def)
  have sub: "set (tl (queue t)) \<subseteq> set (queue t)" by (meson list.set_sel(2) subsetI tl_Nil t(2))
  have T': "table_inv fo (busy d + 1) (sent d + batchBytes b) (round q) d (dispatch_table t)"
    using T t(2-4) b sub by (auto simp: table_inv_def dispatch_table_def Let_def)
  have "sent d + batchBytes b \<le> Quantum fo * lastRound t" "lastRound t \<le> round q" using T t(4) b by (auto simp: table_inv_def)
  moreover have "sent d + batchBytes b \<le> Quantum fo * round q"
    by (rule order_trans [OF calculation(1)]) (use calculation(2) assms(4) in simp)
  ultimately have "q_inv fo (busy(d := busy d + 1)) (sent(d := sent d + batchBytes b)) (update_table dispatch_table d q)"
    by (intro q_inv_update [OF assms(1) t(1)]) (use T' in simp_all)
  moreover have "queue (dispatch_table t) = tl (queue t)" by (simp add: dispatch_table_def Let_def)
  ultimately show ?thesis using bt t(1) qt b by (simp add: queue_of_update) (simp add: queue_of_def)
qed

lemma done_inv:
  assumes "q_inv fo busy sent q" and "0 < busy d"
  shows "\<exists>t. tables q d = Some t \<and> q_inv fo (busy(d := busy d - 1)) sent (update_table (complete_table now delay) d q) \<and>
    queue_of (update_table (complete_table now delay) d q) = queue_of q"
proof -
  obtain t where t: "tables q d = Some t" using q_invD(5) [OF assms(1), of d] assms(2) by fastforce
  have qt: "queue (complete_table now delay t) = queue t" by (simp add: complete_table_def Let_def)
  have "table_inv fo (busy d - 1) (sent d) (round q) d (complete_table now delay t)"
    using q_invD(6) [OF assms(1) t] assms(2) by (auto simp: table_inv_def complete_table_def Let_def)
  then have "q_inv fo (busy(d := busy d - 1)) sent (update_table (complete_table now delay) d q)"
    by (intro q_inv_update [OF assms(1) t]) (use q_invD(4) [OF assms(1)] in simp_all)
  moreover have "queue_of (update_table (complete_table now delay) d q) = queue_of q"
    using t qt by (auto simp: queue_of_def fun_eq_iff)
  ultimately show ?thesis using t by blast
qed

lemma enqueue_inv:
  assumes "q_inv fo busy sent q" and "tables q d = Some t" and "batch_dest b = d" and "int (length (queue t)) < QueueDepth fo"
  shows "q_inv fo busy sent (update_table (\<lambda>t. t\<lparr>queue := queue t @ [b]\<rparr>) d q)"
  by (rule q_inv_update [where busy = busy and sent = sent and t = t])
     (use assms q_invD(4,6) [OF assms(1)] in \<open>auto simp: table_inv_def\<close>)

text \<open>The counts after an event.\<close>

definition bump :: "'a \<Rightarrow> int \<Rightarrow> ('a \<Rightarrow> int) \<Rightarrow> 'a \<Rightarrow> int" where
  "bump d n f = f(d := f d + n)"

definition busy_after :: "fq_event \<Rightarrow> batch option \<Rightarrow> (destination \<Rightarrow> int) \<Rightarrow> destination \<Rightarrow> int" where
  "busy_after ev out busy =
     (case ev of Done d delay \<Rightarrow> bump d (- 1) busy | _ \<Rightarrow> case out of None \<Rightarrow> busy | Some b \<Rightarrow> bump (batch_dest b) 1 busy)"

definition sent_after :: "batch option \<Rightarrow> (destination \<Rightarrow> int) \<Rightarrow> destination \<Rightarrow> int" where
  "sent_after out sent = (case out of None \<Rightarrow> sent | Some b \<Rightarrow> bump (batch_dest b) (batchBytes b) sent)"

definition added :: "fq_event \<Rightarrow> batch option \<Rightarrow> destination \<Rightarrow> batch list" where
  "added ev rel d = (case ev of Input b \<Rightarrow> if rel = None \<and> batch_dest b = d then [core b] else [] | _ \<Rightarrow> [])"

definition taken :: "batch option \<Rightarrow> destination \<Rightarrow> batch list" where
  "taken out d = (case out of None \<Rightarrow> [] | Some b \<Rightarrow> if batch_dest b = d then [core b] else [])"

text \<open>What an iteration keeps: the invariant with the counts moved on, and every batch in its place in its queue.\<close>

definition handled ::
  "FairQueueOpts \<Rightarrow> (destination \<Rightarrow> int) \<Rightarrow> (destination \<Rightarrow> int) \<Rightarrow> fq_event \<Rightarrow> fq \<Rightarrow> fq \<times> batch option \<times> batch option \<Rightarrow> bool"
where
  "handled fo busy sent ev q r \<longleftrightarrow>
     (case r of (q', out, rel) \<Rightarrow>
        q_inv fo (busy_after ev out busy) (sent_after out sent) q' \<and>
        (\<forall>d. taken out d @ map core (queue_of q' d) = map core (queue_of q d) @ added ev rel d) \<and>
        (\<forall>b. out = Some b \<longrightarrow> completion b = Some (batch_dest b) \<and> ev = Dispatch) \<and>
        (\<forall>b. rel = Some b \<longrightarrow> ev = Input b \<and> int (length (queue_of q (batch_dest b))) \<ge> QueueDepth fo))"

lemma handled_Input:
  assumes "q_inv fo busy sent q" and "cand_ok fo cand q" and "1 \<le> QueueDepth fo"
  shows "handled fo busy sent (Input b) q (fq_handle now fo (Input b) cand q)"
proof -
  let ?q = "mark_candidate cand cand q" and ?d = "batch_dest b"
  let ?e = "ensure_table ?d ?q"
  let ?u = "update_table (\<lambda>t. t\<lparr>queue := queue t @ [b]\<rparr>) ?d ?e"
  have q: "q_inv fo busy sent ?q" using mark_candidate_inv [OF assms(1) cand_ok_table [OF assms(2)]] .
  note E = ensure_table_inv [OF q assms(3), of ?d]
  obtain t where t: "tables ?e ?d = Some t" "queue t = queue_of ?q ?d" using E by blast
  have len: "length (queue t) = length (queue_of q ?d)"
    unfolding t(2) using mark_candidate_queues(1) [of cand cand q ?d] by (metis length_map)
  have same: "map core (queue_of ?e d) = map core (queue_of q d)" for d using E mark_candidate_queues(1) by metis
  have cand: "case cand of None \<Rightarrow> True | Some d \<Rightarrow> tables ?u d \<noteq> None"
    using cand_ok_table [OF assms(2)] mark_candidate_queues(3) [of cand cand q] E by (auto split: option.splits)
  show ?thesis
  proof (cases "int (length (queue t)) \<ge> QueueDepth fo")
    case True
    then have "fq_handle now fo (Input b) cand q = (?e, None, Some b)" using t(1) by (simp add: fq_handle_def Let_def)
    then show ?thesis using E same True len by (simp add: handled_def busy_after_def sent_after_def taken_def added_def)
  next
    case False
    then have h: "fq_handle now fo (Input b) cand q = (mark_candidate cand None ?u, None, None)"
      using t(1) by (simp add: fq_handle_def Let_def)
    have "q_inv fo busy sent ?u" using enqueue_inv [OF _ t(1) refl] False E by simp
    then have "q_inv fo busy sent (mark_candidate cand None ?u)" using mark_candidate_inv cand by blast
    moreover have "map core (queue_of ?u d) = map core (queue_of q d) @ (if ?d = d then [core b] else [])" for d
      using same [of d] same [of ?d] t(1) by (auto simp: queue_of_update queue_of_def split: option.splits)
    ultimately show ?thesis unfolding h
      by (simp add: handled_def busy_after_def sent_after_def taken_def added_def mark_candidate_queues(1))
  qed
qed

lemma handled_Dispatch:
  assumes "q_inv fo busy sent q" and "cand_ok fo cand q" and "0 < Quantum fo"
  shows "handled fo busy sent Dispatch q (fq_handle now fo Dispatch cand q)"
proof (cases cand)
  case None
  then show ?thesis
    using assms(1) by (simp add: fq_handle_def mark_candidate_def handled_def busy_after_def sent_after_def taken_def added_def)
next
  case (Some d)
  let ?q = "mark_candidate cand cand q"
  let ?b = "hd (queue_of ?q d)" and ?u = "update_table dispatch_table d ?q"
  have q: "q_inv fo busy sent ?q" using mark_candidate_inv [OF assms(1) cand_ok_table [OF assms(2)]] .
  have c: "cand_ok fo (Some d) ?q" using assms(2) cand_ok_mark [of fo cand cand q] Some by simp
  then obtain t where t: "tables ?q d = Some t" by (auto simp: cand_ok_def)
  then have h: "fq_handle now fo Dispatch cand q = (?u, Some ?b, None)"
    using Some by (simp add: fq_handle_def Let_def queue_of_def)
  note D = dispatch_inv [OF q c refl assms(3)]
  have "completion ?b = Some d"
    using assms(2) Some by (auto simp: cand_ok_def mark_candidate_def queue_of_update mark_head_def split: list.splits)
  moreover have "taken (Some ?b) e @ map core (queue_of ?u e) = map core (queue_of q e)" for e
  proof (cases "e = d")
    case True
    then have "taken (Some ?b) e @ map core (queue_of ?u e) = core ?b # map core (queue_of ?u d)" using D by (simp add: taken_def)
    also have "\<dots> = map core (queue_of ?q d)"
      using arg_cong [OF conjunct2 [OF conjunct2 [OF D]], of "map core"] by (simp only: list.map)
    finally have "taken (Some ?b) e @ map core (queue_of ?u e) = map core (queue_of ?q d)" .
    then show ?thesis using True mark_candidate_queues(1) by metis
  next
    case False
    then show ?thesis using D mark_candidate_queues(1) [of cand cand q e] by (simp add: taken_def queue_of_update)
  qed
  ultimately show ?thesis unfolding h
    using D by (simp add: handled_def busy_after_def sent_after_def bump_def added_def)
qed

lemma handled_rest:
  assumes "q_inv fo busy' sent q'" and "\<And>d. map core (queue_of q' d) = map core (queue_of q d)" and "cand_ok fo cand q"
    and "\<And>d. queue_of q' d \<noteq> [] \<Longrightarrow> tables q' d \<noteq> None" and "busy_after ev None busy = busy'" and "\<forall>b. ev \<noteq> Input b"
  shows "handled fo busy sent ev q (mark_candidate cand None q', None, None)"
proof -
  have "case cand of None \<Rightarrow> True | Some d \<Rightarrow> tables q' d \<noteq> None"
  proof (cases cand)
    case (Some d)
    then have "queue_of q d \<noteq> []" using assms(3) by (auto simp: cand_ok_def queue_of_def)
    then have "queue_of q' d \<noteq> []" using assms(2) [of d] by auto
    then show ?thesis using assms(4) Some by simp
  qed simp
  then have "q_inv fo busy' sent (mark_candidate cand None q')" using mark_candidate_inv assms(1) by blast
  then show ?thesis using assms(2,5,6)
    by (cases ev) (simp_all add: handled_def sent_after_def taken_def added_def mark_candidate_queues(1))
qed

lemma queue_of_table: "queue_of q d \<noteq> [] \<Longrightarrow> tables q d \<noteq> None"
  by (auto simp: queue_of_def split: option.splits)

lemma handled_ok:
  assumes "q_inv fo busy sent q" and "cand_ok fo cand q" and "1 \<le> QueueDepth fo" and "0 < Quantum fo"
    and "\<forall>d delay. ev = Done d delay \<longrightarrow> 0 < busy d"
  shows "handled fo busy sent ev q (fq_handle now fo ev cand q)"
proof -
  let ?q = "mark_candidate cand cand q"
  have q: "q_inv fo busy sent ?q" using mark_candidate_inv [OF assms(1) cand_ok_table [OF assms(2)]] .
  show ?thesis
  proof (cases ev)
    case InputNil
    then show ?thesis using q
      by (simp add: fq_handle_def handled_def busy_after_def sent_after_def taken_def added_def mark_candidate_queues(1))
  next
    case (Done d delay)
    obtain t where t: "tables ?q d = Some t"
        "q_inv fo (busy(d := busy d - 1)) sent (update_table (complete_table now delay) d ?q)"
        "queue_of (update_table (complete_table now delay) d ?q) = queue_of ?q"
      using done_inv [OF q] assms(5) Done by blast
    note R = fq_retire_inv [OF t(2), of now d]
    have "fq_handle now fo ev cand q = (mark_candidate cand None (fq_retire now d (update_table (complete_table now delay) d ?q)), None, None)"
      using Done t(1) by (simp add: fq_handle_def Let_def)
    then show ?thesis
      using handled_rest [OF conjunct1 [OF R] _ assms(2) queue_of_table, of ev busy] R t(3) Done
      by (simp add: mark_candidate_queues(1) busy_after_def bump_def)
  next
    case Tick
    note R = fq_retire_all_inv [OF q, of now "order ?q"]
    have "fq_handle now fo ev cand q = (mark_candidate cand None (fold (fq_retire now) (order ?q) ?q), None, None)"
      using Tick by (simp add: fq_handle_def Let_def)
    then show ?thesis
      using handled_rest [OF conjunct1 [OF R] _ assms(2) queue_of_table, of ev busy] R Tick
      by (simp add: mark_candidate_queues(1) busy_after_def)
  qed (use handled_Input handled_Dispatch assms in blast)+
qed

definition bytes_to :: "destination \<Rightarrow> batch list \<Rightarrow> int" where
  "bytes_to d bs = sum_list (map batchBytes (filter (\<lambda>b. batch_dest b = d) bs))"

definition fq_inv :: "FairQueueOpts \<Rightarrow> fq_sys \<Rightarrow> bool" where
  "fq_inv fo s \<longleftrightarrow>
     q_inv fo (\<lambda>d. int (count (fs_flight s) d)) (\<lambda>d. bytes_to d (fs_sent s)) (fs_q s) \<and>
     (\<forall>d. map core (filter (\<lambda>b. batch_dest b = d) (fs_accepted s)) =
        map core (filter (\<lambda>b. batch_dest b = d) (fs_sent s)) @ map core (queue_of (fs_q s) d)) \<and>
     (\<forall>b \<in> set (fs_sent s). completion b = Some (batch_dest b))"

lemma withDefaults_ok:
  "1 \<le> Workers (withDefaults fo)" "0 < Quantum (withDefaults fo)" "1 \<le> QueueDepth (withDefaults fo)"
  "1 < Workers fo \<Longrightarrow> worker_limit (withDefaults fo) < Workers (withDefaults fo)"
  by (auto simp: withDefaults_def worker_limit_def Let_def)

lemma fq_inv_step:
  assumes "fq_step fo s s'" and "fq_inv fo s" and "1 \<le> QueueDepth fo" and "0 < Quantum fo"
  shows "fq_inv fo s'"
proof -
  obtain now now' ev where 1: "s' = fq_record ev (fq_iteration now now' fo ev (fs_q s)) s"
      "\<forall>d delay. ev = Done d delay \<longrightarrow> d \<in># fs_flight s"
    using assms(1) by (auto elim: fq_stepE)
  define r where "r = fq_iteration now now' fo ev (fs_q s)"
  let ?busy = "\<lambda>d. int (count (fs_flight s) d)" and ?sent = "\<lambda>d. bytes_to d (fs_sent s)"
  have q: "q_inv fo ?busy ?sent (fs_q s)" using assms(2) by (simp add: fq_inv_def)
  obtain cand q1 where c: "selectCandidate now (worker_limit fo) (Quantum fo) (fs_q s) = (cand, q1)" by fastforce
  note S = select_loop_inv [OF q assms(4) c [unfolded selectCandidate_def]]
  have r: "r = fq_handle now' fo ev cand q1" using c by (simp add: fq_iteration_def r_def)
  have "\<forall>d delay. ev = Done d delay \<longrightarrow> 0 < ?busy d" using 1(2) by simp
  then have H: "handled fo ?busy ?sent ev q1 r" unfolding r using handled_ok S assms(3,4) by blast
  obtain q' out rel where r': "r = (q', out, rel)" by (cases r)
  have H: "q_inv fo (busy_after ev out ?busy) (sent_after out ?sent) q'"
      "\<And>d. taken out d @ map core (queue_of q' d) = map core (queue_of (fs_q s) d) @ added ev rel d"
      "\<And>b. out = Some b \<Longrightarrow> completion b = Some (batch_dest b) \<and> ev = Dispatch"
    using H S unfolding handled_def r' by simp_all
  have flight: "(\<lambda>d. int (count (fs_flight s') d)) = busy_after ev out ?busy"
    using 1(1,2) H(3) unfolding r_def [symmetric] r'
    by (auto simp: fun_eq_iff fq_record_def busy_after_def bump_def of_nat_diff Suc_le_eq
        split: fq_event.splits option.splits)
  have sent: "(\<lambda>d. bytes_to d (fs_sent s')) = sent_after out ?sent"
    using 1(1) unfolding r_def [symmetric] r' by (auto simp: fun_eq_iff fq_record_def sent_after_def bump_def bytes_to_def split: option.splits)
  have s': "fs_q s' = q'" "fs_sent s' = fs_sent s @ (case out of None \<Rightarrow> [] | Some b \<Rightarrow> [b])"
      "fs_accepted s' = fs_accepted s @ (case ev of Input b \<Rightarrow> if rel = None then [b] else [] | _ \<Rightarrow> [])"
    using 1(1) unfolding r_def [symmetric] r' by (simp_all add: fq_record_def)
  have tk: "taken out d = map core (filter (\<lambda>b. batch_dest b = d) (case out of None \<Rightarrow> [] | Some b \<Rightarrow> [b]))" for d
    by (simp add: taken_def split: option.split)
  have ad: "added ev rel d = map core (filter (\<lambda>b. batch_dest b = d) (case ev of Input b \<Rightarrow> if rel = None then [b] else [] | _ \<Rightarrow> []))" for d
    by (auto simp: added_def split: fq_event.split)
  have "map core (filter (\<lambda>b. batch_dest b = d) (fs_accepted s')) =
      map core (filter (\<lambda>b. batch_dest b = d) (fs_sent s')) @ map core (queue_of q' d)" for d
    using assms(2) H(2) [of d] unfolding s' tk ad fq_inv_def by simp
  moreover have "\<forall>b \<in> set (fs_sent s'). completion b = Some (batch_dest b)"
    using assms(2) H(3) unfolding s' fq_inv_def by (auto split: option.splits)
  ultimately show ?thesis using H(1) unfolding fq_inv_def flight sent s'(1) by blast
qed

text \<open>The queue with its default options is a step system with this invariant.\<close>

interpretation fair: step_system fq_start "fq_step (withDefaults fo)" "fq_inv (withDefaults fo)" for fo
proof
  show "fq_inv (withDefaults fo) s" if "fq_start s" for s
    using that by (simp add: fq_start_def fq_inv_def fq_init_def q_inv_def queue_of_def bytes_to_def)
  show "fq_inv (withDefaults fo) s'" if "fq_step (withDefaults fo) s s'" "fq_inv (withDefaults fo) s" for s s'
    using fq_inv_step [OF that] withDefaults_ok by blast
qed

section \<open>The scheduler finds work\<close>

text \<open>How many visits the cursor needs to come to position \<open>p\<close> of \<open>l\<close>.\<close>

definition dist_to :: "nat \<Rightarrow> nat \<Rightarrow> nat \<Rightarrow> nat" where
  "dist_to l p c = (if c \<le> p then p - c else l - c + p)"

text \<open>The next visit to the table surely earns it a quantum.\<close>

definition earns :: "nat \<Rightarrow> fairTable \<Rightarrow> fq \<Rightarrow> bool" where
  "earns p t q \<longleftrightarrow> p < cursor q \<or> lastRound t \<noteq> round q"

lemma visit_other:
  assumes "visit now limit quantum q = (None, q')" and "cursor q \<le> length (order q)" and "p < length (order q)"
    and "distinct (order q)" and "tables q (order q ! p) = Some t" and "lastRound t \<le> round q" and "dist_to (length (order q)) p (cursor q) = Suc n"
  shows "order q' = order q \<and> cursor q' \<le> length (order q) \<and> tables q' (order q ! p) = Some t \<and> lastRound t \<le> round q' \<and>
    dist_to (length (order q)) p (cursor q') = n \<and> (earns p t q \<longrightarrow> earns p t q')"
proof -
  let ?l = "length (order q)"
  let ?c = "if cursor q \<ge> ?l then 0 else cursor q"
  have c: "?c < ?l" "?c \<noteq> p" using assms(2,3,7) by (auto simp: dist_to_def split: if_splits)
  then have other: "order q ! ?c \<noteq> order q ! p" using assms(3,4) nth_eq_iff_index_eq by blast
  have w: "cursor (wrap q) = ?c" "order (wrap q) = order q" "tables (wrap q) = tables q"
      "round (wrap q) = (if cursor q \<ge> ?l then round q + 1 else round q)"
    by (simp_all add: wrap_def)
  have v: "order q' = order q" "cursor q' = ?c + 1" "round q' = round (wrap q)" "tables q' (order q ! p) = Some t"
    using assms(1,5) w other by (auto simp: visit_def Let_def split: if_splits)
  have "dist_to ?l p (?c + 1) = n" using assms(2,3,7) c by (auto simp: dist_to_def split: if_splits)
  moreover have "earns p t q \<Longrightarrow> earns p t q'" using v w(4) assms(2,3,6) by (auto simp: earns_def)
  ultimately show ?thesis using v c assms(6) w(4) by auto
qed

lemma visit_self:
  assumes "visit now limit quantum q = (None, q')" and "cursor q \<le> length (order q)" and "p < length (order q)"
    and "tables q (order q ! p) = Some t" and "lastRound t \<le> round q" and "dist_to (length (order q)) p (cursor q) = 0"
    and "\<not> skipped now limit (Some t)" and "0 < quantum"
  shows "order q' = order q \<and> cursor q' \<le> length (order q) \<and> dist_to (length (order q)) p (cursor q') = length (order q) - 1 \<and>
    (\<exists>t'. tables q' (order q ! p) = Some t' \<and> queue t' = queue t \<and> \<not> skipped now limit (Some t') \<and> lastRound t' \<le> round q' \<and> earns p t' q' \<and>
       deficit t' < batchBytes (hd (queue t)) \<and> deficit t + (if earns p t q then quantum else 0) \<le> deficit t')"
proof -
  let ?l = "length (order q)"
  have c: "(if cursor q \<ge> ?l then 0 else cursor q) = p" using assms(2,3,6) by (auto simp: dist_to_def split: if_splits)
  have w: "cursor (wrap q) = p" "order (wrap q) = order q" "tables (wrap q) = tables q"
      "round (wrap q) = (if cursor q \<ge> ?l then round q + 1 else round q)"
    using c by (auto simp: wrap_def)
  let ?t = "credit (round (wrap q)) quantum t"
  have t': "queue ?t = queue t" "running ?t = running t" "retryAt ?t = retryAt t" "lastRound ?t = round (wrap q)"
    by (simp_all add: credit_def)
  have q': "q' = (wrap q)\<lparr>tables := (tables q)(order q ! p \<mapsto> ?t), cursor := p + 1\<rparr>" "deficit ?t < batchBytes (hd (queue ?t))"
    using assms(1,4,7) w by (auto simp: visit_def Let_def split: if_splits)
  have "earns p t q \<Longrightarrow> lastRound t \<noteq> round (wrap q)"
    using assms(2,3,5,6) w(4) by (auto simp: earns_def dist_to_def split: if_splits)
  then have "deficit t + (if earns p t q then quantum else 0) \<le> deficit ?t" using assms(8) by (auto simp: credit_def)
  then show ?thesis using q' t' assms(3,7) w by (auto simp: earns_def skipped_def dist_to_def)
qed

text \<open>
  Within \<open>dist + 1 + k\<close> rounds of visits a candidate is found, when \<open>k\<close> further quanta (and the next one, if it is sure) pay for the
  head of the queue.
\<close>

lemma select_loop_finds:
  assumes "cursor q \<le> length (order q)" and "distinct (order q)" and "p < length (order q)"
    and "tables q (order q ! p) = Some t" and "lastRound t \<le> round q" and "\<not> skipped now limit (Some t)" and "0 < quantum"
    and "batchBytes (hd (queue t)) \<le> deficit t + int k * quantum + (if earns p t q then quantum else 0)"
    and "dist_to (length (order q)) p (cursor q) + 1 + k * length (order q) \<le> n"
  shows "fst (select_loop n now limit quantum q) \<noteq> None"
  using assms
proof (induction n arbitrary: q k t)
  case 0
  then show ?case by simp
next
  case (Suc n)
  obtain c q' where v: "visit now limit quantum q = (c, q')" by fastforce
  have ne: "order q \<noteq> []" using Suc.prems(3) by auto
  show ?case
  proof (cases c)
    case None
    note v = v [unfolded None]
    have loop: "select_loop (Suc n) now limit quantum q = select_loop n now limit quantum q'" using ne v by simp
    show ?thesis
    proof (cases "dist_to (length (order q)) p (cursor q)")
      case 0
      then obtain t' where V: "order q' = order q" "cursor q' \<le> length (order q)" "dist_to (length (order q)) p (cursor q') = length (order q) - 1"
          "tables q' (order q ! p) = Some t'" "queue t' = queue t" "\<not> skipped now limit (Some t')" "lastRound t' \<le> round q'" "earns p t' q'"
          "deficit t' < batchBytes (hd (queue t))" "deficit t + (if earns p t q then quantum else 0) \<le> deficit t'"
        using visit_self [OF v Suc.prems(1,3,4,5) 0 Suc.prems(6,7)] by blast
      obtain j where k: "k = Suc j" using Suc.prems(8) V(9,10) by (cases k) auto
      have "batchBytes (hd (queue t')) \<le> deficit t' + int j * quantum + (if earns p t' q' then quantum else 0)"
        using Suc.prems(8) V(5,8,10) k by (simp add: algebra_simps)
      then show ?thesis unfolding loop
        using Suc.IH [of q' t' j] V Suc.prems(2,3,7,9) k 0 by simp
    next
      case (Suc m)
      note V = visit_other [OF v Suc.prems(1,3,2,4,5) Suc]
      have "batchBytes (hd (queue t)) \<le> deficit t + int k * quantum + (if earns p t q' then quantum else 0)"
        using Suc.prems(7,8) V by (auto split: if_splits)
      then show ?thesis unfolding loop
        using Suc.IH [of q' t k] V Suc.prems(2,3,6,7,9) Suc by simp
    qed
  qed (use ne v in simp)
qed

text \<open>Calling \<open>selectCandidate\<close> again and again while nothing else happens, as the ticker does.\<close>

fun polls :: "nat \<Rightarrow> gotime \<Rightarrow> int \<Rightarrow> int \<Rightarrow> fq \<Rightarrow> destination option \<times> fq" where
  "polls 0 now limit quantum q = (None, q)"
| "polls (Suc n) now limit quantum q =
     (case selectCandidate now limit quantum q of (Some d, q) \<Rightarrow> (Some d, q) | (None, q) \<Rightarrow> polls n now limit quantum q)"

lemma visit_order: "order (snd (visit now limit quantum q)) = order q"
  by (simp add: visit_def Let_def wrap_def)

lemma select_loop_order: "order (snd (select_loop n now limit quantum q)) = order q"
proof (induction n arbitrary: q)
  case (Suc n)
  then show ?case using visit_order [of now limit quantum q] by (auto split: prod.split option.split)
qed simp

lemma select_loop_add:
  "select_loop (a + b) now limit quantum q =
     (case select_loop a now limit quantum q of (Some d, q) \<Rightarrow> (Some d, q) | (None, q) \<Rightarrow> select_loop b now limit quantum q)"
proof (induction a arbitrary: q)
  case (Suc a)
  have "order q = [] \<Longrightarrow> select_loop b now limit quantum q = (None, q)" by (cases b) simp_all
  then show ?case using Suc by (auto split: prod.split option.split)
qed simp

lemma polls_eq: "polls n now limit quantum q = select_loop (n * (length (order q) + 1)) now limit quantum q"
proof (induction n arbitrary: q)
  case (Suc n)
  obtain c q' where c: "selectCandidate now limit quantum q = (c, q')" by fastforce
  then have "order q' = order q" using select_loop_order by (metis selectCandidate_def snd_conv)
  moreover have "Suc n * (length (order q) + 1) = (length (order q) + 1) + n * (length (order q) + 1)" by simp
  ultimately show ?case
    using c Suc [of q'] select_loop_add [of "length (order q) + 1" "n * (length (order q) + 1)" now limit quantum q]
    by (simp only: polls.simps selectCandidate_def prod.case)
qed simp

section \<open>Stopping\<close>

text \<open>When the queue stops, every batch it holds and every batch in the input channel gives its claims back, and no other claim changes.\<close>

lemma release_all:
  "m \<noteq> [] \<Longrightarrow> \<forall>b \<in> set bs. \<not> released b \<Longrightarrow>
   claimed h (fold (\<lambda>b m. fst (snd (batch_Release h b m))) bs m) p = (if p \<in> Path ` set (concat (map Segs bs)) then 0 else claimed h m p)"
proof (induction bs arbitrary: m)
  case (Cons b bs)
  have r: "fst (snd (batch_Release h b m)) = batcher_Release h b m" using Cons.prems(2) by (simp add: batch_Release_def)
  note C = claimed_Release [OF Cons.prems(1), of h b]
  show ?case using Cons.IH [of "batcher_Release h b m"] Cons.prems(2) C by (auto simp: r)
qed simp

lemma fq_shutdown_releases:
  assumes "m \<noteq> []" and "iterates ks (tables q)" and "\<forall>d. \<forall>b \<in> set (queue_of q d). \<not> released b" and "\<forall>b. Some b \<in> set input \<longrightarrow> \<not> released b"
  shows "claimed h (fq_shutdown h ks input q m) p =
    (if \<exists>b. ((\<exists>d. b \<in> set (queue_of q d)) \<or> Some b \<in> set input) \<and> p \<in> Path ` set (Segs b) then 0 else claimed h m p)"
proof -
  let ?held = "concat (map (\<lambda>d. queue (the (tables q d))) ks)" and ?in = "concat (map (case_option [] (\<lambda>b. [b])) input)"
  let ?bs = "map (\<lambda>b. b\<lparr>completion := None\<rparr>) ?held @ ?in"
  have held: "b \<in> set ?held \<longleftrightarrow> (\<exists>d. b \<in> set (queue_of q d))" for b
  proof -
    have "b \<in> set (queue_of q d) \<longleftrightarrow> d \<in> set ks \<and> b \<in> set (queue (the (tables q d)))" for d
      using iterates_mem [OF assms(2), of d] by (auto simp: queue_of_def)
    then show ?thesis by auto
  qed
  have inp: "b \<in> set ?in \<longleftrightarrow> Some b \<in> set input" for b by (force split: option.splits)
  have "\<forall>b \<in> set ?held. \<not> released b" using held assms(3) by blast
  moreover have "\<forall>b \<in> set ?in. \<not> released b" using inp assms(4) by blast
  ultimately have "\<forall>b \<in> set ?bs. \<not> released b" unfolding set_append set_map by fastforce
  from release_all [OF assms(1) this, of h p]
  have "claimed h (fq_shutdown h ks input q m) p = (if p \<in> Path ` set (concat (map Segs ?bs)) then 0 else claimed h m p)"
    unfolding fq_shutdown_def .
  moreover have "p \<in> Path ` set (concat (map Segs ?bs)) \<longleftrightarrow> (\<exists>b. (b \<in> set ?held \<or> b \<in> set ?in) \<and> p \<in> Path ` set (Segs b))"
    by (simp only: set_concat set_map set_append) (auto 4 3)
  ultimately show ?thesis unfolding held inp by simp
qed

section \<open>Properties\<close>

text \<open>
  C37. The invariant of the scheduler. In every reachable state the destinations in rotation are those with a table, once
  each; a table's running count is the number of its batches that workers hold and never exceeds the limit, which leaves a worker of
  a larger pool free (also when it is the only one with work, where the comment on \<open>FairQueue\<close> promises it the whole pool); its queue is within the bound; what was sent for a destination, followed by its queue, is exactly what was accepted for it, in
  order; every batch a worker holds reports back to its own destination; and no destination was sent more than a quantum per round.
\<close>

theorem fair_queue_invariant:
  assumes "fq_start s" and "(fq_step (withDefaults fo))\<^sup>*\<^sup>* s s'"
  shows "distinct (order (fs_q s')) \<and> set (order (fs_q s')) = dom (tables (fs_q s')) \<and>
    (\<forall>d t. tables (fs_q s') d = Some t \<longrightarrow>
       running t = int (count (fs_flight s') d) \<and> running t \<le> worker_limit (withDefaults fo) \<and>
       int (length (queue t)) \<le> QueueDepth (withDefaults fo) \<and> 0 \<le> deficit t) \<and>
    (1 < Workers fo \<longrightarrow> worker_limit (withDefaults fo) < Workers fo) \<and>
    (\<forall>d. map core (filter (\<lambda>b. batch_dest b = d) (fs_accepted s')) =
       map core (filter (\<lambda>b. batch_dest b = d) (fs_sent s') @ queue_of (fs_q s') d)) \<and>
    (\<forall>b \<in> set (fs_sent s'). completion b = Some (batch_dest b)) \<and>
    (\<forall>d. bytes_to d (fs_sent s') \<le> Quantum (withDefaults fo) * round (fs_q s'))"
proof -
  have inv: "fq_inv (withDefaults fo) s'" using fair.reachable_inv [OF assms] .
  have q: "q_inv (withDefaults fo) (\<lambda>d. int (count (fs_flight s') d)) (\<lambda>d. bytes_to d (fs_sent s')) (fs_q s')"
    using inv by (simp add: fq_inv_def)
  have "1 < Workers fo \<Longrightarrow> worker_limit (withDefaults fo) < Workers fo"
    by (auto simp: withDefaults_def worker_limit_def Let_def)
  moreover have "tables (fs_q s') d = Some t \<Longrightarrow> running t = int (count (fs_flight s') d) \<and> running t \<le> worker_limit (withDefaults fo) \<and>
       int (length (queue t)) \<le> QueueDepth (withDefaults fo) \<and> 0 \<le> deficit t" for d t
    using q_invD(6) [OF q, of d t] by (simp add: table_inv_def)
  ultimately show ?thesis using inv q_invD(1,2,4) [OF q] unfolding fq_inv_def map_append by blast
qed

text \<open>
  C38. The scheduler does not starve. In every reachable state, when some table has work, a free worker and no pending retry,
  and \<open>k\<close> further quanta pay for its next batch, then one of the next \<open>k + 1\<close> calls of \<open>selectCandidate\<close> returns a batch to
  dispatch, whatever the position of the cursor and however many other tables there are.
\<close>

theorem fair_queue_finds_work:
  assumes "fq_start s" and "(fq_step (withDefaults fo))\<^sup>*\<^sup>* s s'" and "tables (fs_q s') d = Some t"
    and "queue t \<noteq> []" and "running t < worker_limit (withDefaults fo)" and "retryAt t \<le> now"
    and "batchBytes (hd (queue t)) \<le> deficit t + int k * Quantum (withDefaults fo)"
  shows "fst (polls (k + 1) now (worker_limit (withDefaults fo)) (Quantum (withDefaults fo)) (fs_q s')) \<noteq> None"
proof -
  let ?q = "fs_q s'" and ?Q = "Quantum (withDefaults fo)"
  let ?l = "length (order ?q)"
  have q: "q_inv (withDefaults fo) (\<lambda>d. int (count (fs_flight s') d)) (\<lambda>d. bytes_to d (fs_sent s')) ?q"
    using fair.reachable_inv [OF assms(1,2)] by (simp add: fq_inv_def)
  have "d \<in> set (order ?q)" using q_invD(2) [OF q] assms(3) by auto
  then obtain p where p: "p < ?l" "order ?q ! p = d" by (auto simp: in_set_conv_nth)
  have "\<not> skipped now (worker_limit (withDefaults fo)) (Some t)" using assms(4-6) by (simp add: skipped_def)
  moreover have "lastRound t \<le> round ?q" using q_invD(6) [OF q assms(3)] by (simp add: table_inv_def)
  moreover have "batchBytes (hd (queue t)) \<le> deficit t + int k * ?Q + (if earns p t ?q then ?Q else 0)"
    using assms(7) withDefaults_ok(2) [of fo] by simp
  moreover have "dist_to ?l p (cursor ?q) + 1 + k * ?l \<le> (k + 1) * (?l + 1)"
    using p(1) by (auto simp: dist_to_def)
  ultimately show ?thesis unfolding polls_eq
    using select_loop_finds [OF q_invD(3,1) [OF q] p(1)] assms(3) p(2) withDefaults_ok(2) by blast
qed

text \<open>One table with one batch of ten bytes, three workers.\<close>

definition demo_batch :: batch where
  "demo_batch = new_batch ''A_B'' ''A'' ''B'' PriorityQueued [demo_seg ''A_B'' ''A_B_1.wal'' 10 5]"

definition demo_fo :: FairQueueOpts where
  "demo_fo = \<lparr>Workers = 3, Quantum = 0, QueueDepth = 0, Reserved = 0\<rparr>"

definition demo_sys :: fq_sys where
  "demo_sys = \<lparr>fs_q = fq_init, fs_flight = {#}, fs_accepted = [], fs_sent = [], fs_dropped = []\<rparr>"

definition demo_queued :: fq_sys where
  "demo_queued = fq_record (Input demo_batch) (fq_iteration 0 0 (withDefaults demo_fo) (Input demo_batch) fq_init) demo_sys"

definition demo_sent :: fq_sys where
  "demo_sent = fq_record Dispatch (fq_iteration 0 0 (withDefaults demo_fo) Dispatch (fs_q demo_queued)) demo_queued"

lemma demo_states:
  "tables (fs_q demo_queued) = [\<lparr>Database = ''A'', Table = ''B''\<rparr> \<mapsto> \<lparr>queue = [demo_batch], running = 0, deficit = 0, lastRound = 0, retryAt = 0\<rparr>]"
  "fst (snd (fq_iteration 0 0 (withDefaults demo_fo) Dispatch (fs_q demo_queued))) = Some (demo_batch\<lparr>completion := Some \<lparr>Database = ''A'', Table = ''B''\<rparr>\<rparr>)"
  "fs_sent demo_queued = []"
  by (simp_all add: demo_queued_def fq_record_def demo_sys_def fq_iteration_def selectCandidate_def fq_init_def fq_handle_def Let_def batch_dest_def
      demo_batch_def new_batch_def ensure_table_def update_table_def mark_candidate_def mark_head_def new_table_def
      demo_fo_def withDefaults_def worker_limit_def visit_def wrap_def skipped_def credit_def batchBytes_def size_of_def demo_seg_def)

lemma demo_steps: "fq_start demo_sys" "fq_step (withDefaults demo_fo) demo_sys demo_queued" "fq_step (withDefaults demo_fo) demo_queued demo_sent"
proof -
  show "fq_start demo_sys" by (simp add: fq_start_def demo_sys_def)
  show "fq_step (withDefaults demo_fo) demo_sys demo_queued"
    unfolding demo_queued_def by (rule fq_step.intros [where now = 0 and now' = 0]) (simp_all add: demo_sys_def)
  show "fq_step (withDefaults demo_fo) demo_queued demo_sent"
    unfolding demo_sent_def by (rule fq_step.intros [where now = 0 and now' = 0]) (simp_all add: demo_states)
qed

theorem fair_queue_invariant_witness:
  "length (fs_sent demo_sent) = 1 \<and>
   bytes_to \<lparr>Database = ''A'', Table = ''B''\<rparr> (fs_sent demo_sent) \<le> Quantum (withDefaults demo_fo) * round (fs_q demo_sent)"
proof -
  have "(fq_step (withDefaults demo_fo))\<^sup>*\<^sup>* demo_sys demo_sent" using demo_steps(2,3) by (meson rtranclp.simps)
  note F = fair_queue_invariant [OF demo_steps(1) this]
  have "length (fs_sent demo_sent) = 1"
    using demo_states(2,3) by (auto simp: demo_sent_def fq_record_def split: prod.splits)
  then show ?thesis using F by blast
qed

theorem fair_queue_finds_work_witness:
  "fst (polls 2 0 (worker_limit (withDefaults demo_fo)) (Quantum (withDefaults demo_fo)) (fs_q demo_queued)) \<noteq> None"
proof -
  have "(fq_step (withDefaults demo_fo))\<^sup>*\<^sup>* demo_sys demo_queued" using demo_steps(2) by simp
  note F = fair_queue_finds_work [OF demo_steps(1) this, where k = 1 and now = 0]
  show ?thesis
    using F [of "\<lparr>Database = ''A'', Table = ''B''\<rparr>" "\<lparr>queue = [demo_batch], running = 0, deficit = 0, lastRound = 0, retryAt = 0\<rparr>"]
    by (simp add: demo_states demo_fo_def withDefaults_def worker_limit_def Let_def demo_batch_def new_batch_def demo_seg_def batchBytes_def size_of_def
        numeral_2_eq_2)
qed

end
