(* ===== verification/EventBatcher.thy ===== *)
theory EventBatcher
  imports Batcher "HOL-Library.Multiset"
begin

text \<open>
  Batching segments as they close, \<open>ingestor/cluster/event_batcher.go\<close>, with its two policies \<open>queued_batcher.go\<close> and
  \<open>realtime_batcher.go\<close>: the prefixes that are pending with their deadlines, the back-off of prefixes whose batches fail, and the
  emitter that turns the free segments of a due prefix into batches.

  Locks are held for short sections only, so that segments close, batches are released and prefixes are marked between the
  sections of the emitter. The step relation \<open>ev_step\<close> has one step per section. The sequence number is a natural number: it does not
  come to \<open>2\<^sup>6\<^sup>4\<close>.
\<close>

section \<open>State\<close>

record pendingPrefix =
  pp_deadline :: gotime
  pp_retryAfter :: gotime
  pp_seq :: nat

datatype eventPolicy = QueuedPolicy duration | RealtimePolicy duration int

record eventBatcher =
  policy :: eventPolicy
  eb_retryDelay :: duration
  maxRetryDelay :: duration
  eb_seq :: nat
  pending :: "string \<rightharpoonup> pendingPrefix"
  releases :: "string \<rightharpoonup> int"

definition defaultEventRetryDelay :: duration where "defaultEventRetryDelay = second"

definition queuedSweepInterval :: duration where "queuedSweepInterval = 60 * second"

definition newEventBatcher :: "eventPolicy \<Rightarrow> eventBatcher" where
  "newEventBatcher p =
     \<lparr>policy = p, eb_retryDelay = defaultEventRetryDelay, maxRetryDelay = 0, eb_seq = 0, pending = Map.empty, releases = Map.empty\<rparr>"

definition newQueuedBatcher :: "duration \<Rightarrow> eventBatcher" where
  "newQueuedBatcher linger = (newEventBatcher (QueuedPolicy linger))\<lparr>maxRetryDelay := queuedSweepInterval\<rparr>"

definition newRealtimeBatcher :: "duration \<Rightarrow> int \<Rightarrow> eventBatcher" where
  "newRealtimeBatcher latency bytes = newEventBatcher (RealtimePolicy latency bytes)"

definition realtime_enabled :: "duration \<Rightarrow> int \<Rightarrow> bool" where
  "realtime_enabled latency bytes \<longleftrightarrow> latency > 0 \<and> bytes > 0"

section \<open>Policies\<close>

definition accepts :: "batcher \<Rightarrow> eventPolicy \<Rightarrow> segment_info \<Rightarrow> bool" where
  "accepts bc p si =
     (case p of
        QueuedPolicy _ \<Rightarrow> SPriority si \<noteq> PriorityRealtime \<or> \<not> has_realtime bc
      | RealtimePolicy _ _ \<Rightarrow> SPriority si = PriorityRealtime)"

definition maxLatency :: "eventPolicy \<Rightarrow> duration" where
  "maxLatency p = (case p of QueuedPolicy linger \<Rightarrow> linger | RealtimePolicy latency _ \<Rightarrow> latency)"

definition sizeTrigger :: "batcher \<Rightarrow> eventPolicy \<Rightarrow> int" where
  "sizeTrigger bc p = (case p of QueuedPolicy _ \<Rightarrow> minUploadSize bc | RealtimePolicy _ bytes \<Rightarrow> bytes)"

text \<open>The loop of \<open>realtimePolicy.batches\<close>: \<open>cur\<close> is the batch that grows, \<open>done\<close> those before it.\<close>

fun realtime_loop ::
  "hash \<Rightarrow> batcher \<Rightarrow> int \<Rightarrow> segment_info list \<Rightarrow> segment_info list list \<Rightarrow> segment_info list option \<Rightarrow> int \<Rightarrow> claims \<Rightarrow> segment_info list list \<times> claims"
where
  "realtime_loop h bc limit [] batches cur sz m = (batches @ (case cur of None \<Rightarrow> [] | Some c \<Rightarrow> [c]), m)"
| "realtime_loop h bc limit (si # sis) batches cur sz m =
     (case cur of
        None \<Rightarrow> realtime_loop h bc limit sis batches (Some [si]) (Size si) (claim h si m)
      | Some c \<Rightarrow>
          if sz + Size si > limit \<or> length c \<ge> maxBatchSegments bc
          then realtime_loop h bc limit sis (batches @ [c]) (Some [si]) (Size si) (claim h si m)
          else realtime_loop h bc limit sis batches (Some (c @ [si])) (sz + Size si) (claim h si m))"

definition realtime_batches :: "hash \<Rightarrow> batcher \<Rightarrow> int \<Rightarrow> string \<Rightarrow> segment_info list \<Rightarrow> claims \<Rightarrow> batch list \<times> batch list \<times> claims" where
  "realtime_batches h bc limit prefix segs m =
     (let p = ParseFilename (Path (hd segs))
      in if pn_err p \<noteq> None then ([], [], m)
         else case realtime_loop h bc limit segs [] None 0 m of (bs, m) \<Rightarrow>
           (map (new_batch prefix (pn_database p) (pn_table p) PriorityRealtime) bs, [], m))"

definition policy_batches ::
  "hash \<Rightarrow> batcher \<Rightarrow> (string \<Rightarrow> string) \<Rightarrow> (string \<Rightarrow> bool) \<Rightarrow> gotime \<Rightarrow> eventPolicy \<Rightarrow> string \<Rightarrow> segment_info list \<Rightarrow> claims \<Rightarrow>
   batch list \<times> batch list \<times> claims"
where
  "policy_batches h bc owner healthy now p prefix segs m =
     (case p of
        QueuedPolicy _ \<Rightarrow> splitPrefix h bc owner healthy now prefix segs m
      | RealtimePolicy _ bytes \<Rightarrow> realtime_batches h bc bytes prefix segs m)"

section \<open>Pending prefixes\<close>

text \<open>The zero time is no retry time.\<close>

definition markPendingWithRetry :: "string \<Rightarrow> gotime \<Rightarrow> gotime \<Rightarrow> eventBatcher \<Rightarrow> eventBatcher" where
  "markPendingWithRetry prefix deadline retryAfter r =
     (let s = eb_seq r + 1;
          p = (case pending r prefix of None \<Rightarrow> \<lparr>pp_deadline = 0, pp_retryAfter = 0, pp_seq = 0\<rparr> | Some p \<Rightarrow> p);
          p = (if pending r prefix = None \<or> deadline < pp_deadline p then p\<lparr>pp_deadline := deadline\<rparr> else p);
          p = (if retryAfter \<noteq> 0 then p\<lparr>pp_retryAfter := retryAfter\<rparr> else p);
          p = p\<lparr>pp_seq := s\<rparr>
      in r\<lparr>eb_seq := s, pending := (pending r)(prefix \<mapsto> p)\<rparr>)"

definition markPending :: "string \<Rightarrow> gotime \<Rightarrow> eventBatcher \<Rightarrow> eventBatcher" where
  "markPending prefix deadline r = markPendingWithRetry prefix deadline 0 r"

definition onSegment :: "batcher \<Rightarrow> gotime \<Rightarrow> segment_info \<Rightarrow> eventBatcher \<Rightarrow> eventBatcher" where
  "onSegment bc now si r =
     (if accepts bc (policy r) si then markPending (Prefix si) (now + maxLatency (policy r)) r else r)"

text \<open>The doubling loop of \<open>released\<close>.\<close>

fun double_delay :: "nat \<Rightarrow> duration \<Rightarrow> duration \<Rightarrow> duration" where
  "double_delay 0 delay limit = delay"
| "double_delay (Suc n) delay limit = (if delay < limit then double_delay n (delay * 2) limit else delay)"

definition release_delay :: "string \<Rightarrow> eventBatcher \<Rightarrow> duration \<times> eventBatcher" where
  "release_delay prefix r =
     (if maxRetryDelay r > 0 then
        let n = (case releases r prefix of None \<Rightarrow> 0 | Some n \<Rightarrow> n)
        in (min (double_delay (nat n) (eb_retryDelay r) (maxRetryDelay r)) (maxRetryDelay r),
            r\<lparr>releases := (releases r)(prefix \<mapsto> n + 1)\<rparr>)
      else (eb_retryDelay r, r))"

definition eb_released :: "gotime \<Rightarrow> string \<Rightarrow> eventBatcher \<Rightarrow> eventBatcher" where
  "eb_released now prefix r =
     (case release_delay prefix r of (delay, r) \<Rightarrow> markPendingWithRetry prefix (now + delay) (now + delay) r)"

definition eb_removed :: "string \<Rightarrow> eventBatcher \<Rightarrow> eventBatcher" where
  "eb_removed prefix r = r\<lparr>releases := (releases r)(prefix := None)\<rparr>"

definition clearPending :: "string \<Rightarrow> nat \<Rightarrow> eventBatcher \<Rightarrow> eventBatcher" where
  "clearPending prefix s r =
     (case pending r prefix of
        None \<Rightarrow> r
      | Some p \<Rightarrow> if pp_seq p = s then r\<lparr>pending := (pending r)(prefix := None)\<rparr> else r)"

definition hasUnbatched :: "hash \<Rightarrow> claims \<Rightarrow> segment_info list \<Rightarrow> bool" where
  "hasUnbatched h m segs = list_ex (\<lambda>si. (case map_Get h (Path si) m of None \<Rightarrow> 0 | Some n \<Rightarrow> n) = 0) segs"

text \<open>The free segments of a prefix, sorted by path.\<close>

definition eb_unbatched :: "hash \<Rightarrow> claims \<Rightarrow> segment_info list \<Rightarrow> segment_info list" where
  "eb_unbatched h m segs = sort_key Path (filter (\<lambda>si. (case map_Get h (Path si) m of None \<Rightarrow> 0 | Some n \<Rightarrow> n) = 0) segs)"

fun sweep :: "hash \<Rightarrow> batcher \<Rightarrow> gotime \<Rightarrow> (string \<Rightarrow> segment_info list) \<Rightarrow> claims \<Rightarrow> string list \<Rightarrow> eventBatcher \<Rightarrow> eventBatcher" where
  "sweep h bc deadline get m [] r = r"
| "sweep h bc deadline get m (prefix # ps) r =
     sweep h bc deadline get m ps
       (if get prefix \<noteq> [] \<and> accepts bc (policy r) (hd (get prefix)) \<and> hasUnbatched h m (get prefix) then markPending prefix deadline r else r)"

definition due_at :: "pendingPrefix \<Rightarrow> gotime" where
  "due_at p = (if pp_retryAfter p > pp_deadline p then pp_retryAfter p else pp_deadline p)"

text \<open>\<open>nextDeadline\<close>, the prefixes visited in the order \<open>ks\<close>.\<close>

definition nextDeadline :: "string list \<Rightarrow> eventBatcher \<Rightarrow> gotime option" where
  "nextDeadline ks r =
     fold (\<lambda>k next. case next of None \<Rightarrow> Some (due_at (the (pending r k)))
                    | Some t \<Rightarrow> if due_at (the (pending r k)) < t then Some (due_at (the (pending r k))) else Some t) ks None"

text \<open>The order in which \<open>process\<close> takes the pending prefixes: the most overdue first.\<close>

definition process_order :: "string list \<Rightarrow> eventBatcher \<Rightarrow> string list" where
  "process_order ks r = sort_key (\<lambda>k. (pp_deadline (the (pending r k)), pp_seq (the (pending r k)))) ks"

text \<open>Whether \<open>processPrefix\<close> emits: the entry is \<open>po\<close> and the free segments are \<open>segs\<close>.\<close>

definition may_process :: "bool \<Rightarrow> gotime \<Rightarrow> pendingPrefix option \<Rightarrow> bool" where
  "may_process force now po \<longleftrightarrow> force \<or> (case po of None \<Rightarrow> False | Some p \<Rightarrow> \<not> now < pp_retryAfter p)"

definition entry_seq :: "pendingPrefix option \<Rightarrow> nat" where
  "entry_seq po = (case po of None \<Rightarrow> 0 | Some p \<Rightarrow> pp_seq p)"

definition must_emit :: "batcher \<Rightarrow> eventPolicy \<Rightarrow> bool \<Rightarrow> gotime \<Rightarrow> pendingPrefix option \<Rightarrow> segment_info list \<Rightarrow> bool" where
  "must_emit bc pol force now po segs \<longleftrightarrow>
     force \<or> \<not> size_of segs < sizeTrigger bc pol \<or> (case po of None \<Rightarrow> True | Some p \<Rightarrow> \<not> now < pp_deadline p)"

text \<open>\<open>processPrefix\<close> when nothing happens between its sections: the batches to upload and to transfer.\<close>

definition processPrefix ::
  "hash \<Rightarrow> batcher \<Rightarrow> (string \<Rightarrow> string) \<Rightarrow> (string \<Rightarrow> bool) \<Rightarrow> gotime \<Rightarrow> bool \<Rightarrow> (string \<Rightarrow> segment_info list) \<Rightarrow> string \<Rightarrow>
   eventBatcher \<times> claims \<Rightarrow> (batch list \<times> batch list) \<times> eventBatcher \<times> claims"
where
  "processPrefix h bc owner healthy now force get prefix s =
     (case s of (r, m) \<Rightarrow>
      let po = pending r prefix
      in if \<not> may_process force now po then (([], []), r, m)
         else
           let segs = eb_unbatched h m (get prefix)
           in if segs = [] then (([], []), clearPending prefix (entry_seq po) r, m)
              else if \<not> must_emit bc (policy r) force now po segs then (([], []), r, m)
              else case policy_batches h bc owner healthy now (policy r) prefix segs m of (ow, n, m) \<Rightarrow>
                ((ow, n), clearPending prefix (entry_seq po) r, m))"

fun process ::
  "hash \<Rightarrow> batcher \<Rightarrow> (string \<Rightarrow> string) \<Rightarrow> (string \<Rightarrow> bool) \<Rightarrow> gotime \<Rightarrow> bool \<Rightarrow> (string \<Rightarrow> segment_info list) \<Rightarrow> string list \<Rightarrow>
   eventBatcher \<times> claims \<Rightarrow> (batch list \<times> batch list) list \<times> eventBatcher \<times> claims"
where
  "process h bc owner healthy now force get [] s = ([], s)"
| "process h bc owner healthy now force get (prefix # ps) s =
     (case processPrefix h bc owner healthy now force get prefix s of (e, s) \<Rightarrow>
      case process h bc owner healthy now force get ps s of (es, s) \<Rightarrow> (e # es, s))"

text \<open>\<open>Flush\<close>: \<open>ps\<close> are the prefixes of the index and \<open>ks\<close> the order in which Go visits the pending ones.\<close>

definition eb_Flush ::
  "hash \<Rightarrow> batcher \<Rightarrow> (string \<Rightarrow> string) \<Rightarrow> (string \<Rightarrow> bool) \<Rightarrow> gotime \<Rightarrow> (string \<Rightarrow> segment_info list) \<Rightarrow> string list \<Rightarrow> string list \<Rightarrow>
   eventBatcher \<times> claims \<Rightarrow> (batch list \<times> batch list) list \<times> eventBatcher \<times> claims"
where
  "eb_Flush h bc owner healthy now get ps ks s =
     (case s of (r, m) \<Rightarrow>
      let r = sweep h bc (now + maxLatency (policy r)) get m ps r
      in process h bc owner healthy now True get (process_order ks r) (r, m))"

text \<open>\<open>send\<close>: the first \<open>k\<close> batches are sent before the context is done; the others are released.\<close>

definition eb_send :: "hash \<Rightarrow> nat \<Rightarrow> batch list \<Rightarrow> claims \<Rightarrow> batch list \<times> claims" where
  "eb_send h k bs m = (take k bs, fold (\<lambda>b m. fst (snd (batch_Release h b m))) (drop k bs) m)"

section \<open>The emitter among its neighbours\<close>

datatype emitter =
    Idle
  | Took string "pendingPrefix option" bool gotime
  | Has string "pendingPrefix option" bool gotime "segment_info list"
  | Cleared string "segment_info list"

text \<open>
  The event batcher with the index it reads, the claims, the goroutine that emits, the segments whose closing is not yet announced, the
  prefixes whose batch was given back but not yet marked, the batches in the hands of workers, and the files that could not be removed.
\<close>

record ev_sys =
  ev_r :: eventBatcher
  ev_idx :: "string \<Rightarrow> segment_info list"
  ev_m :: claims
  ev_emitter :: emitter
  ev_announce :: "segment_info multiset"
  ev_releasing :: "string multiset"
  ev_out :: "batch multiset"
  ev_stuck :: "string set"

text \<open>A segment file in the index: its path tells its prefix and is a WAL name.\<close>

definition seg_ok :: "(string \<Rightarrow> string) \<Rightarrow> string \<Rightarrow> segment_info \<Rightarrow> bool" where
  "seg_ok pre p si \<longleftrightarrow> Prefix si = p \<and> pre (Path si) = p \<and> pn_err (ParseFilename (Path si)) = None \<and> 0 \<le> Size si"

definition without :: "string set \<Rightarrow> (string \<Rightarrow> segment_info list) \<Rightarrow> string \<Rightarrow> segment_info list" where
  "without gone idx p = filter (\<lambda>si. Path si \<notin> gone) (idx p)"

text \<open>
  One step per critical section: a segment is added to the index, and later announced; a prefix is marked by a sweep; the emitter
  reads an entry, reads the free segments, and finds nothing, waits, or clears the entry and then builds the batches; a
  worker removes files, gives its batch back, and later the prefix is marked for a retry.
\<close>

inductive ev_step ::
  "hash \<Rightarrow> batcher \<Rightarrow> (string \<Rightarrow> string) \<Rightarrow> ev_sys \<Rightarrow> ev_sys \<Rightarrow> bool"
  for h bc pre where
  Close: "seg_ok pre (Prefix si) si \<Longrightarrow> (\<forall>b \<in># ev_out s. Path si \<notin> Path ` set (Segs b)) \<Longrightarrow>
    ev_step h bc pre s (s\<lparr>ev_idx := (ev_idx s)(Prefix si := ev_idx s (Prefix si) @ [si]), ev_announce := add_mset si (ev_announce s)\<rparr>)"
| Announce: "si \<in># ev_announce s \<Longrightarrow>
    ev_step h bc pre s (s\<lparr>ev_r := onSegment bc now si (ev_r s), ev_announce := ev_announce s - {#si#}\<rparr>)"
| Mark: "ev_step h bc pre s (s\<lparr>ev_r := markPending prefix deadline (ev_r s)\<rparr>)"
| Take: "ev_emitter s = Idle \<Longrightarrow> may_process force now (pending (ev_r s) prefix) \<Longrightarrow>
    ev_step h bc pre s (s\<lparr>ev_emitter := Took prefix (pending (ev_r s) prefix) force now\<rparr>)"
| Read: "ev_emitter s = Took prefix po force now \<Longrightarrow>
    ev_step h bc pre s (s\<lparr>ev_emitter := Has prefix po force now (eb_unbatched h (ev_m s) (ev_idx s prefix))\<rparr>)"
| Nothing: "ev_emitter s = Has prefix po force now [] \<Longrightarrow>
    ev_step h bc pre s (s\<lparr>ev_r := clearPending prefix (entry_seq po) (ev_r s), ev_emitter := Idle\<rparr>)"
| Wait: "ev_emitter s = Has prefix po force now segs \<Longrightarrow> segs \<noteq> [] \<Longrightarrow> \<not> must_emit bc (policy (ev_r s)) force now po segs \<Longrightarrow>
    ev_step h bc pre s (s\<lparr>ev_emitter := Idle\<rparr>)"
| Clear: "ev_emitter s = Has prefix po force now segs \<Longrightarrow> segs \<noteq> [] \<Longrightarrow> must_emit bc (policy (ev_r s)) force now po segs \<Longrightarrow>
    ev_step h bc pre s (s\<lparr>ev_r := clearPending prefix (entry_seq po) (ev_r s), ev_emitter := Cleared prefix segs\<rparr>)"
| Emit: "ev_emitter s = Cleared prefix segs \<Longrightarrow>
    policy_batches h bc owner healthy now (policy (ev_r s)) prefix segs (ev_m s) = (ow, n, m) \<Longrightarrow>
    ev_step h bc pre s (s\<lparr>ev_m := m, ev_emitter := Idle, ev_out := ev_out s + mset (ow @ n)\<rparr>)"
| Vanish: "ev_step h bc pre s (s\<lparr>ev_idx := without gone (ev_idx s)\<rparr>)"
| Remove: "b \<in># ev_out s \<Longrightarrow> \<not> removed b \<Longrightarrow>
    ev_step h bc pre s (s\<lparr>ev_r := eb_removed (BPrefix b) (ev_r s), ev_idx := without gone (ev_idx s),
      ev_out := add_mset (b\<lparr>removed := True\<rparr>) (ev_out s - {#b#}), ev_stuck := ev_stuck s \<union> (Path ` set (Segs b) - gone)\<rparr>)"
| Return: "b \<in># ev_out s \<Longrightarrow> \<not> removed b \<Longrightarrow>
    ev_step h bc pre s (s\<lparr>ev_m := batcher_Release h b (ev_m s), ev_out := ev_out s - {#b#}, ev_releasing := add_mset (BPrefix b) (ev_releasing s)\<rparr>)"
| Retry: "prefix \<in># ev_releasing s \<Longrightarrow>
    ev_step h bc pre s (s\<lparr>ev_r := eb_released now prefix (ev_r s), ev_releasing := ev_releasing s - {#prefix#}\<rparr>)"
| Finish: "b \<in># ev_out s \<Longrightarrow> removed b \<Longrightarrow>
    ev_step h bc pre s (s\<lparr>ev_m := batcher_Release h b (ev_m s), ev_out := ev_out s - {#b#}\<rparr>)"

text \<open>\<open>Open\<close>: the index may hold segments already; all its prefixes are swept.\<close>

definition ev_start :: "hash \<Rightarrow> batcher \<Rightarrow> (string \<Rightarrow> string) \<Rightarrow> ev_sys \<Rightarrow> bool" where
  "ev_start h bc pre s \<longleftrightarrow>
     (\<exists>deadline ps pol d. ev_r s = sweep h bc deadline (ev_idx s) (ev_m s) ps ((newEventBatcher pol)\<lparr>maxRetryDelay := d\<rparr>) \<and>
        (\<forall>p. ev_idx s p \<noteq> [] \<longrightarrow> p \<in> set ps) \<and> (\<forall>p. \<forall>x \<in> set (ev_idx s p). accepts bc pol x = accepts bc pol (hd (ev_idx s p)))) \<and>
     (\<forall>p. \<forall>si \<in> set (ev_idx s p). seg_ok pre p si) \<and>
     ev_m s \<noteq> [] \<and> (\<forall>p. claimed h (ev_m s) p = 0) \<and>
     ev_emitter s = Idle \<and> ev_announce s = {#} \<and> ev_releasing s = {#} \<and> ev_out s = {#} \<and> ev_stuck s = {}"

section \<open>No segment is forgotten\<close>

definition hot :: "batcher \<Rightarrow> ev_sys \<Rightarrow> string \<Rightarrow> bool" where
  "hot bc s p \<longleftrightarrow> (\<exists>x \<in># ev_announce s. Prefix x = p \<and> accepts bc (policy (ev_r s)) x) \<or> p \<in># ev_releasing s"

definition waiting :: "batcher \<Rightarrow> ev_sys \<Rightarrow> string \<Rightarrow> bool" where
  "waiting bc s p \<longleftrightarrow> hot bc s p \<or> pending (ev_r s) p \<noteq> None"

text \<open>The prefix was or will be marked after the entry number \<open>k\<close> was read.\<close>

definition renewed :: "batcher \<Rightarrow> ev_sys \<Rightarrow> string \<Rightarrow> nat \<Rightarrow> bool" where
  "renewed bc s p k \<longleftrightarrow> hot bc s p \<or> (\<exists>e. pending (ev_r s) p = Some e \<and> pp_seq e \<noteq> k)"

text \<open>The segments that are owed a batch.\<close>

definition owed :: "hash \<Rightarrow> batcher \<Rightarrow> ev_sys \<Rightarrow> string \<Rightarrow> segment_info \<Rightarrow> bool" where
  "owed h bc s p si \<longleftrightarrow> si \<in> set (ev_idx s p) \<and> accepts bc (policy (ev_r s)) si \<and> claimed h (ev_m s) (Path si) = 0 \<and> Path si \<notin> ev_stuck s"

definition covered :: "batcher \<Rightarrow> ev_sys \<Rightarrow> string \<Rightarrow> segment_info \<Rightarrow> bool" where
  "covered bc s p si =
     (case ev_emitter s of
        Has q po force now segs \<Rightarrow> waiting bc s p \<and> (p = q \<longrightarrow> si \<in> set segs \<or> renewed bc s p (entry_seq po))
      | Cleared q segs \<Rightarrow> waiting bc s p \<or> (p = q \<and> si \<in> set segs)
      | _ \<Rightarrow> waiting bc s p)"

definition emitter_ok :: "(string \<Rightarrow> string) \<Rightarrow> ev_sys \<Rightarrow> bool" where
  "emitter_ok pre s =
     (case ev_emitter s of
        Idle \<Rightarrow> True
      | Took q po force now \<Rightarrow> entry_seq po \<le> eb_seq (ev_r s)
      | Has q po force now segs \<Rightarrow> entry_seq po \<le> eb_seq (ev_r s) \<and> (\<forall>si \<in> set segs. seg_ok pre q si)
      | Cleared q segs \<Rightarrow> segs \<noteq> [] \<and> (\<forall>si \<in> set segs. seg_ok pre q si))"

definition claims_ok :: "hash \<Rightarrow> ev_sys \<Rightarrow> bool" where
  "claims_ok h s \<longleftrightarrow> ev_m s \<noteq> [] \<and> (\<forall>p. 0 \<le> claimed h (ev_m s) p)"

definition absent :: "(string \<Rightarrow> segment_info list) \<Rightarrow> string \<Rightarrow> bool" where
  "absent idx path \<longleftrightarrow> (\<forall>p. \<forall>si \<in> set (idx p). Path si \<noteq> path)"

definition out_ok :: "(string \<Rightarrow> string) \<Rightarrow> ev_sys \<Rightarrow> bool" where
  "out_ok pre s \<longleftrightarrow> (\<forall>b \<in># ev_out s. (\<forall>x \<in> set (Segs b). pre (Path x) = BPrefix b) \<and>
     (removed b \<longrightarrow> (\<forall>x \<in> set (Segs b). Path x \<in> ev_stuck s \<or> absent (ev_idx s) (Path x))))"

definition index_ok :: "(string \<Rightarrow> string) \<Rightarrow> ev_sys \<Rightarrow> bool" where
  "index_ok pre s \<longleftrightarrow> (\<forall>p. \<forall>si \<in> set (ev_idx s p). seg_ok pre p si)"

definition seqs_ok :: "eventBatcher \<Rightarrow> bool" where
  "seqs_ok r \<longleftrightarrow> (\<forall>p e. pending r p = Some e \<longrightarrow> pp_seq e \<le> eb_seq r)"

definition ev_inv :: "hash \<Rightarrow> batcher \<Rightarrow> (string \<Rightarrow> string) \<Rightarrow> ev_sys \<Rightarrow> bool" where
  "ev_inv h bc pre s \<longleftrightarrow>
     claims_ok h s \<and> out_ok pre s \<and> index_ok pre s \<and> emitter_ok pre s \<and> seqs_ok (ev_r s) \<and> (\<forall>p si. owed h bc s p si \<longrightarrow> covered bc s p si)"

text \<open>What the policies do with the free segments of a prefix: every segment is in a batch and claimed.\<close>

lemma realtime_loop_ok:
  "realtime_loop h bc limit sis bs cur sz m = (bs', m') \<Longrightarrow> m \<noteq> [] \<Longrightarrow>
   concat bs' = concat bs @ (case cur of None \<Rightarrow> [] | Some c \<Rightarrow> c) @ sis \<and> m' \<noteq> [] \<and>
   (\<forall>p. claimed h m' p = claimed h m p + int (count_list (map Path sis) p))"
proof (induction sis arbitrary: bs cur sz m)
  case Nil
  then show ?case by (auto split: option.splits)
next
  case (Cons si sis)
  note c = claimed_claim [OF Cons.prems(2), of h si]
  show ?case
  proof (cases cur)
    case None
    then show ?thesis using Cons.IH [of bs "Some [si]" "Size si" "claim h si m"] Cons.prems(1) c by auto
  next
    case (Some x)
    then show ?thesis
      using Cons.IH [of "bs @ [x]" "Some [si]" "Size si" "claim h si m"] Cons.IH [of bs "Some (x @ [si])" "sz + Size si" "claim h si m"]
        Cons.prems(1) c by (auto split: if_splits)
  qed
qed

lemma count_list_perm: "mset xs = mset ys \<Longrightarrow> count_list xs p = count_list ys p"
  by (metis count_mset)

lemma policy_batches_ok:
  assumes "policy_batches h bc owner healthy now pol prefix segs m = (ow, n, m')" and "m \<noteq> []" and "0 < maxBatchSegments bc"
    and "segs \<noteq> []" and "\<forall>si \<in> set segs. seg_ok pre prefix si"
  shows "m' \<noteq> [] \<and> (\<forall>p. claimed h m' p = claimed h m p + int (count_list (map Path segs) p)) \<and>
    mset (concat (map Segs (ow @ n))) = mset segs \<and> (\<forall>b \<in> set (ow @ n). BPrefix b = prefix \<and> \<not> removed b)"
proof (cases pol)
  case (QueuedPolicy linger)
  then have run: "splitPrefix h bc owner healthy now prefix segs m = (ow, n, m')" using assms(1) by (simp add: policy_batches_def)
  have "\<forall>si \<in> set segs. 0 \<le> Size si" using assms(5) by (simp add: seg_ok_def)
  note S = splitPrefix_ok [OF run assms(2,3) this]
  have ne: "sort_key Path segs \<noteq> []" using assms(4) by (metis set_empty set_sort)
  have "hd (sort_key Path segs) \<in> set segs" using ne by (metis hd_in_set set_sort)
  then have "pn_err (ParseFilename (Path (hd (sort_key Path segs)))) = None" using assms(5) by (simp add: seg_ok_def)
  then have sp: "splittable segs = sort_key Path segs" using ne by (cases "sort_key Path segs") (simp_all add: splittable_def)
  have "claimed h m' p = claimed h m p + int (count_list (map Path segs) p)" for p
    using S sp count_list_perm [of "map Path (sort_key Path segs)" "map Path segs" p] by simp
  moreover have "\<forall>b \<in> set (ow @ n). BPrefix b = prefix \<and> \<not> removed b" using S by (simp add: same_table_def)
  moreover have "mset (concat (map Segs (ow @ n))) = mset segs" using S sp by (metis mset_sort)
  ultimately show ?thesis using S by blast
next
  case (RealtimePolicy latency bytes)
  obtain bs m1 where l: "realtime_loop h bc bytes segs [] None 0 m = (bs, m1)" by fastforce
  have "pn_err (ParseFilename (Path (hd segs))) = None" using assms(4,5) by (simp add: seg_ok_def)
  then have r: "ow = map (new_batch prefix (pn_database (ParseFilename (Path (hd segs)))) (pn_table (ParseFilename (Path (hd segs)))) PriorityRealtime) bs"
      "n = []" "m' = m1"
    using assms(1) l RealtimePolicy by (auto simp: policy_batches_def realtime_batches_def Let_def)
  have "map Segs (ow @ n) = bs" unfolding r by (simp add: comp_def new_batch_def)
  then show ?thesis using realtime_loop_ok [OF l assms(2)] r by (auto simp: new_batch_def)
qed

text \<open>Marking a prefix renews it; the policy stays.\<close>

lemma mark_props:
  "policy (markPendingWithRetry q d a r) = policy r" "eb_seq (markPendingWithRetry q d a r) = Suc (eb_seq r)"
  "p \<noteq> q \<Longrightarrow> pending (markPendingWithRetry q d a r) p = pending r p"
  "\<exists>e. pending (markPendingWithRetry q d a r) q = Some e \<and> pp_seq e = Suc (eb_seq r)"
  by (simp_all add: markPendingWithRetry_def Let_def)

lemma clear_props:
  "policy (clearPending q k r) = policy r" "eb_seq (clearPending q k r) = eb_seq r"
  "pending (clearPending q k r) p = (if p = q \<and> entry_seq (pending r q) = k \<and> pending r q \<noteq> None then None else pending r p)"
  by (simp_all add: clearPending_def entry_seq_def split: option.split)

text \<open>The event batcher moves on: its policy stays, and the entries that change get a later number.\<close>

definition advances :: "eventBatcher \<Rightarrow> eventBatcher \<Rightarrow> bool" where
  "advances r r' \<longleftrightarrow> policy r' = policy r \<and> eb_seq r \<le> eb_seq r' \<and> seqs_ok r' \<and>
     (\<forall>p. pending r' p = pending r p \<or> (\<exists>e. pending r' p = Some e \<and> eb_seq r < pp_seq e))"

lemma advances_mark: "seqs_ok r \<Longrightarrow> advances r (markPendingWithRetry q d a r)"
proof -
  assume ok: "seqs_ok r"
  obtain e where e: "pending (markPendingWithRetry q d a r) q = Some e" "pp_seq e = Suc (eb_seq r)" using mark_props(4) by blast
  have "pp_seq x \<le> Suc (eb_seq r)" if "pending (markPendingWithRetry q d a r) p = Some x" for p x
    using that e ok mark_props(3) [of p q d a r] by (cases "p = q") (auto simp: seqs_ok_def intro: le_SucI)
  moreover have "pending (markPendingWithRetry q d a r) p = pending r p \<or>
      (\<exists>e. pending (markPendingWithRetry q d a r) p = Some e \<and> eb_seq r < pp_seq e)" for p
    using e mark_props(3) [of p q d a r] by (cases "p = q") auto
  ultimately show ?thesis unfolding advances_def seqs_ok_def mark_props by auto
qed

lemma advances_refl: "seqs_ok r \<Longrightarrow> advances r r"
  by (simp add: advances_def)

lemma advances_fields: "seqs_ok r \<Longrightarrow> policy r' = policy r \<Longrightarrow> eb_seq r' = eb_seq r \<Longrightarrow> pending r' = pending r \<Longrightarrow> advances r r'"
  by (simp add: advances_def seqs_ok_def)

lemma advances_released: "seqs_ok r \<Longrightarrow> advances r (eb_released now q r)"
proof -
  assume ok: "seqs_ok r"
  obtain delay r1 where d: "release_delay q r = (delay, r1)" by fastforce
  then have f: "policy r1 = policy r" "eb_seq r1 = eb_seq r" "pending r1 = pending r"
    by (auto simp: release_delay_def Let_def split: if_splits)
  then have "seqs_ok r1" using ok by (simp add: seqs_ok_def)
  then have "advances r1 (markPendingWithRetry q (now + delay) (now + delay) r1)" by (rule advances_mark)
  then show ?thesis using f by (simp add: eb_released_def d advances_def)
qed

lemma released_pending: "\<exists>e. pending (eb_released now q r) q = Some e \<and> eb_seq r < pp_seq e"
proof -
  obtain delay r1 where d: "release_delay q r = (delay, r1)" by fastforce
  then have "eb_seq r1 = eb_seq r" by (auto simp: release_delay_def Let_def split: if_splits)
  then show ?thesis using mark_props(4) [of q "now + delay" "now + delay" r1] by (auto simp: eb_released_def d)
qed

lemma advances_onSegment: "seqs_ok r \<Longrightarrow> advances r (onSegment bc now si r)"
  by (simp add: onSegment_def markPending_def advances_mark advances_refl)

text \<open>
  A step that leaves the emitter alone keeps the invariant when no prefix stops waiting and every segment newly owed is on its way to be
  marked.
\<close>

lemma covered_mono:
  assumes "covered bc s p si" and "emitter_ok pre s" and "ev_emitter s' = ev_emitter s"
    and "advances (ev_r s) (ev_r s')" and "hot bc s p \<Longrightarrow> hot bc s' p \<or> (\<exists>e. pending (ev_r s') p = Some e \<and> eb_seq (ev_r s) < pp_seq e)"
  shows "covered bc s' p si"
proof -
  have w: "waiting bc s p \<Longrightarrow> waiting bc s' p"
    using assms(4,5) unfolding waiting_def advances_def by (metis option.distinct(1))
  have r: "renewed bc s' p k" if rk: "renewed bc s p k" "k \<le> eb_seq (ev_r s)" for k
  proof (cases "hot bc s p")
    case True
    then show ?thesis using assms(5) rk(2) by (auto simp: renewed_def)
  next
    case False
    then obtain e where "pending (ev_r s) p = Some e" "pp_seq e \<noteq> k" using rk(1) by (auto simp: renewed_def)
    then show ?thesis using assms(4) rk(2) unfolding renewed_def advances_def by (metis leD)
  qed
  show ?thesis using assms(1-3) w r unfolding covered_def emitter_ok_def by (auto split: emitter.splits)
qed

lemma covered_hot:
  assumes "hot bc s p" shows "covered bc s p si"
  using assms by (auto simp: covered_def waiting_def renewed_def split: emitter.split)

lemma emitter_ok_mono:
  assumes "emitter_ok pre s" and "ev_emitter s' = ev_emitter s" and "advances (ev_r s) (ev_r s')"
  shows "emitter_ok pre s'"
  using assms by (auto simp: emitter_ok_def advances_def split: emitter.splits)

lemma ev_inv_other:
  assumes "ev_inv h bc pre s" and "ev_emitter s' = ev_emitter s" and "advances (ev_r s) (ev_r s')"
    and "claims_ok h s'" and "out_ok pre s'" and "index_ok pre s'"
    and "\<And>p. hot bc s p \<Longrightarrow> hot bc s' p \<or> (\<exists>e. pending (ev_r s') p = Some e \<and> eb_seq (ev_r s) < pp_seq e)"
    and "\<And>p si. owed h bc s' p si \<Longrightarrow> owed h bc s p si \<or> hot bc s' p"
  shows "ev_inv h bc pre s'"
proof -
  have e: "emitter_ok pre s" using assms(1) by (simp add: ev_inv_def)
  have "covered bc s' p si" if "owed h bc s' p si" for p si
    using assms(8) [OF that]
  proof
    assume "owed h bc s p si"
    then have "covered bc s p si" using assms(1) by (simp add: ev_inv_def)
    then show ?thesis by (rule covered_mono [OF _ e assms(2,3,7)])
  qed (rule covered_hot)
  then show ?thesis using assms(3-6) emitter_ok_mono [OF e assms(2,3)] by (simp add: ev_inv_def advances_def)
qed

lemma unbatched_mem:
  "si \<in> set (eb_unbatched h m segs) \<longleftrightarrow> si \<in> set segs \<and> claimed h m (Path si) = 0"
  by (auto simp: eb_unbatched_def claimed_def)

lemma without_mem: "si \<in> set (without gone idx p) \<longleftrightarrow> si \<in> set (idx p) \<and> Path si \<notin> gone"
  by (auto simp: without_def)

lemma claims_ok_Release:
  assumes "claims_ok h s" shows "claims_ok h (s\<lparr>ev_m := batcher_Release h b (ev_m s)\<rparr>)"
  using assms claimed_Release [of "ev_m s" h b] by (auto simp: claims_ok_def)

lemma out_ok_less: "out_ok pre s \<Longrightarrow> ev_out s' \<subseteq># ev_out s \<Longrightarrow> ev_idx s' = ev_idx s \<Longrightarrow> ev_stuck s' = ev_stuck s \<Longrightarrow> out_ok pre s'"
  unfolding out_ok_def by (metis mset_subset_eqD)

lemma absent_intros:
  "absent idx path \<Longrightarrow> absent (without gone idx) path" "path \<in> gone \<Longrightarrow> absent (without gone idx) path"
  "absent idx path \<Longrightarrow> path \<noteq> Path si \<Longrightarrow> absent (idx(q := idx q @ [si])) path"
  by (auto simp: absent_def without_def)

lemmas ev_inv_parts = ev_inv_def claims_ok_def out_ok_def index_ok_def

lemma owed_cong: "ev_idx s' = ev_idx s \<Longrightarrow> policy (ev_r s') = policy (ev_r s) \<Longrightarrow> ev_m s' = ev_m s \<Longrightarrow> ev_stuck s' = ev_stuck s \<Longrightarrow>
    owed h bc s' p si = owed h bc s p si"
  by (simp add: owed_def)

lemma hot_cong: "ev_announce s' = ev_announce s \<Longrightarrow> ev_releasing s' = ev_releasing s \<Longrightarrow> policy (ev_r s') = policy (ev_r s) \<Longrightarrow> hot bc s' p = hot bc s p"
  by (simp add: hot_def)

text \<open>The steps of the neighbours.\<close>

lemma inv_Close:
  assumes inv: "ev_inv h bc pre s" and si: "seg_ok pre (Prefix si) si" "\<forall>b \<in># ev_out s. Path si \<notin> Path ` set (Segs b)"
  shows "ev_inv h bc pre (s\<lparr>ev_idx := (ev_idx s)(Prefix si := ev_idx s (Prefix si) @ [si]), ev_announce := add_mset si (ev_announce s)\<rparr>)"
    (is "ev_inv _ _ _ ?s'")
proof (rule ev_inv_other [OF inv])
  show "advances (ev_r s) (ev_r ?s')" using inv by (simp add: ev_inv_def advances_refl)
  show "claims_ok h ?s'" "index_ok pre ?s'" using inv si(1) by (auto simp: ev_inv_parts)
  have "Path x \<noteq> Path si" if "b \<in># ev_out s" "x \<in> set (Segs b)" for b x using that si(2) by (metis image_eqI)
  then show "out_ok pre ?s'" using inv unfolding ev_inv_def out_ok_def by (simp del: fun_upd_apply) (metis absent_intros(3))
  show "hot bc s p \<Longrightarrow> hot bc ?s' p \<or> (\<exists>e. pending (ev_r ?s') p = Some e \<and> eb_seq (ev_r s) < pp_seq e)" for p by (auto simp: hot_def)
  show "owed h bc ?s' p x \<Longrightarrow> owed h bc s p x \<or> hot bc ?s' p" for p x by (auto simp: owed_def hot_def split: if_splits)
qed simp

lemma inv_r:
  assumes inv: "ev_inv h bc pre s" and adv: "advances (ev_r s) r"
    and hot: "\<And>p. hot bc s p \<Longrightarrow> hot bc s' p \<or> (\<exists>e. pending r p = Some e \<and> eb_seq (ev_r s) < pp_seq e)"
    and s': "ev_r s' = r" "ev_idx s' = ev_idx s" "ev_m s' = ev_m s" "ev_emitter s' = ev_emitter s" "ev_out s' = ev_out s" "ev_stuck s' = ev_stuck s"
  shows "ev_inv h bc pre s'"
  by (rule ev_inv_other [OF inv s'(4)])
     (use inv adv hot s' owed_cong [of s' s] in \<open>auto simp: ev_inv_parts advances_def\<close>)

lemma onSegment_pending:
  "accepts bc (policy r) si \<Longrightarrow> \<exists>e. pending (onSegment bc now si r) (Prefix si) = Some e \<and> eb_seq r < pp_seq e"
  using mark_props(4) [of "Prefix si" "now + maxLatency (policy r)" 0 r] by (auto simp: onSegment_def markPending_def)

lemma inv_Announce:
  assumes inv: "ev_inv h bc pre s" and "si \<in># ev_announce s"
  shows "ev_inv h bc pre (s\<lparr>ev_r := onSegment bc now si (ev_r s), ev_announce := ev_announce s - {#si#}\<rparr>)"
    (is "ev_inv _ _ _ ?s'")
proof (rule inv_r [OF inv, where r = "onSegment bc now si (ev_r s)"])
  show adv: "advances (ev_r s) (onSegment bc now si (ev_r s))" using inv by (simp add: ev_inv_def advances_onSegment)
  show "hot bc ?s' p \<or> (\<exists>e. pending (onSegment bc now si (ev_r s)) p = Some e \<and> eb_seq (ev_r s) < pp_seq e)" if "hot bc s p" for p
  proof (cases "p = Prefix si \<and> accepts bc (policy (ev_r s)) si")
    case True
    then show ?thesis using onSegment_pending by blast
  next
    case False
    have "policy (ev_r ?s') = policy (ev_r s)" using adv by (simp add: advances_def)
    moreover have "x \<in># ev_announce s - {#si#}" if "x \<in># ev_announce s" "x \<noteq> si" for x using that by (simp add: in_diff_count)
    ultimately show ?thesis using that False unfolding hot_def by auto
  qed
qed simp_all

lemma inv_Retry:
  assumes inv: "ev_inv h bc pre s" and "prefix \<in># ev_releasing s"
  shows "ev_inv h bc pre (s\<lparr>ev_r := eb_released now prefix (ev_r s), ev_releasing := ev_releasing s - {#prefix#}\<rparr>)"
    (is "ev_inv _ _ _ ?s'")
proof (rule inv_r [OF inv, where r = "eb_released now prefix (ev_r s)"])
  show adv: "advances (ev_r s) (eb_released now prefix (ev_r s))" using inv by (simp add: ev_inv_def advances_released)
  show "hot bc ?s' p \<or> (\<exists>e. pending (eb_released now prefix (ev_r s)) p = Some e \<and> eb_seq (ev_r s) < pp_seq e)" if "hot bc s p" for p
  proof (cases "p = prefix")
    case True
    then show ?thesis using released_pending by blast
  next
    case False
    have "policy (ev_r ?s') = policy (ev_r s)" using adv by (simp add: advances_def)
    then show ?thesis using that False unfolding hot_def by (auto simp: in_diff_count)
  qed
qed simp_all

lemma inv_Mark:
  assumes inv: "ev_inv h bc pre s"
  shows "ev_inv h bc pre (s\<lparr>ev_r := markPending prefix deadline (ev_r s)\<rparr>)"
proof (rule inv_r [OF inv, where r = "markPending prefix deadline (ev_r s)"])
  show adv: "advances (ev_r s) (markPending prefix deadline (ev_r s))"
    using inv by (simp add: ev_inv_def advances_mark markPending_def)
qed (simp_all add: hot_def markPending_def mark_props)

lemma inv_shrink:
  assumes inv: "ev_inv h bc pre s" and s': "ev_idx s' = without gone (ev_idx s)" "policy (ev_r s') = policy (ev_r s)"
      "eb_seq (ev_r s') = eb_seq (ev_r s)" "pending (ev_r s') = pending (ev_r s)" "ev_m s' = ev_m s" "ev_emitter s' = ev_emitter s"
      "ev_announce s' = ev_announce s" "ev_releasing s' = ev_releasing s" "ev_stuck s \<subseteq> ev_stuck s'" and out: "out_ok pre s'"
  shows "ev_inv h bc pre s'"
proof (rule ev_inv_other [OF inv s'(6) _ _ out])
  show "advances (ev_r s) (ev_r s')" using inv s'(2-4) by (intro advances_fields) (simp_all add: ev_inv_def)
  show "claims_ok h s'" "index_ok pre s'" using inv s'(1,5) by (auto simp: ev_inv_parts without_mem)
  show "hot bc s p \<Longrightarrow> hot bc s' p \<or> (\<exists>e. pending (ev_r s') p = Some e \<and> eb_seq (ev_r s) < pp_seq e)" for p
    using s'(2,7,8) by (simp add: hot_def)
  show "owed h bc s' p si \<Longrightarrow> owed h bc s p si \<or> hot bc s' p" for p si
    using s'(1,2,5,9) by (auto simp: owed_def without_mem)
qed

lemma out_ok_member: "out_ok pre s \<Longrightarrow> b \<in># ev_out s \<Longrightarrow> x \<in> set (Segs b) \<Longrightarrow>
    pre (Path x) = BPrefix b \<and> (removed b \<longrightarrow> Path x \<in> ev_stuck s \<or> absent (ev_idx s) (Path x))"
  by (simp add: out_ok_def)

lemma inv_Vanish:
  assumes inv: "ev_inv h bc pre s"
  shows "ev_inv h bc pre (s\<lparr>ev_idx := without gone (ev_idx s)\<rparr>)"
proof (rule inv_shrink [OF inv, where gone = gone])
  have "out_ok pre s" using inv by (simp add: ev_inv_def)
  from out_ok_member [OF this] show "out_ok pre (s\<lparr>ev_idx := without gone (ev_idx s)\<rparr>)"
    unfolding out_ok_def by (simp add: absent_intros(1)) (blast intro: absent_intros(1))
qed simp_all

lemma inv_Remove:
  assumes inv: "ev_inv h bc pre s" and b: "b \<in># ev_out s"
  shows "ev_inv h bc pre (s\<lparr>ev_r := eb_removed (BPrefix b) (ev_r s), ev_idx := without gone (ev_idx s),
      ev_out := add_mset (b\<lparr>removed := True\<rparr>) (ev_out s - {#b#}), ev_stuck := ev_stuck s \<union> (Path ` set (Segs b) - gone)\<rparr>)"
    (is "ev_inv _ _ _ ?s'")
proof (rule inv_shrink [OF inv, where gone = gone])
  have ok: "out_ok pre s" using inv by (simp add: ev_inv_def)
  have "pre (Path x) = BPrefix c \<and> (removed c \<longrightarrow> Path x \<in> ev_stuck ?s' \<or> absent (ev_idx ?s') (Path x))"
    if c: "c \<in># ev_out ?s'" and x: "x \<in> set (Segs c)" for c x
  proof (cases "c = b\<lparr>removed := True\<rparr>")
    case True
    then have xb: "x \<in> set (Segs b)" "BPrefix c = BPrefix b" using x by simp_all
    moreover have "Path x \<in> ev_stuck ?s' \<or> absent (ev_idx ?s') (Path x)"
      using xb(1) absent_intros(2) [of "Path x" gone "ev_idx s"] by auto
    ultimately show ?thesis using out_ok_member [OF ok b xb(1)] by simp
  next
    case False
    then have "c \<in># ev_out s" using c by (auto dest: in_diffD)
    then show ?thesis using out_ok_member [OF ok _ x] absent_intros(1) by fastforce
  qed
  then show "out_ok pre ?s'" unfolding out_ok_def by blast
qed (auto simp: eb_removed_def)

lemma inv_release:
  assumes inv: "ev_inv h bc pre s" and b: "b \<in># ev_out s"
    and s': "ev_m s' = batcher_Release h b (ev_m s)" "ev_r s' = ev_r s" "ev_idx s' = ev_idx s" "ev_emitter s' = ev_emitter s"
      "ev_out s' = ev_out s - {#b#}" "ev_announce s' = ev_announce s" "ev_releasing s \<subseteq># ev_releasing s'" "ev_stuck s' = ev_stuck s"
    and rel: "BPrefix b \<in># ev_releasing s' \<or> removed b"
  shows "ev_inv h bc pre s'"
proof (rule ev_inv_other [OF inv s'(4)])
  have ok: "out_ok pre s" "index_ok pre s" "claims_ok h s" using inv by (simp_all add: ev_inv_def)
  show "advances (ev_r s) (ev_r s')" using inv s'(2) by (simp add: ev_inv_def advances_refl)
  show "claims_ok h s'" using claims_ok_Release [OF ok(3), of b] s'(1) by (simp add: claims_ok_def)
  show "out_ok pre s'" using out_ok_less [OF ok(1) _ s'(3,8)] s'(5) by simp
  show "index_ok pre s'" using ok(2) s'(3) by (simp add: index_ok_def)
  show "hot bc s p \<Longrightarrow> hot bc s' p \<or> (\<exists>e. pending (ev_r s') p = Some e \<and> eb_seq (ev_r s) < pp_seq e)" for p
    using s'(2,6,7) by (auto simp: hot_def dest: mset_subset_eqD)
  show "owed h bc s p si \<or> hot bc s' p" if o': "owed h bc s' p si" for p si
  proof (cases "Path si \<in> Path ` set (Segs b)")
    case True
    then obtain x where x: "x \<in> set (Segs b)" "Path x = Path si" by force
    have si: "si \<in> set (ev_idx s p)" "Path si \<notin> ev_stuck s" using o' s'(3,8) by (simp_all add: owed_def)
    note X = out_ok_member [OF ok(1) b x(1)]
    have "pre (Path si) = p" using ok(2) si(1) by (simp add: index_ok_def seg_ok_def)
    moreover have "\<not> absent (ev_idx s) (Path x)" using si(1) x(2) by (auto simp: absent_def)
    ultimately show ?thesis using X x(2) si(2) rel by (auto simp: hot_def)
  next
    case False
    then have "claimed h (ev_m s') (Path si) = claimed h (ev_m s) (Path si)"
      using claimed_Release [of "ev_m s" h b "Path si"] ok(3) s'(1) by (simp add: claims_ok_def)
    then show ?thesis using o' s'(2,3,8) by (simp add: owed_def)
  qed
qed

text \<open>The steps of the emitter.\<close>

lemma inv_emitter:
  assumes inv: "ev_inv h bc pre s"
    and s': "ev_idx s' = ev_idx s" "ev_m s' = ev_m s" "ev_out s' = ev_out s" "ev_stuck s' = ev_stuck s" "policy (ev_r s') = policy (ev_r s)"
    and "emitter_ok pre s'" and "seqs_ok (ev_r s')" and "\<And>p si. owed h bc s p si \<Longrightarrow> covered bc s p si \<Longrightarrow> covered bc s' p si"
  shows "ev_inv h bc pre s'"
  using assms owed_cong [of s' s] unfolding ev_inv_parts by auto

lemma clear_waiting:
  assumes "s' = s\<lparr>ev_r := clearPending q k (ev_r s), ev_emitter := e\<rparr>" and "waiting bc s p"
    and "p = q \<Longrightarrow> renewed bc s p k"
  shows "waiting bc s' p"
  using assms unfolding waiting_def renewed_def hot_def by (auto simp: clear_props entry_seq_def)

lemma inv_Take:
  assumes inv: "ev_inv h bc pre s" and "ev_emitter s = Idle"
  shows "ev_inv h bc pre (s\<lparr>ev_emitter := Took prefix (pending (ev_r s) prefix) force now\<rparr>)"
  by (rule inv_emitter [OF inv])
     (use assms in \<open>auto simp: ev_inv_def emitter_ok_def seqs_ok_def entry_seq_def covered_def waiting_def hot_def split: option.split\<close>)

lemma inv_Read:
  assumes inv: "ev_inv h bc pre s" and "ev_emitter s = Took prefix po force now"
  shows "ev_inv h bc pre (s\<lparr>ev_emitter := Has prefix po force now (eb_unbatched h (ev_m s) (ev_idx s prefix))\<rparr>)"
  by (rule inv_emitter [OF inv])
     (use assms in \<open>auto simp: ev_inv_def emitter_ok_def index_ok_def covered_def waiting_def renewed_def hot_def owed_def unbatched_mem\<close>)

lemma inv_Nothing:
  assumes inv: "ev_inv h bc pre s" and "ev_emitter s = Has prefix po force now []"
  shows "ev_inv h bc pre (s\<lparr>ev_r := clearPending prefix (entry_seq po) (ev_r s), ev_emitter := Idle\<rparr>)" (is "ev_inv _ _ _ ?s'")
proof (rule inv_emitter [OF inv])
  show "covered bc ?s' p si" if "covered bc s p si" for p si
    using that assms(2) clear_waiting [OF refl, of bc s p prefix "entry_seq po" Idle] by (simp add: covered_def)
qed (use inv in \<open>auto simp: ev_inv_def clear_props emitter_ok_def seqs_ok_def split: if_splits\<close>)

lemma inv_Clear:
  assumes inv: "ev_inv h bc pre s" and "ev_emitter s = Has prefix po force now segs" and "segs \<noteq> []"
  shows "ev_inv h bc pre (s\<lparr>ev_r := clearPending prefix (entry_seq po) (ev_r s), ev_emitter := Cleared prefix segs\<rparr>)" (is "ev_inv _ _ _ ?s'")
proof (rule inv_emitter [OF inv])
  show "covered bc ?s' p si" if "covered bc s p si" for p si
    using that assms(2) clear_waiting [OF refl, of bc s p prefix "entry_seq po" "Cleared prefix segs"] by (auto simp: covered_def)
  show "emitter_ok pre ?s'" using inv assms(2,3) by (simp add: ev_inv_def emitter_ok_def)
qed (use inv in \<open>auto simp: ev_inv_def clear_props seqs_ok_def split: if_splits\<close>)

lemma inv_Wait:
  assumes inv: "ev_inv h bc pre s" and "ev_emitter s = Has prefix po force now segs"
  shows "ev_inv h bc pre (s\<lparr>ev_emitter := Idle\<rparr>)"
  by (rule inv_emitter [OF inv])
     (use assms in \<open>auto simp: ev_inv_def emitter_ok_def covered_def waiting_def hot_def\<close>)

lemma inv_Emit:
  assumes inv: "ev_inv h bc pre s" and em: "ev_emitter s = Cleared prefix segs"
    and run: "policy_batches h bc owner healthy now (policy (ev_r s)) prefix segs (ev_m s) = (ow, n, m)" and pos: "0 < maxBatchSegments bc"
  shows "ev_inv h bc pre (s\<lparr>ev_m := m, ev_emitter := Idle, ev_out := ev_out s + mset (ow @ n)\<rparr>)" (is "ev_inv _ _ _ ?s'")
proof -
  have c: "ev_m s \<noteq> []" "\<And>p. 0 \<le> claimed h (ev_m s) p" using inv by (simp_all add: ev_inv_def claims_ok_def)
  have segs: "segs \<noteq> []" "\<forall>si \<in> set segs. seg_ok pre prefix si" using inv em by (simp_all add: ev_inv_def emitter_ok_def)
  note P = policy_batches_ok [OF run c(1) pos segs]
  have grow: "claimed h m p = claimed h (ev_m s) p + int (count_list (map Path segs) p)" for p using P by blast
  have "claims_ok h ?s'" using P c(2) grow by (simp add: claims_ok_def)
  moreover have "out_ok pre ?s'"
  proof -
    have "pre (Path x) = BPrefix b \<and> \<not> removed b" if b: "b \<in> set (ow @ n)" and x: "x \<in> set (Segs b)" for b x
    proof -
      have "x \<in> set (concat (map Segs (ow @ n)))" using b x by auto
      then have "x \<in> set segs" using P by (metis mset_eq_setD)
      then show ?thesis using segs(2) P b by (simp add: seg_ok_def)
    qed
    then show ?thesis using inv unfolding ev_inv_def out_ok_def by auto
  qed
  moreover have "covered bc ?s' p si" if "owed h bc ?s' p si" for p si
  proof -
    have z: "claimed h m (Path si) = 0" using that by (simp add: owed_def)
    then have "count_list (map Path segs) (Path si) = 0" "claimed h (ev_m s) (Path si) = 0" using grow [of "Path si"] c(2) [of "Path si"] by simp_all
    then have "si \<notin> set segs" "owed h bc s p si" using that by (auto simp: owed_def count_list_0_iff)
    then show ?thesis using inv em by (auto simp: ev_inv_def covered_def waiting_def hot_def)
  qed
  ultimately show ?thesis using inv by (simp add: ev_inv_def index_ok_def emitter_ok_def)
qed

lemma ev_inv_step:
  assumes "ev_step h bc pre s s'" and "ev_inv h bc pre s" and "0 < maxBatchSegments bc"
  shows "ev_inv h bc pre s'"
  using assms(1)
proof cases
  case (Close si)
  then show ?thesis using inv_Close [OF assms(2)] by simp
next
  case (Announce si now)
  then show ?thesis using inv_Announce [OF assms(2)] by simp
next
  case (Mark prefix deadline)
  then show ?thesis using inv_Mark [OF assms(2)] by simp
next
  case (Take force now prefix)
  then show ?thesis using inv_Take [OF assms(2)] by simp
next
  case (Read prefix po force now)
  then show ?thesis using inv_Read [OF assms(2)] by simp
next
  case (Nothing prefix po force now)
  then show ?thesis using inv_Nothing [OF assms(2)] by simp
next
  case (Wait prefix po force now segs)
  then show ?thesis using inv_Wait [OF assms(2)] by simp
next
  case (Clear prefix po force now segs)
  then show ?thesis using inv_Clear [OF assms(2)] by simp
next
  case (Emit prefix segs owner healthy now ow n m)
  then show ?thesis using inv_Emit [OF assms(2) Emit(2,3) assms(3)] by simp
next
  case (Vanish gone)
  then show ?thesis using inv_Vanish [OF assms(2)] by simp
next
  case (Remove b gone)
  then show ?thesis using inv_Remove [OF assms(2)] by simp
next
  case (Return b)
  then show ?thesis by (intro inv_release [OF assms(2), of b]) simp_all
next
  case (Retry prefix now)
  then show ?thesis using inv_Retry [OF assms(2)] by simp
next
  case (Finish b)
  then show ?thesis by (intro inv_release [OF assms(2), of b]) simp_all
qed

text \<open>The sweep at the start.\<close>

lemma sweep_marks:
  assumes "seqs_ok r"
  shows "policy (sweep h bc d get m ps r) = policy r \<and> seqs_ok (sweep h bc d get m ps r) \<and>
    (\<forall>p. pending r p \<noteq> None \<longrightarrow> pending (sweep h bc d get m ps r) p \<noteq> None) \<and>
    (\<forall>p \<in> set ps. get p \<noteq> [] \<longrightarrow> accepts bc (policy r) (hd (get p)) \<longrightarrow> hasUnbatched h m (get p) \<longrightarrow> pending (sweep h bc d get m ps r) p \<noteq> None)"
  using assms
proof (induction ps arbitrary: r)
  case (Cons q ps)
  define r1 where "r1 = (if get q \<noteq> [] \<and> accepts bc (policy r) (hd (get q)) \<and> hasUnbatched h m (get q) then markPending q d r else r)"
  have adv: "advances r r1" using Cons.prems by (auto simp: r1_def advances_refl advances_mark markPending_def)
  then have r: "policy r1 = policy r" "seqs_ok r1" "\<And>p. pending r p \<noteq> None \<Longrightarrow> pending r1 p \<noteq> None"
    unfolding advances_def by (metis option.distinct(1))+
  have q: "pending r1 q \<noteq> None" if "get q \<noteq> []" "accepts bc (policy r) (hd (get q))" "hasUnbatched h m (get q)"
    using that mark_props(4) [of q d 0 r] by (auto simp: r1_def markPending_def)
  have eq: "sweep h bc d get m (q # ps) r = sweep h bc d get m ps r1" by (simp add: r1_def)
  show ?case unfolding eq using Cons.IH [OF r(2)] r(1,3) q by (metis set_ConsD)
qed simp

lemma ev_inv_start:
  assumes "ev_start h bc pre s" shows "ev_inv h bc pre s"
proof -
  obtain deadline ps pol d where r: "ev_r s = sweep h bc deadline (ev_idx s) (ev_m s) ps ((newEventBatcher pol)\<lparr>maxRetryDelay := d\<rparr>)"
      "\<forall>p. ev_idx s p \<noteq> [] \<longrightarrow> p \<in> set ps" "\<forall>p. \<forall>x \<in> set (ev_idx s p). accepts bc pol x = accepts bc pol (hd (ev_idx s p))"
    using assms by (auto simp: ev_start_def)
  have "seqs_ok ((newEventBatcher pol)\<lparr>maxRetryDelay := d\<rparr>)" by (simp add: seqs_ok_def newEventBatcher_def)
  note S = sweep_marks [OF this, of h bc deadline "ev_idx s" "ev_m s" ps]
  have pol: "policy (ev_r s) = pol" "seqs_ok (ev_r s)" using S r(1) by (simp_all add: newEventBatcher_def)
  have "covered bc s p si" if o': "owed h bc s p si" for p si
  proof -
    have si: "si \<in> set (ev_idx s p)" "accepts bc pol si" "claimed h (ev_m s) (Path si) = 0" using o' pol by (simp_all add: owed_def)
    then have "ev_idx s p \<noteq> []" "hasUnbatched h (ev_m s) (ev_idx s p)" "accepts bc pol (hd (ev_idx s p))"
      using r(3) by (auto simp: hasUnbatched_def list_ex_iff claimed_def)
    then have "pending (ev_r s) p \<noteq> None" using S r(1,2) by (simp add: newEventBatcher_def)
    then show ?thesis using assms by (simp add: covered_def waiting_def ev_start_def)
  qed
  then show ?thesis using assms pol by (simp add: ev_start_def ev_inv_parts emitter_ok_def)
qed

interpretation events: step_system "ev_start h bc pre" "\<lambda>s s'. ev_step h bc pre s s' \<and> 0 < maxBatchSegments bc" "ev_inv h bc pre" for h bc pre
  by unfold_locales (use ev_inv_start ev_inv_step in blast)+

section \<open>The operations run alone\<close>

text \<open>\<open>processPrefix\<close> without interference is a run of the steps.\<close>

lemma processPrefix_is_run:
  assumes "ev_emitter s = Idle"
    and run: "processPrefix h bc owner healthy now force (ev_idx s) prefix (ev_r s, ev_m s) = ((ow, n), r', m')"
  shows "(ev_step h bc pre)\<^sup>*\<^sup>* s (s\<lparr>ev_r := r', ev_m := m', ev_emitter := Idle, ev_out := ev_out s + mset (ow @ n)\<rparr>)"
proof -
  let ?po = "pending (ev_r s) prefix" and ?segs = "eb_unbatched h (ev_m s) (ev_idx s prefix)"
  have id: "s\<lparr>ev_emitter := Idle\<rparr> = s" using assms(1) by (cases s) simp
  show ?thesis
  proof (cases "may_process force now ?po")
    case False
    then have "r' = ev_r s" "m' = ev_m s" "ow = []" "n = []" using run by (simp_all add: processPrefix_def Let_def)
    then show ?thesis using id by simp
  next
    case True
    let ?s2 = "s\<lparr>ev_emitter := Has prefix ?po force now ?segs\<rparr>"
    have "ev_step h bc pre s (s\<lparr>ev_emitter := Took prefix ?po force now\<rparr>)" using assms(1) True by (rule ev_step.Take)
    moreover have "ev_step h bc pre (s\<lparr>ev_emitter := Took prefix ?po force now\<rparr>) ?s2"
      using ev_step.Read [of "s\<lparr>ev_emitter := Took prefix ?po force now\<rparr>" prefix ?po force now h bc pre] by simp
    ultimately have start: "(ev_step h bc pre)\<^sup>*\<^sup>* s ?s2" by (rule converse_rtranclp_into_rtranclp [OF _ r_into_rtranclp])
    consider "?segs = []" | "?segs \<noteq> []" "\<not> must_emit bc (policy (ev_r s)) force now ?po ?segs" |
      "?segs \<noteq> []" "must_emit bc (policy (ev_r s)) force now ?po ?segs" by blast
    then show ?thesis
    proof cases
      case 1
      then have r: "r' = clearPending prefix (entry_seq ?po) (ev_r s)" "m' = ev_m s" "ow = []" "n = []"
        using run True by (simp_all add: processPrefix_def Let_def)
      have "ev_step h bc pre ?s2 (s\<lparr>ev_r := r', ev_m := m', ev_emitter := Idle, ev_out := ev_out s + mset (ow @ n)\<rparr>)"
        using ev_step.Nothing [of ?s2 prefix ?po force now h bc pre] 1 assms(1) r by simp
      with start show ?thesis by (rule rtranclp.rtrancl_into_rtrancl)
    next
      case 2
      then have r: "r' = ev_r s" "m' = ev_m s" "ow = []" "n = []" using run True by (simp_all add: processPrefix_def Let_def)
      have "ev_step h bc pre ?s2 (s\<lparr>ev_r := r', ev_m := m', ev_emitter := Idle, ev_out := ev_out s + mset (ow @ n)\<rparr>)"
        using ev_step.Wait [of ?s2 prefix ?po force now ?segs bc h pre] 2 assms(1) r by simp
      with start show ?thesis by (rule rtranclp.rtrancl_into_rtrancl)
    next
      case 3
      let ?s3 = "s\<lparr>ev_r := clearPending prefix (entry_seq ?po) (ev_r s), ev_emitter := Cleared prefix ?segs\<rparr>"
      have pb: "policy_batches h bc owner healthy now (policy (ev_r s)) prefix ?segs (ev_m s) = (ow, n, m')"
        and r: "r' = clearPending prefix (entry_seq ?po) (ev_r s)"
        using run True 3 by (auto simp: processPrefix_def Let_def split: prod.splits)
      have "ev_step h bc pre ?s2 ?s3"
        using ev_step.Clear [of ?s2 prefix ?po force now ?segs bc h pre] 3 by simp
      moreover have "ev_step h bc pre ?s3 (s\<lparr>ev_r := r', ev_m := m', ev_emitter := Idle, ev_out := ev_out s + mset (ow @ n)\<rparr>)"
        using ev_step.Emit [of ?s3 prefix ?segs h bc owner healthy now ow n m' pre] pb assms(1) r by (simp add: clear_props)
      ultimately show ?thesis by (rule rtranclp.rtrancl_into_rtrancl [OF rtranclp.rtrancl_into_rtrancl [OF start]])
    qed
  qed
qed

text \<open>
  A due prefix is emitted: once its entry is due, every free segment of the prefix ends up in a batch, and its claim is taken.
\<close>

lemma due_prefix_is_emitted:
  assumes run: "processPrefix h bc owner healthy now False get prefix (r, m) = ((ow, n), r', m')"
    and "pending r prefix = Some e" and "due_at e \<le> now" and "m \<noteq> []" and "0 < maxBatchSegments bc"
    and "\<forall>si \<in> set (get prefix). seg_ok pre prefix si"
  shows "mset (concat (map Segs (ow @ n))) = mset (eb_unbatched h m (get prefix)) \<and> pending r' prefix = None \<and>
    (\<forall>si \<in> set (get prefix). 0 \<le> claimed h m (Path si) \<longrightarrow> IsBatched h m' (Path si))"
proof -
  let ?segs = "eb_unbatched h m (get prefix)"
  have due: "may_process False now (Some e)" "must_emit bc (policy r) False now (Some e) ?segs"
    using assms(3) by (auto simp: may_process_def must_emit_def due_at_def split: if_splits)
  show ?thesis
  proof (cases "?segs = []")
    case True
    then have r: "r' = clearPending prefix (pp_seq e) r" "m' = m" "ow = []" "n = []"
      using run due(1) assms(2) by (simp_all add: processPrefix_def Let_def entry_seq_def)
    have "claimed h m (Path si) \<noteq> 0" if "si \<in> set (get prefix)" for si
      using that True unbatched_mem [of si h m "get prefix"] by (metis empty_iff list.set(1))
    then show ?thesis using r True assms(2) by (auto simp: clear_props entry_seq_def IsBatched_claimed order_less_le)
  next
    case False
    then have pb: "policy_batches h bc owner healthy now (policy r) prefix ?segs m = (ow, n, m')" and r: "r' = clearPending prefix (pp_seq e) r"
      using run due assms(2) by (auto simp: processPrefix_def Let_def entry_seq_def split: prod.splits)
    have ok: "\<forall>si \<in> set ?segs. seg_ok pre prefix si" using assms(6) unbatched_mem by blast
    note P = policy_batches_ok [OF pb assms(4,5) False ok]
    have "IsBatched h m' (Path si)" if si: "si \<in> set (get prefix)" "0 \<le> claimed h m (Path si)" for si
    proof (cases "claimed h m (Path si) = 0")
      case True
      then have "si \<in> set ?segs" using si(1) unbatched_mem by blast
      then have "0 < count_list (map Path ?segs) (Path si)" by (metis count_list_0_iff gr0I image_eqI list.set_map)
      then show ?thesis using P True by (simp add: IsBatched_claimed)
    qed (use P si(2) in \<open>simp add: IsBatched_claimed\<close>)
    then show ?thesis using P r assms(2) by (simp add: clear_props entry_seq_def)
  qed
qed

text \<open>The retry delay doubles with every release up to the maximum, so it is at least the initial delay and at most the maximum.\<close>

lemma double_delay_eq: "0 < d \<Longrightarrow> min (double_delay n d limit) limit = min (d * 2 ^ n) limit"
proof (induction n arbitrary: d)
  case (Suc n)
  show ?case
  proof (cases "d < limit")
    case True
    then show ?thesis using Suc.IH [of "d * 2"] Suc.prems by (simp add: mult.assoc)
  next
    case False
    have "(1 :: int) \<le> 2 ^ Suc n" by (rule one_le_power) simp
    then have "d * 1 \<le> d * 2 ^ Suc n" using Suc.prems by (intro mult_left_mono) simp_all
    then show ?thesis using False by simp
  qed
qed simp

lemma queued_retry_delay:
  assumes "r = (newQueuedBatcher linger)\<lparr>releases := rel\<rparr>"
  shows "fst (release_delay prefix r) = min (second * 2 ^ nat (case rel prefix of None \<Rightarrow> 0 | Some n \<Rightarrow> n)) (60 * second)"
  using double_delay_eq [of second "nat (case rel prefix of None \<Rightarrow> 0 | Some n \<Rightarrow> n)" "60 * second"] assms
  by (simp add: release_delay_def newQueuedBatcher_def newEventBatcher_def queuedSweepInterval_def defaultEventRetryDelay_def Let_def)

text \<open>\<open>nextDeadline\<close> is the earliest time at which a pending prefix is due.\<close>

lemma nextDeadline_Min:
  assumes "iterates ks (pending r)"
  shows "nextDeadline ks r = (if ks = [] then None else Some (Min ((\<lambda>k. due_at (the (pending r k))) ` set ks)))"
proof -
  let ?f = "\<lambda>k. due_at (the (pending r k))"
  let ?step = "\<lambda>k next. case next of None \<Rightarrow> Some (?f k) | Some t \<Rightarrow> if ?f k < t then Some (?f k) else Some t"
  have "fold ?step xs (Some t) = Some (Min (insert t (?f ` set xs)))" for xs t
  proof (induction xs arbitrary: t)
    case (Cons k xs)
    have "fold ?step (k # xs) (Some t) = fold ?step xs (Some (min (?f k) t))" by (simp add: min_def)
    also have "\<dots> = Some (Min (insert (min (?f k) t) (?f ` set xs)))" by (rule Cons.IH)
    also have "Min (insert (min (?f k) t) (?f ` set xs)) = Min (insert t (?f ` set (k # xs)))"
      by (cases "xs = []") (simp_all add: min.assoc min.commute min.left_commute)
    finally show ?case .
  qed simp
  then show ?thesis by (cases ks) (simp_all add: nextDeadline_def)
qed

section \<open>Properties\<close>

text \<open>
  C39. No closed segment is forgotten. However the closing of segments, sweeps, releases, removals and the emitter interleave, whenever the
  emitter is between two prefixes and every announcement has been delivered, each segment in the index that the policy accepts and
  that is in no batch has its prefix pending, so that it will be batched; the only exception are files that could not be
  removed after their delivery.
\<close>

theorem no_segment_forgotten:
  assumes "ev_start h bc pre s" and "(\<lambda>s s'. ev_step h bc pre s s' \<and> 0 < maxBatchSegments bc)\<^sup>*\<^sup>* s s'"
    and "ev_emitter s' = Idle" and "ev_announce s' = {#}" and "ev_releasing s' = {#}"
    and "si \<in> set (ev_idx s' p)" and "accepts bc (policy (ev_r s')) si" and "\<not> IsBatched h (ev_m s') (Path si)" and "Path si \<notin> ev_stuck s'"
  shows "pending (ev_r s') p \<noteq> None"
proof -
  have inv: "ev_inv h bc pre s'" using events.reachable_inv [OF assms(1,2)] .
  then have "claimed h (ev_m s') (Path si) = 0"
    using assms(8) by (simp add: ev_inv_def claims_ok_def IsBatched_claimed order_antisym)
  then have "covered bc s' p si" using inv assms(6,7,9) by (simp add: ev_inv_def owed_def)
  then show ?thesis using assms(3-5) by (simp add: covered_def waiting_def hot_def)
qed

text \<open>A segment closes and is announced to an idle queued batcher.\<close>

definition demo_ev :: ev_sys where
  "demo_ev = \<lparr>ev_r = newQueuedBatcher (5 * second), ev_idx = (\<lambda>_. []), ev_m = NewMap 64, ev_emitter = Idle, ev_announce = {#},
     ev_releasing = {#}, ev_out = {#}, ev_stuck = {}\<rparr>"

definition demo_closed :: ev_sys where
  "demo_closed = (let si = demo_seg ''A_B'' ''A_B_1.wal'' 10 5 in demo_ev\<lparr>ev_idx := (\<lambda>_. [])(''A_B'' := [si]), ev_announce := {#si#}\<rparr>)"

definition demo_announced :: ev_sys where
  "demo_announced = (let si = demo_seg ''A_B'' ''A_B_1.wal'' 10 5
     in demo_closed\<lparr>ev_r := onSegment demo_batcher 9 si (ev_r demo_closed), ev_announce := {#}\<rparr>)"

theorem no_segment_forgotten_witness: "pending (ev_r demo_announced) ''A_B'' \<noteq> None"
proof -
  let ?si = "demo_seg ''A_B'' ''A_B_1.wal'' 10 5" and ?pre = "\<lambda>_ :: string. ''A_B''"
  have si: "Prefix ?si = ''A_B''" "Path ?si = ''A_B_1.wal''" "Size ?si = 10" "SPriority ?si = PriorityQueued" by (simp_all add: demo_seg_def)
  have "ev_start demo_hash demo_batcher ?pre demo_ev"
    by (simp add: ev_start_def demo_ev_def newQueuedBatcher_def, intro exI [of _ "[]"] exI [of _ "QueuedPolicy (5 * second)"]
        exI [of _ queuedSweepInterval] exI, simp)
  moreover have "ev_step demo_hash demo_batcher ?pre demo_ev demo_closed"
    using ev_step.Close [of ?pre ?si demo_ev demo_hash demo_batcher] demo_name
    by (simp add: demo_closed_def demo_ev_def seg_ok_def si Let_def)
  moreover have "ev_step demo_hash demo_batcher ?pre demo_closed demo_announced"
    using ev_step.Announce [of ?si demo_closed demo_hash demo_batcher ?pre 9]
    by (simp add: demo_announced_def demo_closed_def demo_ev_def Let_def)
  ultimately have steps: "ev_start demo_hash demo_batcher ?pre demo_ev"
      "(\<lambda>s s'. ev_step demo_hash demo_batcher ?pre s s' \<and> 0 < maxBatchSegments demo_batcher)\<^sup>*\<^sup>* demo_ev demo_announced"
    by (auto intro!: converse_rtranclp_into_rtranclp [of _ _ demo_closed] r_into_rtranclp)
  have fields: "ev_emitter demo_announced = Idle" "ev_announce demo_announced = {#}" "ev_releasing demo_announced = {#}"
      "ev_idx demo_announced ''A_B'' = [?si]" "ev_m demo_announced = NewMap 64" "ev_stuck demo_announced = {}"
    by (simp_all add: demo_announced_def demo_closed_def demo_ev_def Let_def)
  have acc: "accepts demo_batcher (policy (ev_r demo_announced)) ?si"
    by (simp add: demo_announced_def demo_closed_def demo_ev_def Let_def onSegment_def newQueuedBatcher_def newEventBatcher_def accepts_def si
        markPending_def mark_props)
  show ?thesis
    by (rule no_segment_forgotten [OF steps fields(1-3), of ?si]) (use fields(4-6) acc in \<open>simp_all add: IsBatched_claimed\<close>)
qed

end
