(* ===== verification/PeerTransfer.thy ===== *)
theory PeerTransfer
  imports Batcher WalBlock
begin

text \<open>
  Moving batches to the peers that own them: the health of peers (\<open>ingestor/cluster/health.go\<close>), what a response of a peer means
  (\<open>client.go\<close>), and the replicator (\<open>replicator.go\<close>) that sends a batch, splits it when it is too large for the peer and removes
  the files that were delivered.

  The peer is a parameter: a function from its state and the request to an HTTP response, or none when the request fails. The
  jitter of the back-off is a parameter. Durations do not overflow: they are at most doubled while below a limit of minutes.
\<close>

section \<open>The health of peers\<close>

record HealthOpts =
  UnhealthyTimeout :: duration
  InitialUnhealthyTimeout :: duration
  MaxSegmentCount :: int
  ho_MaxDiskUsage :: int

record HealthStatus =
  Healthy :: bool
  NextCheck :: gotime
  Failures :: int
  pausedUntil :: gotime

type_synonym health = "string \<rightharpoonup> HealthStatus"

definition new_status :: HealthStatus where
  "new_status = \<lparr>Healthy = False, NextCheck = 0, Failures = 0, pausedUntil = 0\<rparr>"

definition NewHealth :: "HealthOpts \<Rightarrow> HealthOpts" where
  "NewHealth ho =
     (let ho = (if UnhealthyTimeout ho = 0 then ho\<lparr>UnhealthyTimeout := 60 * second\<rparr> else ho)
      in if InitialUnhealthyTimeout ho \<le> 0 \<or> InitialUnhealthyTimeout ho > UnhealthyTimeout ho
         then ho\<lparr>InitialUnhealthyTimeout := UnhealthyTimeout ho\<rparr> else ho)"

text \<open>The health of this node, from the number and the size of its segments.\<close>

definition UnhealthyReason :: "HealthOpts \<Rightarrow> int \<Rightarrow> int \<Rightarrow> string" where
  "UnhealthyReason ho segmentsTotal segmentsSize =
     (if MaxSegmentCount ho > 0 \<and> segmentsTotal \<ge> MaxSegmentCount ho then ''MaxSegmentsExceeded''
      else if ho_MaxDiskUsage ho > 0 \<and> segmentsSize \<ge> ho_MaxDiskUsage ho then ''MaxDiskUsageExceeded''
      else [])"

definition IsHealthy :: "HealthOpts \<Rightarrow> int \<Rightarrow> int \<Rightarrow> bool" where
  "IsHealthy ho segmentsTotal segmentsSize \<longleftrightarrow> UnhealthyReason ho segmentsTotal segmentsSize = []"

definition IsPeerHealthy :: "gotime \<Rightarrow> string \<Rightarrow> health \<Rightarrow> bool" where
  "IsPeerHealthy now peer hs =
     (case hs peer of None \<Rightarrow> True | Some s \<Rightarrow> Healthy s \<or> NextCheck s = 0 \<or> now > NextCheck s)"

fun backoff_loop :: "nat \<Rightarrow> duration \<Rightarrow> duration \<Rightarrow> duration" where
  "backoff_loop 0 d limit = d"
| "backoff_loop (Suc n) d limit = (if d < limit then backoff_loop n (d * 2) limit else d)"

definition peerBackoff :: "(duration \<Rightarrow> duration) \<Rightarrow> HealthOpts \<Rightarrow> int \<Rightarrow> duration" where
  "peerBackoff jitter ho failures =
     (let d = min (backoff_loop (nat failures) (InitialUnhealthyTimeout ho) (UnhealthyTimeout ho)) (UnhealthyTimeout ho)
      in if InitialUnhealthyTimeout ho < UnhealthyTimeout ho then d div 2 + jitter (d - d div 2) else d)"

definition unhealthy_status :: "(duration \<Rightarrow> duration) \<Rightarrow> HealthOpts \<Rightarrow> gotime \<Rightarrow> duration \<Rightarrow> HealthStatus \<Rightarrow> HealthStatus" where
  "unhealthy_status jitter ho now retryAfter s =
     (let backing = (\<not> Healthy s \<and> Failures s > 0 \<and> now < NextCheck s);
          failures = (if backing then Failures s - 1 else Failures s);
          s = (if backing then s else s\<lparr>Failures := Failures s + 1\<rparr>);
          nxt = now + min (max (peerBackoff jitter ho failures) retryAfter) (UnhealthyTimeout ho);
          s = (if nxt > NextCheck s then s\<lparr>NextCheck := nxt\<rparr> else s);
          paused = now + min retryAfter (UnhealthyTimeout ho);
          s = (if retryAfter > 0 \<and> paused > pausedUntil s then s\<lparr>pausedUntil := paused\<rparr> else s)
      in s\<lparr>Healthy := False\<rparr>)"

definition status_of :: "health \<Rightarrow> string \<Rightarrow> HealthStatus" where
  "status_of hs peer = (case hs peer of None \<Rightarrow> new_status | Some s \<Rightarrow> s)"

definition SetPeerUnhealthyFor :: "(duration \<Rightarrow> duration) \<Rightarrow> HealthOpts \<Rightarrow> gotime \<Rightarrow> string \<Rightarrow> duration \<Rightarrow> health \<Rightarrow> health" where
  "SetPeerUnhealthyFor jitter ho now peer retryAfter hs = hs(peer \<mapsto> unhealthy_status jitter ho now retryAfter (status_of hs peer))"

definition SetPeerUnhealthy :: "(duration \<Rightarrow> duration) \<Rightarrow> HealthOpts \<Rightarrow> gotime \<Rightarrow> string \<Rightarrow> health \<Rightarrow> health" where
  "SetPeerUnhealthy jitter ho now peer hs = SetPeerUnhealthyFor jitter ho now peer 0 hs"

definition healthy_status :: "gotime \<Rightarrow> HealthStatus \<Rightarrow> HealthStatus" where
  "healthy_status now s =
     (let s = s\<lparr>Failures := 0\<rparr>
      in if now < pausedUntil s then s\<lparr>Healthy := False, NextCheck := pausedUntil s\<rparr>
         else s\<lparr>Healthy := True, NextCheck := 0, pausedUntil := 0\<rparr>)"

definition SetPeerHealthy :: "gotime \<Rightarrow> string \<Rightarrow> health \<Rightarrow> health" where
  "SetPeerHealthy now peer hs = hs(peer \<mapsto> healthy_status now (status_of hs peer))"

section \<open>What a response means\<close>

datatype transfer_error =
    TableOverloaded destination string duration
  | PeerOverloaded duration
  | SegmentTooLarge destination int
  | SegmentExists
  | SegmentLocked
  | BadRequest
  | OtherError

record response =
  StatusCode :: int
  OverloadScope :: string
  OverloadReason :: string
  RetryAfterHeader :: string
  MaxTransferBytes :: string
  body_failed :: bool

text \<open>\<open>strconv.Atoi\<close> and \<open>strconv.ParseInt(s, 10, 64)\<close>: an optional sign and decimal digits, within 64 bits.\<close>

definition dec_digit :: "char \<Rightarrow> int option" where
  "dec_digit c = (let n = int (of_char c) in if 48 \<le> n \<and> n \<le> 57 then Some (n - 48) else None)"

fun dec_value :: "string \<Rightarrow> int \<Rightarrow> int option" where
  "dec_value [] acc = Some acc"
| "dec_value (c # cs) acc = (case dec_digit c of None \<Rightarrow> None | Some d \<Rightarrow> dec_value cs (10 * acc + d))"

definition Atoi :: "string \<Rightarrow> int option" where
  "Atoi s =
     (let neg = (s \<noteq> [] \<and> hd s = CHR ''-''); digits = (if s \<noteq> [] \<and> (hd s = CHR ''-'' \<or> hd s = CHR ''+'') then tl s else s)
      in if digits = [] then None
         else case dec_value digits 0 of
                None \<Rightarrow> None
              | Some n \<Rightarrow> let v = (if neg then - n else n) in if - (2 ^ 63) \<le> v \<and> v < 2 ^ 63 then Some v else None)"

definition retryDelay :: "string \<Rightarrow> duration" where
  "retryDelay v =
     (case Atoi v of
        None \<Rightarrow> 5 * second
      | Some n \<Rightarrow> if n \<le> 0 then 5 * second else min n 300 * second)"

text \<open>
  The error \<open>Client.Write\<close> returns for what the HTTP client returned. \<open>ParseInt\<close> gives the nearest bound of the type when the number
  is out of range, and the limit is only logged: it is kept when it is in range.
\<close>

definition Write_error :: "string \<Rightarrow> response option \<Rightarrow> transfer_error option" where
  "Write_error filename ro =
     (case ro of
        None \<Rightarrow> Some OtherError
      | Some r \<Rightarrow>
          if StatusCode r = 202 then None
          else if body_failed r then Some OtherError
          else
            let (d, derr) = DestinationFromFilename filename
            in if StatusCode r = 429 then
                 (if OverloadScope r = ''table'' then
                    (if derr \<noteq> None then Some OtherError else Some (TableOverloaded d (OverloadReason r) (retryDelay (RetryAfterHeader r))))
                  else Some (PeerOverloaded (retryDelay (RetryAfterHeader r))))
               else if StatusCode r = 413 then
                 (if derr \<noteq> None then Some OtherError
                  else Some (SegmentTooLarge d (case Atoi (MaxTransferBytes r) of None \<Rightarrow> 0 | Some n \<Rightarrow> n)))
               else if StatusCode r = 409 then Some SegmentExists
               else if StatusCode r = 423 then Some SegmentLocked
               else if StatusCode r = 400 then Some BadRequest
               else Some OtherError)"

section \<open>The replicator\<close>

text \<open>
  What stays the same during a transfer. \<open>unreadable\<close> are files that exist and cannot be opened, \<open>refused\<close> those that cannot be removed.
\<close>

record ('p) transfer_env =
  te_hash :: hash64
  te_nodes :: partitioner
  te_hostname :: string
  te_health :: HealthOpts
  te_jitter :: "duration \<Rightarrow> duration"
  te_now :: gotime
  te_unreadable :: "string \<Rightarrow> bool"
  te_refused :: "string \<Rightarrow> bool"
  te_peer :: "'p \<Rightarrow> string \<Rightarrow> string \<Rightarrow> bytes \<Rightarrow> response option \<times> 'p"

text \<open>What changes; \<open>tr_log\<close> is the log of the requests: their depth, their segments and their result.\<close>

record ('p) transfer =
  tr_batch :: batch
  tr_removal :: removal
  tr_health :: health
  tr_backoff :: backoff
  tr_peer :: 'p
  tr_log :: "(nat \<times> segment_info list \<times> transfer_error option) list"

definition maxSplitDepth :: nat where "maxSplitDepth = 8"

definition maxSchedulerRetry :: duration where "maxSchedulerRetry = second"

text \<open>\<open>NewSegmentMerger\<close>: the first file that cannot be opened decides; otherwise the merged bytes.\<close>

datatype open_result = NotExist | OpenError | Opened bytes

fun open_files :: "(string \<Rightarrow> bool) \<Rightarrow> (string \<rightharpoonup> bytes) \<Rightarrow> string list \<Rightarrow> bytes list \<Rightarrow> open_result" where
  "open_files unreadable fs [] acc = Opened (SegmentMerger_bytes acc)"
| "open_files unreadable fs (p # ps) acc =
     (case fs p of None \<Rightarrow> NotExist | Some b \<Rightarrow> if unreadable p then OpenError else open_files unreadable fs ps (acc @ [b]))"

definition batch_RemoveSegments :: "(string \<Rightarrow> bool) \<Rightarrow> segment_info list \<Rightarrow> batch \<Rightarrow> removal \<Rightarrow> removal" where
  "batch_RemoveSegments refused segs b w = (if segs = [] then w else batcher_Remove refused (b\<lparr>Segs := segs\<rparr>) w)"

definition replicator_remove :: "'p transfer_env \<Rightarrow> segment_info list \<Rightarrow> 'p transfer \<Rightarrow> 'p transfer" where
  "replicator_remove e segs t =
     (if length segs = length (Segs (tr_batch t)) then
        case batch_Remove (te_refused e) (tr_batch t) (tr_removal t) of (b, w) \<Rightarrow> t\<lparr>tr_batch := b, tr_removal := w\<rparr>
      else t\<lparr>tr_removal := batch_RemoveSegments (te_refused e) segs (tr_batch t) (tr_removal t)\<rparr>)"

definition transfer_key :: "parsed_name \<Rightarrow> string" where
  "transfer_key p =
     (if pn_schema p \<noteq> [] then pn_database p @ ''_'' @ pn_table p @ ''_'' @ pn_schema p else pn_database p @ ''_'' @ pn_table p)"

text \<open>What \<open>send\<close> does up to the request, when it sends one: the owner, its address, and the bytes.\<close>

datatype plan = Stop bool | Request string string string bytes

definition send_plan :: "'p transfer_env \<Rightarrow> segment_info list \<Rightarrow> 'p transfer \<Rightarrow> plan \<times> 'p transfer" where
  "send_plan e segs t =
     (case open_files (te_unreadable e) (fst (tr_removal t)) (map Path segs) [] of
        NotExist \<Rightarrow> (Stop False, t)
      | OpenError \<Rightarrow> (Stop True, t)
      | Opened bs \<Rightarrow>
          let filename = filepath_Base (Path (hd segs)); p = ParseFilename filename
          in if pn_err p \<noteq> None then (Stop True, t)
             else
               let (owner, addr) = Owner (te_hash e) (transfer_key p) (te_nodes e);
                   (rdy, bo) = ready owner \<lparr>Database = pn_database p, Table = pn_table p\<rparr> (te_now e) (tr_backoff t);
                   t = t\<lparr>tr_backoff := bo\<rparr>
               in if \<not> rdy then (Stop False, t)
                  else if owner = te_hostname e then (Stop False, t)
                  else if \<not> IsPeerHealthy (te_now e) owner (tr_health t) then (Stop False, t)
                  else (Request owner addr filename bs, t))"

text \<open>What \<open>send\<close> does with the result of a request that was not too large: whether it returns an error, and the state.\<close>

definition send_result :: "'p transfer_env \<Rightarrow> segment_info list \<Rightarrow> string \<Rightarrow> transfer_error option \<Rightarrow> 'p transfer \<Rightarrow> bool \<times> 'p transfer" where
  "send_result e segs owner res t =
     (case res of
        None \<Rightarrow> (False, replicator_remove e segs (t\<lparr>tr_health := SetPeerHealthy (te_now e) owner (tr_health t)\<rparr>))
      | Some (TableOverloaded d reason after) \<Rightarrow>
          (False, t\<lparr>tr_backoff := deferUntil (te_now e) owner d (te_now e + after) (tr_backoff t),
                   tr_batch := RetryAfter (min after maxSchedulerRetry) (tr_batch t)\<rparr>)
      | Some BadRequest \<Rightarrow> (False, replicator_remove e segs t)
      | Some SegmentExists \<Rightarrow> (False, replicator_remove e segs t)
      | Some SegmentLocked \<Rightarrow> (False, t)
      | Some (PeerOverloaded after) \<Rightarrow>
          (True, t\<lparr>tr_health := SetPeerUnhealthyFor (te_jitter e) (te_health e) (te_now e) owner after (tr_health t)\<rparr>)
      | Some _ \<Rightarrow> (True, t\<lparr>tr_health := SetPeerUnhealthy (te_jitter e) (te_health e) (te_now e) owner (tr_health t)\<rparr>))"

text \<open>The request itself.\<close>

definition send_request :: "'p transfer_env \<Rightarrow> nat \<Rightarrow> segment_info list \<Rightarrow> string \<Rightarrow> string \<Rightarrow> bytes \<Rightarrow> 'p transfer \<Rightarrow> transfer_error option \<times> 'p transfer" where
  "send_request e depth segs addr filename bs t =
     (let (ro, p) = te_peer e (tr_peer t) addr filename bs; res = Write_error filename ro
      in (res, t\<lparr>tr_peer := p, tr_log := tr_log t @ [(depth, segs, res)]\<rparr>))"

text \<open>\<open>send\<close> with \<open>splitOversized\<close>: the errors of the halves are collected.\<close>

function send :: "'p transfer_env \<Rightarrow> segment_info list \<Rightarrow> nat \<Rightarrow> 'p transfer \<Rightarrow> bool \<times> 'p transfer" where
  "send e segs depth t =
     (if segs = [] then (False, t)
      else case send_plan e segs t of
        (Stop err, t) \<Rightarrow> (err, t)
      | (Request owner addr filename bs, t) \<Rightarrow>
          (case send_request e depth segs addr filename bs t of
             (Some (SegmentTooLarge d limit), t) \<Rightarrow>
               (if length segs \<le> 1 \<or> depth \<ge> maxSplitDepth then (False, replicator_remove e segs t)
                else
                  let mid = length segs div 2
                  in case send e (take mid segs) (depth + 1) t of (e1, t) \<Rightarrow>
                     case send e (drop mid segs) (depth + 1) t of (e2, t) \<Rightarrow> (e1 \<or> e2, t))
           | (res, t) \<Rightarrow> send_result e segs owner res t))"
  by pat_completeness auto
termination
  by (relation "measure (\<lambda>(e, segs, depth, t). length segs)") auto

declare send.simps [simp del]

text \<open>\<open>transfer\<close>: the batch is released whatever happened.\<close>

definition replicator_transfer :: "hash \<Rightarrow> 'p transfer_env \<Rightarrow> 'p transfer \<Rightarrow> claims \<Rightarrow> 'p transfer \<times> claims \<times> (destination \<times> duration) option" where
  "replicator_transfer h e t m =
     (case send e (Segs (tr_batch t)) 0 t of (err, t) \<Rightarrow>
      case batch_Release h (tr_batch t) m of (b, m, c) \<Rightarrow> (t\<lparr>tr_batch := b\<rparr>, m, c))"

section \<open>Back-off of peers\<close>

text \<open>What the reports of requests to one peer do, at their times.\<close>

datatype health_op = FailOp gotime duration | OkOp gotime

fun op_time :: "health_op \<Rightarrow> gotime" where
  "op_time (FailOp now _) = now"
| "op_time (OkOp now) = now"

fun health_apply :: "(duration \<Rightarrow> duration) \<Rightarrow> HealthOpts \<Rightarrow> string \<Rightarrow> health_op \<Rightarrow> health \<Rightarrow> health" where
  "health_apply jitter ho peer (FailOp now after) hs = SetPeerUnhealthyFor jitter ho now peer after hs"
| "health_apply jitter ho peer (OkOp now) hs = SetPeerHealthy now peer hs"

text \<open>The options after \<open>NewHealth\<close>, and what the code relies on of the jitter: \<open>rand.N(n)\<close> is below \<open>n\<close>.\<close>

definition health_ok :: "(duration \<Rightarrow> duration) \<Rightarrow> HealthOpts \<Rightarrow> bool" where
  "health_ok jitter ho \<longleftrightarrow> 0 < InitialUnhealthyTimeout ho \<and> InitialUnhealthyTimeout ho \<le> UnhealthyTimeout ho \<and>
     (\<forall>n. 0 \<le> jitter n \<and> (0 < n \<longrightarrow> jitter n < n))"

lemma NewHealth_ok: "0 \<le> UnhealthyTimeout ho \<Longrightarrow> (\<forall>n. 0 \<le> jitter n \<and> (0 < n \<longrightarrow> jitter n < n)) \<Longrightarrow> health_ok jitter (NewHealth ho)"
  by (auto simp: health_ok_def NewHealth_def Let_def)

lemma backoff_loop_ge: "0 < d \<Longrightarrow> d \<le> backoff_loop n d limit"
proof (induction n arbitrary: d)
  case (Suc n)
  have "d * 2 \<le> backoff_loop n (d * 2) limit" using Suc.IH [of "d * 2"] Suc.prems by simp
  then show ?case using Suc.prems by simp
qed simp

lemma peerBackoff_bounds:
  assumes "health_ok jitter ho"
  shows "0 \<le> peerBackoff jitter ho n \<and> peerBackoff jitter ho n \<le> UnhealthyTimeout ho"
proof -
  define d where "d = min (backoff_loop (nat n) (InitialUnhealthyTimeout ho) (UnhealthyTimeout ho)) (UnhealthyTimeout ho)"
  have d: "0 < d" "d \<le> UnhealthyTimeout ho"
    using assms backoff_loop_ge [of "InitialUnhealthyTimeout ho" "nat n" "UnhealthyTimeout ho"] unfolding d_def health_ok_def by linarith+
  have "0 < d - d div 2" using d(1) by linarith
  then have "0 \<le> jitter (d - d div 2)" "jitter (d - d div 2) < d - d div 2" using assms by (auto simp: health_ok_def)
  moreover have "0 \<le> d div 2" using d(1) by simp
  moreover have "peerBackoff jitter ho n = (if InitialUnhealthyTimeout ho < UnhealthyTimeout ho then d div 2 + jitter (d - d div 2) else d)"
    by (simp add: peerBackoff_def d_def Let_def)
  ultimately show ?thesis using d by (simp split: if_split)
qed

text \<open>The status of a peer that asked to be left alone until \<open>p\<close>, with no deadline behind \<open>l\<close>.\<close>

definition paused_to :: "gotime \<Rightarrow> gotime \<Rightarrow> HealthStatus \<Rightarrow> bool" where
  "paused_to p l s \<longleftrightarrow> \<not> Healthy s \<and> p \<le> NextCheck s \<and> NextCheck s \<noteq> 0 \<and> p \<le> pausedUntil s \<and> NextCheck s \<le> l \<and> pausedUntil s \<le> l"

lemma unhealthy_fields:
  assumes "health_ok jitter ho"
  shows "\<exists>w. 0 \<le> w \<and> w \<le> UnhealthyTimeout ho \<and> min after (UnhealthyTimeout ho) \<le> w \<and>
    \<not> Healthy (unhealthy_status jitter ho now after s) \<and> NextCheck (unhealthy_status jitter ho now after s) = max (NextCheck s) (now + w) \<and>
    pausedUntil (unhealthy_status jitter ho now after s) =
      (if 0 < after then max (pausedUntil s) (now + min after (UnhealthyTimeout ho)) else pausedUntil s)"
proof -
  let ?f = "if \<not> Healthy s \<and> Failures s > 0 \<and> now < NextCheck s then Failures s - 1 else Failures s"
  let ?w = "min (max (peerBackoff jitter ho ?f) after) (UnhealthyTimeout ho)"
  have later: "(if y < x then x else y) = max y x" for y x :: int by simp
  have "0 < UnhealthyTimeout ho" using assms by (auto simp: health_ok_def)
  then have "0 \<le> ?w" "?w \<le> UnhealthyTimeout ho" "min after (UnhealthyTimeout ho) \<le> ?w"
    using peerBackoff_bounds [OF assms, of ?f] by linarith+
  moreover have "\<not> Healthy (unhealthy_status jitter ho now after s)" by (simp add: unhealthy_status_def Let_def)
  moreover have "NextCheck (unhealthy_status jitter ho now after s) = max (NextCheck s) (now + ?w)"
    unfolding later [of "NextCheck s" "now + ?w", symmetric] unhealthy_status_def Let_def
    by (cases "\<not> Healthy s \<and> Failures s > 0 \<and> now < NextCheck s") simp_all
  moreover have "pausedUntil (unhealthy_status jitter ho now after s) =
      (if 0 < after then max (pausedUntil s) (now + min after (UnhealthyTimeout ho)) else pausedUntil s)"
    unfolding later [of "pausedUntil s", symmetric] by (simp add: unhealthy_status_def Let_def)
  ultimately show ?thesis by blast
qed

lemma unhealthy_paused:
  assumes "health_ok jitter ho" and "0 < now" and "0 < after" and "p = now + min after (UnhealthyTimeout ho)"
    and "l = now + UnhealthyTimeout ho" and "NextCheck s \<le> l" and "pausedUntil s \<le> l"
  shows "paused_to p l (unhealthy_status jitter ho now after s)"
  using assms(2-7) unhealthy_fields [OF assms(1), of after now s] unfolding paused_to_def by auto

lemma unhealthy_keeps:
  assumes "health_ok jitter ho" and "paused_to p l s" and "0 < now" and "now + UnhealthyTimeout ho \<le> l"
  shows "paused_to p l (unhealthy_status jitter ho now after s)"
proof -
  obtain w where w: "0 \<le> w" "w \<le> UnhealthyTimeout ho" "min after (UnhealthyTimeout ho) \<le> w"
      "\<not> Healthy (unhealthy_status jitter ho now after s)" "NextCheck (unhealthy_status jitter ho now after s) = max (NextCheck s) (now + w)"
      "pausedUntil (unhealthy_status jitter ho now after s) =
        (if 0 < after then max (pausedUntil s) (now + min after (UnhealthyTimeout ho)) else pausedUntil s)"
    using unhealthy_fields [OF assms(1)] by blast
  have "max (NextCheck s) (now + w) \<noteq> 0" using assms(3) w(1) by linarith
  then show ?thesis using assms(2,4) w unfolding paused_to_def w(5,6) by auto
qed

lemma healthy_keeps:
  assumes "paused_to p l s" and "now < p" and "0 < now"
  shows "paused_to p l (healthy_status now s)"
  using assms by (auto simp: paused_to_def healthy_status_def Let_def)

lemma paused_fold:
  assumes "health_ok jitter ho"
  shows "(\<exists>s. hs peer = Some s \<and> paused_to p l s) \<Longrightarrow> \<forall>x \<in> set ops. 0 < op_time x \<and> op_time x < p \<and> op_time x + UnhealthyTimeout ho \<le> l \<Longrightarrow>
    \<exists>s. fold (health_apply jitter ho peer) ops hs peer = Some s \<and> paused_to p l s"
proof (induction ops arbitrary: hs)
  case (Cons x ops)
  obtain s where s: "hs peer = Some s" "paused_to p l s" using Cons.prems(1) by blast
  have "\<exists>s'. health_apply jitter ho peer x hs peer = Some s' \<and> paused_to p l s'"
  proof (cases x)
    case (FailOp now after)
    then show ?thesis
      using s unhealthy_keeps [OF assms s(2)] Cons.prems(2) by (simp add: SetPeerUnhealthyFor_def status_of_def)
  next
    case (OkOp now)
    then show ?thesis using s healthy_keeps [OF s(2)] Cons.prems(2) by (simp add: SetPeerHealthy_def status_of_def)
  qed
  then show ?case using Cons.IH Cons.prems(2) by simp
qed simp

section \<open>Which files go\<close>

lemma remove_all_files:
  "fst (remove_all refused sis (fs, ix, ao)) p = (if p \<in> Path ` set sis \<and> \<not> (fs p \<noteq> None \<and> refused p) then None else fs p)"
proof (induction sis arbitrary: fs ix ao)
  case (Cons si sis)
  obtain ix' ao' where i: "index_Remove si ix ao = (ix', ao')" by fastforce
  show ?case
  proof (cases "fs (Path si) \<noteq> None \<and> refused (Path si)")
    case True
    then show ?thesis using Cons [of fs ix ao] by auto
  next
    case False
    then have step: "remove_all refused (si # sis) (fs, ix, ao) = remove_all refused sis (fs(Path si := None), ix', ao')" using i by auto
    show ?thesis unfolding step Cons using False by auto
  qed
qed simp

text \<open>Requests after which the sender drops its segments.\<close>

fun settled :: "nat \<times> segment_info list \<times> transfer_error option \<Rightarrow> bool" where
  "settled (d, ss, res) =
     (case res of
        None \<Rightarrow> True
      | Some SegmentExists \<Rightarrow> True
      | Some BadRequest \<Rightarrow> True
      | Some (SegmentTooLarge _ _) \<Rightarrow> length ss \<le> 1 \<or> d \<ge> maxSplitDepth
      | Some _ \<Rightarrow> False)"

definition settled_segs :: "(nat \<times> segment_info list \<times> transfer_error option) list \<Rightarrow> segment_info list" where
  "settled_segs l = concat (map (\<lambda>x. fst (snd x)) (filter settled l))"

lemma settled_segs_simps [simp]: "settled_segs [] = []" "settled_segs (l @ l') = settled_segs l @ settled_segs l'"
  "settled_segs [(d, ss, res)] = (if settled (d, ss, res) then ss else [])"
  by (simp_all add: settled_segs_def)

text \<open>The files after the segments \<open>ss\<close> were dropped.\<close>

definition files_after :: "(string \<Rightarrow> bool) \<Rightarrow> segment_info list \<Rightarrow> (string \<rightharpoonup> bytes) \<Rightarrow> string \<rightharpoonup> bytes" where
  "files_after refused ss fs = (\<lambda>p. if p \<in> Path ` set ss \<and> \<not> (fs p \<noteq> None \<and> refused p) then None else fs p)"

lemma files_after_append: "files_after refused b (files_after refused a fs) = files_after refused (a @ b) fs"
  by (auto simp: files_after_def fun_eq_iff)

lemma files_after_Nil [simp]: "files_after refused [] fs = fs"
  by (simp add: files_after_def)

definition part_of :: "segment_info list \<Rightarrow> 'p transfer \<Rightarrow> bool" where
  "part_of segs t \<longleftrightarrow> segs = Segs (tr_batch t) \<or> length segs < length (Segs (tr_batch t))"

definition held :: "'p transfer \<Rightarrow> segment_info list \<times> bool" where
  "held t = (Segs (tr_batch t), released (tr_batch t))"

lemma replicator_remove_files:
  assumes "part_of segs t"
  shows "fst (tr_removal (replicator_remove e segs t)) = files_after (te_refused e) segs (fst (tr_removal t))"
    and "held (replicator_remove e segs t) = held t" and "tr_log (replicator_remove e segs t) = tr_log t"
proof -
  obtain fs ix ao where w: "tr_removal t = (fs, ix, ao)" by (metis prod_cases3)
  have f: "fst (remove_all (te_refused e) x (fs, ix, ao)) = files_after (te_refused e) x fs" for x
    by (simp add: files_after_def fun_eq_iff remove_all_files)
  have eq: "length segs = length (Segs (tr_batch t)) \<Longrightarrow> Segs (tr_batch t) = segs" using assms by (auto simp: part_of_def)
  show "fst (tr_removal (replicator_remove e segs t)) = files_after (te_refused e) segs (fst (tr_removal t))"
    using f eq by (auto simp: replicator_remove_def batch_Remove_def batcher_Remove_def batch_RemoveSegments_def w)
qed (simp_all add: held_def replicator_remove_def batch_Remove_def split: prod.splits)

lemma send_plan_keeps:
  assumes "send_plan e segs t = (pl, t')"
  shows "tr_removal t' = tr_removal t \<and> tr_batch t' = tr_batch t \<and> tr_log t' = tr_log t"
  using assms by (auto simp: send_plan_def Let_def split: open_result.splits if_splits prod.splits)

lemma send_result_files:
  assumes "send_result e segs owner res t = (err, t')" and "part_of segs t" and "\<forall>d l. res \<noteq> Some (SegmentTooLarge d l)"
  shows "fst (tr_removal t') = files_after (te_refused e) (if settled (n, segs, res) then segs else []) (fst (tr_removal t)) \<and>
    held t' = held t \<and> tr_log t' = tr_log t"
proof (cases res)
  case None
  have "part_of segs (t\<lparr>tr_health := x\<rparr>)" for x using assms(2) by (simp add: part_of_def)
  note R = replicator_remove_files [OF this [of "SetPeerHealthy (te_now e) owner (tr_health t)"], of e]
  have "t' = replicator_remove e segs (t\<lparr>tr_health := SetPeerHealthy (te_now e) owner (tr_health t)\<rparr>)"
    using assms(1) None by (simp add: send_result_def)
  then show ?thesis using None R by (simp add: held_def)
next
  case (Some x)
  then show ?thesis using assms replicator_remove_files [OF assms(2)]
    by (cases x) (auto simp: send_result_def RetryAfter_def held_def)
qed

text \<open>
  What a transfer leaves behind: the log grew, the files of the settled requests are gone where they can be removed and no others, every
  request holds segments of the batch, no segment is settled twice, and the requests shrink with their depth.
\<close>

definition small :: "nat \<times> segment_info list \<times> transfer_error option \<Rightarrow> bool" where
  "small x \<longleftrightarrow> fst x \<le> maxSplitDepth \<and> length (fst (snd x)) \<le> 2 ^ (maxSplitDepth - fst x)"

definition within :: "segment_info list \<Rightarrow> nat \<times> segment_info list \<times> transfer_error option \<Rightarrow> bool" where
  "within segs x \<longleftrightarrow> fst (snd x) \<noteq> [] \<and> set (fst (snd x)) \<subseteq> set segs"

lemma within_mono: "list_all (within a) l \<Longrightarrow> set a \<subseteq> set b \<Longrightarrow> list_all (within b) l"
  by (auto simp: list_all_iff within_def)

definition sent_ok :: "'p transfer_env \<Rightarrow> segment_info list \<Rightarrow> nat \<Rightarrow> 'p transfer \<Rightarrow> 'p transfer \<Rightarrow> bool" where
  "sent_ok e segs depth t t' \<longleftrightarrow>
     (\<exists>new. tr_log t' = tr_log t @ new \<and> held t' = held t \<and>
        fst (tr_removal t') = files_after (te_refused e) (settled_segs new) (fst (tr_removal t)) \<and>
        mset (settled_segs new) \<subseteq># mset segs \<and>
        (depth \<le> maxSplitDepth \<longrightarrow> length segs \<le> 2 ^ (maxSplitDepth - depth) \<longrightarrow>
           list_all small new) \<and>
        list_all (within segs) new)"

lemma sent_ok_stop:
  assumes "tr_log t' = tr_log t" and "held t' = held t" and "tr_removal t' = tr_removal t"
  shows "sent_ok e segs depth t t'"
  unfolding sent_ok_def by (rule exI [of _ "[]"]) (use assms in simp)

lemma sent_ok_one:
  assumes "segs \<noteq> []" and "tr_log t' = tr_log t @ [(depth, segs, res)]" and "held t' = held t"
    and "fst (tr_removal t') = files_after (te_refused e) (if settled (depth, segs, res) then segs else []) (fst (tr_removal t))"
  shows "sent_ok e segs depth t t'"
  unfolding sent_ok_def by (rule exI [of _ "[(depth, segs, res)]"]) (use assms in \<open>auto simp: small_def within_def\<close>)

lemma half_power: "length segs \<le> 2 ^ (maxSplitDepth - depth) \<Longrightarrow> depth < maxSplitDepth \<Longrightarrow>
    length segs div 2 \<le> 2 ^ (maxSplitDepth - (depth + 1)) \<and> length segs - length segs div 2 \<le> 2 ^ (maxSplitDepth - (depth + 1))"
proof -
  assume a: "length segs \<le> 2 ^ (maxSplitDepth - depth)" "depth < maxSplitDepth"
  have "2 ^ (maxSplitDepth - depth) = 2 * (2 :: nat) ^ (maxSplitDepth - (depth + 1))"
    using a(2) by (metis Suc_diff_Suc Suc_eq_plus1 power_Suc)
  then show ?thesis using a(1) by linarith
qed

lemma sent_ok_split:
  assumes "segs \<noteq> []" and "\<not> settled (depth, segs, res)" and "depth < maxSplitDepth"
    and t1: "tr_log t1 = tr_log t @ [(depth, segs, res)]" "held t1 = held t" "tr_removal t1 = tr_removal t"
    and a: "sent_ok e (take (length segs div 2) segs) (depth + 1) t1 t2" and b: "sent_ok e (drop (length segs div 2) segs) (depth + 1) t2 t3"
  shows "sent_ok e segs depth t t3"
proof -
  let ?m = "length segs div 2"
  obtain n1 where n1: "tr_log t2 = tr_log t1 @ n1" "held t2 = held t1"
      "fst (tr_removal t2) = files_after (te_refused e) (settled_segs n1) (fst (tr_removal t1))" "mset (settled_segs n1) \<subseteq># mset (take ?m segs)"
      "depth + 1 \<le> maxSplitDepth \<longrightarrow> length (take ?m segs) \<le> 2 ^ (maxSplitDepth - (depth + 1)) \<longrightarrow>
         list_all small n1"
      "list_all (within (take ?m segs)) n1"
    using a unfolding sent_ok_def by blast
  obtain n2 where n2: "tr_log t3 = tr_log t2 @ n2" "held t3 = held t2"
      "fst (tr_removal t3) = files_after (te_refused e) (settled_segs n2) (fst (tr_removal t2))" "mset (settled_segs n2) \<subseteq># mset (drop ?m segs)"
      "depth + 1 \<le> maxSplitDepth \<longrightarrow> length (drop ?m segs) \<le> 2 ^ (maxSplitDepth - (depth + 1)) \<longrightarrow>
         list_all small n2"
      "list_all (within (drop ?m segs)) n2"
    using b unfolding sent_ok_def by blast
  let ?new = "[(depth, segs, res)] @ n1 @ n2"
  have s: "settled_segs ?new = settled_segs n1 @ settled_segs n2" unfolding settled_segs_simps using assms(2) by simp
  have "mset (settled_segs n1) + mset (settled_segs n2) \<subseteq># mset (take ?m segs) + mset (drop ?m segs)"
    using n1(4) n2(4) by (rule subset_mset.add_mono)
  then have "mset (settled_segs ?new) \<subseteq># mset segs" unfolding s by (metis append_take_drop_id mset_append)
  moreover have "list_all small ?new" if "length segs \<le> 2 ^ (maxSplitDepth - depth)"
    using that n1(5) n2(5) half_power [OF that assms(3)] assms(3) by (simp add: small_def)
  moreover have "list_all (within segs) ?new"
    using within_mono [OF n1(6) set_take_subset] within_mono [OF n2(6) set_drop_subset] assms(1) by (simp add: within_def)
  moreover have "fst (tr_removal t3) = files_after (te_refused e) (settled_segs ?new) (fst (tr_removal t))"
    unfolding s n2(3) n1(3) t1(3) files_after_append ..
  ultimately show ?thesis unfolding sent_ok_def using n1(1,2) n2(1,2) t1 by (intro exI [of _ ?new]) simp
qed

lemma send_ok:
  assumes "part_of segs t" and "send e segs depth t = (err, t')"
  shows "sent_ok e segs depth t t'"
  using assms
proof (induction "length segs" arbitrary: segs depth t err t' rule: less_induct)
  case less
  note unfold = send.simps [of e segs depth t]
  show ?case
  proof (cases "segs = []")
    case True
    then show ?thesis using less.prems(2) unfold by (auto intro: sent_ok_stop)
  next
    case False
    obtain pl t0 where p: "send_plan e segs t = (pl, t0)" by fastforce
    note P = send_plan_keeps [OF p]
    show ?thesis
    proof (cases pl)
      case (Stop x)
      then have "t' = t0" using less.prems(2) unfold False p by simp
      then show ?thesis using P by (intro sent_ok_stop) (simp_all add: held_def)
    next
      case (Request owner addr filename bs)
      obtain res t1 where q: "send_request e depth segs addr filename bs t0 = (res, t1)" by fastforce
      then have t1: "tr_log t1 = tr_log t @ [(depth, segs, res)]" "held t1 = held t" "tr_removal t1 = tr_removal t"
        using P by (auto simp: send_request_def Let_def held_def split: prod.splits)
      have part: "part_of segs t1" using less.prems(1) t1(2) by (simp add: part_of_def held_def)
      show ?thesis
      proof (cases "\<exists>d l. res = Some (SegmentTooLarge d l)")
        case False
        then have r: "send_result e segs owner res t1 = (err, t')"
          using less.prems(2) unfold \<open>segs \<noteq> []\<close> p Request q by (auto split: option.splits transfer_error.splits)
        show ?thesis
          using send_result_files [OF r part, of depth] False t1 by (intro sent_ok_one [where res = res, OF \<open>segs \<noteq> []\<close>]) simp_all
      next
        case True
        then obtain d l where res: "res = Some (SegmentTooLarge d l)" by blast
        show ?thesis
        proof (cases "length segs \<le> 1 \<or> depth \<ge> maxSplitDepth")
          case stop: True
          then have "t' = replicator_remove e segs t1" using less.prems(2) unfold \<open>segs \<noteq> []\<close> p Request q res by simp
          then show ?thesis
            using replicator_remove_files [OF part, of e] stop t1 res by (intro sent_ok_one [where res = res, OF \<open>segs \<noteq> []\<close>]) auto
        next
          case split: False
          let ?m = "length segs div 2"
          obtain e1 t2 where s1: "send e (take ?m segs) (depth + 1) t1 = (e1, t2)" by fastforce
          obtain e2 t3 where s2: "send e (drop ?m segs) (depth + 1) t2 = (e2, t3)" by fastforce
          have t': "t' = t3" using less.prems(2) unfold \<open>segs \<noteq> []\<close> p Request q res split s1 s2 by (simp add: Let_def)
          have len: "length (take ?m segs) < length segs" "length (drop ?m segs) < length segs" using split \<open>segs \<noteq> []\<close> by (auto simp: not_le)
          have "length segs \<le> length (Segs (tr_batch t1))" using part by (auto simp: part_of_def)
          then have pt: "part_of (take ?m segs) t1" using len(1) by (simp add: part_of_def)
          have a: "sent_ok e (take ?m segs) (depth + 1) t1 t2" by (rule less.hyps [OF len(1) pt s1])
          then have "Segs (tr_batch t2) = Segs (tr_batch t1)" by (auto simp: sent_ok_def held_def)
          then have pt2: "part_of (drop ?m segs) t2" using len(2) \<open>length segs \<le> length (Segs (tr_batch t1))\<close> by (simp add: part_of_def)
          have b: "sent_ok e (drop ?m segs) (depth + 1) t2 t3" by (rule less.hyps [OF len(2) pt2 s2])
          have ns: "\<not> settled (depth, segs, res)" using res split by simp
          show ?thesis unfolding t'
            by (rule sent_ok_split [OF \<open>segs \<noteq> []\<close> ns _ t1(1) _ t1(3) a b]) (use split t1(2) in simp_all)
        qed
      qed
    qed
  qed
qed

lemma distinct_sub:
  assumes "mset a \<subseteq># mset b" and "distinct (map f b)"
  shows "distinct (map f a)"
proof -
  obtain c where "mset b = mset a + c" using assms(1) by (metis mset_subset_eq_exists_conv)
  then obtain cs where "mset b = mset (a @ cs)" by (metis ex_mset mset_append)
  then have "mset (map f b) = mset (map f (a @ cs))" by (metis mset_map)
  then show ?thesis using assms(2) mset_eq_imp_distinct_iff by fastforce
qed

section \<open>Properties\<close>

text \<open>
  A pause that a peer asked for is respected, and ends. After a failure at \<open>now\<close> in which the peer asked to wait, whatever other requests
  report meanwhile, successes and failures, the peer counts as unhealthy until the pause (at most the timeout) has passed; and it counts as
  healthy again once the timeout has passed since the last report.
\<close>

lemma pause_respected:
  assumes "health_ok jitter ho" and "0 < now" and "0 < after" and "now \<le> lst"
    and "\<forall>s. hs peer = Some s \<longrightarrow> NextCheck s \<le> now + UnhealthyTimeout ho \<and> pausedUntil s \<le> now + UnhealthyTimeout ho"
    and "\<forall>x \<in> set ops. now \<le> op_time x \<and> op_time x \<le> lst \<and> op_time x < now + min after (UnhealthyTimeout ho)"
  shows "(\<forall>t \<le> now + min after (UnhealthyTimeout ho).
       \<not> IsPeerHealthy t peer (fold (health_apply jitter ho peer) ops (SetPeerUnhealthyFor jitter ho now peer after hs))) \<and>
    (\<forall>t > lst + UnhealthyTimeout ho.
       IsPeerHealthy t peer (fold (health_apply jitter ho peer) ops (SetPeerUnhealthyFor jitter ho now peer after hs)))"
proof -
  let ?p = "now + min after (UnhealthyTimeout ho)" and ?l = "lst + UnhealthyTimeout ho"
  let ?hs = "SetPeerUnhealthyFor jitter ho now peer after hs"
  have T: "0 < UnhealthyTimeout ho" using assms(1) by (auto simp: health_ok_def)
  have "NextCheck (status_of hs peer) \<le> now + UnhealthyTimeout ho" "pausedUntil (status_of hs peer) \<le> now + UnhealthyTimeout ho"
    using assms(2,5) T by (cases "hs peer"; simp add: status_of_def new_status_def)+
  then have "paused_to ?p (now + UnhealthyTimeout ho) (unhealthy_status jitter ho now after (status_of hs peer))"
    using unhealthy_paused [OF assms(1-3) refl refl] by blast
  then have "\<exists>s. ?hs peer = Some s \<and> paused_to ?p ?l s"
    using assms(4) by (auto simp: SetPeerUnhealthyFor_def paused_to_def)
  moreover have "\<forall>x \<in> set ops. 0 < op_time x \<and> op_time x < ?p \<and> op_time x + UnhealthyTimeout ho \<le> ?l"
    using assms(2,6) by fastforce
  ultimately obtain s where "fold (health_apply jitter ho peer) ops ?hs peer = Some s" "paused_to ?p ?l s"
    using paused_fold [OF assms(1), of ?hs peer ?p ?l ops] by blast
  then show ?thesis by (auto simp: IsPeerHealthy_def paused_to_def)
qed

lemma pause_respected_instance:
  "let ho = \<lparr>UnhealthyTimeout = 60, InitialUnhealthyTimeout = 60, MaxSegmentCount = 0, ho_MaxDiskUsage = 0\<rparr>;
       hs = fold (health_apply (\<lambda>n. 0) ho ''p'') [OkOp 8, FailOp 9 0] (SetPeerUnhealthyFor (\<lambda>n. 0) ho 5 ''p'' 10 Map.empty)
   in \<not> IsPeerHealthy 15 ''p'' hs \<and> IsPeerHealthy 70 ''p'' hs"
proof -
  let ?ho = "\<lparr>UnhealthyTimeout = 60, InitialUnhealthyTimeout = 60, MaxSegmentCount = 0, ho_MaxDiskUsage = 0\<rparr>"
  have "health_ok (\<lambda>n. 0) ?ho" by (simp add: health_ok_def)
  from pause_respected [OF this, of 5 10 9 Map.empty "''p''" "[OkOp 8, FailOp 9 0]"] show ?thesis
    by (simp add: Let_def)
qed

text \<open>
  C40. A transfer loses no segment. For a batch of at most 256 segments, however the peer answers: a file disappears only after a request that
  holds it was accepted, or refused as existing, as bad, or as too large for the table all by itself; after such a request the files that
  can be removed are gone and all other files are as before; no segment is settled by two requests; and afterwards the claims of the
  batch are released.
\<close>

theorem transfer_settles:
  assumes "replicator_transfer h e t m = (t', m', c)" and "tr_log t = []" and "length (Segs (tr_batch t)) \<le> 256"
    and "distinct (map Path (Segs (tr_batch t)))" and "m \<noteq> []" and "\<not> released (tr_batch t)"
  shows "fst (tr_removal t') = files_after (te_refused e) (settled_segs (tr_log t')) (fst (tr_removal t)) \<and>
    (\<forall>(d, ss, res) \<in> set (tr_log t'). ss \<noteq> [] \<and> set ss \<subseteq> set (Segs (tr_batch t)) \<and>
       (settled (d, ss, res) \<longrightarrow> res \<in> {None, Some SegmentExists, Some BadRequest} \<or> length ss = 1)) \<and>
    distinct (map Path (settled_segs (tr_log t'))) \<and>
    (\<forall>p \<in> Path ` set (Segs (tr_batch t)). claimed h m' p = 0)"
proof -
  let ?segs = "Segs (tr_batch t)"
  obtain err t1 where s: "send e ?segs 0 t = (err, t1)" by fastforce
  have "part_of ?segs t" by (simp add: part_of_def)
  from send_ok [OF this s] assms(2) have S: "Segs (tr_batch t1) = ?segs" "released (tr_batch t1) = released (tr_batch t)"
      "fst (tr_removal t1) = files_after (te_refused e) (settled_segs (tr_log t1)) (fst (tr_removal t))"
      "mset (settled_segs (tr_log t1)) \<subseteq># mset ?segs" "list_all small (tr_log t1)" "list_all (within ?segs) (tr_log t1)"
    using assms(3) by (auto simp: sent_ok_def maxSplitDepth_def held_def)
  have t': "tr_log t' = tr_log t1" "tr_removal t' = tr_removal t1" "m' = fst (snd (batch_Release h (tr_batch t1) m))"
    using assms(1) s by (auto simp: replicator_transfer_def split: prod.splits)
  have m': "m' = batcher_Release h (tr_batch t1) m" using S(2) assms(6) t'(3) by (simp add: batch_Release_def)
  have "claimed h m' p = 0" if "p \<in> Path ` set ?segs" for p
    using claimed_Release [OF assms(5), of h "tr_batch t1" p] that S(1) m' by simp
  moreover have "distinct (map Path (settled_segs (tr_log t1)))"
    using S(4) assms(4) by (rule distinct_sub)
  moreover have "ss \<noteq> [] \<and> set ss \<subseteq> set ?segs \<and> (settled (d, ss, res) \<longrightarrow> res \<in> {None, Some SegmentExists, Some BadRequest} \<or> length ss = 1)"
    if x: "(d, ss, res) \<in> set (tr_log t1)" for d ss res
  proof -
    have "small (d, ss, res)" "within ?segs (d, ss, res)" using S(5,6) x by (auto simp: list_all_iff)
    then have w: "ss \<noteq> []" "set ss \<subseteq> set ?segs" "d \<le> 8" "length ss \<le> 2 ^ (8 - d)"
      by (simp_all add: within_def small_def maxSplitDepth_def)
    have "length ss = 1" if "length ss \<le> 1 \<or> d \<ge> 8" using that w(1,3,4) by (cases ss) auto
    then show ?thesis using w by (auto simp: maxSplitDepth_def split: option.splits transfer_error.splits)
  qed
  ultimately show ?thesis unfolding t'(1,2) using S(3) by blast
qed

text \<open>A batch of one segment and a peer that accepts everything.\<close>

definition demo_env :: "unit transfer_env" where
  "demo_env = \<lparr>te_hash = (\<lambda>s. of_nat (length s)), te_nodes = NewPartition [''host-1''] [''host-1'' \<mapsto> ''10.0.0.1''], te_hostname = ''host-0'',
     te_health = \<lparr>UnhealthyTimeout = 60 * second, InitialUnhealthyTimeout = second, MaxSegmentCount = 0, ho_MaxDiskUsage = 0\<rparr>,
     te_jitter = (\<lambda>n. 0), te_now = 9, te_unreadable = (\<lambda>_. False), te_refused = (\<lambda>_. False),
     te_peer = (\<lambda>p addr name body. (Some \<lparr>StatusCode = 202, OverloadScope = [], OverloadReason = [], RetryAfterHeader = [], MaxTransferBytes = [],
       body_failed = False\<rparr>, p))\<rparr>"

definition demo_transfer :: "unit transfer" where
  "demo_transfer = \<lparr>tr_batch = new_batch ''A_B'' ''A'' ''B'' PriorityQueued [demo_seg ''A_B'' ''A_B_1.wal'' 10 5],
     tr_removal = ([''A_B_1.wal'' \<mapsto> []], NewIndex, None), tr_health = Map.empty, tr_backoff = Map.empty, tr_peer = (), tr_log = []\<rparr>"

theorem transfer_settles_witness:
  "let r = replicator_transfer demo_hash demo_env demo_transfer (NewMap 64)
   in claimed demo_hash (fst (snd r)) ''A_B_1.wal'' = 0 \<and> distinct (map Path (settled_segs (tr_log (fst r))))"
proof -
  let ?r = "replicator_transfer demo_hash demo_env demo_transfer (NewMap 64)"
  have r: "?r = (fst ?r, fst (snd ?r), snd (snd ?r))" by simp
  have t: "tr_log demo_transfer = []" "Segs (tr_batch demo_transfer) = [demo_seg ''A_B'' ''A_B_1.wal'' 10 5]" "\<not> released (tr_batch demo_transfer)"
    by (simp_all add: demo_transfer_def new_batch_def)
  note S = transfer_settles [OF r t(1) _ _ demo_claims(1) t(3)]
  have "Path (demo_seg ''A_B'' ''A_B_1.wal'' 10 5) = ''A_B_1.wal''" by (simp add: demo_seg_def)
  then show ?thesis using S unfolding t(2) Let_def by simp
qed

end
