(* ===== verification/Backfill.thy ===== *)
theory Backfill
  imports Prelude
begin

text \<open>
  Historical backfill of summary rules, \<open>pkg/crd/summaryrule/backfill/backfill.go\<close>: the windows of a time range are submitted as asynchronous
  operations, a few at a time, polled, retried and counted; \<open>Process\<close> is called on every cycle.

  The service behind \<open>SubmitFunc\<close> and \<open>GetOperationStatusFunc\<close> is a parameter with a state of its own, so that it can give any sequence of
  answers; the rule and the database the code passes to it are fixed for a request and belong to that state. The status is carried from one
  call to the next as it is. Times in strings are RFC 3339 with
  nanoseconds and are represented by the time they show; they are only compared and passed on. Messages keep the values that are printed.
\<close>

section \<open>State\<close>

record BackfillSpec =
  sp_RequestID :: string
  sp_StartTime :: gotime
  sp_EndTime :: gotime
  MaxInFlight :: int

record BackfillOperation =
  OperationID :: string
  op_StartTime :: gotime
  op_EndTime :: gotime

datatype phase = PhasePending | PhaseRunning | PhaseCompleted | PhaseFailed

datatype invalid =
    SpecMissing
  | RequestIDMissing
  | StartTimeMissing
  | EndTimeMissing
  | EndNotAfterStart
  | IntervalNotPositive
  | RangeBelowInterval duration
  | RangeNotMultiple duration

datatype message =
    NoMessage
  | Invalid invalid
  | Changed int int
  | WindowFailed gotime gotime string
  | Completed int int int

record BackfillStatus =
  RequestID :: string
  Phase :: phase
  ObservedGeneration :: int
  NextWindowStart :: gotime
  ActiveOperations :: "BackfillOperation list"
  SubmittedWindows :: int
  CompletedWindows :: int
  RetriedWindows :: int
  Message :: message

datatype condition_status = ConditionTrue | ConditionFalse | ConditionUnknown

record SummaryRule =
  Generation :: int
  Interval :: duration
  Spec :: "BackfillSpec option"
  Status :: "BackfillStatus option"
  Condition :: "(condition_status \<times> phase \<times> message \<times> int) option"

text \<open>The service: a submission gives an operation or fails; a poll fails or gives the state and whether to retry.\<close>

record 's service =
  submit :: "'s \<Rightarrow> gotime \<Rightarrow> gotime \<Rightarrow> string option \<times> 's"
  getStatus :: "'s \<Rightarrow> string \<Rightarrow> (string \<times> bool) option \<times> 's"

definition DefaultMaxInFlight :: int where "DefaultMaxInFlight = 1"

definition MaxActiveOperations :: int where "MaxActiveOperations = 20"

definition OneTick :: duration where "OneTick = 100"

section \<open>Operations\<close>

definition initBackfillStatus :: "BackfillSpec \<Rightarrow> int \<Rightarrow> BackfillStatus" where
  "initBackfillStatus sp generation =
     \<lparr>RequestID = sp_RequestID sp, Phase = PhasePending, ObservedGeneration = generation, NextWindowStart = sp_StartTime sp,
      ActiveOperations = [], SubmittedWindows = 0, CompletedWindows = 0, RetriedWindows = 0, Message = NoMessage\<rparr>"

definition clearBackfillStatus :: "SummaryRule \<Rightarrow> SummaryRule" where
  "clearBackfillStatus rule =
     (case Status rule of
        None \<Rightarrow> rule
      | Some st \<Rightarrow> if Phase st \<noteq> PhaseCompleted \<and> Phase st \<noteq> PhaseFailed then rule\<lparr>Status := None\<rparr> else rule)"

definition effectiveMaxInFlight :: "BackfillSpec \<Rightarrow> int" where
  "effectiveMaxInFlight sp =
     (let m = (if MaxInFlight sp \<le> 0 then DefaultMaxInFlight else MaxInFlight sp)
      in if m > MaxActiveOperations then MaxActiveOperations else m)"

definition inFlightCount :: "BackfillOperation list \<Rightarrow> int" where
  "inFlightCount ops = int (length (filter (\<lambda>op. OperationID op \<noteq> []) ops))"

text \<open>\<open>Time.Sub\<close> saturates at the ends of the 64-bit range of durations.\<close>

definition time_Sub :: "gotime \<Rightarrow> gotime \<Rightarrow> duration" where
  "time_Sub a b = max (- (2 ^ 63)) (min (2 ^ 63 - 1) (a - b))"

definition validateSpec :: "SummaryRule \<Rightarrow> invalid option" where
  "validateSpec rule =
     (case Spec rule of
        None \<Rightarrow> Some SpecMissing
      | Some sp \<Rightarrow>
          if sp_RequestID sp = [] then Some RequestIDMissing
          else if sp_StartTime sp = 0 then Some StartTimeMissing
          else if sp_EndTime sp = 0 then Some EndTimeMissing
          else if \<not> sp_EndTime sp > sp_StartTime sp then Some EndNotAfterStart
          else if Interval rule \<le> 0 then Some IntervalNotPositive
          else if time_Sub (sp_EndTime sp) (sp_StartTime sp) < Interval rule then Some (RangeBelowInterval (Interval rule))
          else if time_Sub (sp_EndTime sp) (sp_StartTime sp) mod Interval rule \<noteq> 0
          then Some (RangeNotMultiple (Interval rule)) else None)"

definition failedNextWindowStart :: "gotime \<Rightarrow> SummaryRule \<Rightarrow> gotime" where
  "failedNextWindowStart now rule =
     (case Status rule of
        Some st \<Rightarrow> if NextWindowStart st \<noteq> 0 then NextWindowStart st
                    else (case Spec rule of Some sp \<Rightarrow> if sp_StartTime sp \<noteq> 0 then sp_StartTime sp else now | None \<Rightarrow> now)
      | None \<Rightarrow> (case Spec rule of Some sp \<Rightarrow> if sp_StartTime sp \<noteq> 0 then sp_StartTime sp else now | None \<Rightarrow> now))"

text \<open>A status without fields set: the zero value of the struct has an empty phase, which is overwritten at once.\<close>

definition setBackfillFailed :: "gotime \<Rightarrow> string \<Rightarrow> int \<Rightarrow> message \<Rightarrow> SummaryRule \<Rightarrow> SummaryRule" where
  "setBackfillFailed now requestID generation msg rule =
     (let st = (case Status rule of
                  Some st \<Rightarrow> st
                | None \<Rightarrow> \<lparr>RequestID = [], Phase = PhaseFailed, ObservedGeneration = 0, NextWindowStart = 0, ActiveOperations = [],
                            SubmittedWindows = 0, CompletedWindows = 0, RetriedWindows = 0, Message = NoMessage\<rparr>)
      in rule\<lparr>Status := Some (st\<lparr>RequestID := requestID, Phase := PhaseFailed, ObservedGeneration := generation,
           NextWindowStart := failedNextWindowStart now rule, ActiveOperations := [], Message := msg\<rparr>)\<rparr>)"

text \<open>
  The loop of \<open>pollActiveOperations\<close>: the operations that remain and the counters, or the operation that failed for good.
\<close>

fun poll_loop ::
  "('s, 'x) service_scheme \<Rightarrow> BackfillOperation list \<Rightarrow> BackfillOperation list \<Rightarrow> BackfillStatus \<Rightarrow> 's \<Rightarrow>
   (BackfillOperation + BackfillOperation list) \<times> BackfillStatus \<times> 's"
where
  "poll_loop sv [] remaining st s = (Inr remaining, st, s)"
| "poll_loop sv (op # ops) remaining st s =
     (if OperationID op = [] then poll_loop sv ops (remaining @ [op]) st s
      else case getStatus sv s (OperationID op) of
        (None, s) \<Rightarrow> poll_loop sv ops (remaining @ [op]) st s
      | (Some (state, shouldRetry), s) \<Rightarrow>
          if shouldRetry then
            poll_loop sv ops (remaining @ [op\<lparr>OperationID := []\<rparr>]) (st\<lparr>RetriedWindows := RetriedWindows st + 1\<rparr>) s
          else if state = ''Completed'' then poll_loop sv ops remaining (st\<lparr>CompletedWindows := CompletedWindows st + 1\<rparr>) s
          else if state = ''Failed'' then (Inl op, st, s)
          else poll_loop sv ops (remaining @ [op]) st s)"

definition pollActiveOperations ::
  "('s, 'x) service_scheme \<Rightarrow> gotime \<Rightarrow> SummaryRule \<Rightarrow> 's \<Rightarrow> bool \<times> SummaryRule \<times> 's"
where
  "pollActiveOperations sv now rule s =
     (case Status rule of
        None \<Rightarrow> (True, rule, s)
      | Some st \<Rightarrow>
          if ActiveOperations st = [] then (True, rule, s)
          else case poll_loop sv (ActiveOperations st) [] st s of
            (Inl op, st, s) \<Rightarrow>
              (False, setBackfillFailed now (RequestID st) (ObservedGeneration st) (WindowFailed (op_StartTime op) (op_EndTime op) (OperationID op))
                 (rule\<lparr>Status := Some st\<rparr>), s)
          | (Inr remaining, st, s) \<Rightarrow> (True, rule\<lparr>Status := Some (st\<lparr>ActiveOperations := remaining\<rparr>)\<rparr>, s))"

text \<open>The two loops of \<open>submitNewWindows\<close>: retry the backlog, then generate windows. \<open>before\<close> are the operations already visited.\<close>

fun retry_loop ::
  "('s, 'x) service_scheme \<Rightarrow> int \<Rightarrow> BackfillOperation list \<Rightarrow> BackfillOperation list \<Rightarrow> int \<Rightarrow> 's \<Rightarrow> BackfillOperation list \<times> int \<times> 's"
where
  "retry_loop sv limit before [] submitted s = (before, submitted, s)"
| "retry_loop sv limit before (op # ops) submitted s =
     (if inFlightCount (before @ op # ops) \<ge> limit then (before @ op # ops, submitted, s)
      else if OperationID op \<noteq> [] then retry_loop sv limit (before @ [op]) ops submitted s
      else case submit sv s (op_StartTime op) (op_EndTime op) of
        (None, s) \<Rightarrow> retry_loop sv limit (before @ [op]) ops submitted s
      | (Some i, s) \<Rightarrow> retry_loop sv limit (before @ [op\<lparr>OperationID := i\<rparr>]) ops (submitted + 1) s)"

definition windowAlreadyTracked :: "BackfillOperation list \<Rightarrow> gotime \<Rightarrow> bool" where
  "windowAlreadyTracked ops start = list_ex (\<lambda>op. op_StartTime op = start) ops"

text \<open>The interval is positive whenever the loop runs, by \<open>validateSpec\<close>; the test for it makes the function total.\<close>

function window_loop :: "('s, 'x) service_scheme \<Rightarrow> int \<Rightarrow> duration \<Rightarrow> gotime \<Rightarrow> BackfillStatus \<Rightarrow> 's \<Rightarrow> BackfillStatus \<times> 's" where
  "window_loop sv limit interval stop st s =
     (if interval \<le> 0 \<or> \<not> inFlightCount (ActiveOperations st) < limit then (st, s)
      else
        let windowStart = NextWindowStart st; windowEnd = windowStart + interval
        in if \<not> windowEnd < stop \<and> windowEnd \<noteq> stop then (st, s)
           else if windowAlreadyTracked (ActiveOperations st) windowStart
           then window_loop sv limit interval stop (st\<lparr>NextWindowStart := windowEnd\<rparr>) s
           else
             let bop = \<lparr>OperationID = [], op_StartTime = windowStart, op_EndTime = windowEnd - OneTick\<rparr>
             in case submit sv s windowStart (windowEnd - OneTick) of
                  (None, s) \<Rightarrow>
                    window_loop sv limit interval stop
                      (st\<lparr>ActiveOperations := ActiveOperations st @ [bop], NextWindowStart := windowEnd\<rparr>) s
                | (Some i, s) \<Rightarrow>
                    window_loop sv limit interval stop
                      (st\<lparr>ActiveOperations := ActiveOperations st @ [bop\<lparr>OperationID := i\<rparr>], SubmittedWindows := SubmittedWindows st + 1,
                          NextWindowStart := windowEnd\<rparr>) s)"
  by pat_completeness auto
termination
  by (relation "measure (\<lambda>(sv, limit, interval, stop, st, s). nat (stop - NextWindowStart st))") auto

declare window_loop.simps [simp del]

definition submitNewWindows :: "('s, 'x) service_scheme \<Rightarrow> SummaryRule \<Rightarrow> 's \<Rightarrow> SummaryRule \<times> 's" where
  "submitNewWindows sv rule s =
     (case (Spec rule, Status rule) of
        (Some sp, Some st) \<Rightarrow>
          (case retry_loop sv (effectiveMaxInFlight sp) [] (ActiveOperations st) (SubmittedWindows st) s of (ops, n, s) \<Rightarrow>
           case window_loop sv (effectiveMaxInFlight sp) (Interval rule) (sp_EndTime sp)
               (st\<lparr>ActiveOperations := ops, SubmittedWindows := n\<rparr>) s of (st, s) \<Rightarrow> (rule\<lparr>Status := Some st\<rparr>, s))
      | _ \<Rightarrow> (rule, s))"

definition checkCompletion :: "SummaryRule \<Rightarrow> SummaryRule" where
  "checkCompletion rule =
     (case (Spec rule, Status rule) of
        (Some sp, Some st) \<Rightarrow>
          let allGenerated = (\<not> NextWindowStart st < sp_EndTime sp \<or> NextWindowStart st + Interval rule > sp_EndTime sp)
          in if allGenerated \<and> ActiveOperations st = []
             then rule\<lparr>Status := Some (st\<lparr>Phase := PhaseCompleted,
                    Message := Completed (SubmittedWindows st) (CompletedWindows st) (RetriedWindows st)\<rparr>)\<rparr>
             else rule
      | _ \<Rightarrow> rule)"

text \<open>An empty message is replaced by the name of the phase, which the condition holds as well.\<close>

definition syncBackfillCondition :: "SummaryRule \<Rightarrow> SummaryRule" where
  "syncBackfillCondition rule =
     (case Status rule of
        None \<Rightarrow> rule\<lparr>Condition := None\<rparr>
      | Some st \<Rightarrow>
          rule\<lparr>Condition := Some (case Phase st of PhaseCompleted \<Rightarrow> ConditionTrue | PhaseFailed \<Rightarrow> ConditionFalse | _ \<Rightarrow> ConditionUnknown,
                 Phase st, Message st, Generation rule)\<rparr>)"

definition run_backfill :: "('s, 'x) service_scheme \<Rightarrow> gotime \<Rightarrow> SummaryRule \<Rightarrow> 's \<Rightarrow> SummaryRule \<times> 's" where
  "run_backfill sv now rule s =
     (case Spec rule of
        None \<Rightarrow> (clearBackfillStatus rule, s)
      | Some sp \<Rightarrow>
          (case validateSpec rule of
             Some msg \<Rightarrow> (setBackfillFailed now (sp_RequestID sp) (Generation rule) (Invalid msg) rule, s)
           | None \<Rightarrow>
               let st = (case Status rule of
                           Some st \<Rightarrow> if RequestID st \<noteq> sp_RequestID sp then initBackfillStatus sp (Generation rule) else st
                         | None \<Rightarrow> initBackfillStatus sp (Generation rule));
                   rule = rule\<lparr>Status := Some st\<rparr>
               in if Phase st = PhaseCompleted \<or> Phase st = PhaseFailed then (rule, s)
                  else if ObservedGeneration st \<noteq> Generation rule
                  then (setBackfillFailed now (sp_RequestID sp) (ObservedGeneration st) (Changed (ObservedGeneration st) (Generation rule)) rule, s)
                  else
                    let rule = (if Phase st = PhasePending then rule\<lparr>Status := Some (st\<lparr>Phase := PhaseRunning\<rparr>)\<rparr> else rule)
                    in case pollActiveOperations sv now rule s of
                         (False, rule, s) \<Rightarrow> (rule, s)
                       | (True, rule, s) \<Rightarrow>
                           (case submitNewWindows sv rule s of (rule, s) \<Rightarrow> (checkCompletion rule, s))))"

definition Process :: "('s, 'x) service_scheme \<Rightarrow> gotime \<Rightarrow> SummaryRule \<Rightarrow> 's \<Rightarrow> SummaryRule \<times> 's" where
  "Process sv now rule s = (case run_backfill sv now rule s of (rule, s) \<Rightarrow> (syncBackfillCondition rule, s))"

section \<open>What the service was asked\<close>

text \<open>A service that keeps a record of its calls and answers: what it does is unchanged, and the record says which windows ran.\<close>

datatype call = Submit gotime gotime "string option" | Poll string "(string \<times> bool) option"

definition logged :: "'s service \<Rightarrow> ('s \<times> call list) service" where
  "logged sv =
     \<lparr>submit = \<lambda>(s, l) a b. (case submit sv s a b of (r, s') \<Rightarrow> (r, s', l @ [Submit a b r])),
      getStatus = \<lambda>(s, l) i. (case getStatus sv s i of (r, s') \<Rightarrow> (r, s', l @ [Poll i r]))\<rparr>"

text \<open>A window is settled when one of its submissions was accepted and the operation was then reported as completed.\<close>

definition settled :: "call list \<Rightarrow> gotime \<Rightarrow> gotime \<Rightarrow> bool" where
  "settled l a b = list_ex (\<lambda>c. case c of Submit a' b' (Some i) \<Rightarrow> a' = a \<and> b' = b \<and> Poll i (Some (''Completed'', False)) \<in> set l | _ \<Rightarrow> False) l"

lemma settled_iff: "settled l a b \<longleftrightarrow> (\<exists>i. Submit a b (Some i) \<in> set l \<and> Poll i (Some (''Completed'', False)) \<in> set l)"
proof
  assume "settled l a b"
  then obtain c where c: "c \<in> set l"
      "case c of Submit a' b' (Some i) \<Rightarrow> a' = a \<and> b' = b \<and> Poll i (Some (''Completed'', False)) \<in> set l | _ \<Rightarrow> False"
    by (auto simp only: settled_def list_ex_iff)
  show "\<exists>i. Submit a b (Some i) \<in> set l \<and> Poll i (Some (''Completed'', False)) \<in> set l"
  proof (cases c)
    case (Submit a' b' r)
    then show ?thesis using c by (cases r) auto
  qed (use c in simp)
next
  assume "\<exists>i. Submit a b (Some i) \<in> set l \<and> Poll i (Some (''Completed'', False)) \<in> set l"
  then show "settled l a b" by (force simp: settled_def list_ex_iff)
qed

lemma settled_mono: "settled l a b \<Longrightarrow> set l \<subseteq> set l' \<Longrightarrow> settled l' a b"
  unfolding settled_iff by blast

text \<open>
  The bookkeeping invariant. The windows of a request start at \<open>start\<close> and are \<open>iv\<close> long; the first \<open>k\<close> have been generated. Each of them is
  tracked once or settled, \<open>c\<close> counts those that are no longer tracked, and an operation in flight was accepted by the service.
\<close>

definition tracks :: "gotime \<Rightarrow> duration \<Rightarrow> nat \<Rightarrow> int \<Rightarrow> BackfillOperation list \<Rightarrow> call list \<Rightarrow> bool" where
  "tracks start iv k c ops l \<longleftrightarrow>
     c + int (length ops) = int k \<and> distinct (map op_StartTime ops) \<and>
     (\<forall>op\<in>set ops. (\<exists>j<k. op_StartTime op = start + int j * iv) \<and> op_EndTime op = op_StartTime op + iv - OneTick \<and>
        (OperationID op \<noteq> [] \<longrightarrow> Submit (op_StartTime op) (op_EndTime op) (Some (OperationID op)) \<in> set l)) \<and>
     (\<forall>j<k. (\<exists>op\<in>set ops. op_StartTime op = start + int j * iv) \<or>
        settled l (start + int j * iv) (start + int j * iv + iv - OneTick))"

lemma tracks_mono: "tracks start iv k c ops l \<Longrightarrow> set l \<subseteq> set l' \<Longrightarrow> tracks start iv k c ops l'"
  unfolding tracks_def by (meson settled_mono subsetD)

lemma tracks_init: "tracks start iv 0 0 [] l"
  by (simp add: tracks_def)

lemma tracks_drop:
  assumes "tracks start iv k c (xs @ op # ys) l" and "OperationID op \<noteq> []"
    and "Poll (OperationID op) (Some (''Completed'', False)) \<in> set l"
  shows "tracks start iv k (c + 1) (xs @ ys) l"
proof -
  have "settled l (op_StartTime op) (op_StartTime op + iv - OneTick)"
    unfolding settled_iff using assms by (intro exI [of _ "OperationID op"]) (auto simp: tracks_def)
  moreover have "(\<exists>o'\<in>set (xs @ op # ys). op_StartTime o' = w) \<longleftrightarrow> op_StartTime op = w \<or> (\<exists>o'\<in>set (xs @ ys). op_StartTime o' = w)" for w
    by auto
  ultimately have "(\<exists>o'\<in>set (xs @ ys). op_StartTime o' = start + int j * iv) \<or>
      settled l (start + int j * iv) (start + int j * iv + iv - OneTick)" if "j < k" for j
    using assms(1) that unfolding tracks_def by metis
  moreover have "distinct (map op_StartTime (xs @ ys))" "c + 1 + int (length (xs @ ys)) = int k"
    using assms(1) unfolding tracks_def by simp_all
  moreover have "set (xs @ ys) \<subseteq> set (xs @ op # ys)"
    by auto
  ultimately show ?thesis
    using assms(1) unfolding tracks_def by (meson subsetD)
qed

lemma tracks_set:
  assumes "tracks start iv k c (xs @ op # ys) l"
    and "i \<noteq> [] \<Longrightarrow> Submit (op_StartTime op) (op_EndTime op) (Some i) \<in> set l"
  shows "tracks start iv k c (xs @ op\<lparr>OperationID := i\<rparr> # ys) l"
  using assms unfolding tracks_def by auto

lemma tracks_push:
  assumes "tracks start iv k c ops l" and "iv > 0"
    and "op_StartTime op = start + int k * iv" "op_EndTime op = op_StartTime op + iv - OneTick"
    and "OperationID op \<noteq> [] \<Longrightarrow> Submit (op_StartTime op) (op_EndTime op) (Some (OperationID op)) \<in> set l"
  shows "tracks start iv (Suc k) c (ops @ [op]) l"
  using assms unfolding tracks_def by (auto simp: less_Suc_eq)

lemma tracks_untracked:
  assumes "tracks start iv k c ops l" and "iv > 0"
  shows "\<not> windowAlreadyTracked ops (start + int k * iv)"
  using assms unfolding tracks_def windowAlreadyTracked_def by (fastforce simp: list_ex_iff)

text \<open>The record of a logged service only grows, by the call that is made.\<close>

lemma logged_submit:
  assumes "submit (logged sv) (s, l) a b = (r, z)"
  obtains s' where "submit sv s a b = (r, s')" "z = (s', l @ [Submit a b r])"
  using assms by (auto simp: logged_def split: prod.splits)

lemma logged_getStatus:
  assumes "getStatus (logged sv) (s, l) i = (r, z)"
  obtains s' where "getStatus sv s i = (r, s')" "z = (s', l @ [Poll i r])"
  using assms by (auto simp: logged_def split: prod.splits)

lemma inFlightCount_append [simp]: "inFlightCount (xs @ ys) = inFlightCount xs + inFlightCount ys"
  by (simp add: inFlightCount_def)

lemma inFlightCount_Cons [simp]: "inFlightCount (op # ys) = (if OperationID op = [] then 0 else 1) + inFlightCount ys"
  by (simp add: inFlightCount_def)

lemma inFlightCount_Nil [simp]: "inFlightCount [] = 0"
  by (simp add: inFlightCount_def)

lemma inFlightCount_nonneg: "0 \<le> inFlightCount ops"
  by (simp add: inFlightCount_def)

text \<open>The fields of the status that a poll leaves alone.\<close>

definition same_request :: "BackfillStatus \<Rightarrow> BackfillStatus \<Rightarrow> bool" where
  "same_request st st' \<longleftrightarrow> RequestID st' = RequestID st \<and> Phase st' = Phase st \<and> ObservedGeneration st' = ObservedGeneration st \<and>
     NextWindowStart st' = NextWindowStart st"

lemma poll_loop_tracks:
  assumes "poll_loop (logged sv) ops rem st (s, l) = (r, st', z)" and "tracks start iv k (CompletedWindows st) (rem @ ops) l"
  shows "set l \<subseteq> set (snd z) \<and> same_request st st' \<and>
    (\<forall>op. r = Inl op \<longrightarrow> Poll (OperationID op) (Some (''Failed'', False)) \<in> set (snd z)) \<and>
    (\<forall>ops'. r = Inr ops' \<longrightarrow> tracks start iv k (CompletedWindows st') ops' (snd z) \<and> inFlightCount ops' \<le> inFlightCount (rem @ ops))"
  using assms
proof (induction ops arbitrary: rem st s l)
  case Nil
  then show ?case by (auto simp: same_request_def)
next
  case (Cons op ops)
  show ?case
  proof (cases "OperationID op = []")
    case True
    then show ?thesis using Cons.IH [of "rem @ [op]" st s l] Cons.prems by simp
  next
    case id: False
    obtain a y where g: "getStatus (logged sv) (s, l) (OperationID op) = (a, y)" by (rule prod.exhaust)
    then obtain s' where y: "y = (s', l @ [Poll (OperationID op) a])" by (rule logged_getStatus)
    let ?l = "l @ [Poll (OperationID op) a]"
    have t: "tracks start iv k (CompletedWindows st) (rem @ op # ops) ?l"
      using tracks_mono [OF Cons.prems(2), of ?l] by auto
    show ?thesis
    proof (cases a)
      case None
      then show ?thesis using Cons.IH [of "rem @ [op]" st s' ?l] Cons.prems(1) id g y t by auto
    next
      case (Some p)
      then obtain state retry where a: "a = Some (state, retry)" by (cases p) auto
      consider "retry" | "\<not> retry" "state = ''Completed''" | "\<not> retry" "state = ''Failed''"
        | "\<not> retry" "state \<noteq> ''Completed''" "state \<noteq> ''Failed''" by blast
      then show ?thesis
      proof cases
        case 1
        have "tracks start iv k (CompletedWindows st) (rem @ op\<lparr>OperationID := []\<rparr> # ops) ?l"
          by (rule tracks_set [OF t]) simp
        then show ?thesis
          using Cons.IH [of "rem @ [op\<lparr>OperationID := []\<rparr>]" "st\<lparr>RetriedWindows := RetriedWindows st + 1\<rparr>" s' ?l]
            Cons.prems(1) id g y a 1 by (auto simp: same_request_def)
      next
        case 2
        have "tracks start iv k (CompletedWindows st + 1) (rem @ ops) ?l"
          using tracks_drop [OF t id] a 2 by simp
        then show ?thesis
          using Cons.IH [of rem "st\<lparr>CompletedWindows := CompletedWindows st + 1\<rparr>" s' ?l] Cons.prems(1) id g y a 2
          by (auto simp: same_request_def)
      next
        case 3
        then show ?thesis using Cons.prems(1) id g y a by (auto simp: same_request_def)
      next
        case 4
        then show ?thesis using Cons.IH [of "rem @ [op]" st s' ?l] Cons.prems(1) id g y a t by auto
      qed
    qed
  qed
qed

lemma retry_loop_tracks:
  assumes "retry_loop (logged sv) limit before ops n (s, l) = (ops', n', z)" and "tracks start iv k c (before @ ops) l"
    and "inFlightCount (before @ ops) \<le> limit"
  shows "set l \<subseteq> set (snd z) \<and> tracks start iv k c ops' (snd z) \<and> inFlightCount ops' \<le> limit"
  using assms
proof (induction ops arbitrary: before n s l)
  case Nil
  then show ?case by auto
next
  case (Cons op ops)
  show ?case
  proof (cases "inFlightCount (before @ op # ops) \<ge> limit \<or> OperationID op \<noteq> []")
    case True
    then show ?thesis using Cons.IH [of "before @ [op]" n s l] Cons.prems by (auto split: if_splits)
  next
    case False
    obtain a y where g: "submit (logged sv) (s, l) (op_StartTime op) (op_EndTime op) = (a, y)" by (rule prod.exhaust)
    then obtain s' where y: "y = (s', l @ [Submit (op_StartTime op) (op_EndTime op) a])" by (rule logged_submit)
    let ?l = "l @ [Submit (op_StartTime op) (op_EndTime op) a]"
    have t: "tracks start iv k c (before @ op # ops) ?l"
      using tracks_mono [OF Cons.prems(2), of ?l] by auto
    show ?thesis
    proof (cases a)
      case None
      then show ?thesis using Cons.IH [of "before @ [op]" n s' ?l] Cons.prems False g y t by auto
    next
      case (Some i)
      have "tracks start iv k c (before @ op\<lparr>OperationID := i\<rparr> # ops) ?l"
        by (rule tracks_set [OF t]) (simp add: Some)
      moreover have "inFlightCount ((before @ [op\<lparr>OperationID := i\<rparr>]) @ ops) \<le> limit"
        using False Cons.prems(3) by auto
      ultimately show ?thesis
        using Cons.IH [of "before @ [op\<lparr>OperationID := i\<rparr>]" "n + 1" s' ?l] Cons.prems False g y Some by auto
    qed
  qed
qed

text \<open>
  Generating windows: the invariant is kept, the cursor stays in the range, and when the loop stops either the limit is reached or the next
  window does not fit.
\<close>

lemma window_loop_tracks:
  assumes "window_loop (logged sv) limit iv stop st (s, l) = (st', z)" and "iv > 0"
    and "tracks start iv k (CompletedWindows st) (ActiveOperations st) l" and "NextWindowStart st = start + int k * iv"
    and "NextWindowStart st \<le> stop" and "inFlightCount (ActiveOperations st) \<le> limit"
  shows "set l \<subseteq> set (snd z) \<and> RequestID st' = RequestID st \<and> Phase st' = Phase st \<and> ObservedGeneration st' = ObservedGeneration st \<and>
    inFlightCount (ActiveOperations st') \<le> limit \<and> NextWindowStart st' \<le> stop \<and>
    (\<exists>k'. NextWindowStart st' = start + int k' * iv \<and> tracks start iv k' (CompletedWindows st') (ActiveOperations st') (snd z))"
  using assms
proof (induction "nat (stop - NextWindowStart st)" arbitrary: st s l k rule: less_induct)
  case less
  let ?w = "NextWindowStart st"
  show ?case
  proof (cases "inFlightCount (ActiveOperations st) < limit \<and> ?w + iv \<le> stop")
    case False
    then have "st' = st" "z = (s, l)"
      using less.prems(1,2) by (auto simp: window_loop.simps [of _ _ _ _ st] Let_def split: if_splits)
    then show ?thesis using less.prems by auto
  next
    case True
    obtain a y where g: "submit (logged sv) (s, l) ?w (?w + iv - OneTick) = (a, y)" by (rule prod.exhaust)
    then obtain s' where y: "y = (s', l @ [Submit ?w (?w + iv - OneTick) a])" by (rule logged_submit)
    let ?l = "l @ [Submit ?w (?w + iv - OneTick) a]"
    let ?op = "\<lambda>i. \<lparr>OperationID = i, op_StartTime = ?w, op_EndTime = ?w + iv - OneTick\<rparr>"
    define i where "i = (case a of None \<Rightarrow> [] | Some i \<Rightarrow> i)"
    define st2 where "st2 = st\<lparr>ActiveOperations := ActiveOperations st @ [?op i],
      SubmittedWindows := SubmittedWindows st + (if a = None then 0 else 1), NextWindowStart := ?w + iv\<rparr>"
    have "tracks start iv k (CompletedWindows st) (ActiveOperations st) ?l"
      using tracks_mono [OF less.prems(3), of ?l] by auto
    then have t: "tracks start iv (Suc k) (CompletedWindows st) (ActiveOperations st @ [?op i]) ?l"
      by (rule tracks_push) (use less.prems in \<open>auto simp: i_def split: option.splits\<close>)
    have "\<not> windowAlreadyTracked (ActiveOperations st) ?w"
      using tracks_untracked [OF less.prems(3,2)] less.prems(4) by simp
    then have "window_loop (logged sv) limit iv stop st2 (s', ?l) = (st', z)"
      using less.prems(1,2) True g y
      by (cases a) (auto simp: window_loop.simps [of _ _ _ _ st] Let_def st2_def i_def)
    from less.hyps [OF _ this less.prems(2), of "Suc k"] show ?thesis
      using t less.prems True by (auto simp: st2_def algebra_simps)
  qed
qed

section \<open>The invariant of a request\<close>

text \<open>
  A status that belongs to the request: progress is as \<open>tracks\<close> says; a completed request has generated every window and tracks none; a
  failed one was failed by the service.
\<close>

definition progress :: "BackfillSpec \<Rightarrow> duration \<Rightarrow> BackfillStatus \<Rightarrow> call list \<Rightarrow> bool" where
  "progress sp iv st l \<longleftrightarrow>
     NextWindowStart st \<le> sp_EndTime sp \<and> inFlightCount (ActiveOperations st) \<le> effectiveMaxInFlight sp \<and>
     (\<exists>k. NextWindowStart st = sp_StartTime sp + int k * iv \<and> tracks (sp_StartTime sp) iv k (CompletedWindows st) (ActiveOperations st) l)"

definition request_inv :: "SummaryRule \<Rightarrow> BackfillSpec \<Rightarrow> BackfillStatus \<Rightarrow> call list \<Rightarrow> bool" where
  "request_inv rule sp st l \<longleftrightarrow>
     RequestID st = sp_RequestID sp \<and> ObservedGeneration st = Generation rule \<and>
     (case Phase st of
        PhaseFailed \<Rightarrow> \<exists>i. Poll i (Some (''Failed'', False)) \<in> set l
      | PhaseCompleted \<Rightarrow> progress sp (Interval rule) st l \<and> ActiveOperations st = [] \<and> sp_EndTime sp < NextWindowStart st + Interval rule
      | _ \<Rightarrow> progress sp (Interval rule) st l)"

lemma request_inv_rule [simp]:
  "request_inv (rule\<lparr>Status := x\<rparr>) = request_inv rule" "request_inv (rule\<lparr>Condition := y\<rparr>) = request_inv rule"
  by (simp_all add: request_inv_def fun_eq_iff cong: phase.case_cong)

lemma effectiveMaxInFlight_bounds: "1 \<le> effectiveMaxInFlight sp" "effectiveMaxInFlight sp \<le> MaxActiveOperations"
  by (auto simp: effectiveMaxInFlight_def DefaultMaxInFlight_def MaxActiveOperations_def Let_def)

lemma validateSpec_None:
  assumes "validateSpec rule = None" and "Spec rule = Some sp"
  shows "Interval rule > 0" "sp_StartTime sp < sp_EndTime sp" "sp_StartTime sp \<noteq> 0"
  using assms by (auto simp: validateSpec_def split: if_splits)

lemma progress_init:
  assumes "sp_StartTime sp < sp_EndTime sp"
  shows "progress sp iv (initBackfillStatus sp g) l"
  using assms effectiveMaxInFlight_bounds(1) [of sp] tracks_init [of "sp_StartTime sp" iv l]
  by (auto simp: progress_def initBackfillStatus_def intro!: exI [of _ 0])

lemma progress_fields [simp]:
  "progress sp iv (st\<lparr>Phase := p\<rparr>) l = progress sp iv st l"
  "progress sp iv (st\<lparr>Message := m\<rparr>) l = progress sp iv st l"
  by (simp_all add: progress_def)

lemma pollActiveOperations_progress:
  assumes "pollActiveOperations (logged sv) now rule (s, l) = (ok, rule', z)" and "Status rule = Some st" and "progress sp iv st l"
  obtains st' where "rule' = rule\<lparr>Status := Some st'\<rparr>" "RequestID st' = RequestID st" "ObservedGeneration st' = ObservedGeneration st"
    "if ok then Phase st' = Phase st \<and> progress sp iv st' (snd z)
     else Phase st' = PhaseFailed \<and> (\<exists>i. Poll i (Some (''Failed'', False)) \<in> set (snd z))"
proof (cases "ActiveOperations st = []")
  case True
  then show ?thesis using assms that [of st] by (auto simp: pollActiveOperations_def)
next
  case False
  obtain r st2 z2 where p: "poll_loop (logged sv) (ActiveOperations st) [] st (s, l) = (r, st2, z2)" by (rule prod_cases3)
  obtain k where k: "NextWindowStart st = sp_StartTime sp + int k * iv"
      "tracks (sp_StartTime sp) iv k (CompletedWindows st) ([] @ ActiveOperations st) l"
    using assms(3) by (auto simp: progress_def)
  note t = poll_loop_tracks [OF p k(2)]
  show ?thesis
  proof (cases r)
    case (Inl op)
    define st3 where "st3 = st2\<lparr>Phase := PhaseFailed, NextWindowStart := failedNextWindowStart now (rule\<lparr>Status := Some st2\<rparr>),
      ActiveOperations := [], Message := WindowFailed (op_StartTime op) (op_EndTime op) (OperationID op)\<rparr>"
    have "\<not> ok" "z = z2" and r': "rule' = rule\<lparr>Status := Some st3\<rparr>"
      using assms(1,2) False p Inl by (auto simp: pollActiveOperations_def setBackfillFailed_def st3_def)
    then show ?thesis
      using that [OF r'] t Inl by (auto simp: same_request_def st3_def)
  next
    case (Inr ops)
    then have "ok" "z = z2" and r': "rule' = rule\<lparr>Status := Some (st2\<lparr>ActiveOperations := ops\<rparr>)\<rparr>"
      using assms(1,2) False p by (auto simp: pollActiveOperations_def)
    moreover have "progress sp iv (st2\<lparr>ActiveOperations := ops\<rparr>) (snd z2)"
      using Inr t k(1) assms(3) by (auto simp: progress_def same_request_def)
    ultimately show ?thesis
      using that [OF r'] t by (auto simp: same_request_def)
  qed
qed

lemma submitNewWindows_progress:
  assumes "submitNewWindows (logged sv) rule (s, l) = (rule', z)" and "Spec rule = Some sp" and "Status rule = Some st"
    and "Interval rule > 0" and "progress sp (Interval rule) st l"
  obtains st' where "rule' = rule\<lparr>Status := Some st'\<rparr>" "RequestID st' = RequestID st" "ObservedGeneration st' = ObservedGeneration st"
    "Phase st' = Phase st" "progress sp (Interval rule) st' (snd z)"
proof -
  obtain ops n z1 where r: "retry_loop (logged sv) (effectiveMaxInFlight sp) [] (ActiveOperations st) (SubmittedWindows st) (s, l) = (ops, n, z1)"
    by (rule prod_cases3)
  obtain s1 l1 where z1: "z1 = (s1, l1)" by (rule prod.exhaust)
  let ?st = "st\<lparr>ActiveOperations := ops, SubmittedWindows := n\<rparr>"
  obtain st2 z2 where w: "window_loop (logged sv) (effectiveMaxInFlight sp) (Interval rule) (sp_EndTime sp) ?st (s1, l1) = (st2, z2)"
    by (rule prod.exhaust)
  obtain k where k: "NextWindowStart st = sp_StartTime sp + int k * Interval rule"
      "tracks (sp_StartTime sp) (Interval rule) k (CompletedWindows st) ([] @ ActiveOperations st) l"
    using assms(5) by (auto simp: progress_def)
  have "tracks (sp_StartTime sp) (Interval rule) k (CompletedWindows st) ops l1 \<and> inFlightCount ops \<le> effectiveMaxInFlight sp"
    using retry_loop_tracks [OF r k(2)] assms(5) z1 by (simp add: progress_def)
  with window_loop_tracks [OF w assms(4), of "sp_StartTime sp" k] have
    "progress sp (Interval rule) st2 (snd z2) \<and> RequestID st2 = RequestID st \<and> ObservedGeneration st2 = ObservedGeneration st \<and> Phase st2 = Phase st"
    using k assms(5) by (auto simp: progress_def)
  moreover have "rule' = rule\<lparr>Status := Some st2\<rparr>" "z = z2"
    using assms(1-3) r z1 w by (auto simp: submitNewWindows_def)
  ultimately show ?thesis using that by blast
qed

text \<open>One cycle keeps the rule and the invariant; a status of another request is replaced.\<close>

lemma checkCompletion_inv:
  assumes "Spec rule = Some sp" "Status rule = Some st" "Interval rule > 0" "Phase st = PhaseRunning" "RequestID st = sp_RequestID sp"
    "ObservedGeneration st = Generation rule" "progress sp (Interval rule) st l"
  obtains st' where "checkCompletion rule = rule\<lparr>Status := Some st'\<rparr>" "request_inv rule sp st' l"
proof (cases "(\<not> NextWindowStart st < sp_EndTime sp \<or> NextWindowStart st + Interval rule > sp_EndTime sp) \<and> ActiveOperations st = []")
  case True
  let ?st = "st\<lparr>Phase := PhaseCompleted, Message := Completed (SubmittedWindows st) (CompletedWindows st) (RetriedWindows st)\<rparr>"
  have c: "checkCompletion rule = rule\<lparr>Status := Some ?st\<rparr>"
    using True assms by (simp add: checkCompletion_def)
  have "request_inv rule sp ?st l"
    using True assms by (auto simp: request_inv_def)
  then show ?thesis using that c by blast
next
  case False
  then have "checkCompletion rule = rule\<lparr>Status := Some st\<rparr>"
    using assms by (auto simp: checkCompletion_def)
  moreover have "request_inv rule sp st l"
    using assms by (simp add: request_inv_def)
  ultimately show ?thesis using that by blast
qed

text \<open>The status that a cycle works on, and what the cycle does when the request is neither finished nor edited.\<close>

definition current_status :: "SummaryRule \<Rightarrow> BackfillSpec \<Rightarrow> BackfillStatus" where
  "current_status rule sp =
     (case Status rule of
        Some st \<Rightarrow> if RequestID st \<noteq> sp_RequestID sp then initBackfillStatus sp (Generation rule) else st
      | None \<Rightarrow> initBackfillStatus sp (Generation rule))"

lemma run_backfill_active:
  assumes "Spec rule = Some sp" and "validateSpec rule = None" and "st = current_status rule sp"
    and "ObservedGeneration st = Generation rule" and "Phase st = PhasePending \<or> Phase st = PhaseRunning"
  shows "run_backfill sv now rule s =
    (case pollActiveOperations sv now (rule\<lparr>Status := Some (st\<lparr>Phase := PhaseRunning\<rparr>)\<rparr>) s of
       (False, rule, s) \<Rightarrow> (rule, s)
     | (True, rule, s) \<Rightarrow> (case submitNewWindows sv rule s of (rule, s) \<Rightarrow> (checkCompletion rule, s)))"
proof (cases "Phase st = PhaseRunning")
  case True
  then have run: "st\<lparr>Phase := PhaseRunning\<rparr> = st" by (cases st) simp
  show ?thesis
    unfolding run using True assms(1,2,4) by (simp add: run_backfill_def Let_def current_status_def [symmetric] assms(3) [symmetric])
next
  case False
  then show ?thesis
    using assms(1,2,4,5) by (simp add: run_backfill_def Let_def current_status_def [symmetric] assms(3) [symmetric])
qed

lemma run_backfill_inv:
  assumes "run_backfill (logged sv) now rule (s, l) = (rule', z)" and sp: "Spec rule = Some sp" and ok: "validateSpec rule = None"
    and inv: "\<And>st. Status rule = Some st \<Longrightarrow> RequestID st = sp_RequestID sp \<Longrightarrow> request_inv rule sp st l"
  obtains st' where "rule' = rule\<lparr>Status := Some st'\<rparr>" "request_inv rule sp st' (snd z)"
proof -
  define st where "st = current_status rule sp"
  have new: "request_inv rule sp (initBackfillStatus sp (Generation rule)) l"
    using progress_init [OF validateSpec_None(2) [OF ok sp]] by (simp add: request_inv_def initBackfillStatus_def)
  have i: "request_inv rule sp st l"
    using inv new by (auto simp: st_def current_status_def split: option.splits)
  show ?thesis
  proof (cases "Phase st = PhaseCompleted \<or> Phase st = PhaseFailed")
    case True
    then have "rule' = rule\<lparr>Status := Some st\<rparr>" "z = (s, l)"
      using assms(1) sp ok by (auto simp: run_backfill_def Let_def current_status_def [symmetric] st_def [symmetric])
    then show ?thesis using that i by simp
  next
    case False
    let ?st = "st\<lparr>Phase := PhaseRunning\<rparr>"
    let ?rule = "rule\<lparr>Status := Some ?st\<rparr>"
    have "Phase st = PhasePending \<or> Phase st = PhaseRunning" using False by (cases "Phase st") simp_all
    then have r: "run_backfill (logged sv) now rule (s, l) =
        (case pollActiveOperations (logged sv) now ?rule (s, l) of
           (False, rule, s) \<Rightarrow> (rule, s)
         | (True, rule, s) \<Rightarrow> (case submitNewWindows (logged sv) rule s of (rule, s) \<Rightarrow> (checkCompletion rule, s)))"
      using run_backfill_active [OF sp ok st_def, of "logged sv" now "(s, l)"] i by (simp add: request_inv_def)
    obtain b r1 z1 where p: "pollActiveOperations (logged sv) now ?rule (s, l) = (b, r1, z1)" by (rule prod_cases3)
    have pr: "progress sp (Interval rule) ?st l" "RequestID st = sp_RequestID sp" "ObservedGeneration st = Generation rule"
      using i False by (cases "Phase st"; simp add: request_inv_def)+
    obtain st1 where st1: "r1 = ?rule\<lparr>Status := Some st1\<rparr>" "RequestID st1 = RequestID ?st" "ObservedGeneration st1 = ObservedGeneration ?st"
        "if b then Phase st1 = Phase ?st \<and> progress sp (Interval rule) st1 (snd z1)
         else Phase st1 = PhaseFailed \<and> (\<exists>i. Poll i (Some (''Failed'', False)) \<in> set (snd z1))"
      by (rule pollActiveOperations_progress [OF p _ pr(1)]) simp_all
    show ?thesis
    proof (cases b)
      case False
      then have "rule' = rule\<lparr>Status := Some st1\<rparr>" "z = z1"
        using r p assms(1) st1(1) by simp_all
      then show ?thesis using that st1 False pr by (simp add: request_inv_def)
    next
      case True
      obtain s1 l1 where z1: "z1 = (s1, l1)" by (rule prod.exhaust)
      obtain r2 z2 where sn: "submitNewWindows (logged sv) r1 (s1, l1) = (r2, z2)" by (rule prod.exhaust)
      have "Spec r1 = Some sp" "Status r1 = Some st1" "Interval r1 > 0" "progress sp (Interval r1) st1 l1"
        using st1 True sp validateSpec_None(1) [OF ok sp] z1 by simp_all
      from submitNewWindows_progress [OF sn this] obtain st2 where st2: "r2 = r1\<lparr>Status := Some st2\<rparr>" "RequestID st2 = RequestID st1"
          "ObservedGeneration st2 = ObservedGeneration st1" "Phase st2 = Phase st1" "progress sp (Interval r1) st2 (snd z2)" .
      have "Spec r2 = Some sp" "Status r2 = Some st2" "Interval r2 > 0" "Phase st2 = PhaseRunning" "RequestID st2 = sp_RequestID sp"
          "ObservedGeneration st2 = Generation r2" "progress sp (Interval r2) st2 (snd z2)"
        using st1 st2 pr sp True validateSpec_None(1) [OF ok sp] by simp_all
      then obtain st3 where st3: "checkCompletion r2 = r2\<lparr>Status := Some st3\<rparr>" "request_inv r2 sp st3 (snd z2)"
        by (rule checkCompletion_inv)
      have "rule' = rule\<lparr>Status := Some st3\<rparr>" "z = z2"
        using r p assms(1) True z1 sn st3(1) st2(1) st1(1) by simp_all
      moreover have "request_inv rule sp st3 (snd z2)"
        using st3(2) st2(1) st1(1) by simp
      ultimately show ?thesis using that by blast
    qed
  qed
qed

text \<open>The cycles of a controller: \<open>Process\<close> once for each reading of the clock.\<close>

fun cycles :: "('s, 'x) service_scheme \<Rightarrow> gotime list \<Rightarrow> SummaryRule \<Rightarrow> 's \<Rightarrow> SummaryRule \<times> 's" where
  "cycles sv [] rule s = (rule, s)"
| "cycles sv (now # nows) rule s = (case Process sv now rule s of (rule, s) \<Rightarrow> cycles sv nows rule s)"

lemma validateSpec_Status [simp]:
  "validateSpec (rule\<lparr>Status := x\<rparr>) = validateSpec rule" "validateSpec (rule\<lparr>Condition := y\<rparr>) = validateSpec rule"
  by (simp_all add: validateSpec_def split: option.splits)

lemma syncBackfillCondition_Some:
  assumes "Status rule = Some st"
  obtains c where "syncBackfillCondition rule = rule\<lparr>Condition := c\<rparr>"
  using assms by (auto simp: syncBackfillCondition_def)

lemma cycles_inv:
  assumes "cycles (logged sv) nows rule (s, l) = (rule', z)" and "Spec rule = Some sp" and "validateSpec rule = None"
    and "\<And>st. Status rule = Some st \<Longrightarrow> RequestID st = sp_RequestID sp \<Longrightarrow> request_inv rule sp st l"
    and "Status rule' = Some st'" and "RequestID st' = sp_RequestID sp"
  shows "request_inv rule sp st' (snd z)"
  using assms
proof (induction nows arbitrary: rule s l)
  case Nil
  then show ?case by auto
next
  case (Cons now nows)
  obtain r1 z1 where r1: "run_backfill (logged sv) now rule (s, l) = (r1, z1)" by (rule prod.exhaust)
  obtain s1 l1 where z1: "z1 = (s1, l1)" by (rule prod.exhaust)
  obtain st1 where st1: "r1 = rule\<lparr>Status := Some st1\<rparr>" "request_inv rule sp st1 l1"
    using run_backfill_inv [OF r1 Cons.prems(2,3,4)] z1 by (metis snd_conv)
  then obtain c where c: "syncBackfillCondition r1 = rule\<lparr>Status := Some st1, Condition := c\<rparr>"
    using syncBackfillCondition_Some [of r1 st1] by auto
  have "cycles (logged sv) nows (rule\<lparr>Status := Some st1, Condition := c\<rparr>) (s1, l1) = (rule', z)"
    using Cons.prems(1) r1 z1 c by (simp add: Process_def)
  from Cons.IH [OF this] show ?case
    using Cons.prems(2,3,5,6) st1(2) by simp
qed

section \<open>Two services\<close>

text \<open>A service that accepts nothing: the windows that remain all become backlog entries in one cycle, since those are not in flight.\<close>

lemma window_loop_refused:
  assumes "\<And>s a b. fst (submit sv s a b) = None" and "iv > 0" and "inFlightCount (ActiveOperations st) < limit"
    and "\<forall>op\<in>set (ActiveOperations st). op_StartTime op < NextWindowStart st"
    and "NextWindowStart st + int n * iv \<le> stop" and "stop < NextWindowStart st + int n * iv + iv"
  obtains st' s' new where "window_loop sv limit iv stop st s = (st', s')" "ActiveOperations st' = ActiveOperations st @ new" "length new = n"
    "inFlightCount new = 0"
  using assms(3-6)
proof (induction n arbitrary: st s thesis)
  case 0
  then show ?case by (simp add: window_loop.simps [of _ _ _ _ st])
next
  case (Suc n)
  let ?w = "NextWindowStart st"
  let ?op = "\<lparr>OperationID = [], op_StartTime = ?w, op_EndTime = ?w + iv - OneTick\<rparr>"
  let ?st = "st\<lparr>ActiveOperations := ActiveOperations st @ [?op], NextWindowStart := ?w + iv\<rparr>"
  obtain s1 where s1: "submit sv s ?w (?w + iv - OneTick) = (None, s1)"
    using assms(1) by (metis prod.collapse)
  have fits: "?w + iv \<le> stop" "?w + iv + int n * iv \<le> stop" "stop < ?w + iv + int n * iv + iv"
    using Suc.prems(4,5) assms(2) mult_nonneg_nonneg [of "int n" iv] int_distrib(1) [of "int n" 1 iv]
    unfolding of_nat_Suc add.commute [of 1] by linarith+
  have "\<not> windowAlreadyTracked (ActiveOperations st) ?w"
    using Suc.prems(3) by (auto simp: windowAlreadyTracked_def list_ex_iff)
  then have step: "window_loop sv limit iv stop st s = window_loop sv limit iv stop ?st s1"
    using s1 assms(2) Suc.prems(2) fits by (simp add: window_loop.simps [of _ _ _ _ st] Let_def)
  obtain st' s' new where "window_loop sv limit iv stop ?st s1 = (st', s')" "ActiveOperations st' = ActiveOperations ?st @ new"
      "length new = n" "inFlightCount new = 0"
    by (rule Suc.IH [of ?st s1]) (use Suc.prems(2,3) assms(2) fits in \<open>auto\<close>)
  then show ?case
    using Suc.prems(1) [of st' s' "?op # new"] step by simp
qed

text \<open>A service that accepts and completes everything: every cycle clears what is tracked and moves the cursor.\<close>

definition cooperates :: "('s, 'x) service_scheme \<Rightarrow> bool" where
  "cooperates sv \<longleftrightarrow> (\<forall>s a b. \<exists>i s'. submit sv s a b = (Some i, s') \<and> i \<noteq> []) \<and>
     (\<forall>s i. \<exists>s'. getStatus sv s i = (Some (''Completed'', False), s'))"

lemma poll_loop_cooperates:
  assumes "cooperates sv" and "\<forall>op\<in>set ops. OperationID op \<noteq> []" and "poll_loop sv ops rem st s = (r, st', s')"
  shows "r = Inr rem \<and> same_request st st'"
  using assms(2,3)
proof (induction ops arbitrary: st s)
  case Nil
  then show ?case by (simp add: same_request_def)
next
  case (Cons op ops)
  obtain s1 where s1: "getStatus sv s (OperationID op) = (Some (''Completed'', False), s1)"
    using assms(1) unfolding cooperates_def by blast
  then have "poll_loop sv ops rem (st\<lparr>CompletedWindows := CompletedWindows st + 1\<rparr>) s1 = (r, st', s')"
    using Cons.prems by simp
  from Cons.IH [OF _ this] show ?case
    using Cons.prems(1) by (simp add: same_request_def)
qed

text \<open>The cursor never goes back; if it can move it does, and if it does not, nothing is submitted.\<close>

definition advances :: "BackfillStatus \<Rightarrow> BackfillStatus \<Rightarrow> bool" where
  "advances st st' \<longleftrightarrow> (\<forall>op\<in>set (ActiveOperations st'). OperationID op \<noteq> []) \<and> NextWindowStart st \<le> NextWindowStart st' \<and>
     RequestID st' = RequestID st \<and> Phase st' = Phase st \<and> ObservedGeneration st' = ObservedGeneration st"

lemma window_loop_advances:
  assumes "cooperates sv" and "iv > 0" and "\<forall>op\<in>set (ActiveOperations st). OperationID op \<noteq> []"
    and "window_loop sv limit iv stop st s = (st', s')"
  shows "advances st st' \<and> (if inFlightCount (ActiveOperations st) < limit \<and> NextWindowStart st + iv \<le> stop
    then NextWindowStart st + iv \<le> NextWindowStart st' else st' = st)"
  using assms(3,4)
proof (induction "nat (stop - NextWindowStart st)" arbitrary: st s rule: less_induct)
  case less
  let ?w = "NextWindowStart st"
  show ?case
  proof (cases "inFlightCount (ActiveOperations st) < limit \<and> ?w + iv \<le> stop")
    case False
    then have "st' = st"
      using less.prems(2) assms(2) by (auto simp: window_loop.simps [of _ _ _ _ st] Let_def split: if_splits)
    then show ?thesis using less.prems(1) False by (auto simp: advances_def)
  next
    case True
    obtain i s1 where s1: "submit sv s ?w (?w + iv - OneTick) = (Some i, s1)" "i \<noteq> []"
      using assms(1) unfolding cooperates_def by blast
    define st2 where "st2 = (if windowAlreadyTracked (ActiveOperations st) ?w then st\<lparr>NextWindowStart := ?w + iv\<rparr>
      else st\<lparr>ActiveOperations := ActiveOperations st @ [\<lparr>OperationID = i, op_StartTime = ?w, op_EndTime = ?w + iv - OneTick\<rparr>],
        SubmittedWindows := SubmittedWindows st + 1, NextWindowStart := ?w + iv\<rparr>)"
    define s2 where "s2 = (if windowAlreadyTracked (ActiveOperations st) ?w then s else s1)"
    have step: "window_loop sv limit iv stop st2 s2 = (st', s')"
      using less.prems(2) True assms(2) s1(1) by (simp add: window_loop.simps [of _ _ _ _ st] Let_def st2_def s2_def split: if_splits)
    have w: "NextWindowStart st2 = ?w + iv" and same: "RequestID st2 = RequestID st" "Phase st2 = Phase st"
        "ObservedGeneration st2 = ObservedGeneration st"
      by (simp_all add: st2_def)
    have m: "nat (stop - NextWindowStart st2) < nat (stop - ?w)"
      using True assms(2) w by simp
    have ids: "\<forall>op\<in>set (ActiveOperations st2). OperationID op \<noteq> []"
      using less.prems(1) s1(2) by (auto simp: st2_def)
    have "advances st2 st'"
      using less.hyps [OF m ids step] by blast
    then show ?thesis
      using True w same assms(2) by (simp add: advances_def)
  qed
qed

text \<open>A cycle with such a service: the request is completed when no window is left, and otherwise the cursor moves by a window at least.\<close>

lemma run_backfill_cooperates:
  assumes "cooperates sv" and "Spec rule = Some sp" and "validateSpec rule = None" and "Status rule = Some st"
    and "RequestID st = sp_RequestID sp" "ObservedGeneration st = Generation rule" and "Phase st = PhasePending \<or> Phase st = PhaseRunning"
    and "\<forall>op\<in>set (ActiveOperations st). OperationID op \<noteq> []" and "run_backfill sv now rule s = (rule', s')"
  obtains st' where "rule' = rule\<lparr>Status := Some st'\<rparr>" "RequestID st' = RequestID st"
    "if sp_EndTime sp < NextWindowStart st + Interval rule then Phase st' = PhaseCompleted
     else Phase st' = PhaseCompleted \<or> Phase st' = PhaseRunning \<and> ObservedGeneration st' = Generation rule \<and>
       NextWindowStart st + Interval rule \<le> NextWindowStart st' \<and> (\<forall>op\<in>set (ActiveOperations st'). OperationID op \<noteq> [])"
proof -
  note iv = validateSpec_None(1) [OF assms(3,2)]
  let ?st = "st\<lparr>Phase := PhaseRunning\<rparr>"
  let ?rule = "rule\<lparr>Status := Some ?st\<rparr>"
  obtain r st1 s1 where p: "poll_loop sv (ActiveOperations st) [] ?st s = (r, st1, s1)" by (rule prod_cases3)
  then have r: "r = Inr []" "same_request ?st st1"
    using poll_loop_cooperates [OF assms(1,8) p] by simp_all
  define st2 where "st2 = (if ActiveOperations st = [] then ?st else st1\<lparr>ActiveOperations := []\<rparr>)"
  have st2: "ActiveOperations st2 = []" "NextWindowStart st2 = NextWindowStart st" "Phase st2 = PhaseRunning"
      "RequestID st2 = RequestID st" "ObservedGeneration st2 = Generation rule"
    using r(2) assms(6) by (simp_all add: st2_def same_request_def)
  have poll: "pollActiveOperations sv now ?rule s = (True, rule\<lparr>Status := Some st2\<rparr>, if ActiveOperations st = [] then s else s1)"
    using p r(1) by (simp add: pollActiveOperations_def st2_def)
  obtain st3 s3 where w: "window_loop sv (effectiveMaxInFlight sp) (Interval rule) (sp_EndTime sp) st2 (if ActiveOperations st = [] then s else s1) = (st3, s3)"
    by (rule prod.exhaust)
  have w': "window_loop sv (effectiveMaxInFlight sp) (Interval rule) (sp_EndTime sp)
      (st2\<lparr>ActiveOperations := [], SubmittedWindows := SubmittedWindows st2\<rparr>) (if ActiveOperations st = [] then s else s1) = (st3, s3)"
    using w st2(1) by (cases st2) simp
  have sub: "submitNewWindows sv (rule\<lparr>Status := Some st2\<rparr>) (if ActiveOperations st = [] then s else s1) = (rule\<lparr>Status := Some st3\<rparr>, s3)"
    using assms(2) st2(1) w' by (simp add: submitNewWindows_def)
  have "run_backfill sv now rule s = (checkCompletion (rule\<lparr>Status := Some st3\<rparr>), s3)"
    using run_backfill_active [OF assms(2,3) _ assms(6,7), of sv now s] assms(4,5) poll sub by (simp add: current_status_def)
  then have rule': "rule' = checkCompletion (rule\<lparr>Status := Some st3\<rparr>)"
    using assms(9) by simp
  have a: "advances st2 st3" and b: "if NextWindowStart st + Interval rule \<le> sp_EndTime sp
      then NextWindowStart st + Interval rule \<le> NextWindowStart st3 else st3 = st2"
    using window_loop_advances [OF assms(1) iv _ w] st2(1,2) effectiveMaxInFlight_bounds(1) [of sp] by (simp_all split: if_splits)
  define st4 where "st4 = the (Status (checkCompletion (rule\<lparr>Status := Some st3\<rparr>)))"
  have c: "checkCompletion (rule\<lparr>Status := Some st3\<rparr>) = rule\<lparr>Status := Some st4\<rparr>"
    using assms(2) by (simp add: checkCompletion_def st4_def Let_def)
  have "RequestID st4 = RequestID st"
    using assms(2) a st2(4) by (simp add: checkCompletion_def st4_def Let_def advances_def)
  moreover have "if sp_EndTime sp < NextWindowStart st + Interval rule then Phase st4 = PhaseCompleted
     else Phase st4 = PhaseCompleted \<or> Phase st4 = PhaseRunning \<and> ObservedGeneration st4 = Generation rule \<and>
       NextWindowStart st + Interval rule \<le> NextWindowStart st4 \<and> (\<forall>op\<in>set (ActiveOperations st4). OperationID op \<noteq> [])"
    using assms(2) a b st2 by (auto simp: checkCompletion_def st4_def Let_def advances_def)
  ultimately show ?thesis
    using that rule' c by simp
qed

lemma cycles_terminal:
  assumes "Spec rule = Some sp" "validateSpec rule = None" "Status rule = Some st" "RequestID st = sp_RequestID sp"
    "Phase st = PhaseCompleted \<or> Phase st = PhaseFailed"
  shows "Status (fst (cycles sv nows rule s)) = Some st"
  using assms
proof (induction nows arbitrary: rule)
  case Nil
  then show ?case by simp
next
  case (Cons now nows)
  have "run_backfill sv now rule s = (rule\<lparr>Status := Some st\<rparr>, s)"
    using Cons.prems by (auto simp: run_backfill_def Let_def)
  moreover have "rule\<lparr>Status := Some st\<rparr> = rule"
    using Cons.prems(3) by (cases rule) simp
  ultimately obtain c where "Process sv now rule s = (rule\<lparr>Condition := c\<rparr>, s)"
    using syncBackfillCondition_Some [OF Cons.prems(3)] by (metis Process_def case_prod_conv)
  then show ?case
    using Cons.IH [of "rule\<lparr>Condition := c\<rparr>"] Cons.prems by simp
qed

lemma cycles_cooperates:
  assumes "cooperates sv" and "Spec rule = Some sp" and "validateSpec rule = None" and "Status rule = Some st"
    and "RequestID st = sp_RequestID sp" "ObservedGeneration st = Generation rule" and "Phase st = PhasePending \<or> Phase st = PhaseRunning"
    and "\<forall>op\<in>set (ActiveOperations st). OperationID op \<noteq> []"
    and "sp_EndTime sp < NextWindowStart st + int (length nows) * Interval rule" and "nows \<noteq> []"
  shows "\<exists>st'. Status (fst (cycles sv nows rule s)) = Some st' \<and> Phase st' = PhaseCompleted"
  using assms
proof (induction nows arbitrary: rule st s)
  case Nil
  then show ?case by simp
next
  case (Cons now nows)
  obtain r1 s1 where r1: "run_backfill sv now rule s = (r1, s1)" by (rule prod.exhaust)
  obtain st1 where st1: "r1 = rule\<lparr>Status := Some st1\<rparr>" "RequestID st1 = RequestID st"
    and ph: "if sp_EndTime sp < NextWindowStart st + Interval rule then Phase st1 = PhaseCompleted
     else Phase st1 = PhaseCompleted \<or> Phase st1 = PhaseRunning \<and> ObservedGeneration st1 = Generation rule \<and>
       NextWindowStart st + Interval rule \<le> NextWindowStart st1 \<and> (\<forall>op\<in>set (ActiveOperations st1). OperationID op \<noteq> [])"
    by (rule run_backfill_cooperates [OF Cons.prems(1-8) r1])
  obtain c where c: "syncBackfillCondition r1 = rule\<lparr>Status := Some st1, Condition := c\<rparr>"
    using syncBackfillCondition_Some [of r1 st1] st1(1) by auto
  let ?rule = "rule\<lparr>Status := Some st1, Condition := c\<rparr>"
  have step: "cycles sv (now # nows) rule s = cycles sv nows ?rule s1"
    using r1 c by (simp add: Process_def)
  show ?case
  proof (cases "Phase st1 = PhaseCompleted")
    case True
    then show ?thesis
      using cycles_terminal [of ?rule sp st1 sv nows s1] step st1(2) Cons.prems(2,3,5) by simp
  next
    case False
    then have "\<not> sp_EndTime sp < NextWindowStart st + Interval rule" using ph by auto
    with False ph have run: "Phase st1 = PhaseRunning" "ObservedGeneration st1 = Generation rule"
        "NextWindowStart st + Interval rule \<le> NextWindowStart st1" "\<forall>op\<in>set (ActiveOperations st1). OperationID op \<noteq> []"
      by simp_all
    have "int (length (now # nows)) * Interval rule = int (length nows) * Interval rule + Interval rule"
      by (simp add: algebra_simps)
    then have "sp_EndTime sp < NextWindowStart st1 + int (length nows) * Interval rule"
      using Cons.prems(9) run(3) by linarith
    moreover have "nows \<noteq> []"
      using Cons.prems(9) \<open>\<not> sp_EndTime sp < NextWindowStart st + Interval rule\<close> by auto
    ultimately show ?thesis
      using Cons.IH [of ?rule st1 s1] Cons.prems(1-3,5) st1(2) run step by simp
  qed
qed

lemma run_backfill_current:
  assumes "Spec rule = Some sp" and "validateSpec rule = None"
  shows "run_backfill sv now (rule\<lparr>Status := Some (current_status rule sp)\<rparr>) s = run_backfill sv now rule s"
proof -
  have "RequestID (current_status rule sp) = sp_RequestID sp"
    by (auto simp: current_status_def initBackfillStatus_def split: option.splits)
  then show ?thesis
    using assms by (simp add: run_backfill_def Let_def current_status_def [symmetric])
qed

lemma cycles_current:
  assumes "Spec rule = Some sp" and "validateSpec rule = None" and "nows \<noteq> []"
  shows "cycles sv nows (rule\<lparr>Status := Some (current_status rule sp)\<rparr>) s = cycles sv nows rule s"
  using assms by (cases nows) (simp_all add: Process_def run_backfill_current)

section \<open>Properties\<close>

lemma tracks_covers:
  assumes "tracks start iv k c [] l" and "iv > 0" and "stop < start + int k * iv + iv" and "start + int j * iv + iv \<le> stop"
  shows "settled l (start + int j * iv) (start + int j * iv + iv - OneTick)"
proof -
  have "int j * iv < int k * iv" using assms(3,4) by linarith
  then have "j < k" using assms(2) by (simp add: mult_less_cancel_right)
  then show ?thesis using assms(1) by (simp add: tracks_def)
qed

text \<open>
  C30. A backfill is complete when it says so. Take a valid request that is new, run any number of cycles against a service that answers as it
  likes, and look at the status. If the phase is \<open>Completed\<close>, every window of the range was submitted under its own
  start and inclusive end, and the operation it was given was reported as completed; the number of completed windows fills the range. While it
  runs, tracked windows are distinct, with the completed ones they are exactly those before the cursor, and never more than
  \<open>maxInFlight\<close>, nor more than 20, operations are in flight. The phase is \<open>Failed\<close> only if the service reported a failure not worth retrying.
\<close>

theorem backfill_covers_range:
  assumes "Spec rule = Some sp" and "validateSpec rule = None" and "\<And>st0. Status rule = Some st0 \<Longrightarrow> RequestID st0 \<noteq> sp_RequestID sp"
    and "cycles (logged sv) nows rule (s, []) = (rule', s', l)" and "Status rule' = Some st" and "RequestID st = sp_RequestID sp"
  shows "Phase st = PhaseFailed \<and> (\<exists>i. Poll i (Some (''Failed'', False)) \<in> set l) \<or>
    Phase st \<noteq> PhaseFailed \<and> inFlightCount (ActiveOperations st) \<le> effectiveMaxInFlight sp \<and> effectiveMaxInFlight sp \<le> 20 \<and>
    distinct (map op_StartTime (ActiveOperations st)) \<and> NextWindowStart st \<le> sp_EndTime sp \<and>
    NextWindowStart st = sp_StartTime sp + (CompletedWindows st + int (length (ActiveOperations st))) * Interval rule \<and>
    (Phase st = PhaseCompleted \<longrightarrow>
       (\<forall>j. sp_StartTime sp + int j * Interval rule + Interval rule \<le> sp_EndTime sp \<longrightarrow>
          settled l (sp_StartTime sp + int j * Interval rule) (sp_StartTime sp + int j * Interval rule + Interval rule - OneTick)) \<and>
       sp_EndTime sp < sp_StartTime sp + (CompletedWindows st + 1) * Interval rule)"
proof -
  have r: "request_inv rule sp st l"
    using cycles_inv [OF assms(4,1,2) _ assms(5,6)] assms(3) by auto
  show ?thesis
  proof (cases "Phase st = PhaseFailed")
    case True
    then show ?thesis using r by (simp add: request_inv_def)
  next
    case False
    then have p: "progress sp (Interval rule) st l"
      and c: "Phase st = PhaseCompleted \<Longrightarrow> ActiveOperations st = [] \<and> sp_EndTime sp < NextWindowStart st + Interval rule"
      using r by (cases "Phase st"; simp add: request_inv_def)+
    then obtain k where k: "NextWindowStart st = sp_StartTime sp + int k * Interval rule"
        "tracks (sp_StartTime sp) (Interval rule) k (CompletedWindows st) (ActiveOperations st) l"
      by (auto simp: progress_def)
    then have n: "CompletedWindows st + int (length (ActiveOperations st)) = int k" and d: "distinct (map op_StartTime (ActiveOperations st))"
      by (simp_all add: tracks_def)
    have "settled l (sp_StartTime sp + int j * Interval rule) (sp_StartTime sp + int j * Interval rule + Interval rule - OneTick)"
      if "Phase st = PhaseCompleted" "sp_StartTime sp + int j * Interval rule + Interval rule \<le> sp_EndTime sp" for j
      using tracks_covers [of "sp_StartTime sp" "Interval rule" k "CompletedWindows st" l "sp_EndTime sp" j] c [OF that(1)] k that(2)
        validateSpec_None(1) [OF assms(2,1)] by simp
    moreover have "sp_EndTime sp < sp_StartTime sp + (CompletedWindows st + 1) * Interval rule" if "Phase st = PhaseCompleted"
      using c [OF that] n k(1) by (simp add: algebra_simps)
    ultimately show ?thesis
      using False p n d k(1) effectiveMaxInFlight_bounds(2) [of sp] by (simp add: progress_def MaxActiveOperations_def)
  qed
qed

text \<open>A rule with a range of three windows of a second, two at a time, and a service that does what it is asked.\<close>

definition demo_rule :: "int \<Rightarrow> SummaryRule" where
  "demo_rule n = \<lparr>Generation = 1, Interval = second,
     Spec = Some \<lparr>sp_RequestID = ''r1'', sp_StartTime = 1000, sp_EndTime = 1000 + n * second, MaxInFlight = 2\<rparr>, Status = None, Condition = None\<rparr>"

definition willing :: "unit service" where
  "willing = \<lparr>submit = \<lambda>s a b. (Some ''op'', s), getStatus = \<lambda>s i. (Some (''Completed'', False), s)\<rparr>"

theorem backfill_covers_range_witness:
  "settled (snd (snd (cycles (logged willing) [0, 0, 0, 0] (demo_rule 3) ((), [])))) (1000 + 2 * second) (1000 + 3 * second - 100)"
proof -
  define z where "z = cycles (logged willing) [0, 0, 0, 0] (demo_rule 3) ((), [])"
  define st where "st = the (Status (fst z))"
  have z: "Status (fst z) = Some st" "RequestID st = ''r1''" "Phase st = PhaseCompleted" "validateSpec (demo_rule 3) = None"
    unfolding st_def z_def by code_simp+
  define sp where "sp = the (Spec (demo_rule 3))"
  have sp: "Spec (demo_rule 3) = Some sp" "sp_RequestID sp = ''r1''" "sp_StartTime sp = 1000" "sp_EndTime sp = 1000 + 3 * second"
      "Interval (demo_rule 3) = second" "Status (demo_rule 3) = None"
    by (simp_all add: sp_def demo_rule_def)
  have "cycles (logged willing) [0, 0, 0, 0] (demo_rule 3) ((), []) = (fst z, fst (snd z), snd (snd z))"
    by (simp only: z_def prod.collapse)
  from backfill_covers_range [OF sp(1) z(4) _ this z(1)] have
    "\<forall>j. sp_StartTime sp + int j * second + second \<le> sp_EndTime sp \<longrightarrow>
       settled (snd (snd z)) (sp_StartTime sp + int j * second) (sp_StartTime sp + int j * second + second - OneTick)"
    using z sp by simp
  from this [rule_format, of 2] show ?thesis
    using sp by (simp add: z_def OneTick_def)
qed

text \<open>
  The backlog is not capped. When the service refuses submissions, the first cycle of a new request tracks every window of the range at
  once, however many there are and whatever \<open>maxInFlight\<close> and \<open>MaxActiveOperations\<close> say: entries without an operation are not in flight, so
  the loop never reaches its limit.
\<close>

lemma backlog_not_capped:
  assumes "\<And>s a b. fst (submit sv s a b) = None" and "Spec rule = Some sp" and "validateSpec rule = None"
    and "\<And>st0. Status rule = Some st0 \<Longrightarrow> RequestID st0 \<noteq> sp_RequestID sp"
  shows "\<exists>st. Status (fst (Process sv now rule s)) = Some st \<and> inFlightCount (ActiveOperations st) = 0 \<and>
    int (length (ActiveOperations st)) = (sp_EndTime sp - sp_StartTime sp) div Interval rule"
proof -
  define d where "d = sp_EndTime sp - sp_StartTime sp"
  define n where "n = nat (d div Interval rule)"
  have iv: "Interval rule > 0" and d: "d > 0"
    using validateSpec_None [OF assms(3,2)] by (simp_all add: d_def)
  then have n: "int n = d div Interval rule" by (simp add: n_def pos_imp_zdiv_nonneg_iff)
  have "d = d div Interval rule * Interval rule + d mod Interval rule" by simp
  then have fit: "sp_StartTime sp + int n * Interval rule \<le> sp_EndTime sp"
      "sp_EndTime sp < sp_StartTime sp + int n * Interval rule + Interval rule"
    unfolding n using pos_mod_bound [OF iv, of d] pos_mod_sign [OF iv, of d] d_def by linarith+
  let ?st = "(initBackfillStatus sp (Generation rule))\<lparr>Phase := PhaseRunning\<rparr>"
  have init: "current_status rule sp = initBackfillStatus sp (Generation rule)"
    using assms(4) by (auto simp: current_status_def split: option.splits)
  have "run_backfill sv now rule s =
      (case submitNewWindows sv (rule\<lparr>Status := Some ?st\<rparr>) s of (rule, s) \<Rightarrow> (checkCompletion rule, s))"
    using run_backfill_active [OF assms(2,3) init [symmetric], of sv now s]
    by (simp add: pollActiveOperations_def initBackfillStatus_def)
  moreover obtain st' s' new where w: "window_loop sv (effectiveMaxInFlight sp) (Interval rule) (sp_EndTime sp) ?st s = (st', s')"
      "ActiveOperations st' = ActiveOperations ?st @ new" "length new = n" "inFlightCount new = 0"
    by (rule window_loop_refused [of sv "Interval rule" ?st "effectiveMaxInFlight sp" n "sp_EndTime sp" s])
      (use assms(1) iv fit effectiveMaxInFlight_bounds(1) [of sp] in \<open>simp_all add: initBackfillStatus_def\<close>)
  ultimately have "run_backfill sv now rule s = (checkCompletion (rule\<lparr>Status := Some st'\<rparr>), s')"
    using assms(2) by (simp add: submitNewWindows_def initBackfillStatus_def)
  then obtain r' where r': "Status r' = Status (checkCompletion (rule\<lparr>Status := Some st'\<rparr>))" "Process sv now rule s = (syncBackfillCondition r', s')"
    by (simp add: Process_def)
  then show ?thesis
    using w assms(2) n by (auto simp: checkCompletion_def Let_def initBackfillStatus_def syncBackfillCondition_def d_def)
qed

lemma backlog_not_capped_instance:
  "\<exists>st. Status (fst (Process \<lparr>submit = \<lambda>s a b. (None, s), getStatus = \<lambda>s i. (None, s)\<rparr> 0 (demo_rule 500) ())) = Some st \<and>
     inFlightCount (ActiveOperations st) = 0 \<and> int (length (ActiveOperations st)) = 500"
proof -
  define sp where "sp = the (Spec (demo_rule 500))"
  have "validateSpec (demo_rule 500) = None" by code_simp
  moreover have "Spec (demo_rule 500) = Some sp" "Status (demo_rule 500) = None" "Interval (demo_rule 500) = second"
      "sp_EndTime sp - sp_StartTime sp = 500 * second"
    by (simp_all add: sp_def demo_rule_def)
  ultimately show ?thesis
    using backlog_not_capped [of "\<lparr>submit = \<lambda>s a b. (None, s), getStatus = \<lambda>s i. (None, s)\<rparr>" "demo_rule 500" sp 0 "()"] by simp
qed

text \<open>
  C9. A backfill ends. If the service accepts every submission and completes every operation, a new valid request is \<open>Completed\<close> after as
  many cycles as exceed the range by a window, and stays so.
\<close>

theorem backfill_completes:
  assumes "cooperates sv" and "Spec rule = Some sp" and "validateSpec rule = None"
    and "\<And>st0. Status rule = Some st0 \<Longrightarrow> RequestID st0 \<noteq> sp_RequestID sp"
    and "sp_EndTime sp - sp_StartTime sp < int (length nows) * Interval rule"
  shows "\<exists>st. Status (fst (cycles sv nows rule s)) = Some st \<and> Phase st = PhaseCompleted"
proof -
  have init: "current_status rule sp = initBackfillStatus sp (Generation rule)"
    using assms(4) by (auto simp: current_status_def split: option.splits)
  have "nows \<noteq> []"
    using assms(5) validateSpec_None(2) [OF assms(3,2)] by auto
  then show ?thesis
    using cycles_cooperates [OF assms(1), of "rule\<lparr>Status := Some (current_status rule sp)\<rparr>" sp "current_status rule sp" nows s]
      cycles_current [OF assms(2,3), of nows sv s] assms(2,3,5) by (simp add: init initBackfillStatus_def)
qed

theorem backfill_completes_witness:
  "\<exists>st. Status (fst (cycles willing (replicate 501 0) (demo_rule 500) ())) = Some st \<and> Phase st = PhaseCompleted"
proof -
  define sp where "sp = the (Spec (demo_rule 500))"
  have "cooperates willing" by (simp add: cooperates_def willing_def)
  moreover have "validateSpec (demo_rule 500) = None" by code_simp
  moreover have "Spec (demo_rule 500) = Some sp" "Status (demo_rule 500) = None" "Interval (demo_rule 500) = second"
      "sp_EndTime sp - sp_StartTime sp = 500 * second"
    by (simp_all add: sp_def demo_rule_def)
  ultimately show ?thesis
    using backfill_completes [of willing "demo_rule 500" sp "replicate 501 0" "()"] by simp
qed

end
