(* ===== verification/StreamingSlots.thy ===== *)
theory StreamingSlots
  imports Prelude "HOL-Library.Multiset" "HOL-Library.Signed_Division"
begin

text \<open>
  Streaming slots, \<open>ingestor/adx/streaming_slots.go\<close>: how the budget of concurrent streaming requests of a Kusto endpoint is divided
  between the ingestors, and the pool of slots of one ingestor, whose limit adapts to throttling.

  Each section under the mutex of the pool is one step. A channel is represented by a number: \<open>changed\<close> is the channel in use, it is replaced
  by the next number when it is closed, so that the channels below \<open>changed\<close> are closed. A goroutine in \<open>Acquire\<close> is at the head of its loop or
  waits on the channel it has read. A release function acts once, so a held slot is released at most once.
\<close>

section \<open>State\<close>

record PeerInfo =
  Count :: int
  Rank :: int

record StreamingSlots =
  budget :: int
  minSlots :: int
  maxSlots :: int
  increaseAfter :: int
  peers :: PeerInfo
  share :: int
  limit :: int
  inUse :: int
  successes :: int
  changed :: nat
  waiters :: int

record SlotStats =
  st_Budget :: int
  st_Peers :: int
  st_Share :: int
  st_Limit :: int
  st_InUse :: int
  st_Overcommitted :: bool

section \<open>Operations\<close>

definition defaultSlotIncreaseAfter :: int where "defaultSlotIncreaseAfter = 10"

text \<open>Division and remainder truncate toward zero, as in Go.\<close>

definition slotShare :: "int \<Rightarrow> PeerInfo \<Rightarrow> int \<Rightarrow> int \<Rightarrow> int" where
  "slotShare b ps lo hi =
     (let n = max 1 (Count ps);
          s = b sdiv n;
          s = (if Rank ps < b smod n then s + 1 else s);
          s = (if hi > 0 then min s hi else s)
      in max s lo)"

definition NewStreamingSlots :: "int \<Rightarrow> int \<Rightarrow> int \<Rightarrow> PeerInfo \<Rightarrow> StreamingSlots" where
  "NewStreamingSlots b lo hi ps =
     (let lo = max 1 lo; s = slotShare b ps lo hi
      in \<lparr>budget = b, minSlots = lo, maxSlots = hi, increaseAfter = defaultSlotIncreaseAfter, peers = ps, share = s, limit = s,
          inUse = 0, successes = 0, changed = 0, waiters = 0\<rparr>)"

definition overcommittedLocked :: "StreamingSlots \<Rightarrow> bool" where
  "overcommittedLocked p \<longleftrightarrow> max 1 (Count (peers p)) * minSlots p > budget p"

definition notifyLocked :: "StreamingSlots \<Rightarrow> StreamingSlots" where
  "notifyLocked p = (if waiters p = 0 then p else p\<lparr>changed := Suc (changed p)\<rparr>)"

definition SetPeers :: "PeerInfo \<Rightarrow> StreamingSlots \<Rightarrow> StreamingSlots" where
  "SetPeers ps p =
     (let s = slotShare (budget p) ps (minSlots p) (maxSlots p);
          p = p\<lparr>peers := ps\<rparr>;
          p = (if s > share p then p\<lparr>limit := limit p + (s - share p)\<rparr> else p);
          p = p\<lparr>share := s\<rparr>;
          p = p\<lparr>limit := min (limit p) s\<rparr>
      in notifyLocked p)"

text \<open>The first section of the loop of \<open>Acquire\<close>: a slot, or the channel to wait on. \<open>stop_waiting\<close> is the second.\<close>

definition Acquire_section :: "StreamingSlots \<Rightarrow> nat option \<times> StreamingSlots" where
  "Acquire_section p =
     (if inUse p < limit p then (None, p\<lparr>inUse := inUse p + 1\<rparr>) else (Some (changed p), p\<lparr>waiters := waiters p + 1\<rparr>))"

definition stop_waiting :: "StreamingSlots \<Rightarrow> StreamingSlots" where
  "stop_waiting p = p\<lparr>waiters := waiters p - 1\<rparr>"

definition TryAcquire :: "StreamingSlots \<Rightarrow> bool \<times> StreamingSlots" where
  "TryAcquire p = (if inUse p \<ge> limit p then (False, p) else (True, p\<lparr>inUse := inUse p + 1\<rparr>))"

definition release :: "bool \<Rightarrow> StreamingSlots \<Rightarrow> StreamingSlots" where
  "release throttled p =
     (let p = p\<lparr>inUse := inUse p - 1\<rparr>;
          p = (if throttled then p\<lparr>successes := 0, limit := max 1 (limit p sdiv 2)\<rparr>
               else if limit p < share p then
                 let p = p\<lparr>successes := successes p + 1\<rparr>
                 in if successes p \<ge> increaseAfter p then p\<lparr>successes := 0, limit := limit p + 1\<rparr> else p
               else p)
      in notifyLocked p)"

definition Stats :: "StreamingSlots \<Rightarrow> SlotStats" where
  "Stats p = \<lparr>st_Budget = budget p, st_Peers = max 1 (Count (peers p)), st_Share = share p, st_Limit = limit p, st_InUse = inUse p,
     st_Overcommitted = overcommittedLocked p\<rparr>"

section \<open>Goroutines\<close>

text \<open>
  The pool and those who use it: callers of \<open>Acquire\<close> at the head of the loop, the channels of those that wait, and the slots held.
  \<open>peak\<close> is the largest share this node has had.
\<close>

record users =
  pool :: StreamingSlots
  starting :: nat
  waiting :: "nat multiset"
  held :: nat
  peak :: int

inductive ss_step :: "users \<Rightarrow> users \<Rightarrow> bool" where
  call_Acquire: "ss_step u (u\<lparr>starting := Suc (starting u)\<rparr>)"
| granted: "starting u = Suc n \<Longrightarrow> Acquire_section (pool u) = (None, p) \<Longrightarrow>
    ss_step u (u\<lparr>pool := p, starting := n, held := Suc (held u)\<rparr>)"
| wait: "starting u = Suc n \<Longrightarrow> Acquire_section (pool u) = (Some c, p) \<Longrightarrow>
    ss_step u (u\<lparr>pool := p, starting := n, waiting := add_mset c (waiting u)\<rparr>)"
| woken: "c \<in># waiting u \<Longrightarrow> c < changed (pool u) \<Longrightarrow>
    ss_step u (u\<lparr>pool := stop_waiting (pool u), waiting := waiting u - {#c#}, starting := Suc (starting u)\<rparr>)"
| cancelled: "c \<in># waiting u \<Longrightarrow> ss_step u (u\<lparr>pool := stop_waiting (pool u), waiting := waiting u - {#c#}\<rparr>)"
| try_Acquire: "TryAcquire (pool u) = (True, p) \<Longrightarrow> ss_step u (u\<lparr>pool := p, held := Suc (held u)\<rparr>)"
| try_refused: "TryAcquire (pool u) = (False, p) \<Longrightarrow> ss_step u (u\<lparr>pool := p\<rparr>)"
| released: "held u = Suc n \<Longrightarrow> ss_step u (u\<lparr>pool := release throttled (pool u), held := n\<rparr>)"
| set_peers: "ss_step u (u\<lparr>pool := SetPeers ps (pool u), peak := max (peak u) (share (SetPeers ps (pool u)))\<rparr>)"

definition ss_start :: "users \<Rightarrow> bool" where
  "ss_start u \<longleftrightarrow> (\<exists>b lo hi ps. pool u = NewStreamingSlots b lo hi ps) \<and> starting u = 0 \<and> waiting u = {#} \<and> held u = 0 \<and>
     peak u = share (pool u)"

text \<open>
  The invariant: the limit is positive and within the share, the counters are right, and whoever waits on the channel in use does so
  because no slot is free.
\<close>

definition ss_inv :: "users \<Rightarrow> bool" where
  "ss_inv u \<longleftrightarrow> (let p = pool u in
     1 \<le> minSlots p \<and> 1 \<le> limit p \<and> limit p \<le> share p \<and> share p = slotShare (budget p) (peers p) (minSlots p) (maxSlots p) \<and>
     inUse p = int (held u) \<and> waiters p = int (size (waiting u)) \<and> (\<forall>c \<in># waiting u. c \<le> changed p) \<and>
     (changed p \<in># waiting u \<longrightarrow> limit p \<le> inUse p) \<and> share p \<le> peak u \<and> inUse p \<le> peak u)"

lemma slotShare_ge: "lo \<le> slotShare b ps lo hi"
  by (simp add: slotShare_def Let_def)

text \<open>Giving back a slot and changing the peers end with \<open>notifyLocked\<close>: nobody waits on the channel in use any more.\<close>

lemma notified:
  assumes "waiters p = int (size w)" and "\<forall>c \<in># w. c \<le> changed p"
  shows "changed (notifyLocked p) \<notin># w \<and> (\<forall>c \<in># w. c \<le> changed (notifyLocked p))"
proof (cases "w = {#}")
  case False
  then have "changed (notifyLocked p) = Suc (changed p)"
    using assms(1) by (simp add: notifyLocked_def)
  then show ?thesis
    using assms(2) by (metis Suc_n_not_le_n le_SucI)
qed simp

lemma notifyLocked_fields [simp]:
  "budget (notifyLocked p) = budget p" "minSlots (notifyLocked p) = minSlots p" "maxSlots (notifyLocked p) = maxSlots p"
  "peers (notifyLocked p) = peers p" "share (notifyLocked p) = share p" "limit (notifyLocked p) = limit p" "inUse (notifyLocked p) = inUse p"
  "successes (notifyLocked p) = successes p" "waiters (notifyLocked p) = waiters p"
  by (simp_all add: notifyLocked_def)

lemma release_fields:
  "budget (release t p) = budget p" "minSlots (release t p) = minSlots p" "maxSlots (release t p) = maxSlots p"
  "peers (release t p) = peers p" "share (release t p) = share p" "inUse (release t p) = inUse p - 1" "waiters (release t p) = waiters p"
  by (simp_all add: release_def Let_def)

lemma half_positive: "(1 :: int) \<le> n \<Longrightarrow> n sdiv 2 \<le> n"
  by (simp add: signed_divide_int_def)

lemma release_limit: "1 \<le> limit p \<Longrightarrow> limit p \<le> share p \<Longrightarrow> 1 \<le> limit (release t p) \<and> limit (release t p) \<le> share p"
  using half_positive [of "limit p"] by (auto simp: release_def Let_def)

lemma SetPeers_fields:
  "budget (SetPeers ps p) = budget p" "minSlots (SetPeers ps p) = minSlots p" "maxSlots (SetPeers ps p) = maxSlots p"
  "peers (SetPeers ps p) = ps" "share (SetPeers ps p) = slotShare (budget p) ps (minSlots p) (maxSlots p)"
  "inUse (SetPeers ps p) = inUse p" "waiters (SetPeers ps p) = waiters p"
  by (simp_all add: SetPeers_def Let_def)

lemma SetPeers_limit:
  assumes "1 \<le> limit p" "limit p \<le> share p" "1 \<le> minSlots p"
  shows "1 \<le> limit (SetPeers ps p) \<and> limit (SetPeers ps p) \<le> share (SetPeers ps p)"
  using assms slotShare_ge [of "minSlots p" "budget p" ps "maxSlots p"] by (auto simp: SetPeers_def Let_def)

lemma release_notifies:
  assumes "waiters p = int (size w)" and "\<forall>c \<in># w. c \<le> changed p"
  shows "changed (release t p) \<notin># w \<and> (\<forall>c \<in># w. c \<le> changed (release t p))"
  unfolding release_def Let_def by (rule notified) (use assms in auto)

lemma SetPeers_notifies:
  assumes "waiters p = int (size w)" and "\<forall>c \<in># w. c \<le> changed p"
  shows "changed (SetPeers ps p) \<notin># w \<and> (\<forall>c \<in># w. c \<le> changed (SetPeers ps p))"
  unfolding SetPeers_def Let_def by (rule notified) (use assms in auto)

lemma ss_inv_start:
  assumes "ss_start u"
  shows "ss_inv u"
proof -
  obtain b lo hi ps where u: "pool u = NewStreamingSlots b lo hi ps" "waiting u = {#}" "held u = 0" "peak u = share (pool u)"
    using assms by (auto simp: ss_start_def)
  have "1 \<le> slotShare b ps (max 1 lo) hi"
    using slotShare_ge [of "max 1 lo" b ps hi] by simp
  then show ?thesis
    using u by (simp add: ss_inv_def NewStreamingSlots_def Let_def)
qed

lemma int_size_remove: "c \<in># w \<Longrightarrow> int (size (w - {#c#})) = int (size w) - 1"
  by (auto dest!: multi_member_split)

lemma ss_inv_step: "ss_step u u' \<Longrightarrow> ss_inv u \<Longrightarrow> ss_inv u'"
proof (induction rule: ss_step.induct)
  case (granted u n p)
  then show ?case by (auto simp: ss_inv_def Acquire_section_def Let_def split: if_splits)
next
  case (wait u n c p)
  then show ?case by (auto simp: ss_inv_def Acquire_section_def Let_def split: if_splits)
next
  case (woken c u)
  then show ?case by (auto simp: ss_inv_def stop_waiting_def Let_def int_size_remove dest: in_diffD)
next
  case (cancelled c u)
  then show ?case by (auto simp: ss_inv_def stop_waiting_def Let_def int_size_remove dest: in_diffD)
next
  case (try_Acquire u p)
  then show ?case by (auto simp: ss_inv_def TryAcquire_def Let_def split: if_splits)
next
  case (released u n throttled)
  then show ?case
    using release_limit [of "pool u" throttled] release_notifies [of "pool u" "waiting u" throttled]
    by (auto simp: ss_inv_def Let_def release_fields)
next
  case (set_peers u ps)
  then show ?case
    using SetPeers_limit [of "pool u" ps] SetPeers_notifies [of "pool u" "waiting u" ps]
    by (auto simp: ss_inv_def Let_def SetPeers_fields)
qed (auto simp: ss_inv_def TryAcquire_def split: if_splits)

interpretation slots: step_system ss_start ss_step ss_inv
  by unfold_locales (auto intro: ss_inv_start ss_inv_step)

section \<open>Shares\<close>

lemma sum_extra: "(\<Sum>r<n. if r < k then 1 else 0 :: int) = int (min n k)" for n k :: nat
  by (induction n) auto

lemma sum_base_shares:
  assumes "0 < n"
  shows "(\<Sum>r<n. b div int n + (if int r < b mod int n then 1 else 0)) = b"
proof -
  define k where "k = nat (b mod int n)"
  have k: "int k = b mod int n" "k < n" using assms by (simp_all add: k_def nat_less_iff)
  then have "(\<Sum>r<n. (if int r < b mod int n then 1 else 0 :: int)) = (\<Sum>r<n. if r < k then 1 else 0)"
    by (intro sum.cong) auto
  also have "\<dots> = int (min n k)" by (rule sum_extra)
  also have "\<dots> = b mod int n" using k by simp
  finally show ?thesis
    by (simp add: sum.distrib)
qed

lemma slotShare_cases:
  assumes "0 < n" and "int n * lo \<le> b" and "1 \<le> lo"
  shows "slotShare b \<lparr>Count = int n, Rank = int r\<rparr> lo hi \<le> b div int n + (if int r < b mod int n then 1 else 0)"
    "hi \<le> 0 \<or> b \<le> int n * hi \<Longrightarrow> slotShare b \<lparr>Count = int n, Rank = int r\<rparr> lo hi = b div int n + (if int r < b mod int n then 1 else 0)"
proof -
  have b: "0 \<le> b" using assms by (smt (verit) mult_pos_pos of_nat_0_less_iff)
  have d: "b sdiv int n = b div int n" "b smod int n = b mod int n"
    using b by (simp_all add: signed_divide_int_def signed_modulo_int_def sgn_if)
  have "int n * lo div int n \<le> b div int n"
    by (rule zdiv_mono1) (use assms(1,2) in simp_all)
  then have lo: "lo \<le> b div int n" using assms(1) by simp
  have n: "max 1 (int n) = int n" using assms(1) by simp
  show "slotShare b \<lparr>Count = int n, Rank = int r\<rparr> lo hi \<le> b div int n + (if int r < b mod int n then 1 else 0)"
    using lo by (simp add: slotShare_def Let_def n d)
  have hi: "b div int n + (if int r < b mod int n then 1 else 0) \<le> hi" if "b \<le> int n * hi"
  proof -
    have "b = int n * (b div int n) + b mod int n" by simp
    then have "int n * (b div int n) + b mod int n \<le> int n * hi" using that by simp
    moreover have "b mod int n \<ge> 0" using assms(1) by simp
    ultimately have "int n * (b div int n) \<le> int n * hi" "b mod int n > 0 \<Longrightarrow> int n * (b div int n) < int n * hi" by linarith+
    then have "b div int n \<le> hi" "b mod int n > 0 \<Longrightarrow> b div int n < hi" using assms(1) by simp_all
    then show ?thesis by auto
  qed
  then show "slotShare b \<lparr>Count = int n, Rank = int r\<rparr> lo hi = b div int n + (if int r < b mod int n then 1 else 0)"
    if "hi \<le> 0 \<or> b \<le> int n * hi"
    using that lo by (auto simp: slotShare_def Let_def n d)
qed

section \<open>Properties\<close>

text \<open>
  The budget is shared out. Unless the pool reports that it is overcommitted, the shares of \<open>n\<close> ingestors of ranks \<open>0\<close> to \<open>n - 1\<close> sum to at
  most the budget of the endpoint, and to exactly the budget when the maximum per ingestor allows it. Each ingestor has at least one slot.
\<close>

lemma shares_sum_to_budget:
  assumes "0 < n" and "\<not> overcommittedLocked (NewStreamingSlots b lo hi \<lparr>Count = int n, Rank = 0\<rparr>)"
  shows "(\<Sum>r<n. share (NewStreamingSlots b lo hi \<lparr>Count = int n, Rank = int r\<rparr>)) \<le> b \<and>
    (hi \<le> 0 \<or> b \<le> int n * hi \<longrightarrow> (\<Sum>r<n. share (NewStreamingSlots b lo hi \<lparr>Count = int n, Rank = int r\<rparr>)) = b) \<and>
    (\<forall>r<n. 1 \<le> limit (NewStreamingSlots b lo hi \<lparr>Count = int n, Rank = int r\<rparr>))"
proof -
  have m: "int n * max 1 lo \<le> b"
    using assms by (simp add: overcommittedLocked_def NewStreamingSlots_def Let_def not_less max_def split: if_splits)
  note c = slotShare_cases [OF assms(1) m]
  have "(\<Sum>r<n. slotShare b \<lparr>Count = int n, Rank = int r\<rparr> (max 1 lo) hi) \<le> (\<Sum>r<n. b div int n + (if int r < b mod int n then 1 else 0))"
    by (intro sum_mono c(1)) simp
  moreover have "(\<Sum>r<n. slotShare b \<lparr>Count = int n, Rank = int r\<rparr> (max 1 lo) hi) = (\<Sum>r<n. b div int n + (if int r < b mod int n then 1 else 0))"
    if "hi \<le> 0 \<or> b \<le> int n * hi"
    by (intro sum.cong refl c(2)) (use that in simp_all)
  moreover have "1 \<le> slotShare b ps (max 1 lo) hi" for ps
    using slotShare_ge [of "max 1 lo" b ps hi] by simp
  ultimately show ?thesis
    by (simp add: NewStreamingSlots_def Let_def sum_base_shares [OF assms(1)])
qed

lemma shares_sum_to_budget_instance:
  "(\<Sum>r<3. share (NewStreamingSlots 20 1 0 \<lparr>Count = 3, Rank = int r\<rparr>)) = 20"
proof -
  have "\<not> overcommittedLocked (NewStreamingSlots 20 1 0 \<lparr>Count = 3, Rank = 0\<rparr>)" by code_simp
  then show ?thesis using shares_sum_to_budget [of 3 20 1 0] by simp
qed

text \<open>
  C20. No wake-up is lost and the limit holds. However calls, grants, releases, cancellations and changes of the peers interleave: a
  goroutine that waits and has not been woken waits because no slot is free; the number of slots in use is the number held and never exceeds
  the largest share this node has had; the limit stays between one slot and the share.
\<close>

theorem slots_no_lost_wakeup:
  assumes "ss_start u0" and "ss_step\<^sup>*\<^sup>* u0 u"
  shows "(changed (pool u) \<in># waiting u \<longrightarrow> limit (pool u) \<le> inUse (pool u)) \<and> (\<forall>c \<in># waiting u. c \<le> changed (pool u)) \<and>
    inUse (pool u) = int (held u) \<and> inUse (pool u) \<le> peak u \<and> waiters (pool u) = int (size (waiting u)) \<and>
    1 \<le> limit (pool u) \<and> limit (pool u) \<le> share (pool u)"
  using slots.reachable_inv [OF assms] by (auto simp: ss_inv_def Let_def)

text \<open>A pool of one slot: the first caller holds it, the second one waits.\<close>

definition one_slot :: StreamingSlots where
  "one_slot = NewStreamingSlots 1 1 0 \<lparr>Count = 1, Rank = 0\<rparr>"

theorem slots_no_lost_wakeup_witness:
  "\<exists>u. ss_step\<^sup>*\<^sup>* \<lparr>pool = one_slot, starting = 0, waiting = {#}, held = 0, peak = 1\<rparr> u \<and> waiting u = {#0#} \<and>
     limit (pool u) \<le> inUse (pool u) \<and> inUse (pool u) = 1"
proof -
  let ?u0 = "\<lparr>pool = one_slot, starting = 0, waiting = {#}, held = 0, peak = 1\<rparr> :: users"
  let ?p = "one_slot\<lparr>inUse := 1\<rparr>" and ?q = "one_slot\<lparr>inUse := 1, waiters := 1\<rparr>"
  have one: "limit one_slot = 1" "inUse one_slot = 0" "waiters one_slot = 0" "changed one_slot = 0" "share one_slot = 1"
    by code_simp+
  have 1: "ss_step ?u0 (?u0\<lparr>starting := 1\<rparr>)"
    using call_Acquire [of ?u0] by simp
  have 2: "ss_step (?u0\<lparr>starting := 1\<rparr>) (?u0\<lparr>starting := 2\<rparr>)"
    using call_Acquire [of "?u0\<lparr>starting := 1\<rparr>"] by (simp add: numeral_2_eq_2)
  have 3: "ss_step (?u0\<lparr>starting := 2\<rparr>) (?u0\<lparr>pool := ?p, starting := 1, held := 1\<rparr>)"
    using granted [of "?u0\<lparr>starting := 2\<rparr>" 1 ?p] one by (simp add: Acquire_section_def)
  have 4: "ss_step (?u0\<lparr>pool := ?p, starting := 1, held := 1\<rparr>) (?u0\<lparr>pool := ?q, starting := 0, held := 1, waiting := {#0#}\<rparr>)"
    using wait [of "?u0\<lparr>pool := ?p, starting := 1, held := 1\<rparr>" 0 0 ?q] one by (simp add: Acquire_section_def)
  have r: "ss_step\<^sup>*\<^sup>* ?u0 (?u0\<lparr>pool := ?q, starting := 0, held := 1, waiting := {#0#}\<rparr>)"
    using 1 2 3 4 by (meson rtranclp.rtrancl_into_rtrancl rtranclp.rtrancl_refl)
  have "ss_start ?u0"
    using one(5) by (auto simp: ss_start_def one_slot_def)
  from slots_no_lost_wakeup [OF this r] show ?thesis
    using r one by (intro exI [of _ "?u0\<lparr>pool := ?q, starting := 0, held := 1, waiting := {#0#}\<rparr>"]) simp
qed

end
