(* ===== verification/Uploader.thy ===== *)
theory Uploader
  imports PeerTransfer SchemaNames WalRecovery
begin

text \<open>
  Delivery to Azure Data Explorer, \<open>ingestor/adx/uploader.go\<close>, \<open>streaming_uploader.go\<close>, \<open>streaming_errors.go\<close> and \<open>dispatcher.go\<close>: a batch is
  read from its segments, streamed when it is a realtime batch and queued otherwise, and removed when it was accepted.

  Everything outside of the process is a parameter with a state of its own: the cancellation of contexts, the clock, the commands that
  create tables and mappings, the wait for a streaming slot (theory \<open>StreamingSlots\<close> has the pool), and the two ingestion clients. A reader is what it
  will deliver and how it ends; compression is left to the client. A panic of a reader ends the process: nothing more is sent or removed. The state keeps a log of what was sent and counts the slots
  this upload holds.
\<close>

section \<open>Errors of streaming requests\<close>

datatype streamingFailure = streamingRetry | streamingThrottled | streamingTooLarge | streamingUnavailable | streamingPermanent

text \<open>An error of the client: whether it wraps a cancellation or an expired deadline, and its text.\<close>

record kusto_error =
  ke_context :: bool
  ke_Error :: string

fun strings_Contains :: "string \<Rightarrow> string \<Rightarrow> bool" where
  "strings_Contains [] sub = (sub = [])"
| "strings_Contains (c # cs) sub = (take (length sub) (c # cs) = sub \<or> strings_Contains cs sub)"

definition containsAny :: "string \<Rightarrow> string list \<Rightarrow> bool" where
  "containsAny s substrs = list_ex (strings_Contains s) substrs"

definition throttledCodes :: "string list" where
  "throttledCodes = [''General_ThrottledIngestion'']"

definition tooLargeCodes :: "string list" where
  "tooLargeCodes = [''Stream_InputStreamTooLarge'', ''BadRequest_FileTooLarge'']"

definition unavailableCodes :: "string list" where
  "unavailableCodes = [''ServiceUnavailable_StreamingIngestion'', ''BadRequest_TableNotExist'', ''BadRequest_DatabaseNotExist'',
     ''BadRequest_EntityNotFound'', ''BadRequest_MappingReferenceWasNotFound'', ''BadRequest_TableAccessDenied'',
     ''BadRequest_DatabaseAccessDenied'']"

text \<open>
  The pattern \<open>error from Kusto endpoint.*?((\d{3})[^)]*):\<close> with its parentheses quoted: \<open>match_status\<close> is the part from the opening parenthesis,
  \<open>find_status\<close> looks for the nearest one, and \<open>kustoResponse\<close> for the first place where the whole pattern matches.
\<close>

definition match_status :: "string \<Rightarrow> (int \<times> string) option" where
  "match_status s =
     (case s of
        p # a # b # c # rest \<Rightarrow>
          (case (dec_digit a, dec_digit b, dec_digit c) of
             (Some x, Some y, Some z) \<Rightarrow>
               (case dropWhile (\<lambda>ch. ch \<noteq> CHR '')'') rest of
                  r # colon # body \<Rightarrow> if p = CHR ''('' \<and> colon = CHR '':'' then Some (100 * x + 10 * y + z, body) else None
                | _ \<Rightarrow> None)
           | _ \<Rightarrow> None)
      | _ \<Rightarrow> None)"

fun find_status :: "string \<Rightarrow> (int \<times> string) option" where
  "find_status [] = None"
| "find_status (c # cs) = (case match_status (c # cs) of Some r \<Rightarrow> Some r | None \<Rightarrow> find_status cs)"

definition kusto_marker :: string where "kusto_marker = ''error from Kusto endpoint''"

fun kustoResponse :: "string \<Rightarrow> int \<times> string" where
  "kustoResponse [] = (0, [])"
| "kustoResponse (c # cs) =
     (if take (length kusto_marker) (c # cs) = kusto_marker
      then case find_status (drop (length kusto_marker) (c # cs)) of Some r \<Rightarrow> r | None \<Rightarrow> kustoResponse cs
      else kustoResponse cs)"

text \<open>\<open>strings.ToLower\<close> on the ASCII text of a response.\<close>

definition ascii_lower :: "char \<Rightarrow> char" where
  "ascii_lower c = (let n = (of_char c :: nat) in if 65 \<le> n \<and> n \<le> 90 then char_of (n + 32) else c)"

definition classifyStreamingError :: "kusto_error \<Rightarrow> streamingFailure" where
  "classifyStreamingError err =
     (if ke_context err then streamingRetry
      else if containsAny (ke_Error err) throttledCodes then streamingThrottled
      else if containsAny (ke_Error err) tooLargeCodes then streamingTooLarge
      else if containsAny (ke_Error err) unavailableCodes then streamingUnavailable
      else
        let (status, body) = kustoResponse (ke_Error err); streaming = strings_Contains (map ascii_lower body) ''streaming''
        in if status = 0 then streamingRetry
           else if status = 429 then streamingThrottled
           else if status = 413 then streamingTooLarge
           else if status = 403 \<or> status = 404 then streamingUnavailable
           else if status \<ge> 400 \<and> status < 500 then (if streaming then streamingUnavailable else streamingPermanent)
           else if status = 503 \<and> streaming then streamingUnavailable
           else streamingRetry)"

section \<open>Options and cooldowns\<close>

record RealtimeUploadOpts =
  MaxLag :: duration
  MaxRequestBytes :: int
  Cooldown :: duration
  RequestTimeout :: duration

definition maxStreamingRequestBytes :: int where "maxStreamingRequestBytes = 4 * 1024 * 1024"

definition maxSlotWait :: duration where "maxSlotWait = 250 * millisecond"

definition rt_withDefaults :: "RealtimeUploadOpts \<Rightarrow> RealtimeUploadOpts" where
  "rt_withDefaults ro =
     (let ro = (if MaxRequestBytes ro \<le> 0 \<or> MaxRequestBytes ro > maxStreamingRequestBytes
                then ro\<lparr>MaxRequestBytes := maxStreamingRequestBytes\<rparr> else ro);
          ro = (if Cooldown ro \<le> 0 then ro\<lparr>Cooldown := 300 * second\<rparr> else ro)
      in if RequestTimeout ro \<le> 0 then ro\<lparr>RequestTimeout := 30 * second\<rparr> else ro)"

type_synonym cooldowns = "string \<rightharpoonup> gotime"

definition cooldown_active :: "string \<Rightarrow> gotime \<Rightarrow> cooldowns \<Rightarrow> bool \<times> cooldowns" where
  "cooldown_active table now cd =
     (case cd table of None \<Rightarrow> (False, cd) | Some t \<Rightarrow> if \<not> now < t then (False, cd(table := None)) else (True, cd))"

definition cooldown_start :: "string \<Rightarrow> gotime \<Rightarrow> cooldowns \<Rightarrow> cooldowns" where
  "cooldown_start table t cd = cd(table \<mapsto> t)"

fun oldest_loop :: "gotime \<Rightarrow> segment_info list \<Rightarrow> gotime" where
  "oldest_loop t [] = t"
| "oldest_loop t (si # sis) = oldest_loop (if t = 0 \<or> CreatedAt si < t then CreatedAt si else t) sis"

definition oldestSegment :: "batch \<Rightarrow> gotime" where
  "oldestSegment b = oldest_loop 0 (Segs b)"

section \<open>Readers\<close>

text \<open>What a reader delivers, and how it ends: \<open>NextValue False\<close> is the end of the data.\<close>

type_synonym stream = "bytes \<times> next_result"

datatype reader_result = ReaderNotExist | ReaderError | ReaderOK iterator

definition NewSegmentReader :: "(string \<Rightarrow> bool) \<Rightarrow> (string \<rightharpoonup> bytes) \<Rightarrow> string \<Rightarrow> reader_result" where
  "NewSegmentReader unreadable fs path =
     (case fs path of
        None \<Rightarrow> ReaderNotExist
      | Some b \<Rightarrow>
          if unreadable path then ReaderError
          else case NewSegmentIterator (of_bytes b) of Inl _ \<Rightarrow> ReaderError | Inr it \<Rightarrow> ReaderOK it)"

definition reader_stream :: "codec \<Rightarrow> bool \<Rightarrow> iterator \<Rightarrow> stream" where
  "reader_stream c skipHeader it =
     (case outcome c it of (vs, res) \<Rightarrow> (concat (map (\<lambda>v. drop (if skipHeader then header_end v else 0) v) vs), res))"

text \<open>\<open>io.MultiReader\<close>: the readers one after the other, up to the first that fails.\<close>

fun MultiReader :: "stream list \<Rightarrow> stream" where
  "MultiReader [] = ([], NextValue False)"
| "MultiReader ((d, r) # ss) =
     (if r = NextValue False then (case MultiReader ss of (d', r') \<Rightarrow> (d @ d', r')) else (d, r))"

text \<open>
  \<open>io.Copy(buf, io.LimitReader(data, n))\<close>: \<open>n\<close> bytes if there are so many, and then the end of the data is not seen. What is left of the data
  comes second.
\<close>

definition limit_copy :: "nat \<Rightarrow> stream \<Rightarrow> (next_result + bytes) \<times> stream" where
  "limit_copy n s =
     (case s of (d, r) \<Rightarrow>
        if n \<le> length d then (Inr (take n d), (drop n d, r))
        else (if r = NextValue False then Inr d else Inl r, ([], r)))"

section \<open>The world of an upload\<close>

text \<open>What stays the same. An answer \<open>True\<close> of \<open>ctxErr\<close>, \<open>EnsureTable\<close> and \<open>ingest\<close> is an error.\<close>

record 's adx =
  ae_database :: string
  ae_mapping :: schema_mapping
  ae_codec :: codec
  ae_unreadable :: "string \<Rightarrow> bool"
  ae_refused :: "string \<Rightarrow> bool"
  ae_realtime :: "RealtimeUploadOpts option"
  ae_direct :: bool
  ctxErr :: "'s \<Rightarrow> bool \<times> 's"
  time_Now :: "'s \<Rightarrow> gotime \<times> 's"
  EnsureTable :: "string \<Rightarrow> schema_mapping \<Rightarrow> 's \<Rightarrow> bool \<times> 's"
  EnsureMapping :: "string \<Rightarrow> schema_mapping \<Rightarrow> 's \<Rightarrow> string option \<times> 's"
  EnsureStreamingPolicy :: "string \<Rightarrow> 's \<Rightarrow> unit \<times> 's"
  slot_Acquire :: "gotime \<Rightarrow> 's \<Rightarrow> bool \<times> 's"
  FromReader :: "string \<Rightarrow> string \<Rightarrow> bytes \<Rightarrow> 's \<Rightarrow> kusto_error option \<times> 's"
  ingest :: "bool \<Rightarrow> string \<Rightarrow> string \<Rightarrow> stream \<Rightarrow> 's \<Rightarrow> bool \<times> 's"

text \<open>What was sent: a streaming request with its error, or a queued or direct ingestion and whether it failed.\<close>

datatype sent = Streaming string bytes "kusto_error option" | Queued string stream bool

record 's upload =
  up_batch :: batch
  up_removal :: removal
  up_cool :: cooldowns
  up_slots :: int
  up_log :: "sent list"
  up_adx :: 's

definition ask :: "('s \<Rightarrow> 'a \<times> 's) \<Rightarrow> 's upload \<Rightarrow> 'a \<times> 's upload" where
  "ask f u = (case f (up_adx u) of (a, s) \<Rightarrow> (a, u\<lparr>up_adx := s\<rparr>))"

section \<open>Streaming a batch\<close>

datatype streamOutcome = Streamed | StreamRetry | StreamFallback stream | StreamPanic

text \<open>The request, once there is a slot: the end of \<open>streamBatch\<close>. \<open>release\<close> is called on every path.\<close>

definition stream_request ::
  "'s adx \<Rightarrow> RealtimeUploadOpts \<Rightarrow> string \<Rightarrow> string \<Rightarrow> bytes \<Rightarrow> 's upload \<Rightarrow> streamOutcome \<times> 's upload"
where
  "stream_request e rt table mappingName buffered u =
     (case ask (FromReader e table mappingName buffered) u of (err, u) \<Rightarrow>
      let u = u\<lparr>up_log := up_log u @ [Streaming table buffered err], up_slots := up_slots u - 1\<rparr>
      in case err of
           None \<Rightarrow> (Streamed, u)
         | Some err \<Rightarrow>
             (case ask (ctxErr e) u of
                (True, u) \<Rightarrow> (StreamRetry, u)
              | (False, u) \<Rightarrow>
                  (case classifyStreamingError err of
                     streamingThrottled \<Rightarrow> (StreamRetry, u)
                   | streamingRetry \<Rightarrow> (StreamRetry, u)
                   | streamingUnavailable \<Rightarrow>
                       (case ask (time_Now e) u of (now, u) \<Rightarrow>
                          (StreamFallback (buffered, NextValue False), u\<lparr>up_cool := cooldown_start table (now + Cooldown rt) (up_cool u)\<rparr>))
                   | _ \<Rightarrow> (StreamFallback (buffered, NextValue False), u))))"

text \<open>Waiting for a slot: the middle part.\<close>

definition stream_slot ::
  "'s adx \<Rightarrow> RealtimeUploadOpts \<Rightarrow> gotime \<Rightarrow> string \<Rightarrow> string \<Rightarrow> bytes \<Rightarrow> 's upload \<Rightarrow> streamOutcome \<times> 's upload"
where
  "stream_slot e rt now table mappingName buffered u =
     (let slotDeadline = now + maxSlotWait;
          lagDeadline = oldestSegment (up_batch u) + MaxLag rt;
          slotDeadline = (if MaxLag rt > 0 \<and> lagDeadline < slotDeadline then lagDeadline else slotDeadline)
      in case ask (slot_Acquire e slotDeadline) u of
           (False, u) \<Rightarrow>
             (case ask (ctxErr e) u of
                (True, u) \<Rightarrow> (StreamRetry, u)
              | (False, u) \<Rightarrow>
                  if MaxLag rt \<le> 0 then (StreamRetry, u)
                  else case ask (time_Now e) u of (t, u) \<Rightarrow>
                    if t < lagDeadline then (StreamRetry, u) else (StreamFallback (buffered, NextValue False), u))
         | (True, u) \<Rightarrow>
             let u = u\<lparr>up_slots := up_slots u + 1\<rparr>
             in case ask (ctxErr e) u of
                  (True, u) \<Rightarrow> (StreamRetry, u\<lparr>up_slots := up_slots u - 1\<rparr>)
                | (False, u) \<Rightarrow> stream_request e rt table mappingName buffered u)"

definition stream_schema ::
  "'s adx \<Rightarrow> RealtimeUploadOpts \<Rightarrow> gotime \<Rightarrow> string \<Rightarrow> schema_mapping \<Rightarrow> bytes \<Rightarrow> 's upload \<Rightarrow> streamOutcome \<times> 's upload"
where
  "stream_schema e rt now table mapping buffered u =
     (case ask (EnsureTable e table mapping) u of
        (True, u) \<Rightarrow> (StreamFallback (buffered, NextValue False), u)
      | (False, u) \<Rightarrow>
          (case ask (EnsureMapping e table mapping) u of
             (None, u) \<Rightarrow> (StreamFallback (buffered, NextValue False), u)
           | (Some mappingName, u) \<Rightarrow>
               (case ask (EnsureStreamingPolicy e table) u of (_, u) \<Rightarrow>
                case ask (ctxErr e) u of
                  (True, u) \<Rightarrow> (StreamRetry, u)
                | (False, u) \<Rightarrow> stream_slot e rt now table mappingName buffered u)))"

definition streamBatch ::
  "'s adx \<Rightarrow> RealtimeUploadOpts \<Rightarrow> string \<Rightarrow> schema_mapping \<Rightarrow> stream \<Rightarrow> 's upload \<Rightarrow> streamOutcome \<times> 's upload"
where
  "streamBatch e rt table mapping data u =
     (case ask (ctxErr e) u of
        (True, u) \<Rightarrow> (StreamRetry, u)
      | (False, u) \<Rightarrow>
          (case ask (time_Now e) u of (now, u) \<Rightarrow>
             if ae_direct e then (StreamFallback data, u)
             else
               let (active, cd) = cooldown_active table now (up_cool u); u = u\<lparr>up_cool := cd\<rparr>
               in if active then (StreamFallback data, u)
                  else if MaxLag rt > 0 \<and> now - oldestSegment (up_batch u) \<ge> MaxLag rt then (StreamFallback data, u)
                  else case limit_copy (nat (MaxRequestBytes rt + 1)) data of
                    (Inl NextPanic, _) \<Rightarrow> (StreamPanic, u)
                  | (Inl _, _) \<Rightarrow> (StreamRetry, u)
                  | (Inr buf, rest) \<Rightarrow>
                      if int (length buf) > MaxRequestBytes rt then (StreamFallback (MultiReader [(buf, NextValue False), rest]), u)
                      else if buf = [] then (Streamed, u)
                      else stream_schema e rt now table mapping buf u))"

section \<open>Queued ingestion\<close>

text \<open>\<open>uploadReader\<close> and \<open>directIngestReader\<close>: whether there was an error. The inline ingestion has read all data before it sends a command.\<close>

definition uploadReader :: "'s adx \<Rightarrow> stream \<Rightarrow> string \<Rightarrow> schema_mapping \<Rightarrow> 's upload \<Rightarrow> bool \<times> 's upload" where
  "uploadReader e data table mapping u =
     (case ask (EnsureTable e table mapping) u of
        (True, u) \<Rightarrow> (True, u)
      | (False, u) \<Rightarrow>
          (case ask (EnsureMapping e table mapping) u of
             (None, u) \<Rightarrow> (True, u)
           | (Some name, u) \<Rightarrow>
               (case ask (ctxErr e) u of
                  (True, u) \<Rightarrow> (True, u)
                | (False, u) \<Rightarrow>
                    if ae_direct e \<and> snd data \<noteq> NextValue False then (True, u)
                    else case ask (ingest e (ae_direct e) table name data) u of (err, u) \<Rightarrow>
                      (err, u\<lparr>up_log := up_log u @ [Queued table data err]\<rparr>))))"

section \<open>Uploading a batch\<close>

fun open_loop :: "'s adx \<Rightarrow> segment_info list \<Rightarrow> (string \<times> stream) list \<Rightarrow> 's upload \<Rightarrow> (string \<times> stream) list \<times> 's upload" where
  "open_loop e [] rs u = (rs, u)"
| "open_loop e (si # sis) rs u =
     (case ask (ctxErr e) u of
        (True, u) \<Rightarrow> (rs, u)
      | (False, u) \<Rightarrow>
          let pn = ParseFilename (Path si)
          in if pn_err pn \<noteq> None then open_loop e sis rs u
             else case NewSegmentReader (ae_unreadable e) (fst (up_removal u)) (Path si) of
               ReaderOK it \<Rightarrow> open_loop e sis (rs @ [(Path si, reader_stream (ae_codec e) (pn_schema pn \<noteq> []) it)]) u
             | _ \<Rightarrow> open_loop e sis rs u)"

text \<open>\<open>extractSchema\<close>: the first line of the first 4096 bytes read; \<open>None\<close> is a panic, \<open>Some None\<close> an error.\<close>

definition extractSchema :: "'s adx \<Rightarrow> (string \<rightharpoonup> bytes) \<Rightarrow> string \<Rightarrow> string option option" where
  "extractSchema e fs path =
     (case NewSegmentReader (ae_unreadable e) fs path of
        ReaderOK it \<Rightarrow>
          (case fst (SegmentReader_Read (ae_codec e) 4096 \<lparr>sr_iter = it, sr_buf = [], sr_skipHeader = False\<rparr>) of
             Inr b \<Rightarrow> Some (Some (map (\<lambda>x. char_of (unat x)) (takeWhile (\<lambda>x. x \<noteq> 10) b)))
           | Inl NextPanic \<Rightarrow> None
           | Inl _ \<Rightarrow> Some None)
      | _ \<Rightarrow> Some None)"

definition upload_Remove :: "'s adx \<Rightarrow> 's upload \<Rightarrow> 's upload" where
  "upload_Remove e u = (case batch_Remove (ae_refused e) (up_batch u) (up_removal u) of (b, w) \<Rightarrow> u\<lparr>up_batch := b, up_removal := w\<rparr>)"

text \<open>The mapping of the batch: from the header of the first readable segment when its name has a schema.\<close>

datatype mapping_result = Mapping schema_mapping | MappingInvalid | MappingPanic

definition batch_mapping :: "'s adx \<Rightarrow> (string \<rightharpoonup> bytes) \<Rightarrow> string \<Rightarrow> mapping_result" where
  "batch_mapping e fs samplePath =
     (if pn_schema (ParseFilename samplePath) = [] then Mapping (ae_mapping e)
      else case extractSchema e fs samplePath of
        None \<Rightarrow> MappingPanic
      | Some None \<Rightarrow> MappingInvalid
      | Some (Some header) \<Rightarrow> (case UnmarshalSchema header of Inl _ \<Rightarrow> MappingInvalid | Inr m \<Rightarrow> Mapping m))"

text \<open>Queued ingestion, the end of \<open>uploadBatch\<close>.\<close>

definition upload_queued :: "'s adx \<Rightarrow> stream \<Rightarrow> string \<Rightarrow> schema_mapping \<Rightarrow> 's upload \<Rightarrow> 's upload" where
  "upload_queued e data table mapping u =
     (case ask (ctxErr e) u of
        (True, u) \<Rightarrow> u
      | (False, u) \<Rightarrow> (case uploadReader e data table mapping u of (True, u) \<Rightarrow> u | (False, u) \<Rightarrow> upload_Remove e u))"

definition upload_data :: "'s adx \<Rightarrow> stream \<Rightarrow> string \<Rightarrow> schema_mapping \<Rightarrow> 's upload \<Rightarrow> 's upload" where
  "upload_data e data table mapping u =
     (case (BPriority (up_batch u), ae_realtime e) of
        (PriorityRealtime, Some rt) \<Rightarrow>
          (case streamBatch e rt table mapping data u of
             (Streamed, u) \<Rightarrow> upload_Remove e u
           | (StreamFallback data, u) \<Rightarrow> upload_queued e data table mapping u
           | (_, u) \<Rightarrow> u)
      | _ \<Rightarrow> upload_queued e data table mapping u)"

definition upload_readers :: "'s adx \<Rightarrow> (string \<times> stream) list \<Rightarrow> 's upload \<Rightarrow> 's upload" where
  "upload_readers e rs u =
     (case ask (ctxErr e) u of
        (True, u) \<Rightarrow> u
      | (False, u) \<Rightarrow>
          (case rs of
             [] \<Rightarrow> upload_Remove e u
           | (samplePath, _) # _ \<Rightarrow>
               if pn_err (ParseFilename samplePath) \<noteq> None then u
               else case batch_mapping e (fst (up_removal u)) samplePath of
                 MappingPanic \<Rightarrow> u
               | MappingInvalid \<Rightarrow> upload_Remove e u
               | Mapping m \<Rightarrow> upload_data e (MultiReader (map snd rs)) (pn_table (ParseFilename samplePath)) m u))"

definition upload_Release :: "hash \<Rightarrow> 's upload \<Rightarrow> claims \<Rightarrow> 's upload \<times> claims" where
  "upload_Release h u m = (case batch_Release h (up_batch u) m of (b, m, _) \<Rightarrow> (u\<lparr>up_batch := b\<rparr>, m))"

definition uploadBatch :: "hash \<Rightarrow> 's adx \<Rightarrow> 's upload \<Rightarrow> claims \<Rightarrow> 's upload \<times> claims" where
  "uploadBatch h e u m =
     (case ask (ctxErr e) u of
        (True, u) \<Rightarrow> upload_Release h u m
      | (False, u) \<Rightarrow>
          if BDatabase (up_batch u) \<noteq> ae_database e then upload_Release h u m
          else case open_loop e (Segs (up_batch u)) [] u of (rs, u) \<Rightarrow> upload_Release h (upload_readers e rs u) m)"

section \<open>The dispatcher\<close>

text \<open>Where a batch goes: a queue of the uploader of its database, or back to the batcher, now or after a while.\<close>

datatype routed = Enqueued string priority | GivenBack | HeldFor duration

definition unroutableRetryDelay :: duration where "unroutableRetryDelay = 60 * second"

definition dispatchBatch :: "(string \<Rightarrow> bool) \<Rightarrow> (string \<Rightarrow> priority \<Rightarrow> bool) \<Rightarrow> duration \<Rightarrow> batch \<Rightarrow> routed" where
  "dispatchBatch uploaders full unroutableDelay b =
     (if \<not> uploaders (BDatabase b) then (if unroutableDelay \<le> 0 then GivenBack else HeldFor unroutableDelay)
      else if full (BDatabase b) (BPriority b) then GivenBack
      else Enqueued (BDatabase b) (BPriority b))"

section \<open>Reading in pieces\<close>

text \<open>
  The consumer of a \<open>SegmentReader\<close> with a buffer of \<open>Suc n\<close> bytes: it gets exactly what \<open>reader_stream\<close> says, whatever the size of the buffer.
\<close>

lemma Read_measure:
  assumes "SegmentReader_Read c (Suc n) r = (Inr b, r')"
  shows "(length (rd_data (it_reader (sr_iter r'))), length (sr_buf r')) < (length (rd_data (it_reader (sr_iter r))), length (sr_buf r))"
  using assms iterator_Next_shrinks [of c "sr_iter r"]
  by (auto simp: SegmentReader_Read_def Let_def less_prod_def split: if_splits prod.splits next_result.splits bool.splits)

function drain :: "codec \<Rightarrow> nat \<Rightarrow> segment_reader \<Rightarrow> stream" where
  "drain c n r =
     (case SegmentReader_Read c (Suc n) r of
        (Inl res, r') \<Rightarrow> ([], res)
      | (Inr b, r') \<Rightarrow> (case drain c n r' of (d, res) \<Rightarrow> (b @ d, res)))"
  by pat_completeness auto
termination
  by (relation "measures [\<lambda>(c, n, r). length (rd_data (it_reader (sr_iter r))), \<lambda>(c, n, r). length (sr_buf r)]")
    (auto dest!: sym [of "(_, _)"] dest: Read_measure)

declare drain.simps [simp del]

lemma drain_buf: "drain c n r = (case drain c n (r\<lparr>sr_buf := []\<rparr>) of (d, res) \<Rightarrow> (sr_buf r @ d, res))"
proof (induction "length (sr_buf r)" arbitrary: r rule: less_induct)
  case less
  show ?case
  proof (cases "sr_buf r = []")
    case True
    then have eq: "r\<lparr>sr_buf := []\<rparr> = r" by (cases r) simp
    show ?thesis unfolding eq using True by (simp split: prod.splits)
  next
    case False
    let ?r = "r\<lparr>sr_buf := drop (Suc n) (sr_buf r)\<rparr>"
    have "length (sr_buf ?r) < length (sr_buf r)" using False by simp
    from less.hyps [OF this] have ih: "drain c n ?r = (case drain c n (r\<lparr>sr_buf := []\<rparr>) of (d, res) \<Rightarrow> (drop (Suc n) (sr_buf r) @ d, res))"
      by simp
    have "drain c n r = (case drain c n ?r of (d, res) \<Rightarrow> (take (Suc n) (sr_buf r) @ d, res))"
      using False by (subst drain.simps) (simp add: SegmentReader_Read_def)
    then show ?thesis unfolding ih by (simp split: prod.splits flip: append_assoc)
  qed
qed

lemma drain_stream: "sr_buf r = [] \<Longrightarrow> drain c n r = reader_stream c (sr_skipHeader r) (sr_iter r)"
proof (induction "length (rd_data (it_reader (sr_iter r)))" arbitrary: r rule: less_induct)
  case less
  obtain res it where n: "iterator_Next c (sr_iter r) = (res, it)" by (rule prod.exhaust)
  show ?case
  proof (cases "res = NextValue True")
    case False
    then have "SegmentReader_Read c (Suc n) r = (Inl res, r\<lparr>sr_iter := it\<rparr>)"
      using less.prems n by (auto simp: SegmentReader_Read_def split: next_result.splits bool.splits)
    then show ?thesis
      using outcome_stop [OF n False] by (subst drain.simps) (simp add: reader_stream_def)
  next
    case True
    define v where "v = drop (if sr_skipHeader r then header_end (it_value it) else 0) (it_value it)"
    let ?r = "r\<lparr>sr_iter := it, sr_buf := drop (Suc n) v\<rparr>"
    have rd: "SegmentReader_Read c (Suc n) r = (Inr (take (Suc n) v), ?r)"
      using less.prems n True by (simp add: SegmentReader_Read_def Let_def v_def)
    have "drain c n (?r\<lparr>sr_buf := []\<rparr>) = reader_stream c (sr_skipHeader r) it"
      using less.hyps [of "?r\<lparr>sr_buf := []\<rparr>"] iterator_Next_shrinks [of c "sr_iter r" it] n True by simp
    then have "drain c n ?r = (case reader_stream c (sr_skipHeader r) it of (d, res) \<Rightarrow> (drop (Suc n) v @ d, res))"
      by (subst drain_buf) simp
    then have "drain c n r = (case reader_stream c (sr_skipHeader r) it of (d, res) \<Rightarrow> (v @ d, res))"
      using rd by (subst drain.simps) (simp split: prod.splits flip: append_assoc)
    then show ?thesis
      using outcome_step [of c "sr_iter r" it] n True by (simp add: reader_stream_def v_def split: prod.splits)
  qed
qed

section \<open>What a delivery does\<close>

lemma ask_fields:
  assumes "ask f u = (a, u')"
  shows "up_batch u' = up_batch u" "up_removal u' = up_removal u" "up_cool u' = up_cool u" "up_slots u' = up_slots u" "up_log u' = up_log u"
  using assms by (auto simp: ask_def split: prod.splits)

fun payload :: "sent \<Rightarrow> bytes" where
  "payload (Streaming t d err) = d"
| "payload (Queued t s err) = fst s"

fun accepted :: "sent \<Rightarrow> bool" where
  "accepted (Streaming t d err) = (err = None)"
| "accepted (Queued t s err) = (\<not> err)"

text \<open>\<open>u'\<close> differs from \<open>u\<close> by requests for the data only: each carries all of it, and no slot is left behind.\<close>

definition requests :: "bytes \<Rightarrow> 's upload \<Rightarrow> 's upload \<Rightarrow> sent list \<Rightarrow> bool" where
  "requests d u u' l \<longleftrightarrow> up_batch u' = up_batch u \<and> up_removal u' = up_removal u \<and> up_slots u' = up_slots u \<and> up_log u' = up_log u @ l \<and>
     (\<forall>x\<in>set l. payload x = d)"

lemma requests_refl: "up_batch u' = up_batch u \<Longrightarrow> up_removal u' = up_removal u \<Longrightarrow> up_slots u' = up_slots u \<Longrightarrow> up_log u' = up_log u \<Longrightarrow>
    requests d u u' []"
  by (simp add: requests_def)

lemma requests_trans: "requests d u v l \<Longrightarrow> requests d v w l' \<Longrightarrow> requests d u w (l @ l')"
  by (auto simp: requests_def)

definition outcome_ok :: "stream \<Rightarrow> streamOutcome \<Rightarrow> sent list \<Rightarrow> bool" where
  "outcome_ok data out l \<longleftrightarrow>
     (out = Streamed \<longrightarrow> snd data = NextValue False \<and> (fst data = [] \<or> (\<exists>x\<in>set l. accepted x))) \<and>
     (\<forall>d. out = StreamFallback d \<longrightarrow> d = data)"

lemma stream_request_ok:
  assumes "stream_request e rt table name b u = (out, u')"
  shows "\<exists>l. requests b (u\<lparr>up_slots := up_slots u - 1\<rparr>) u' l \<and> outcome_ok (b, NextValue False) out l"
proof -
  obtain err u1 where a: "ask (FromReader e table name b) u = (err, u1)" by (rule prod.exhaust)
  note f = ask_fields [OF a]
  let ?u = "u1\<lparr>up_log := up_log u1 @ [Streaming table b err], up_slots := up_slots u1 - 1\<rparr>"
  obtain c u2 where k: "ask (ctxErr e) ?u = (c, u2)" by (rule prod.exhaust)
  obtain t u3 where n: "ask (time_Now e) u2 = (t, u3)" by (rule prod.exhaust)
  note g = ask_fields [OF k] ask_fields [OF n]
  have "requests b (u\<lparr>up_slots := up_slots u - 1\<rparr>) u' [Streaming table b err]"
    using assms a k n f g
    by (auto simp: stream_request_def requests_def Let_def split: option.splits bool.splits streamingFailure.splits)
  moreover have "outcome_ok (b, NextValue False) out [Streaming table b err]"
    using assms a k n
    by (auto simp: stream_request_def outcome_ok_def Let_def split: option.splits bool.splits streamingFailure.splits)
  ultimately show ?thesis by blast
qed

lemma requests_slots: "requests d (u\<lparr>up_slots := n\<rparr>) u' l \<Longrightarrow> up_batch v = up_batch u \<Longrightarrow> up_removal v = up_removal u \<Longrightarrow>
    up_log v = up_log u \<Longrightarrow> up_slots v = n \<Longrightarrow> requests d v u' l"
  by (simp add: requests_def)

lemma stream_slot_ok:
  assumes "stream_slot e rt now table name b u = (out, u')"
  shows "\<exists>l. requests b u u' l \<and> outcome_ok (b, NextValue False) out l"
proof -
  define dl where "dl = (let slotDeadline = now + maxSlotWait; lagDeadline = oldestSegment (up_batch u) + MaxLag rt
    in if MaxLag rt > 0 \<and> lagDeadline < slotDeadline then lagDeadline else slotDeadline)"
  obtain ok u1 where a: "ask (slot_Acquire e dl) u = (ok, u1)" by (rule prod.exhaust)
  note f = ask_fields [OF a]
  show ?thesis
  proof (cases ok)
    case False
    obtain c u2 where k: "ask (ctxErr e) u1 = (c, u2)" by (rule prod.exhaust)
    obtain t u3 where n: "ask (time_Now e) u2 = (t, u3)" by (rule prod.exhaust)
    have "requests b u u' [] \<and> outcome_ok (b, NextValue False) out []"
      using assms a False k n f ask_fields [OF k] ask_fields [OF n]
      by (auto simp: stream_slot_def dl_def Let_def requests_def outcome_ok_def split: bool.splits if_splits)
    then show ?thesis by blast
  next
    case True
    let ?u = "u1\<lparr>up_slots := up_slots u1 + 1\<rparr>"
    obtain c u2 where k: "ask (ctxErr e) ?u = (c, u2)" by (rule prod.exhaust)
    note g = ask_fields [OF k]
    show ?thesis
    proof (cases c)
      case c: True
      then have "requests b u u' [] \<and> outcome_ok (b, NextValue False) out []"
        using assms a True k f g by (auto simp: stream_slot_def dl_def Let_def requests_def outcome_ok_def)
      then show ?thesis by blast
    next
      case c: False
      then have "stream_request e rt table name b u2 = (out, u')"
        using assms a True k by (simp add: stream_slot_def dl_def Let_def)
      from stream_request_ok [OF this] obtain l where
        "requests b (u2\<lparr>up_slots := up_slots u2 - 1\<rparr>) u' l" "outcome_ok (b, NextValue False) out l" by blast
      moreover from this(1) have "requests b u u' l"
        by (rule requests_slots) (use f g in simp_all)
      ultimately show ?thesis by blast
    qed
  qed
qed

lemma requests_ask: "ask f u = (a, u1) \<Longrightarrow> requests d u1 u' l \<Longrightarrow> requests d u u' l"
  using ask_fields [of f u a u1] by (simp add: requests_def)

lemma stream_schema_ok:
  assumes "stream_schema e rt now table mapping b u = (out, u')"
  shows "\<exists>l. requests b u u' l \<and> outcome_ok (b, NextValue False) out l"
proof -
  obtain t u1 where 1: "ask (EnsureTable e table mapping) u = (t, u1)" by (rule prod.exhaust)
  obtain n u2 where 2: "ask (EnsureMapping e table mapping) u1 = (n, u2)" by (rule prod.exhaust)
  obtain p u3 where 3: "ask (EnsureStreamingPolicy e table) u2 = (p, u3)" by (rule prod.exhaust)
  obtain c u4 where 4: "ask (ctxErr e) u3 = (c, u4)" by (rule prod.exhaust)
  note f = ask_fields [OF 1] ask_fields [OF 2] ask_fields [OF 3] ask_fields [OF 4]
  consider "t \<or> n = None \<or> c" | name where "\<not> t" "n = Some name" "\<not> c" by (cases n) auto
  then show ?thesis
  proof cases
    case 1
    then have "requests b u u' [] \<and> outcome_ok (b, NextValue False) out []"
      using assms \<open>ask (EnsureTable e table mapping) u = (t, u1)\<close> 2 3 4 f
      by (auto simp: stream_schema_def requests_def outcome_ok_def split: bool.splits option.splits)
    then show ?thesis by blast
  next
    case go: 2
    then have "stream_slot e rt now table name b u4 = (out, u')"
      using assms 1 2 3 4 by (simp add: stream_schema_def)
    from stream_slot_ok [OF this] show ?thesis
      using requests_ask [OF 1] requests_ask [OF 2] requests_ask [OF 3] requests_ask [OF 4] by blast
  qed
qed

lemma MultiReader_split: "MultiReader [(take n d, NextValue False), (drop n d, r)] = (d, r)"
  by simp

lemma streamBatch_ok:
  assumes "streamBatch e rt table mapping data u = (out, u')"
  shows "\<exists>l. requests (fst data) u u' l \<and> outcome_ok data out l"
proof -
  obtain d r where data: "data = (d, r)" by (rule prod.exhaust)
  obtain c u1 where 1: "ask (ctxErr e) u = (c, u1)" by (rule prod.exhaust)
  obtain now u2 where 2: "ask (time_Now e) u1 = (now, u2)" by (rule prod.exhaust)
  obtain active cd where a: "cooldown_active table now (up_cool u2) = (active, cd)" by (rule prod.exhaust)
  let ?u = "u2\<lparr>up_cool := cd\<rparr>"
  let ?n = "nat (MaxRequestBytes rt + 1)"
  note f = ask_fields [OF 1] ask_fields [OF 2]
  have keep: ?thesis if "u' = u1 \<or> u' = u2 \<or> u' = ?u" "outcome_ok data out []"
    using that f by (intro exI [of _ "[]"]) (auto simp: requests_def)
  have run: "streamBatch e rt table mapping data u =
     (if c then (StreamRetry, u1) else if ae_direct e then (StreamFallback data, u2)
      else if active \<or> MaxLag rt > 0 \<and> now - oldestSegment (up_batch ?u) \<ge> MaxLag rt then (StreamFallback data, ?u)
      else case limit_copy ?n data of
          (Inl NextPanic, _) \<Rightarrow> (StreamPanic, ?u)
        | (Inl _, _) \<Rightarrow> (StreamRetry, ?u)
        | (Inr buf, rest) \<Rightarrow>
            if int (length buf) > MaxRequestBytes rt then (StreamFallback (MultiReader [(buf, NextValue False), rest]), ?u)
            else if buf = [] then (Streamed, ?u)
            else stream_schema e rt now table mapping buf ?u)"
    unfolding streamBatch_def 1 2 by (cases c; cases "ae_direct e"; cases active) (simp_all add: 2 a Let_def)
  show ?thesis
  proof (cases "c \<or> ae_direct e \<or> active \<or> MaxLag rt > 0 \<and> now - oldestSegment (up_batch ?u) \<ge> MaxLag rt")
    case True
    then show ?thesis
      using assms unfolding run by (intro keep) (auto simp: outcome_ok_def split: if_splits)
  next
    case no: False
    have copy: "(case limit_copy ?n data of
          (Inl NextPanic, _) \<Rightarrow> (StreamPanic, ?u)
        | (Inl _, _) \<Rightarrow> (StreamRetry, ?u)
        | (Inr buf, rest) \<Rightarrow>
            if int (length buf) > MaxRequestBytes rt then (StreamFallback (MultiReader [(buf, NextValue False), rest]), ?u)
            else if buf = [] then (Streamed, ?u)
            else stream_schema e rt now table mapping buf ?u) = (out, u')"
      using assms no unfolding run by auto
    consider (large) "?n \<le> length d" | (broken) "\<not> ?n \<le> length d" "r \<noteq> NextValue False" | (empty) "\<not> ?n \<le> length d" "r = NextValue False" "d = []"
      | (send) "\<not> ?n \<le> length d" "r = NextValue False" "d \<noteq> []" by blast
    then show ?thesis
    proof cases
      case large
      define buf rest where "buf = take ?n d" and "rest = (drop ?n d, r)"
      have l: "limit_copy ?n data = (Inr buf, rest)" using large by (simp add: limit_copy_def data buf_def rest_def)
      have big: "int (length buf) > MaxRequestBytes rt" using large by (simp add: buf_def min_def)
      have "MultiReader [(buf, NextValue False), rest] = (d, r)" unfolding buf_def rest_def by (rule MultiReader_split)
      then have "out = StreamFallback (d, r)" "u' = ?u"
        using copy big unfolding l by simp_all
      then show ?thesis by (intro keep) (simp_all add: outcome_ok_def data)
    next
      case broken
      then have l: "limit_copy ?n data = (Inl r, ([], r))" by (simp add: limit_copy_def data)
      have "out = StreamPanic \<or> out = StreamRetry" "u' = ?u" using copy unfolding l by (cases r; auto)+
      then show ?thesis by (intro keep) (auto simp: outcome_ok_def)
    next
      case empty
      then have "limit_copy ?n data = (Inr [], ([], r))" by (simp add: limit_copy_def data)
      moreover have "\<not> 0 > MaxRequestBytes rt" using empty(1) by linarith
      ultimately have "out = Streamed" "u' = ?u" using copy by auto
      then show ?thesis using empty by (intro keep) (simp_all add: outcome_ok_def data)
    next
      case send
      then have "limit_copy ?n data = (Inr d, ([], r))" by (simp add: limit_copy_def data)
      moreover have "\<not> int (length d) > MaxRequestBytes rt" using send(1) by linarith
      ultimately have "stream_schema e rt now table mapping d ?u = (out, u')" using copy send(3) by simp
      from stream_schema_ok [OF this] obtain l where "requests d ?u u' l" "outcome_ok (d, NextValue False) out l" by blast
      moreover from this(1) have "requests d u u' l" using f by (simp add: requests_def)
      ultimately show ?thesis using send data by auto
    qed
  qed
qed

text \<open>What is relied on: a context that is cancelled stays so, and an ingestion client reports the failure of its reader.\<close>

definition sticky :: "'s adx \<Rightarrow> bool" where
  "sticky e \<longleftrightarrow> (\<forall>s s'. ctxErr e s = (True, s') \<longrightarrow> fst (ctxErr e s'))"

definition reports_reader :: "'s adx \<Rightarrow> bool" where
  "reports_reader e \<longleftrightarrow> (\<forall>direct table name data s. snd data \<noteq> NextValue False \<longrightarrow> fst (ingest e direct table name data s))"

lemma ask_fst: "ask f u = (a, u') \<Longrightarrow> a = fst (f (up_adx u))"
  by (auto simp: ask_def split: prod.splits)

lemma uploadReader_ok:
  assumes "uploadReader e data table mapping u = (err, u')" and "reports_reader e"
  shows "\<exists>l. requests (fst data) u u' l \<and> (err \<or> snd data = NextValue False \<and> (\<exists>x\<in>set l. accepted x))"
proof -
  obtain t u1 where 1: "ask (EnsureTable e table mapping) u = (t, u1)" by (rule prod.exhaust)
  obtain n u2 where 2: "ask (EnsureMapping e table mapping) u1 = (n, u2)" by (rule prod.exhaust)
  obtain c u3 where 3: "ask (ctxErr e) u2 = (c, u3)" by (rule prod.exhaust)
  note f = ask_fields [OF 1] ask_fields [OF 2] ask_fields [OF 3]
  consider (stop) "t \<or> n = None \<or> c \<or> ae_direct e \<and> snd data \<noteq> NextValue False"
    | (go) name where "\<not> t" "n = Some name" "\<not> c" "\<not> (ae_direct e \<and> snd data \<noteq> NextValue False)" by (cases n) auto
  then show ?thesis
  proof cases
    case stop
    then have "requests (fst data) u u' [] \<and> err"
      using assms(1) 1 2 3 f by (auto simp: uploadReader_def requests_def split: bool.splits option.splits if_splits)
    then show ?thesis by blast
  next
    case go
    obtain r u4 where 4: "ask (ingest e (ae_direct e) table name data) u3 = (r, u4)" by (rule prod.exhaust)
    note g = ask_fields [OF 4] ask_fst [OF 4]
    have res: "err = r" "u' = u4\<lparr>up_log := up_log u4 @ [Queued table data r]\<rparr>"
      using assms(1) 1 2 3 4 go by (auto simp: uploadReader_def)
    have "requests (fst data) u u' [Queued table data r]"
      using res f g by (simp add: requests_def)
    moreover have "snd data = NextValue False" if "\<not> r"
      using that g(6) assms(2) unfolding reports_reader_def by blast
    ultimately show ?thesis using res(1) by (intro exI [of _ "[Queued table data r]"]) auto
  qed
qed

text \<open>The batch is kept, or it is removed after a request that was accepted, or there was nothing to send.\<close>

definition delivers :: "'s adx \<Rightarrow> stream \<Rightarrow> 's upload \<Rightarrow> 's upload \<Rightarrow> bool" where
  "delivers e data u u' \<longleftrightarrow> (\<exists>v l. requests (fst data) u v l \<and>
     (u' = v \<or> u' = upload_Remove e v \<and> snd data = NextValue False \<and> (fst data = [] \<or> (\<exists>x\<in>set l. accepted x))))"

lemma delivers_keep: "requests (fst data) u v l \<Longrightarrow> delivers e data u v"
  by (auto simp: delivers_def)

lemma delivers_trans:
  assumes "requests (fst data) u v l" and "delivers e data v w"
  shows "delivers e data u w"
proof -
  obtain v' l' where *: "requests (fst data) v v' l'"
      "w = v' \<or> w = upload_Remove e v' \<and> snd data = NextValue False \<and> (fst data = [] \<or> (\<exists>x\<in>set l'. accepted x))"
    using assms(2) by (auto simp: delivers_def)
  then show ?thesis
    using requests_trans [OF assms(1) *(1)] unfolding delivers_def by (intro exI [of _ v'] exI [of _ "l @ l'"]) auto
qed

lemma upload_queued_delivers:
  assumes "reports_reader e"
  shows "delivers e data u (upload_queued e data table mapping u)"
proof -
  obtain c u1 where 1: "ask (ctxErr e) u = (c, u1)" by (rule prod.exhaust)
  have a: "requests (fst data) u u1 []" using ask_fields [OF 1] by (simp add: requests_def)
  obtain err u2 where 2: "uploadReader e data table mapping u1 = (err, u2)" by (rule prod.exhaust)
  obtain l where l: "requests (fst data) u1 u2 l" "err \<or> snd data = NextValue False \<and> (\<exists>x\<in>set l. accepted x)"
    using uploadReader_ok [OF 2 assms] by blast
  have "requests (fst data) u u2 l" using requests_trans [OF a l(1)] by simp
  then show ?thesis
    using 1 2 a l(2) by (auto simp: upload_queued_def delivers_def split: bool.splits)
qed

lemma upload_data_delivers:
  assumes "reports_reader e"
  shows "delivers e data u (upload_data e data table mapping u)"
proof (cases "BPriority (up_batch u) = PriorityRealtime \<and> ae_realtime e \<noteq> None")
  case False
  then have "upload_data e data table mapping u = upload_queued e data table mapping u"
    by (auto simp: upload_data_def split: priority.splits option.splits)
  then show ?thesis using upload_queued_delivers [OF assms] by simp
next
  case True
  then obtain rt where rt: "BPriority (up_batch u) = PriorityRealtime" "ae_realtime e = Some rt" by auto
  obtain out u1 where 1: "streamBatch e rt table mapping data u = (out, u1)" by (rule prod.exhaust)
  obtain l where l: "requests (fst data) u u1 l" "outcome_ok data out l"
    using streamBatch_ok [OF 1] by blast
  show ?thesis
  proof (cases out)
    case Streamed
    then show ?thesis using rt 1 l by (auto simp: upload_data_def delivers_def outcome_ok_def)
  next
    case (StreamFallback d)
    then have "d = data" using l(2) by (simp add: outcome_ok_def)
    then show ?thesis
      using rt 1 StreamFallback delivers_trans [OF l(1) upload_queued_delivers [OF assms]] by (simp add: upload_data_def)
  qed (use rt 1 delivers_keep [OF l(1)] in \<open>simp_all add: upload_data_def\<close>)
qed

section \<open>Which segments are read\<close>

text \<open>The segments of a batch that can be opened, with what they hold.\<close>

definition readable :: "'s adx \<Rightarrow> (string \<rightharpoonup> bytes) \<Rightarrow> segment_info list \<Rightarrow> (string \<times> stream) list" where
  "readable e fs segs =
     concat (map (\<lambda>si. let pn = ParseFilename (Path si) in
        if pn_err pn \<noteq> None then []
        else case NewSegmentReader (ae_unreadable e) fs (Path si) of
          ReaderOK it \<Rightarrow> [(Path si, reader_stream (ae_codec e) (pn_schema pn \<noteq> []) it)]
        | _ \<Rightarrow> []) segs)"

lemma open_loop_readable:
  assumes "open_loop e segs rs u = (rs', u')"
  shows "up_batch u' = up_batch u \<and> up_removal u' = up_removal u \<and> up_slots u' = up_slots u \<and> up_log u' = up_log u \<and>
    (rs' = rs @ readable e (fst (up_removal u)) segs \<or> (\<exists>s. ctxErr e s = (True, up_adx u')))"
  using assms
proof (induction segs arbitrary: rs u)
  case Nil
  then show ?case by (simp add: readable_def)
next
  case (Cons si segs)
  obtain c u1 where 1: "ask (ctxErr e) u = (c, u1)" by (rule prod.exhaust)
  note f = ask_fields [OF 1]
  show ?case
  proof (cases c)
    case True
    then have "u' = u1" using Cons.prems 1 by simp
    moreover have "ctxErr e (up_adx u) = (True, up_adx u1)"
      using 1 True by (auto simp: ask_def split: prod.splits)
    ultimately show ?thesis using f by auto
  next
    case False
    define new where "new = readable e (fst (up_removal u)) [si]"
    have "open_loop e segs (rs @ new) u1 = (rs', u')"
      using Cons.prems 1 False f(2)
      by (auto simp: new_def readable_def Let_def split: if_splits reader_result.splits)
    moreover have "readable e (fst (up_removal u)) (si # segs) = new @ readable e (fst (up_removal u)) segs"
      by (simp add: new_def readable_def)
    ultimately show ?thesis using Cons.IH [of "rs @ new" u1] f by simp
  qed
qed

text \<open>A batch that is taken up: what \<open>upload_readers\<close> did, from the state before it.\<close>

definition settles :: "'s adx \<Rightarrow> 's upload \<Rightarrow> 's upload \<Rightarrow> bool" where
  "settles e u u' \<longleftrightarrow>
     (let fs = fst (up_removal u); rs = readable e fs (Segs (up_batch u)); data = MultiReader (map snd rs)
      in \<exists>v l. requests (fst data) u v l \<and>
        (u' = v \<or> u' = upload_Remove e v \<and>
           (rs = [] \<or> batch_mapping e fs (fst (hd rs)) = MappingInvalid \<or>
            snd data = NextValue False \<and> (fst data = [] \<or> (\<exists>x\<in>set l. accepted x)))))"

lemma settles_same:
  assumes "up_batch u1 = up_batch u" "up_removal u1 = up_removal u" "up_slots u1 = up_slots u" "up_log u1 = up_log u"
  shows "settles e u1 w = settles e u w"
  using assms by (simp add: settles_def requests_def)

lemma upload_readers_settles:
  assumes "reports_reader e" and "rs = readable e (fst (up_removal u)) (Segs (up_batch u)) \<or> fst (ctxErr e (up_adx u))"
  shows "settles e u (upload_readers e rs u)"
proof -
  obtain c u1 where 1: "ask (ctxErr e) u = (c, u1)" by (rule prod.exhaust)
  note f = ask_fields [OF 1] ask_fst [OF 1]
  have same: "settles e u1 w = settles e u w" for w
    by (rule settles_same) (use f in simp_all)
  have keep: "settles e u1 u1"
    unfolding settles_def Let_def by (intro exI [of _ u1] exI [of _ "[]"]) (simp add: requests_def)
  show ?thesis
  proof (cases c)
    case True
    then show ?thesis using 1 keep same by (simp add: upload_readers_def)
  next
    case False
    then have rs: "rs = readable e (fst (up_removal u1)) (Segs (up_batch u1))" using assms(2) f by simp
    have drop: "settles e u1 (upload_Remove e u1)" if "rs = [] \<or> batch_mapping e (fst (up_removal u1)) (fst (hd rs)) = MappingInvalid"
      using that rs unfolding settles_def Let_def by (intro exI [of _ u1] exI [of _ "[]"]) (auto simp: requests_def)
    have "settles e u1 (upload_readers e rs u)"
    proof (cases rs)
      case Nil
      then show ?thesis using 1 False drop by (simp add: upload_readers_def)
    next
      case (Cons r rs')
      obtain path st where r: "r = (path, st)" by (rule prod.exhaust)
      let ?data = "MultiReader (map snd rs)"
      have send: "settles e u1 (upload_data e ?data t m u1)" for t m
        using upload_data_delivers [OF assms(1), of ?data u1 t m] rs unfolding settles_def delivers_def Let_def by auto
      show ?thesis
        using 1 False Cons r keep drop send by (auto simp: upload_readers_def split: mapping_result.splits)
    qed
    then show ?thesis using same by simp
  qed
qed

text \<open>A segment that was written without faults is read as the values that were written, without their header lines when those are skipped.\<close>

lemma written_reader:
  assumes "codec_ok c" and "\<forall>w\<in>set ws. writable c w"
  shows "NewSegmentIterator (of_bytes (segmentMagic @ encode_writes c ws)) = Inr (at iter0 (encode_writes c ws))"
    "reader_stream c skip (at iter0 (encode_writes c ws)) =
       (concat (map (\<lambda>w. drop (if skip then header_end (snd w) else 0) (snd w)) ws), NextValue False)"
proof -
  show "NewSegmentIterator (of_bytes (segmentMagic @ encode_writes c ws)) = Inr (at iter0 (encode_writes c ws))"
    by (simp add: NewSegmentIterator_def ReadFull_def of_bytes_def at_def iter0_def)
  have "outcome c (at iter0 (encode_writes c ws)) = (map snd ws, NextValue False)"
    using outcome_writes [OF assms, of iter0 "[]"] by (simp add: outcome_stops)
  then show "reader_stream c skip (at iter0 (encode_writes c ws)) =
       (concat (map (\<lambda>w. drop (if skip then header_end (snd w) else 0) (snd w)) ws), NextValue False)"
    by (simp add: reader_stream_def comp_def)
qed

text \<open>So a batch of intact segments is sent as the values written to them, in the order of the segments.\<close>

lemma written_batch:
  assumes "codec_ok (ae_codec e)"
    and "\<And>si. si \<in> set segs \<Longrightarrow> pn_err (ParseFilename (Path si)) = None \<and> \<not> ae_unreadable e (Path si) \<and>
      fs (Path si) = Some (segmentMagic @ encode_writes (ae_codec e) (ws si)) \<and> (\<forall>w\<in>set (ws si). writable (ae_codec e) w)"
  shows "MultiReader (map snd (readable e fs segs)) =
    (concat (map (\<lambda>si. concat (map (\<lambda>w. drop (if pn_schema (ParseFilename (Path si)) \<noteq> [] then header_end (snd w) else 0) (snd w)) (ws si))) segs),
     NextValue False)"
  using assms(2)
proof (induction segs)
  case Nil
  then show ?case by (simp add: readable_def)
next
  case (Cons si segs)
  have "NewSegmentReader (ae_unreadable e) fs (Path si) = ReaderOK (at iter0 (encode_writes (ae_codec e) (ws si)))"
    using Cons.prems [of si] written_reader(1) [OF assms(1), of "ws si"] by (simp add: NewSegmentReader_def)
  then have "readable e fs (si # segs) =
      (Path si, reader_stream (ae_codec e) (pn_schema (ParseFilename (Path si)) \<noteq> []) (at iter0 (encode_writes (ae_codec e) (ws si)))) # readable e fs segs"
    using Cons.prems [of si] by (simp add: readable_def Let_def)
  moreover have "\<forall>w\<in>set (ws si). writable (ae_codec e) w" using Cons.prems [of si] by simp
  note written_reader(2) [OF assms(1) this]
  moreover have "\<And>si. si \<in> set segs \<Longrightarrow> pn_err (ParseFilename (Path si)) = None \<and> \<not> ae_unreadable e (Path si) \<and>
      fs (Path si) = Some (segmentMagic @ encode_writes (ae_codec e) (ws si)) \<and> (\<forall>w\<in>set (ws si). writable (ae_codec e) w)"
    using Cons.prems by (meson list.set_intros(2))
  note Cons.IH [OF this]
  ultimately show ?case by simp
qed

section \<open>Properties\<close>

lemma upload_Remove_fields:
  "removed (up_batch (upload_Remove e v))" "fst (up_removal (upload_Remove e v)) = files_after (ae_refused e) (Segs (up_batch v)) (fst (up_removal v))"
  "up_log (upload_Remove e v) = up_log v" "up_slots (upload_Remove e v) = up_slots v" "released (up_batch (upload_Remove e v)) = released (up_batch v)"
proof -
  obtain fs ix ao where "up_removal v = (fs, ix, ao)" by (metis prod_cases3)
  then show "fst (up_removal (upload_Remove e v)) = files_after (ae_refused e) (Segs (up_batch v)) (fst (up_removal v))"
    by (simp add: upload_Remove_def batch_Remove_def batcher_Remove_def files_after_def fun_eq_iff remove_all_files)
qed (simp_all add: upload_Remove_def batch_Remove_def split: prod.splits)

lemma uploadBatch_settles:
  assumes "sticky e" "reports_reader e" and "uploadBatch h e u m = (u', m')"
  obtains w where "settles e u w" "(u', m') = upload_Release h w m"
proof -
  obtain c u1 where 1: "ask (ctxErr e) u = (c, u1)" by (rule prod.exhaust)
  note f = ask_fields [OF 1]
  have keep: "settles e u u1"
    unfolding settles_def Let_def using f by (intro exI [of _ u1] exI [of _ "[]"]) (simp add: requests_def)
  show thesis
  proof (cases "c \<or> BDatabase (up_batch u1) \<noteq> ae_database e")
    case True
    then have "(u', m') = upload_Release h u1 m" using assms(3) 1 by (auto simp: uploadBatch_def split: bool.splits)
    then show thesis using that keep by blast
  next
    case False
    obtain rs u2 where 2: "open_loop e (Segs (up_batch u1)) [] u1 = (rs, u2)" by (rule prod.exhaust)
    note g = open_loop_readable [OF 2]
    have "rs = readable e (fst (up_removal u2)) (Segs (up_batch u2)) \<or> fst (ctxErr e (up_adx u2))"
      using g assms(1) unfolding sticky_def by auto
    then have "settles e u2 (upload_readers e rs u2)" by (rule upload_readers_settles [OF assms(2)])
    moreover have "settles e u2 w = settles e u w" for w
      by (rule settles_same) (use f g in simp_all)
    moreover have "(u', m') = upload_Release h (upload_readers e rs u2) m"
      using False assms(3) 1 2 by (auto simp: uploadBatch_def)
    ultimately show thesis using that by blast
  qed
qed

text \<open>
  C16. Nothing is removed before it is delivered. Whatever the service, the clock, cancellations and faults do: every request carries exactly the data of
  all segments that could be opened, also when streaming fails and the batch falls back to queued ingestion; the files of the batch are removed only after a
  request that was accepted, except when no segment could be opened, when the schema header cannot be used, or when there are no bytes to send; the batch is
  always released and no streaming slot is kept.
\<close>

theorem upload_removes_delivered:
  assumes "sticky e" and "reports_reader e" and "uploadBatch h e u m = (u', m')" and "up_log u = []" and "\<not> removed (up_batch u)"
    and "fs = fst (up_removal u)" and "rs = readable e fs (Segs (up_batch u))" and "data = MultiReader (map snd rs)"
  shows "released (up_batch u') \<and> up_slots u' = up_slots u \<and> (\<forall>x\<in>set (up_log u'). payload x = fst data) \<and>
    (if removed (up_batch u')
     then fst (up_removal u') = files_after (ae_refused e) (Segs (up_batch u)) fs \<and>
       (rs = [] \<or> batch_mapping e fs (fst (hd rs)) = MappingInvalid \<or>
        snd data = NextValue False \<and> (fst data = [] \<or> (\<exists>x\<in>set (up_log u'). accepted x)))
     else up_removal u' = up_removal u)"
proof -
  obtain w where w: "settles e u w" "(u', m') = upload_Release h w m"
    using uploadBatch_settles [OF assms(1-3)] .
  have rel: "released (up_batch u')" "up_slots u' = up_slots w" "up_log u' = up_log w" "up_removal u' = up_removal w"
      "removed (up_batch u') = removed (up_batch w)"
    using w(2) by (auto simp: upload_Release_def batch_Release_def split: if_splits)
  obtain v l where v: "requests (fst data) u v l" "w = v \<or> w = upload_Remove e v \<and>
      (rs = [] \<or> batch_mapping e fs (fst (hd rs)) = MappingInvalid \<or> snd data = NextValue False \<and> (fst data = [] \<or> (\<exists>x\<in>set l. accepted x)))"
    using w(1) assms(6-8) by (auto simp: settles_def Let_def)
  note r = v(1) [unfolded requests_def]
  from v(2) show ?thesis
  proof
    assume "w = v"
    then show ?thesis using rel r assms(4,5) by simp
  next
    assume "w = upload_Remove e v \<and> (rs = [] \<or> batch_mapping e fs (fst (hd rs)) = MappingInvalid \<or>
      snd data = NextValue False \<and> (fst data = [] \<or> (\<exists>x\<in>set l. accepted x)))"
    then show ?thesis using rel r assms(4,6) upload_Remove_fields [where v = v and e = e] by simp
  qed
qed

text \<open>
  C25. A segment that exists and cannot be opened is lost with its batch. When the batch is removed, that segment's file is removed as well, although no
  request carried its data: every request holds the data of the segments that could be opened, and this one is not among them.
\<close>

theorem unopened_segment_is_removed:
  assumes "sticky e" and "reports_reader e" and "uploadBatch h e u m = (u', m')" and "up_log u = []" and "\<not> removed (up_batch u)"
    and "si \<in> set (Segs (up_batch u))" and "fst (up_removal u) (Path si) = Some b" and "ae_unreadable e (Path si)" and "\<not> ae_refused e (Path si)"
    and "removed (up_batch u')"
  shows "fst (up_removal u') (Path si) = None \<and> Path si \<notin> fst ` set (readable e (fst (up_removal u)) (Segs (up_batch u))) \<and>
    (\<forall>x\<in>set (up_log u'). payload x = fst (MultiReader (map snd (readable e (fst (up_removal u)) (Segs (up_batch u))))))"
proof -
  obtain w where w: "settles e u w" "(u', m') = upload_Release h w m"
    using uploadBatch_settles [OF assms(1-3)] .
  have rel: "up_log u' = up_log w" "up_removal u' = up_removal w" "removed (up_batch w)"
    using w(2) assms(10) by (auto simp: upload_Release_def batch_Release_def split: if_splits)
  obtain v l where v: "requests (fst (MultiReader (map snd (readable e (fst (up_removal u)) (Segs (up_batch u)))))) u v l"
      "w = v \<or> w = upload_Remove e v"
    using w(1) by (auto simp: settles_def Let_def)
  note r = v(1) [unfolded requests_def]
  have "w = upload_Remove e v" using v(2) rel(3) r assms(5) by auto
  then have "fst (up_removal u') = files_after (ae_refused e) (Segs (up_batch u)) (fst (up_removal u))" "up_log u' = l"
    using rel r assms(4) upload_Remove_fields [where e = e and v = v] by simp_all
  moreover have "Path si \<notin> fst ` set (readable e (fst (up_removal u)) (Segs (up_batch u)))"
    using assms(7,8) by (auto simp: readable_def Let_def NewSegmentReader_def split: if_splits reader_result.splits)
  ultimately show ?thesis
    using assms(6,9) r by (auto simp: files_after_def)
qed

text \<open>A willing service, and a batch of two segments of which the second one is on disk and cannot be opened.\<close>

definition demo_adx :: "unit adx" where
  "demo_adx = \<lparr>ae_database = ''A'', ae_mapping = [], ae_codec = stored_codec, ae_unreadable = (\<lambda>p. p = ''A_B_2.wal''), ae_refused = (\<lambda>_. False),
     ae_realtime = None, ae_direct = False, ctxErr = (\<lambda>s. (False, s)), time_Now = (\<lambda>s. (0, s)), EnsureTable = (\<lambda>t m s. (False, s)),
     EnsureMapping = (\<lambda>t m s. (Some ''m'', s)), EnsureStreamingPolicy = (\<lambda>t s. ((), s)), slot_Acquire = (\<lambda>t s. (False, s)),
     FromReader = (\<lambda>t n d s. (None, s)), ingest = (\<lambda>direct t n d s. (snd d \<noteq> NextValue False, s))\<rparr>"

definition demo_upload :: "unit upload" where
  "demo_upload = \<lparr>up_batch = new_batch ''A_B'' ''A'' ''B'' PriorityQueued [demo_seg ''A_B'' ''A_B_1.wal'' 10 5, demo_seg ''A_B'' ''A_B_2.wal'' 10 6],
     up_removal = ([''A_B_1.wal'' \<mapsto> segmentMagic @ encode_writes stored_codec two_writes,
                    ''A_B_2.wal'' \<mapsto> segmentMagic @ encode_writes stored_codec two_writes], NewIndex, None),
     up_cool = Map.empty, up_slots = 0, up_log = [], up_adx = ()\<rparr>"

lemma demo_adx_ok: "sticky demo_adx" "reports_reader demo_adx"
  by (simp_all add: sticky_def reports_reader_def demo_adx_def)

lemma demo_upload_files:
  "fst (up_removal demo_upload) ''A_B_1.wal'' = Some (segmentMagic @ encode_writes stored_codec two_writes)"
  "fst (up_removal demo_upload) ''A_B_2.wal'' = Some (segmentMagic @ encode_writes stored_codec two_writes)"
  "Segs (up_batch demo_upload) = [demo_seg ''A_B'' ''A_B_1.wal'' 10 5, demo_seg ''A_B'' ''A_B_2.wal'' 10 6]"
  by (simp_all add: demo_upload_def new_batch_def)

lemma upload_names:
  "ParseFilename ''A_B_1.wal'' = \<lparr>pn_database = ''A'', pn_table = ''B'', pn_schema = [], pn_epoch = ''1'', pn_err = None\<rparr>"
  "ParseFilename ''A_B_2.wal'' = \<lparr>pn_database = ''A'', pn_table = ''B'', pn_schema = [], pn_epoch = ''2'', pn_err = None\<rparr>"
  by code_simp+

lemma demo_reader: "NewSegmentReader (ae_unreadable demo_adx) (fst (up_removal demo_upload)) ''A_B_1.wal'' = ReaderOK (at iter0 (encode_writes stored_codec two_writes))"
    "NewSegmentReader (ae_unreadable demo_adx) (fst (up_removal demo_upload)) ''A_B_2.wal'' = ReaderError"
    "reader_stream stored_codec False (at iter0 (encode_writes stored_codec two_writes)) = ([104, 105, 106], NextValue False)"
  using written_reader(1) [of stored_codec two_writes] written_reader(2) [of stored_codec two_writes False] demo_upload_files codec_ok_stored two_writes_writable
  by (simp_all add: NewSegmentReader_def demo_adx_def two_writes_def)

lemma demo_readable: "readable demo_adx (fst (up_removal demo_upload)) (Segs (up_batch demo_upload)) = [(''A_B_1.wal'', ([104, 105, 106], NextValue False))]"
  using demo_reader by (simp add: readable_def demo_upload_files(3) demo_seg_def upload_names Let_def) (simp add: demo_adx_def)

lemma demo_upload_start: "up_log demo_upload = []" "\<not> removed (up_batch demo_upload)"
  by (simp_all add: demo_upload_def new_batch_def)

lemma demo_upload_runs:
  "removed (up_batch (fst (uploadBatch demo_hash demo_adx demo_upload (NewMap 64))))"
  "up_log (fst (uploadBatch demo_hash demo_adx demo_upload (NewMap 64))) = [Queued ''B'' ([104, 105, 106], NextValue False) False]"
proof -
  have ctx: "ask (ctxErr demo_adx) u = (False, u)" "ask (EnsureTable demo_adx t m) u = (False, u)"
      "ask (EnsureMapping demo_adx t m) u = (Some ''m'', u)" "ask (ingest demo_adx direct t n d) u = (snd d \<noteq> NextValue False, u)"
    for u t m n d direct
    by (simp_all add: ask_def demo_adx_def)
  have opts: "ae_realtime demo_adx = None" "\<not> ae_direct demo_adx" "ae_codec demo_adx = stored_codec"
    by (simp_all add: demo_adx_def)
  have "open_loop demo_adx (Segs (up_batch demo_upload)) [] demo_upload = ([(''A_B_1.wal'', ([104, 105, 106], NextValue False))], demo_upload)"
    using demo_reader by (simp add: demo_upload_files(3) demo_seg_def upload_names ctx opts)
  moreover have "upload_readers demo_adx [(''A_B_1.wal'', ([104, 105, 106], NextValue False))] demo_upload =
      upload_Remove demo_adx (demo_upload\<lparr>up_log := [Queued ''B'' ([104, 105, 106], NextValue False) False]\<rparr>)"
    by (simp add: upload_readers_def ctx opts upload_names batch_mapping_def upload_data_def upload_queued_def uploadReader_def demo_upload_start
        split: priority.splits)
  moreover have "BDatabase (up_batch demo_upload) = ae_database demo_adx"
    by (simp add: demo_upload_def new_batch_def demo_adx_def)
  ultimately have "uploadBatch demo_hash demo_adx demo_upload (NewMap 64) =
      upload_Release demo_hash (upload_Remove demo_adx (demo_upload\<lparr>up_log := [Queued ''B'' ([104, 105, 106], NextValue False) False]\<rparr>)) (NewMap 64)"
    by (simp add: uploadBatch_def ctx)
  then show "removed (up_batch (fst (uploadBatch demo_hash demo_adx demo_upload (NewMap 64))))"
    "up_log (fst (uploadBatch demo_hash demo_adx demo_upload (NewMap 64))) = [Queued ''B'' ([104, 105, 106], NextValue False) False]"
    by (simp_all add: upload_Release_def batch_Release_def upload_Remove_fields(1,3))
qed

theorem upload_removes_delivered_witness:
  "released (up_batch (fst (uploadBatch demo_hash demo_adx demo_upload (NewMap 64)))) \<and>
   fst (up_removal (fst (uploadBatch demo_hash demo_adx demo_upload (NewMap 64)))) ''A_B_1.wal'' = None \<and>
   (\<exists>x\<in>set (up_log (fst (uploadBatch demo_hash demo_adx demo_upload (NewMap 64)))). accepted x \<and> payload x = [104, 105, 106])"
proof -
  obtain u' m' where r: "uploadBatch demo_hash demo_adx demo_upload (NewMap 64) = (u', m')" by (rule prod.exhaust)
  note T = upload_removes_delivered [OF demo_adx_ok r demo_upload_start refl refl refl]
  show ?thesis
    using T demo_upload_runs r unfolding demo_readable
    by (simp add: files_after_def demo_upload_files demo_seg_def demo_adx_def)
qed

theorem unopened_segment_is_removed_witness:
  "fst (up_removal demo_upload) ''A_B_2.wal'' \<noteq> None \<and>
   fst (up_removal (fst (uploadBatch demo_hash demo_adx demo_upload (NewMap 64)))) ''A_B_2.wal'' = None \<and>
   map payload (up_log (fst (uploadBatch demo_hash demo_adx demo_upload (NewMap 64)))) = [[104, 105, 106]]"
proof -
  obtain u' m' where r: "uploadBatch demo_hash demo_adx demo_upload (NewMap 64) = (u', m')" by (rule prod.exhaust)
  have si: "demo_seg ''A_B'' ''A_B_2.wal'' 10 6 \<in> set (Segs (up_batch demo_upload))" "Path (demo_seg ''A_B'' ''A_B_2.wal'' 10 6) = ''A_B_2.wal''"
    by (simp_all add: demo_upload_files demo_seg_def)
  note T = unopened_segment_is_removed [OF demo_adx_ok r demo_upload_start si(1), unfolded si(2), OF demo_upload_files(2)]
  show ?thesis
    using T demo_upload_runs r demo_upload_files(2) by (simp add: demo_adx_def)
qed

end
