(* ===== verification/SummaryRules.thy ===== *)
theory SummaryRules
  imports Backfill
begin

text \<open>
  Summary rules, \<open>api/v1/summaryrule_types.go\<close>, \<open>pkg/crd/summaryrule/ownership.go\<close> and \<open>SummaryRuleTask\<close> of \<open>ingestor/adx/tasks.go\<close>: the time window that a rule runs next, the
  list of asynchronous operations in its status, the backlog of windows that were not submitted, and one cycle of the task.

  Kusto is a parameter with a state of its own, as in theory \<open>Backfill\<close>. The status conditions that hold a time or the list of operations as text are represented
  by the time and the list. The clock does not move during one operation. Writing the status back to Kubernetes may fail, and then the next cycle starts from the
  old status; that the status is also written in between, when an operation failed, is not modelled. The update of a list of more than 200 operations sorts by start
  time; entries with equal start times keep their order here. \<open>r_pruned\<close> is not in the code: it remembers the operations that
  the limit of 200 has dropped.
\<close>

section \<open>State\<close>

record AsyncOperation =
  ao_Id :: string
  ao_Start :: gotime
  ao_End :: gotime

text \<open>The owner condition: its observed generation, the time of the last transition and whether it is true.\<close>

record owner_condition =
  oc_Generation :: int
  oc_Transition :: gotime
  oc_True :: bool

datatype ops_reason = NoCondition | OpsInProgress | OpsComplete | NoBacklog

record rule =
  r_Generation :: int
  r_Interval :: duration
  r_Delay :: "duration option"
  r_Deleted :: bool
  r_Owner :: "owner_condition option"
  r_LastExec :: "gotime option"
  r_Ops :: "AsyncOperation list"
  r_Reason :: ops_reason
  r_pruned :: "AsyncOperation list"

record op_status =
  os_Id :: string
  os_State :: string
  os_ShouldRetry :: bool

datatype poll_result = PollError | PollNotFound | Polled op_status

record 's kusto =
  SubmitRule :: "'s \<Rightarrow> gotime \<Rightarrow> gotime \<Rightarrow> string option \<times> 's"
  getOperation :: "'s \<Rightarrow> string \<Rightarrow> poll_result \<times> 's"

section \<open>The list of operations\<close>

fun set_loop :: "AsyncOperation \<Rightarrow> AsyncOperation list \<Rightarrow> AsyncOperation list" where
  "set_loop x [] = [x]"
| "set_loop x (op # ops) =
     (if (if ao_Id op = [] then ao_Start op = ao_Start x \<and> ao_End op = ao_End x else ao_Id op = ao_Id x)
      then x # ops else op # set_loop x ops)"

definition SetAsyncOperation :: "AsyncOperation \<Rightarrow> rule \<Rightarrow> rule" where
  "SetAsyncOperation x r =
     (let ops = set_loop x (r_Ops r);
          r = r\<lparr>r_Reason := OpsInProgress\<rparr>
      in if length ops > 200 then r\<lparr>r_Ops := tl ops, r_pruned := r_pruned r @ [hd ops]\<rparr> else r\<lparr>r_Ops := ops\<rparr>)"

fun remove_loop :: "string \<Rightarrow> AsyncOperation list \<Rightarrow> AsyncOperation list" where
  "remove_loop i [] = []"
| "remove_loop i (op # ops) = (if ao_Id op = i then ops else op # remove_loop i ops)"

definition RemoveAsyncOperation :: "string \<Rightarrow> rule \<Rightarrow> rule" where
  "RemoveAsyncOperation i r =
     (let ops = remove_loop i (r_Ops r) in r\<lparr>r_Ops := ops, r_Reason := (if ops = [] then OpsComplete else OpsInProgress)\<rparr>)"

section \<open>Windows\<close>

definition Truncate :: "gotime \<Rightarrow> duration \<Rightarrow> gotime" where
  "Truncate t d = (if d \<le> 0 then t else t - t mod d)"

definition delay_of :: "rule \<Rightarrow> duration" where
  "delay_of r = (case r_Delay r of None \<Rightarrow> 0 | Some d \<Rightarrow> d)"

definition ShouldSubmitRule :: "gotime \<Rightarrow> rule \<Rightarrow> bool" where
  "ShouldSubmitRule now r =
     (let (g, t) = (case r_Owner r of None \<Rightarrow> (0, now - r_Interval r) | Some c \<Rightarrow> (oc_Generation c, oc_Transition c));
          effectiveNow = now - delay_of r
      in r_Deleted r \<or> g \<noteq> r_Generation r \<or>
         (case r_LastExec r of
            Some e \<Rightarrow> time_Sub effectiveNow e \<ge> r_Interval r
          | None \<Rightarrow> time_Sub effectiveNow t \<ge> r_Interval r))"

definition NextExecutionWindow :: "gotime \<Rightarrow> rule \<Rightarrow> gotime \<times> gotime" where
  "NextExecutionWindow now r =
     (case r_LastExec r of
        None \<Rightarrow> (let e = Truncate (now - delay_of r) (r_Interval r) in (e - r_Interval r, e))
      | Some t \<Rightarrow> (let s = Truncate t (r_Interval r) in (s, s + r_Interval r)))"

text \<open>
  The loop of \<open>BackfillAsyncOperations\<close>: windows from \<open>start\<close> that end before \<open>now\<close> and are not known. The known windows are those with a known start. The interval
  is positive by the validation of the resource; the test for it makes the function total.
\<close>

function new_windows :: "duration \<Rightarrow> gotime \<Rightarrow> gotime list \<Rightarrow> gotime \<Rightarrow> AsyncOperation list" where
  "new_windows iv now known start =
     (if iv \<le> 0 \<or> start + iv \<ge> now then []
      else if start \<in> set known then new_windows iv now known (start + iv)
      else \<lparr>ao_Id = [], ao_Start = start, ao_End = start + iv - OneTick\<rparr> # new_windows iv now (start # known) (start + iv))"
  by pat_completeness auto
termination
  by (relation "measure (\<lambda>(iv, now, known, start). nat (now - start))") auto

declare new_windows.simps [simp del]

definition BackfillAsyncOperations :: "gotime \<Rightarrow> rule \<Rightarrow> rule" where
  "BackfillAsyncOperations now r =
     (case r_LastExec r of
        None \<Rightarrow> r
      | Some t \<Rightarrow>
          if t = 0 then r
          else
            let all = r_Ops r @ new_windows (r_Interval r) (now - delay_of r) (map ao_Start (r_Ops r)) t;
                sorted = sort_key ao_Start all;
                n = length all - 200;
                (lost, kept) = (if length all > 200 then (take n sorted, drop n sorted) else ([], all))
            in r\<lparr>r_Ops := kept, r_pruned := r_pruned r @ lost,
                 r_Reason := (if r_Reason r \<noteq> NoCondition \<and> kept = r_Ops r then NoBacklog else OpsInProgress)\<rparr>)"

section \<open>One cycle\<close>

definition SetLastExecutionTime :: "gotime \<Rightarrow> rule \<Rightarrow> rule" where
  "SetLastExecutionTime t r = r\<lparr>r_LastExec := Some t\<rparr>"

text \<open>Whether there was an error comes first.\<close>

definition handleRuleExecution :: "('s, 'x) kusto_scheme \<Rightarrow> gotime \<Rightarrow> rule \<Rightarrow> 's \<Rightarrow> bool \<times> rule \<times> 's" where
  "handleRuleExecution k now r s =
     (let (ws, we) = NextExecutionWindow now r
      in if ShouldSubmitRule now r then
           case SubmitRule k s ws (we - OneTick) of (res, s) \<Rightarrow>
             (res = None,
              SetLastExecutionTime we (SetAsyncOperation \<lparr>ao_Id = (case res of None \<Rightarrow> [] | Some i \<Rightarrow> i), ao_Start = ws, ao_End = we - OneTick\<rparr> r), s)
         else (False, r, s))"

definition processBacklogOperation :: "('s, 'x) kusto_scheme \<Rightarrow> AsyncOperation \<Rightarrow> rule \<Rightarrow> 's \<Rightarrow> rule \<times> 's" where
  "processBacklogOperation k x r s =
     (case SubmitRule k s (ao_Start x) (ao_End x) of
        (None, s) \<Rightarrow> (r, s)
      | (Some i, s) \<Rightarrow>
          let e = ao_End x + OneTick;
              cur = (case r_LastExec r of None \<Rightarrow> 0 | Some t \<Rightarrow> t);
              r = (if e > cur then SetLastExecutionTime e r else r)
          in (SetAsyncOperation (x\<lparr>ao_Id := i\<rparr>) r, s))"

definition handleRetryOperation :: "('s, 'x) kusto_scheme \<Rightarrow> AsyncOperation \<Rightarrow> rule \<Rightarrow> 's \<Rightarrow> rule \<times> 's" where
  "handleRetryOperation k x r s =
     (case SubmitRule k s (ao_Start x) (ao_End x) of (res, s) \<Rightarrow>
      let i = (case res of None \<Rightarrow> [] | Some i \<Rightarrow> i)
      in if i = ao_Id x then (r, s) else (SetAsyncOperation (x\<lparr>ao_Id := i\<rparr>) (RemoveAsyncOperation (ao_Id x) r), s))"

text \<open>\<open>SetCondition\<close> through \<open>meta.SetStatusCondition\<close>: the time of the transition changes with the status.\<close>

definition update_owner :: "gotime \<Rightarrow> bool \<Rightarrow> rule \<Rightarrow> rule" where
  "update_owner now ok r =
     r\<lparr>r_Owner := Some (case r_Owner r of
          None \<Rightarrow> \<lparr>oc_Generation = r_Generation r, oc_Transition = now, oc_True = ok\<rparr>
        | Some c \<Rightarrow> \<lparr>oc_Generation = r_Generation r, oc_Transition = (if oc_True c \<noteq> ok then now else oc_Transition c), oc_True = ok\<rparr>)\<rparr>"

definition IsKustoAsyncOperationStateCompleted :: "string \<Rightarrow> bool" where
  "IsKustoAsyncOperationStateCompleted state \<longleftrightarrow> state = ''Completed'' \<or> state = ''Failed''"

definition handleCompletedOperation :: "gotime \<Rightarrow> op_status \<Rightarrow> rule \<Rightarrow> rule" where
  "handleCompletedOperation now st r =
     RemoveAsyncOperation (os_Id st) (if os_State st = ''Failed'' then update_owner now False r else r)"

fun track_loop :: "('s, 'x) kusto_scheme \<Rightarrow> gotime \<Rightarrow> AsyncOperation list \<Rightarrow> rule \<Rightarrow> 's \<Rightarrow> rule \<times> 's" where
  "track_loop k now [] r s = (r, s)"
| "track_loop k now (x # xs) r s =
     (if ao_Id x = [] then (case processBacklogOperation k x r s of (r, s) \<Rightarrow> track_loop k now xs r s)
      else case getOperation k s (ao_Id x) of
        (Polled st, s) \<Rightarrow>
          if os_ShouldRetry st then (case handleRetryOperation k x r s of (r, s) \<Rightarrow> track_loop k now xs r s)
          else if IsKustoAsyncOperationStateCompleted (os_State st) then track_loop k now xs (handleCompletedOperation now st r) s
          else track_loop k now xs r s
      | (_, s) \<Rightarrow> track_loop k now xs r s)"

definition trackAsyncOperations :: "('s, 'x) kusto_scheme \<Rightarrow> gotime \<Rightarrow> rule \<Rightarrow> 's \<Rightarrow> rule \<times> 's" where
  "trackAsyncOperations k now r s = track_loop k now (r_Ops r) r s"

text \<open>The body of \<open>Run\<close> for one rule; its request for a historical backfill is \<open>Process\<close> of theory \<open>Backfill\<close>, on a part of the status of its own.\<close>

definition run_rule :: "('s, 'x) kusto_scheme \<Rightarrow> gotime \<Rightarrow> rule \<Rightarrow> 's \<Rightarrow> rule \<times> 's" where
  "run_rule k now r s =
     (case handleRuleExecution k now r s of (err, r, s) \<Rightarrow>
      case trackAsyncOperations k now (if err then r else BackfillAsyncOperations now r) s of (r, s) \<Rightarrow>
        (update_owner now (\<not> err) r, s))"

section \<open>Which rules run where\<close>

definition EqualFold :: "string \<Rightarrow> string \<Rightarrow> bool" where
  "EqualFold a b \<longleftrightarrow> map (\<lambda>c. if CHR ''A'' \<le> c \<and> c \<le> CHR ''Z'' then char_of ((of_char c :: nat) + 32) else c) a =
     map (\<lambda>c. if CHR ''A'' \<le> c \<and> c \<le> CHR ''Z'' then char_of ((of_char c :: nat) + 32) else c) b"

text \<open>
  The criteria and the labels are maps; the lists hold their entries in the order in which Go visits them. The value of the criteria expression (no expression, an
  error, or a truth value) comes from the expression library. \<open>EqualFold\<close> is given for ASCII letters.
\<close>

definition matchesCriteria :: "(string \<times> string list) list \<Rightarrow> (string \<times> string) list \<Rightarrow> bool" where
  "matchesCriteria criteria labels =
     (criteria = [] \<or>
      list_ex (\<lambda>(k, vs). case filter (\<lambda>(lk, lv). EqualFold lk k) labels of [] \<Rightarrow> False | (lk, lv) # _ \<Rightarrow> list_ex (EqualFold lv) vs) criteria)"

definition OwnerIngestor :: string where "OwnerIngestor = ''ingestor''"

definition OwnerADXExporter :: string where "OwnerADXExporter = ''adx-exporter''"

definition owner_annotation :: string where "owner_annotation = ''adx-mon.azure.com/owner''"

definition desired_owner_annotation :: string where "desired_owner_annotation = ''adx-mon.azure.com/desired-owner''"

text \<open>The annotations of a resource are a map that may be nil.\<close>

definition IsOwnedBy :: "(string \<rightharpoonup> string) option \<Rightarrow> string \<Rightarrow> bool" where
  "IsOwnedBy annotations owner =
     (case annotations of
        None \<Rightarrow> owner = OwnerIngestor
      | Some ann \<Rightarrow>
          let val = (case ann owner_annotation of None \<Rightarrow> [] | Some v \<Rightarrow> v)
          in if val = [] then owner = OwnerIngestor
             else if val = OwnerIngestor \<or> val = OwnerADXExporter then val = owner else False)"

definition WantsOwner :: "(string \<rightharpoonup> string) option \<Rightarrow> string \<Rightarrow> bool" where
  "WantsOwner annotations owner =
     (case annotations of
        None \<Rightarrow> False
      | Some ann \<Rightarrow> (case ann desired_owner_annotation of None \<Rightarrow> [] | Some v \<Rightarrow> v) = owner)"

definition SafeToAdopt :: "gotime \<Rightarrow> rule \<Rightarrow> bool" where
  "SafeToAdopt now r \<longleftrightarrow> r_Ops r = [] \<and> \<not> ShouldSubmitRule now r"

definition ClaimInMemory :: "string \<Rightarrow> (string \<rightharpoonup> string) option \<Rightarrow> (string \<rightharpoonup> string) option" where
  "ClaimInMemory owner annotations =
     Some (((case annotations of None \<Rightarrow> Map.empty | Some ann \<Rightarrow> ann)(owner_annotation \<mapsto> owner))(desired_owner_annotation := None))"

definition shouldProcessRule ::
  "string \<Rightarrow> (string \<times> string) list \<Rightarrow> (string \<rightharpoonup> string) option \<Rightarrow> string \<Rightarrow> (string \<times> string list) list \<Rightarrow> bool option option \<Rightarrow> bool"
where
  "shouldProcessRule database labels ann ruleDatabase criteria expression =
     (IsOwnedBy ann OwnerIngestor \<and> ruleDatabase = database \<and> matchesCriteria criteria labels \<and>
      (case expression of None \<Rightarrow> True | Some None \<Rightarrow> False | Some (Some ok) \<Rightarrow> ok))"

section \<open>Any number of cycles\<close>

text \<open>The service with a log of the calls it answered.\<close>

datatype rule_call = RSubmit gotime gotime "string option" | RPoll string poll_result

definition call_log :: "('s, 'x) kusto_scheme \<Rightarrow> ('s \<times> rule_call list) kusto" where
  "call_log k =
     \<lparr>SubmitRule = (\<lambda>(s, l) a b. case SubmitRule k s a b of (res, s') \<Rightarrow> (res, s', l @ [RSubmit a b res])),
      getOperation = (\<lambda>(s, l) i. case getOperation k s i of (res, s') \<Rightarrow> (res, s', l @ [RPoll i res]))\<rparr>"

text \<open>
  A cycle of the task: the time, whether the status reached Kubernetes at its conclusion, and what users have made of the rule before it: its generation, its
  ingestion delay and whether it is being deleted.
\<close>

record cycle =
  c_now :: gotime
  c_stored :: bool
  c_Generation :: int
  c_Delay :: "duration option"
  c_Deleted :: bool

definition edit_rule :: "cycle \<Rightarrow> rule \<Rightarrow> rule" where
  "edit_rule c r = r\<lparr>r_Generation := c_Generation c, r_Delay := c_Delay c, r_Deleted := c_Deleted c\<rparr>"

fun run_cycles :: "('s, 'x) kusto_scheme \<Rightarrow> cycle list \<Rightarrow> rule \<Rightarrow> 's \<Rightarrow> rule \<times> 's" where
  "run_cycles k [] r s = (r, s)"
| "run_cycles k (c # cs) r s =
     (case run_rule k (c_now c) (edit_rule c r) s of (r', s') \<Rightarrow> run_cycles k cs (if c_stored c then r' else r) s')"

section \<open>No window is skipped\<close>

definition ids_identify :: "rule_call list \<Rightarrow> bool" where
  "ids_identify l \<longleftrightarrow> (\<forall>a b a' b' i. RSubmit a b (Some i) \<in> set l \<and> RSubmit a' b' (Some i) \<in> set l \<and> i \<noteq> [] \<longrightarrow> a = a' \<and> b = b')"

definition polls_echo :: "rule_call list \<Rightarrow> bool" where
  "polls_echo l \<longleftrightarrow> (\<forall>i st. RPoll i (Polled st) \<in> set l \<longrightarrow> os_Id st = i)"

text \<open>The window that starts at \<open>w\<close> was accepted, and a poll of that operation found it complete and not to be retried.\<close>

definition window_finished :: "rule_call list \<Rightarrow> duration \<Rightarrow> gotime \<Rightarrow> bool" where
  "window_finished l iv w \<longleftrightarrow>
     (\<exists>i st. RSubmit w (w + iv - OneTick) (Some i) \<in> set l \<and> RPoll i (Polled st) \<in> set l \<and>
        \<not> os_ShouldRetry st \<and> IsKustoAsyncOperationStateCompleted (os_State st))"

definition window_accounted :: "rule_call list \<Rightarrow> rule \<Rightarrow> duration \<Rightarrow> gotime \<Rightarrow> bool" where
  "window_accounted l r iv w \<longleftrightarrow> w \<in> ao_Start ` set (r_Ops r) \<or> w \<in> ao_Start ` set (r_pruned r) \<or> window_finished l iv w"

definition op_ok :: "rule_call list \<Rightarrow> duration \<Rightarrow> gotime \<Rightarrow> gotime \<Rightarrow> AsyncOperation \<Rightarrow> bool" where
  "op_ok l iv b m x \<longleftrightarrow> iv dvd ao_Start x \<and> b \<le> ao_Start x \<and> ao_Start x + iv \<le> m \<and> ao_End x = ao_Start x + iv - OneTick \<and>
     (ao_Id x \<noteq> [] \<longrightarrow> RSubmit (ao_Start x) (ao_End x) (Some (ao_Id x)) \<in> set l)"

text \<open>Every window of the interval from \<open>b\<close> to \<open>m\<close> is accounted for, and the last execution time is not after \<open>m\<close>.\<close>

definition windows_inv :: "rule_call list \<Rightarrow> duration \<Rightarrow> gotime \<Rightarrow> gotime \<Rightarrow> rule \<Rightarrow> bool" where
  "windows_inv l iv b m r \<longleftrightarrow>
     r_Interval r = iv \<and> iv dvd m \<and> (\<exists>t. r_LastExec r = Some t \<and> iv dvd t \<and> b \<le> t \<and> t \<le> m) \<and>
     (\<forall>x\<in>set (r_Ops r). op_ok l iv b m x) \<and> (\<forall>w. iv dvd w \<and> b \<le> w \<and> w < m \<longrightarrow> window_accounted l r iv w)"

lemma op_ok_mono: "op_ok l iv b m x \<Longrightarrow> set l \<subseteq> set l' \<Longrightarrow> m \<le> m' \<Longrightarrow> op_ok l' iv b m' x"
  by (auto simp: op_ok_def)

lemma window_finished_mono: "window_finished l iv w \<Longrightarrow> set l \<subseteq> set l' \<Longrightarrow> window_finished l' iv w"
  unfolding window_finished_def by blast

lemma windows_inv_log: "windows_inv l iv b m r \<Longrightarrow> set l \<subseteq> set l' \<Longrightarrow> windows_inv l' iv b m r"
  unfolding windows_inv_def window_accounted_def using op_ok_mono window_finished_mono by (metis order_refl)

lemma ids_identify_mono: "ids_identify l' \<Longrightarrow> set l \<subseteq> set l' \<Longrightarrow> ids_identify l"
  unfolding ids_identify_def by blast

lemma polls_echo_mono: "polls_echo l' \<Longrightarrow> set l \<subseteq> set l' \<Longrightarrow> polls_echo l"
  unfolding polls_echo_def by blast

text \<open>Replacing an operation keeps the windows: an entry with the same identifier has the same window.\<close>

lemma set_loop_subset: "set (set_loop x ops) \<subseteq> insert x (set ops)"
  by (induction ops) auto

lemma set_loop_keeps:
  assumes "ids_identify l" "op_ok l iv b m x" "\<forall>y\<in>set ops. op_ok l iv b m y"
  shows "ao_Start ` set (set_loop x ops) = insert (ao_Start x) (ao_Start ` set ops)"
  using assms(3)
proof (induction ops)
  case (Cons op ops)
  have "ao_Start op = ao_Start x" if "ao_Id op \<noteq> []" "ao_Id op = ao_Id x"
    using that Cons.prems assms(1,2) unfolding op_ok_def ids_identify_def by (metis list.set_intros(1))
  with Cons show ?case by auto
qed simp

lemma set_loop_nonempty [simp]: "set_loop x ops \<noteq> []"
  by (cases ops) auto

lemma SetAsyncOperation_fields [simp]:
  "r_Interval (SetAsyncOperation x r) = r_Interval r" "r_LastExec (SetAsyncOperation x r) = r_LastExec r"
  by (simp_all add: SetAsyncOperation_def Let_def)

lemma SetAsyncOperation_starts:
  assumes "ids_identify l" "op_ok l iv b m x" "\<forall>y\<in>set (r_Ops r). op_ok l iv b m y"
  shows "ao_Start ` set (r_Ops (SetAsyncOperation x r)) \<union> ao_Start ` set (r_pruned (SetAsyncOperation x r)) =
    insert (ao_Start x) (ao_Start ` set (r_Ops r) \<union> ao_Start ` set (r_pruned r))"
proof -
  have "set_loop x (r_Ops r) = hd (set_loop x (r_Ops r)) # tl (set_loop x (r_Ops r))" by simp
  then have "insert (hd (set_loop x (r_Ops r))) (set (tl (set_loop x (r_Ops r)))) = set (set_loop x (r_Ops r))" by (metis list.simps(15))
  then have "insert (ao_Start (hd (set_loop x (r_Ops r)))) (ao_Start ` set (tl (set_loop x (r_Ops r)))) = insert (ao_Start x) (ao_Start ` set (r_Ops r))"
    unfolding set_loop_keeps [OF assms, symmetric] by (metis image_insert)
  then show ?thesis using set_loop_keeps [OF assms] by (auto simp: SetAsyncOperation_def Let_def)
qed

lemma SetAsyncOperation_ops: "set (r_Ops (SetAsyncOperation x r)) \<subseteq> insert x (set (r_Ops r))"
  using set_loop_subset [of x "r_Ops r"] list.set_sel(2) [of "set_loop x (r_Ops r)"] by (auto simp: SetAsyncOperation_def Let_def)

lemma windows_inv_Set:
  assumes "windows_inv l iv b m r" "ids_identify l" "op_ok l iv b m x"
  shows "windows_inv l iv b m (SetAsyncOperation x r)"
proof -
  have ops: "\<forall>y\<in>set (r_Ops r). op_ok l iv b m y" using assms(1) by (simp add: windows_inv_def)
  have "window_accounted l r iv w \<Longrightarrow> window_accounted l (SetAsyncOperation x r) iv w" for w
    unfolding window_accounted_def using SetAsyncOperation_starts [OF assms(2,3) ops] by blast
  moreover have "\<forall>y\<in>set (r_Ops (SetAsyncOperation x r)). op_ok l iv b m y" using SetAsyncOperation_ops [of x r] ops assms(3) by blast
  ultimately show ?thesis using assms(1) unfolding windows_inv_def by simp
qed

text \<open>Moving the mark by one window that the new operation covers.\<close>

lemma aligned_step: "(iv :: int) dvd w \<Longrightarrow> iv dvd t \<Longrightarrow> 0 < iv \<Longrightarrow> w < t + iv \<Longrightarrow> w \<le> t"
  by (metis add_diff_cancel_left' dvd_diff dvd_imp_le_int less_add_same_cancel1 linorder_not_le zdvd_not_zless diff_gt_0_iff_gt diff_less_eq add.commute)

lemma windows_inv_submit:
  assumes inv: "windows_inv l iv b m r" and "ids_identify l" "0 < iv" and t: "r_LastExec r = Some t" and e: "t + iv = e"
    and x: "op_ok l iv b (max m e) x" "ao_Start x = t"
  shows "windows_inv l iv b (max m e) (SetLastExecutionTime e (SetAsyncOperation x r))"
proof -
  have al: "iv dvd t" "b \<le> t" "t \<le> m" "iv dvd m" using inv t by (auto simp: windows_inv_def)
  have ops: "\<forall>y\<in>set (r_Ops r). op_ok l iv b (max m e) y" using inv op_ok_mono [of l iv b m _ l "max m e"] by (simp add: windows_inv_def)
  have acc: "window_accounted l (SetAsyncOperation x r) iv w" if "iv dvd w" "b \<le> w" "w < max m e" for w
  proof (cases "w < m")
    case True
    then have "window_accounted l r iv w" using inv that by (simp add: windows_inv_def)
    then show ?thesis unfolding window_accounted_def using SetAsyncOperation_starts [OF assms(2) x(1) ops] by blast
  next
    case False
    then have "w = t" using aligned_step [of iv w t] that al e \<open>0 < iv\<close> by (simp add: less_max_iff_disj)
    then show ?thesis unfolding window_accounted_def using SetAsyncOperation_starts [OF assms(2) x(1) ops] x(2) by blast
  qed
  have "\<forall>y\<in>set (r_Ops (SetAsyncOperation x r)). op_ok l iv b (max m e) y" using SetAsyncOperation_ops [of x r] ops x(1) by blast
  moreover have "iv dvd max m e" "iv dvd e" using al e by (auto simp: max_def)
  ultimately show ?thesis using inv acc al \<open>0 < iv\<close> e unfolding windows_inv_def
    by (auto simp: SetLastExecutionTime_def window_accounted_def)
qed

definition fresh_op :: "duration \<Rightarrow> gotime \<Rightarrow> gotime \<Rightarrow> AsyncOperation \<Rightarrow> bool" where
  "fresh_op iv t M x \<longleftrightarrow> ao_Id x = [] \<and> iv dvd ao_Start x \<and> t \<le> ao_Start x \<and> ao_Start x + iv \<le> M \<and> ao_End x = ao_Start x + iv - OneTick"

text \<open>The windows that are generated, with the known ones, leave no gap up to a mark of their own.\<close>

lemma new_windows_cover:
  "0 < iv \<Longrightarrow> iv dvd t \<Longrightarrow> \<exists>M\<ge>t. iv dvd M \<and>
     (\<forall>x\<in>set (new_windows iv now known t). fresh_op iv t M x) \<and>
     (\<forall>w. iv dvd w \<and> t \<le> w \<and> w < M \<longrightarrow> w \<in> set known \<union> ao_Start ` set (new_windows iv now known t))"
proof (induction iv now known t rule: new_windows.induct)
  case (1 iv now known t)
  show ?case
  proof (cases "t + iv \<ge> now")
    case True
    then show ?thesis using 1(4) by (intro exI [of _ t]) (auto simp: new_windows.simps)
  next
    case False
    let ?known = "if t \<in> set known then known else t # known"
    have eq: "new_windows iv now known t =
        (if t \<in> set known then [] else [\<lparr>ao_Id = [], ao_Start = t, ao_End = t + iv - OneTick\<rparr>]) @ new_windows iv now ?known (t + iv)"
      using 1(3) False by (subst new_windows.simps) simp
    have "\<exists>M\<ge>t + iv. iv dvd M \<and>
        (\<forall>x\<in>set (new_windows iv now ?known (t + iv)). fresh_op iv (t + iv) M x) \<and>
        (\<forall>w. iv dvd w \<and> t + iv \<le> w \<and> w < M \<longrightarrow> w \<in> set ?known \<union> ao_Start ` set (new_windows iv now ?known (t + iv)))"
      using 1 False by (cases "t \<in> set known") simp_all
    then obtain M where M: "t + iv \<le> M" "iv dvd M"
      "\<forall>x\<in>set (new_windows iv now ?known (t + iv)). fresh_op iv (t + iv) M x"
      "\<forall>w. iv dvd w \<and> t + iv \<le> w \<and> w < M \<longrightarrow> w \<in> set ?known \<union> ao_Start ` set (new_windows iv now ?known (t + iv))"
      by blast
    have "w \<in> set known \<union> ao_Start ` set (new_windows iv now known t)" if "iv dvd w" "t \<le> w" "w < M" for w
    proof (cases "t + iv \<le> w")
      case True
      then show ?thesis using that M(4) unfolding eq by (auto split: if_splits)
    next
      case False
      then have "w = t" using aligned_step [of iv w t] that 1(3,4) by simp
      then show ?thesis unfolding eq by simp
    qed
    moreover have "\<forall>x\<in>set (new_windows iv now known t). fresh_op iv t M x"
    proof
      fix x assume "x \<in> set (new_windows iv now known t)"
      then consider "x = \<lparr>ao_Id = [], ao_Start = t, ao_End = t + iv - OneTick\<rparr>" | "fresh_op iv (t + iv) M x"
        unfolding eq using M(3) by (auto split: if_splits)
      then show "fresh_op iv t M x" using M(1) 1(3,4) by cases (auto simp: fresh_op_def)
    qed
    ultimately show ?thesis using M(1,2) 1(3) by (intro exI [of _ M]) simp
  qed
qed

text \<open>Whatever the limit of 200 drops is remembered.\<close>

lemma Backfill_ops:
  assumes "r_LastExec r = Some t" "t \<noteq> 0"
  shows "set (r_Ops (BackfillAsyncOperations now r)) \<union> set (r_pruned (BackfillAsyncOperations now r)) =
      set (r_Ops r) \<union> set (new_windows (r_Interval r) (now - delay_of r) (map ao_Start (r_Ops r)) t) \<union> set (r_pruned r)"
    and "set (r_Ops (BackfillAsyncOperations now r)) \<subseteq> set (r_Ops r) \<union> set (new_windows (r_Interval r) (now - delay_of r) (map ao_Start (r_Ops r)) t)"
    and "r_LastExec (BackfillAsyncOperations now r) = r_LastExec r" "r_Interval (BackfillAsyncOperations now r) = r_Interval r"
proof -
  define all where "all = r_Ops r @ new_windows (r_Interval r) (now - delay_of r) (map ao_Start (r_Ops r)) t"
  define cut where "cut = (if length all > 200 then (take (length all - 200) (sort_key ao_Start all), drop (length all - 200) (sort_key ao_Start all)) else ([], all))"
  have cut: "set (fst cut) \<union> set (snd cut) = set all"
    unfolding cut_def by (simp add: set_append [symmetric] del: set_append)
  have "r_Ops (BackfillAsyncOperations now r) = snd cut" "r_pruned (BackfillAsyncOperations now r) = r_pruned r @ fst cut"
    and rest: "r_LastExec (BackfillAsyncOperations now r) = r_LastExec r" "r_Interval (BackfillAsyncOperations now r) = r_Interval r"
    using assms by (simp_all add: BackfillAsyncOperations_def Let_def all_def cut_def)
  then show "set (r_Ops (BackfillAsyncOperations now r)) \<union> set (r_pruned (BackfillAsyncOperations now r)) =
      set (r_Ops r) \<union> set (new_windows (r_Interval r) (now - delay_of r) (map ao_Start (r_Ops r)) t) \<union> set (r_pruned r)"
    and "set (r_Ops (BackfillAsyncOperations now r)) \<subseteq> set (r_Ops r) \<union> set (new_windows (r_Interval r) (now - delay_of r) (map ao_Start (r_Ops r)) t)"
    using cut by (auto simp: all_def)
  show "r_LastExec (BackfillAsyncOperations now r) = r_LastExec r" "r_Interval (BackfillAsyncOperations now r) = r_Interval r" by (fact rest)+
qed

lemma windows_inv_Backfill:
  assumes inv: "windows_inv l iv b m r" and "0 < iv"
  shows "\<exists>m'\<ge>m. windows_inv l iv b m' (BackfillAsyncOperations now r)"
proof -
  from inv obtain t where t: "r_LastExec r = Some t" "iv dvd t" "b \<le> t" "t \<le> m" and iv: "r_Interval r = iv" and m: "iv dvd m" by (auto simp: windows_inv_def)
  show ?thesis
  proof (cases "t = 0")
    case True
    then have "BackfillAsyncOperations now r = r" using t by (simp add: BackfillAsyncOperations_def)
    then show ?thesis using inv by (intro exI [of _ m]) simp
  next
    case False
    let ?new = "new_windows iv (now - delay_of r) (map ao_Start (r_Ops r)) t" and ?r = "BackfillAsyncOperations now r"
    note B = Backfill_ops [OF t(1) False, of now, unfolded iv]
    obtain M where M: "t \<le> M" "iv dvd M"
      "\<forall>x\<in>set ?new. fresh_op iv t M x"
      "\<forall>w. iv dvd w \<and> t \<le> w \<and> w < M \<longrightarrow> w \<in> set (map ao_Start (r_Ops r)) \<union> ao_Start ` set ?new"
      using new_windows_cover [OF \<open>0 < iv\<close> t(2), of "now - delay_of r" "map ao_Start (r_Ops r)"] by (elim exE conjE) (rule that)
    have starts: "ao_Start ` set (r_Ops ?r) \<union> ao_Start ` set (r_pruned ?r) = ao_Start ` set (r_Ops r) \<union> ao_Start ` set ?new \<union> ao_Start ` set (r_pruned r)"
      using B(1) by (metis image_Un)
    have "window_accounted l ?r iv w" if w: "iv dvd w" "b \<le> w" "w < max m M" for w
    proof (cases "w < m")
      case True
      then have "window_accounted l r iv w" using inv w by (simp add: windows_inv_def)
      then show ?thesis unfolding window_accounted_def using starts by blast
    next
      case False
      then have "t \<le> w" "w < M" using w t by (auto simp: less_max_iff_disj)
      then have "w \<in> ao_Start ` set (r_Ops r) \<union> ao_Start ` set ?new" using M(4) w by simp
      then show ?thesis unfolding window_accounted_def using starts by blast
    qed
    moreover have "op_ok l iv b (max m M) x" if "x \<in> set (r_Ops r) \<union> set ?new" for x
    proof (cases "x \<in> set ?new")
      case True
      then have "fresh_op iv t M x" using M(3) by blast
      then show ?thesis using t(3) by (simp add: op_ok_def fresh_op_def le_max_iff_disj)
    next
      case False
      then show ?thesis using that inv op_ok_mono [of l iv b m x l "max m M"] by (simp add: windows_inv_def)
    qed
    then have "\<forall>x\<in>set (r_Ops ?r). op_ok l iv b (max m M) x" using B(2) by blast
    moreover have "iv dvd max m M" using m M(2) by (simp add: max_def)
    ultimately have "windows_inv l iv b (max m M) ?r" unfolding windows_inv_def using B(3,4) iv t by auto
    then show ?thesis by (intro exI [of _ "max m M"]) simp
  qed
qed

subsection \<open>The calls\<close>

lemma call_log_submit:
  assumes "SubmitRule (call_log k) (s, l) a b = (res, z)" obtains s' where "z = (s', l @ [RSubmit a b res])"
  using assms by (auto simp: call_log_def split: prod.splits)

lemma call_log_poll:
  assumes "getOperation (call_log k) (s, l) i = (res, z)" obtains s' where "z = (s', l @ [RPoll i res])"
  using assms by (auto simp: call_log_def split: prod.splits)

lemma windows_inv_advance:
  assumes "windows_inv l iv b m r" "iv dvd e" "b \<le> e" "e \<le> m"
  shows "windows_inv l iv b m (SetLastExecutionTime e r)"
  using assms by (simp add: windows_inv_def SetLastExecutionTime_def window_accounted_def)

lemma windows_inv_backlog:
  assumes inv: "windows_inv l iv b m r" and x: "op_ok l iv b m x" and run: "processBacklogOperation (call_log k) x r (s, l) = (r', s', l')"
  shows "set l \<subseteq> set l'" and "ids_identify l' \<Longrightarrow> 0 < iv \<Longrightarrow> windows_inv l' iv b m r'"
proof -
  obtain res z where sub: "SubmitRule (call_log k) (s, l) (ao_Start x) (ao_End x) = (res, z)" by (rule prod.exhaust)
  then obtain s1 where z: "z = (s1, l @ [RSubmit (ao_Start x) (ao_End x) res])" by (rule call_log_submit)
  have l': "l' = l @ [RSubmit (ao_Start x) (ao_End x) res]" using run sub z by (auto simp: processBacklogOperation_def Let_def split: option.splits)
  then show sl: "set l \<subseteq> set l'" by auto
  assume ids: "ids_identify l'" and "0 < iv"
  show "windows_inv l' iv b m r'"
  proof (cases res)
    case None
    then show ?thesis using run sub z windows_inv_log [OF inv sl] by (simp add: processBacklogOperation_def)
  next
    case (Some i)
    define r1 where "r1 = (if ao_End x + OneTick > (case r_LastExec r of None \<Rightarrow> 0 | Some t \<Rightarrow> t) then SetLastExecutionTime (ao_End x + OneTick) r else r)"
    have "windows_inv l' iv b m r1"
      using windows_inv_log [OF inv sl] windows_inv_advance [of l' iv b m r "ao_End x + OneTick"] x \<open>0 < iv\<close> by (simp add: r1_def op_ok_def)
    moreover have "op_ok l' iv b m (x\<lparr>ao_Id := i\<rparr>)" using x l' Some by (simp add: op_ok_def)
    ultimately have "windows_inv l' iv b m (SetAsyncOperation (x\<lparr>ao_Id := i\<rparr>) r1)" using ids by (intro windows_inv_Set)
    then show ?thesis using run sub z Some by (simp add: processBacklogOperation_def Let_def r1_def)
  qed
qed

text \<open>Removing an identifier loses at most the window it stands for.\<close>

lemma remove_loop_subset: "set (remove_loop i ops) \<subseteq> set ops"
  by (induction ops) auto

lemma remove_loop_starts:
  "\<forall>y\<in>set ops. ao_Id y = i \<longrightarrow> ao_Start y = w \<Longrightarrow> ao_Start ` set ops \<subseteq> insert w (ao_Start ` set (remove_loop i ops))"
  by (induction ops) auto

lemma Remove_fields [simp]:
  "r_Ops (RemoveAsyncOperation i r) = remove_loop i (r_Ops r)" "r_pruned (RemoveAsyncOperation i r) = r_pruned r"
  "r_LastExec (RemoveAsyncOperation i r) = r_LastExec r" "r_Interval (RemoveAsyncOperation i r) = r_Interval r"
  by (simp_all add: RemoveAsyncOperation_def Let_def)

lemma same_window:
  assumes "windows_inv l iv b m r" "ids_identify l" "op_ok l iv b m x" "ao_Id x \<noteq> []"
  shows "\<forall>y\<in>set (r_Ops r). ao_Id y = ao_Id x \<longrightarrow> ao_Start y = ao_Start x"
proof (intro ballI impI)
  fix y assume "y \<in> set (r_Ops r)" and i: "ao_Id y = ao_Id x"
  then have "op_ok l iv b m y" using assms(1) by (simp add: windows_inv_def)
  then have "RSubmit (ao_Start y) (ao_End y) (Some (ao_Id x)) \<in> set l" using i assms(4) by (auto simp: op_ok_def)
  moreover have "RSubmit (ao_Start x) (ao_End x) (Some (ao_Id x)) \<in> set l" using assms(3,4) by (auto simp: op_ok_def)
  ultimately show "ao_Start y = ao_Start x" using assms(2,4) unfolding ids_identify_def by blast
qed

lemma windows_inv_retry:
  assumes inv: "windows_inv l iv b m r" and x: "op_ok l iv b m x" "ao_Id x \<noteq> []" and run: "handleRetryOperation (call_log k) x r (s, l) = (r', s', l')"
  shows "set l \<subseteq> set l'" and "ids_identify l' \<Longrightarrow> windows_inv l' iv b m r'"
proof -
  obtain res z where sub: "SubmitRule (call_log k) (s, l) (ao_Start x) (ao_End x) = (res, z)" by (rule prod.exhaust)
  then obtain s1 where z: "z = (s1, l @ [RSubmit (ao_Start x) (ao_End x) res])" by (rule call_log_submit)
  define i where "i = (case res of None \<Rightarrow> [] | Some i \<Rightarrow> i)"
  have eqs: "l' = l @ [RSubmit (ao_Start x) (ao_End x) res]"
    "r' = (if i = ao_Id x then r else SetAsyncOperation (x\<lparr>ao_Id := i\<rparr>) (RemoveAsyncOperation (ao_Id x) r))"
    using run sub z by (auto simp: handleRetryOperation_def Let_def i_def split: if_splits)
  then show sl: "set l \<subseteq> set l'" by auto
  assume ids: "ids_identify l'"
  have inv': "windows_inv l' iv b m r" and x': "op_ok l' iv b m x" using windows_inv_log [OF inv sl] op_ok_mono [OF x(1) sl] by simp_all
  show "windows_inv l' iv b m r'"
  proof (cases "i = ao_Id x")
    case True
    then show ?thesis using inv' eqs by simp
  next
    case False
    let ?r = "RemoveAsyncOperation (ao_Id x) r" and ?x = "x\<lparr>ao_Id := i\<rparr>"
    have okx: "op_ok l' iv b m ?x" using x' eqs(1) by (auto simp: op_ok_def i_def split: option.splits)
    have ops: "\<forall>y\<in>set (r_Ops r). op_ok l' iv b m y" using inv' by (simp add: windows_inv_def)
    then have ops': "\<forall>y\<in>set (r_Ops ?r). op_ok l' iv b m y" using remove_loop_subset by fastforce
    have "ao_Start ` set (r_Ops r) \<subseteq> insert (ao_Start x) (ao_Start ` set (r_Ops ?r))"
      using remove_loop_starts [OF same_window [OF inv' ids x' x(2)]] by simp
    then have "window_accounted l' r iv w \<Longrightarrow> window_accounted l' (SetAsyncOperation ?x ?r) iv w" for w
      unfolding window_accounted_def using SetAsyncOperation_starts [OF ids okx ops'] by auto
    moreover have "\<forall>y\<in>set (r_Ops (SetAsyncOperation ?x ?r)). op_ok l' iv b m y" using SetAsyncOperation_ops [of ?x ?r] ops' okx by blast
    ultimately show ?thesis using inv' eqs(2) False unfolding windows_inv_def by simp
  qed
qed

lemma handleCompleted_fields:
  "r_Ops (handleCompletedOperation now st r) = remove_loop (os_Id st) (r_Ops r)" "r_pruned (handleCompletedOperation now st r) = r_pruned r"
  "r_LastExec (handleCompletedOperation now st r) = r_LastExec r" "r_Interval (handleCompletedOperation now st r) = r_Interval r"
  by (simp_all add: handleCompletedOperation_def update_owner_def)

lemma windows_inv_completed:
  assumes inv: "windows_inv l iv b m r" and ids: "ids_identify l" "polls_echo l" and x: "op_ok l iv b m x" "ao_Id x \<noteq> []"
    and poll: "RPoll (ao_Id x) (Polled st) \<in> set l" "\<not> os_ShouldRetry st" "IsKustoAsyncOperationStateCompleted (os_State st)"
  shows "windows_inv l iv b m (handleCompletedOperation now st r)"
proof -
  have st: "os_Id st = ao_Id x" using ids(2) poll(1) by (simp add: polls_echo_def)
  have fin: "window_finished l iv (ao_Start x)" unfolding window_finished_def
    using x poll by (intro exI [of _ "ao_Id x"] exI [of _ st]) (auto simp: op_ok_def)
  have "w \<in> ao_Start ` set (r_Ops r) \<Longrightarrow> w = ao_Start x \<or> w \<in> ao_Start ` set (remove_loop (ao_Id x) (r_Ops r))" for w
    using subsetD [OF remove_loop_starts [OF same_window [OF inv ids(1) x]]] by blast
  then have "window_accounted l r iv w \<Longrightarrow> window_accounted l (handleCompletedOperation now st r) iv w" for w
    unfolding window_accounted_def handleCompleted_fields st using fin by metis
  moreover have "\<forall>y\<in>set (r_Ops r). op_ok l iv b m y" using inv by (simp add: windows_inv_def)
  then have "\<forall>y\<in>set (remove_loop (ao_Id x) (r_Ops r)). op_ok l iv b m y" using remove_loop_subset [of "ao_Id x" "r_Ops r"] by blast
  ultimately show ?thesis using inv unfolding windows_inv_def handleCompleted_fields st by simp
qed

text \<open>The log only grows.\<close>

lemma submit_log: "SubmitRule (call_log k) (s, l) a b = (res, s', l') \<Longrightarrow> set l \<subseteq> set l'"
  by (auto simp: call_log_def split: prod.splits)

lemma poll_log: "getOperation (call_log k) (s, l) i = (res, s', l') \<Longrightarrow> set l \<subseteq> set l'"
  by (auto simp: call_log_def split: prod.splits)

lemma backlog_log: "processBacklogOperation (call_log k) x r (s, l) = (r', s', l') \<Longrightarrow> set l \<subseteq> set l'"
  by (auto simp: processBacklogOperation_def Let_def dest!: submit_log split: prod.splits option.splits)

lemma resubmit_log: "handleRetryOperation (call_log k) x r (s, l) = (r', s', l') \<Longrightarrow> set l \<subseteq> set l'"
  by (auto simp: handleRetryOperation_def Let_def dest!: submit_log split: prod.splits if_splits)

lemma track_loop_log: "track_loop (call_log k) now xs r (s, l) = (r', s', l') \<Longrightarrow> set l \<subseteq> set l'"
proof (induction xs arbitrary: r s l)
  case (Cons x xs)
  show ?case
  proof (cases "ao_Id x = []")
    case True
    obtain r1 s1 l1 where run: "processBacklogOperation (call_log k) x r (s, l) = (r1, s1, l1)" by (rule prod_cases3)
    then show ?thesis using Cons.IH [of r1 s1 l1] Cons.prems True backlog_log [OF run] by auto
  next
    case False
    obtain res s1 l1 where poll: "getOperation (call_log k) (s, l) (ao_Id x) = (res, s1, l1)" by (rule prod_cases3)
    show ?thesis
    proof (cases "\<exists>st. res = Polled st \<and> os_ShouldRetry st")
      case True
      then obtain st where st: "res = Polled st" "os_ShouldRetry st" by blast
      obtain r2 s2 l2 where run: "handleRetryOperation (call_log k) x r (s1, l1) = (r2, s2, l2)" by (rule prod_cases3)
      then show ?thesis using Cons.IH [of r2 s2 l2] Cons.prems False st poll poll_log [OF poll] resubmit_log [OF run] by auto
    next
      case no: False
      then obtain r2 where "track_loop (call_log k) now xs r2 (s1, l1) = (r', s', l')"
        using Cons.prems False poll by (cases res) (auto split: if_splits)
      then show ?thesis using Cons.IH poll_log [OF poll] by blast
    qed
  qed
qed simp

lemma execution_log: "handleRuleExecution (call_log k) now r (s, l) = (err, r', s', l') \<Longrightarrow> set l \<subseteq> set l'"
  by (auto simp: handleRuleExecution_def Let_def dest!: submit_log split: prod.splits if_splits)

lemma run_rule_log: "run_rule (call_log k) now r (s, l) = (r', s', l') \<Longrightarrow> set l \<subseteq> set l'"
  unfolding run_rule_def trackAsyncOperations_def
  by (fastforce dest: execution_log track_loop_log split: prod.splits)

lemma run_cycles_log: "run_cycles (call_log k) cs r (s, l) = (r', s', l') \<Longrightarrow> set l \<subseteq> set l'"
proof (induction cs arbitrary: r s l)
  case (Cons c cs)
  obtain r1 s1 l1 where run: "run_rule (call_log k) (c_now c) (edit_rule c r) (s, l) = (r1, s1, l1)" by (rule prod_cases3)
  then show ?case using Cons.IH [of _ s1 l1] Cons.prems run_rule_log [OF run] by auto
qed simp

subsection \<open>The loop, the cycle and the theorem\<close>

lemma track_loop_inv:
  assumes "track_loop (call_log k) now xs r (s, l) = (r', s', l')" "windows_inv l iv b m r" "\<forall>x\<in>set xs. op_ok l iv b m x" "0 < iv"
    "ids_identify l'" "polls_echo l'"
  shows "set l \<subseteq> set l' \<and> windows_inv l' iv b m r'"
  using assms
proof (induction xs arbitrary: r s l)
  case (Cons x xs)
  note ids = Cons.prems(5) and echo = Cons.prems(6) and pos = Cons.prems(4)
  have x: "op_ok l iv b m x" using Cons.prems(3) by simp
  have step: "set l \<subseteq> set l' \<and> windows_inv l' iv b m r'"
    if "track_loop (call_log k) now xs r1 (s1, l1) = (r', s', l')" "set l \<subseteq> set l1" "set l1 \<subseteq> set l' \<Longrightarrow> windows_inv l1 iv b m r1" for r1 s1 l1
  proof -
    have sub: "set l1 \<subseteq> set l'" by (rule track_loop_log [OF that(1)])
    have "\<forall>y\<in>set xs. op_ok l1 iv b m y" using Cons.prems(3) op_ok_mono [OF _ that(2) order_refl] by auto
    then have "set l1 \<subseteq> set l' \<and> windows_inv l' iv b m r'" using Cons.IH [OF that(1) that(3) [OF sub]] pos ids echo by blast
    then show ?thesis using that(2) by blast
  qed
  show ?case
  proof (cases "ao_Id x = []")
    case True
    obtain r1 s1 l1 where run: "processBacklogOperation (call_log k) x r (s, l) = (r1, s1, l1)" by (rule prod_cases3)
    have "windows_inv l1 iv b m r1" if "set l1 \<subseteq> set l'"
      using windows_inv_backlog(2) [OF Cons.prems(2) x run ids_identify_mono [OF ids that] pos] .
    then show ?thesis using step [of r1 s1 l1] windows_inv_backlog(1) [OF Cons.prems(2) x run] Cons.prems(1) True run by simp
  next
    case False
    obtain res z where poll: "getOperation (call_log k) (s, l) (ao_Id x) = (res, z)" by (rule prod.exhaust)
    then obtain s1 where z: "z = (s1, l @ [RPoll (ao_Id x) res])" by (rule call_log_poll)
    define l1 where "l1 = l @ [RPoll (ao_Id x) res]"
    have sl: "set l \<subseteq> set l1" by (auto simp: l1_def)
    have inv1: "windows_inv l1 iv b m r" and x1: "op_ok l1 iv b m x" using windows_inv_log [OF Cons.prems(2) sl] op_ok_mono [OF x sl] by simp_all
    show ?thesis
    proof (cases "\<exists>st. res = Polled st \<and> (os_ShouldRetry st \<or> IsKustoAsyncOperationStateCompleted (os_State st))")
      case no: False
      then have "track_loop (call_log k) now xs r (s1, l1) = (r', s', l')"
        using Cons.prems(1) False poll z by (cases res) (auto simp: l1_def)
      then show ?thesis using step sl inv1 by blast
    next
      case yes: True
      then obtain st where st: "res = Polled st" "os_ShouldRetry st \<or> IsKustoAsyncOperationStateCompleted (os_State st)" by blast
      show ?thesis
      proof (cases "os_ShouldRetry st")
        case True
        obtain r2 s2 l2 where run: "handleRetryOperation (call_log k) x r (s1, l1) = (r2, s2, l2)" by (rule prod_cases3)
        have "set l \<subseteq> set l2" using windows_inv_retry(1) [OF inv1 x1 False run] sl by blast
        moreover have "windows_inv l2 iv b m r2" if "set l2 \<subseteq> set l'"
          using windows_inv_retry(2) [OF inv1 x1 False run ids_identify_mono [OF ids that]] .
        ultimately show ?thesis using step [of r2 s2 l2] Cons.prems(1) False poll z st True run by (simp add: l1_def)
      next
        case fin: False
        have "windows_inv l1 iv b m (handleCompletedOperation now st r)" if "set l1 \<subseteq> set l'"
          using windows_inv_completed [OF inv1 ids_identify_mono [OF ids that] polls_echo_mono [OF echo that] x1 False, of st] fin st by (simp add: l1_def)
        then show ?thesis using step [of "handleCompletedOperation now st r" s1 l1] sl Cons.prems(1) False poll z st fin by (simp add: l1_def)
      qed
    qed
  qed
qed simp

lemma windows_inv_execution:
  assumes inv: "windows_inv l iv b m r" and run: "handleRuleExecution (call_log k) now r (s, l) = (err, r', s', l')" and "0 < iv"
  shows "set l \<subseteq> set l'" and "ids_identify l' \<Longrightarrow> \<exists>m'\<ge>m. windows_inv l' iv b m' r'"
proof -
  from inv obtain t where t: "r_LastExec r = Some t" "iv dvd t" "b \<le> t" and iv: "r_Interval r = iv" by (auto simp: windows_inv_def)
  have win: "NextExecutionWindow now r = (t, t + iv)" using t iv by (simp add: NextExecutionWindow_def Truncate_def Let_def dvd_imp_mod_0)
  obtain res z where sub: "SubmitRule (call_log k) (s, l) t (t + iv - OneTick) = (res, z)" by (rule prod.exhaust)
  then obtain s1 where z: "z = (s1, l @ [RSubmit t (t + iv - OneTick) res])" by (rule call_log_submit)
  define x where "x = \<lparr>ao_Id = (case res of None \<Rightarrow> [] | Some i \<Rightarrow> i), ao_Start = t, ao_End = t + iv - OneTick\<rparr>"
  have eqs: "if ShouldSubmitRule now r then l' = l @ [RSubmit t (t + iv - OneTick) res] \<and> r' = SetLastExecutionTime (t + iv) (SetAsyncOperation x r)
      else l' = l \<and> r' = r"
    using run win sub z by (auto simp: handleRuleExecution_def x_def)
  then show sl: "set l \<subseteq> set l'" by (auto split: if_splits)
  assume ids: "ids_identify l'"
  show "\<exists>m'\<ge>m. windows_inv l' iv b m' r'"
  proof (cases "ShouldSubmitRule now r")
    case True
    then have "op_ok l' iv b (max m (t + iv)) x" using eqs t by (auto simp: op_ok_def x_def split: option.splits)
    then have "windows_inv l' iv b (max m (t + iv)) r'"
      using windows_inv_submit [OF windows_inv_log [OF inv sl] ids \<open>0 < iv\<close> t(1)] eqs True by (simp add: x_def)
    then show ?thesis by (intro exI [of _ "max m (t + iv)"]) simp
  qed (use inv eqs in auto)
qed

lemma update_owner_fields [simp]:
  "r_Ops (update_owner now ok r) = r_Ops r" "r_pruned (update_owner now ok r) = r_pruned r"
  "r_LastExec (update_owner now ok r) = r_LastExec r" "r_Interval (update_owner now ok r) = r_Interval r"
  by (simp_all add: update_owner_def)

lemma edit_rule_fields [simp]:
  "r_Ops (edit_rule c r) = r_Ops r" "r_pruned (edit_rule c r) = r_pruned r" "r_LastExec (edit_rule c r) = r_LastExec r" "r_Interval (edit_rule c r) = r_Interval r"
  by (simp_all add: edit_rule_def)

lemma windows_inv_fields:
  assumes "r_Ops r' = r_Ops r" "r_pruned r' = r_pruned r" "r_LastExec r' = r_LastExec r" "r_Interval r' = r_Interval r"
  shows "windows_inv l iv b m r' = windows_inv l iv b m r"
  by (simp add: windows_inv_def window_accounted_def assms)

lemma run_rule_inv:
  assumes inv: "windows_inv l iv b m r" and run: "run_rule (call_log k) now r (s, l) = (r', s', l')" and "0 < iv"
  shows "set l \<subseteq> set l'" and "ids_identify l' \<Longrightarrow> polls_echo l' \<Longrightarrow> \<exists>m'. windows_inv l' iv b m' r'"
proof -
  obtain err y where a0: "handleRuleExecution (call_log k) now r (s, l) = (err, y)" by (rule prod.exhaust)
  obtain r1 s1 l1 where a1: "y = (r1, s1, l1)" by (rule prod_cases3)
  have a: "handleRuleExecution (call_log k) now r (s, l) = (err, r1, s1, l1)" using a0 a1 by simp
  define r2 where "r2 = (if err then r1 else BackfillAsyncOperations now r1)"
  obtain r3 s3 l3 where c: "trackAsyncOperations (call_log k) now r2 (s1, l1) = (r3, s3, l3)" by (rule prod_cases3)
  have eqs: "r' = update_owner now (\<not> err) r3" "l' = l3" using run a c by (simp_all add: run_rule_def r2_def)
  have c': "track_loop (call_log k) now (r_Ops r2) r2 (s1, l1) = (r3, s3, l')" using c eqs by (simp add: trackAsyncOperations_def)
  have sub: "set l1 \<subseteq> set l'" by (rule track_loop_log [OF c'])
  then show "set l \<subseteq> set l'" using windows_inv_execution(1) [OF inv a \<open>0 < iv\<close>] by blast
  assume ids: "ids_identify l'" "polls_echo l'"
  obtain m1 where m1: "windows_inv l1 iv b m1 r1" using windows_inv_execution(2) [OF inv a \<open>0 < iv\<close> ids_identify_mono [OF ids(1) sub]] by blast
  then obtain m2 where m2: "windows_inv l1 iv b m2 r2" using windows_inv_Backfill [OF m1 \<open>0 < iv\<close>, of now] by (cases err) (auto simp: r2_def)
  then have "\<forall>x\<in>set (r_Ops r2). op_ok l1 iv b m2 x" by (simp add: windows_inv_def)
  then have "windows_inv l' iv b m2 r3" using track_loop_inv [OF c' m2 _ \<open>0 < iv\<close> ids] by blast
  moreover have "windows_inv l' iv b m2 r' = windows_inv l' iv b m2 r3" unfolding eqs by (rule windows_inv_fields) simp_all
  ultimately show "\<exists>m'. windows_inv l' iv b m' r'" by blast
qed

lemma run_cycles_inv:
  assumes "run_cycles (call_log k) cs r (s, l) = (r', s', l')" "windows_inv l iv b m r" "0 < iv" "ids_identify l'" "polls_echo l'"
  shows "\<exists>m'. windows_inv l' iv b m' r'"
  using assms
proof (induction cs arbitrary: r s l m)
  case (Cons c cs)
  obtain r1 s1 l1 where run: "run_rule (call_log k) (c_now c) (edit_rule c r) (s, l) = (r1, s1, l1)" by (rule prod_cases3)
  have inv: "windows_inv l iv b m (edit_rule c r)" using Cons.prems(2) windows_inv_fields [of "edit_rule c r" r l iv b m] by simp
  have rest: "run_cycles (call_log k) cs (if c_stored c then r1 else r) (s1, l1) = (r', s', l')" using Cons.prems(1) run by simp
  have sub: "set l1 \<subseteq> set l'" by (rule run_cycles_log [OF rest])
  obtain m1 where "windows_inv l1 iv b m1 r1"
    using run_rule_inv(2) [OF inv run Cons.prems(3) ids_identify_mono [OF Cons.prems(4) sub] polls_echo_mono [OF Cons.prems(5) sub]] by blast
  moreover have "windows_inv l1 iv b m r" using windows_inv_log [OF Cons.prems(2) run_rule_inv(1) [OF inv run Cons.prems(3)]] .
  ultimately obtain m2 where "windows_inv l1 iv b m2 (if c_stored c then r1 else r)" by (cases "c_stored c") auto
  then show ?case by (rule Cons.IH [OF rest _ Cons.prems(3,4,5)])
qed auto

text \<open>The limit on the tracked operations holds from the first cycle on.\<close>

lemma set_loop_length: "length (set_loop x ops) \<le> Suc (length ops)"
  by (induction ops) auto

lemma remove_loop_length: "length (remove_loop i ops) \<le> length ops"
  by (induction ops) auto

lemma Set_limit: "length (r_Ops r) \<le> 200 \<Longrightarrow> length (r_Ops (SetAsyncOperation x r)) \<le> 200"
  using set_loop_length [of x "r_Ops r"] by (auto simp: SetAsyncOperation_def Let_def)

lemma Remove_limit: "length (r_Ops r) \<le> 200 \<Longrightarrow> length (r_Ops (RemoveAsyncOperation i r)) \<le> 200"
  using remove_loop_length [of i "r_Ops r"] by simp

lemma Backfill_limit: "length (r_Ops r) \<le> 200 \<Longrightarrow> length (r_Ops (BackfillAsyncOperations now r)) \<le> 200"
  by (auto simp: BackfillAsyncOperations_def Let_def split: option.splits)

lemma backlog_limit: "length (r_Ops r) \<le> 200 \<Longrightarrow> processBacklogOperation k x r s = (r', s') \<Longrightarrow> length (r_Ops r') \<le> 200"
  by (auto simp: processBacklogOperation_def SetLastExecutionTime_def Let_def split: prod.splits option.splits if_splits intro!: Set_limit)

lemma retry_limit: "length (r_Ops r) \<le> 200 \<Longrightarrow> handleRetryOperation k x r s = (r', s') \<Longrightarrow> length (r_Ops r') \<le> 200"
  by (auto simp: handleRetryOperation_def Let_def simp del: Remove_fields split: prod.splits if_splits intro!: Set_limit Remove_limit)

lemma completed_limit: "length (r_Ops r) \<le> 200 \<Longrightarrow> length (r_Ops (handleCompletedOperation now st r)) \<le> 200"
  using remove_loop_length [of "os_Id st" "r_Ops r"] by (simp add: handleCompleted_fields)

lemma track_limit: "length (r_Ops r) \<le> 200 \<Longrightarrow> track_loop k now xs r s = (r', s') \<Longrightarrow> length (r_Ops r') \<le> 200"
proof (induction xs arbitrary: r s)
  case (Cons x xs)
  then show ?case
    by (auto split: if_splits prod.splits poll_result.splits dest: backlog_limit [OF Cons.prems(1)] retry_limit [OF Cons.prems(1)] completed_limit)
qed simp

lemma run_rule_limit:
  assumes "length (r_Ops r) \<le> 200" "run_rule k now r s = (r', s')"
  shows "length (r_Ops r') \<le> 200"
proof -
  obtain err r1 s1 where a: "handleRuleExecution k now r s = (err, r1, s1)" by (rule prod_cases3)
  have "length (r_Ops r1) \<le> 200" using a Set_limit [OF assms(1)] assms(1)
    by (auto simp: handleRuleExecution_def SetLastExecutionTime_def split: prod.splits if_splits)
  then have "length (r_Ops (if err then r1 else BackfillAsyncOperations now r1)) \<le> 200" using Backfill_limit by simp
  then show ?thesis using assms(2) a track_limit by (fastforce simp: run_rule_def trackAsyncOperations_def split: prod.splits)
qed

lemma run_cycles_limit: "length (r_Ops r) \<le> 200 \<Longrightarrow> run_cycles k cs r s = (r', s') \<Longrightarrow> length (r_Ops r') \<le> 200"
proof (induction cs arbitrary: r s)
  case (Cons c cs)
  obtain r1 s1 where run: "run_rule k (c_now c) (edit_rule c r) s = (r1, s1)" by (rule prod.exhaust)
  have "length (r_Ops r1) \<le> 200" using run_rule_limit [OF _ run] Cons.prems(1) by simp
  then show ?case using Cons run by (cases "c_stored c") simp_all
qed simp

text \<open>
  C33. A summary rule skips no window. Let a rule with interval \<open>iv\<close> have last run up to a boundary \<open>b\<close>, with nothing tracked. Run any number of cycles, at any
  times, with any edits of the generation, the delay and the deletion mark, whatever Kusto answers, and whether or not each new status could be stored. Suppose that
  an operation identifier is not given to two windows and that the status of an operation carries the identifier that was asked for. Then the last execution time is
  a boundary at or after \<open>b\<close>, and each window between \<open>b\<close> and it is still tracked, or was dropped by the limit of 200 operations, or was accepted by Kusto and its operation was
  then seen as Completed or Failed and not to be retried. At most 200 operations are tracked, each covers one whole window up to one tick before its end, and each
  identifier is one that Kusto gave for that window.
\<close>

theorem no_window_skipped:
  assumes "0 < iv" "iv dvd b" and r: "r_Interval r = iv" "r_LastExec r = Some b" "r_Ops r = []"
    and run: "run_cycles (call_log k) cs r (s, []) = (r', s', l)" and service: "ids_identify l" "polls_echo l"
  shows "\<exists>t. r_LastExec r' = Some t \<and> iv dvd t \<and> b \<le> t \<and> length (r_Ops r') \<le> 200 \<and>
    (\<forall>w. iv dvd w \<and> b \<le> w \<and> w < t \<longrightarrow>
       w \<in> ao_Start ` set (r_Ops r') \<or> w \<in> ao_Start ` set (r_pruned r') \<or> window_finished l iv w) \<and>
    (\<forall>x\<in>set (r_Ops r'). iv dvd ao_Start x \<and> ao_End x = ao_Start x + iv - OneTick \<and>
       (ao_Id x \<noteq> [] \<longrightarrow> RSubmit (ao_Start x) (ao_End x) (Some (ao_Id x)) \<in> set l))"
proof -
  have "windows_inv [] iv b b r" using assms by (auto simp: windows_inv_def)
  from run_cycles_inv [OF run this \<open>0 < iv\<close> service] obtain m where inv: "windows_inv l iv b m r'" by blast
  then obtain t where t: "r_LastExec r' = Some t" "iv dvd t" "b \<le> t" "t \<le> m" by (auto simp: windows_inv_def)
  have "\<forall>w. iv dvd w \<and> b \<le> w \<and> w < t \<longrightarrow> window_accounted l r' iv w" using inv t(4) by (simp add: windows_inv_def)
  moreover have "length (r_Ops r') \<le> 200" using run_cycles_limit [OF _ run] r by simp
  ultimately show ?thesis using t inv unfolding windows_inv_def window_accounted_def op_ok_def by blast
qed

text \<open>A service that refuses its first call and then accepts and completes everything, and two cycles of a rule that is two windows behind.\<close>

definition demo_kusto :: "nat kusto" where
  "demo_kusto =
     \<lparr>SubmitRule = (\<lambda>n a b. (if n = 0 then None else Some (replicate n CHR ''i''), Suc n)),
      getOperation = (\<lambda>n i. (Polled \<lparr>os_Id = i, os_State = ''Completed'', os_ShouldRetry = False\<rparr>, n))\<rparr>"

definition demo_rule :: rule where
  "demo_rule = \<lparr>r_Generation = 1, r_Interval = 1000, r_Delay = None, r_Deleted = False,
     r_Owner = Some \<lparr>oc_Generation = 1, oc_Transition = 0, oc_True = True\<rparr>, r_LastExec = Some 3000, r_Ops = [], r_Reason = NoCondition, r_pruned = []\<rparr>"

definition demo_cycles :: "cycle list" where
  "demo_cycles = [\<lparr>c_now = 5500, c_stored = True, c_Generation = 1, c_Delay = None, c_Deleted = False\<rparr>,
     \<lparr>c_now = 5600, c_stored = True, c_Generation = 1, c_Delay = None, c_Deleted = False\<rparr>]"

definition demo_done :: "string \<Rightarrow> rule_call" where
  "demo_done i = RPoll i (Polled \<lparr>os_Id = i, os_State = ''Completed'', os_ShouldRetry = False\<rparr>)"

definition demo_log :: "rule_call list" where
  "demo_log = [RSubmit 3000 3900 None, RSubmit 3000 3900 (Some ''i''), RSubmit 4000 4900 (Some ''ii''), demo_done ''i'', demo_done ''ii'']"

lemma demo_rule_run:
  "run_cycles (call_log demo_kusto) demo_cycles demo_rule (0, []) =
     (demo_rule\<lparr>r_Owner := Some \<lparr>oc_Generation = 1, oc_Transition = 5600, oc_True = True\<rparr>, r_LastExec := Some 5000, r_Reason := OpsComplete\<rparr>, 3, demo_log)"
  by code_simp

lemma demo_log_service: "ids_identify demo_log" "polls_echo demo_log"
  by (auto simp: ids_identify_def polls_echo_def demo_log_def demo_done_def)

theorem no_window_skipped_witness:
  "case run_cycles (call_log demo_kusto) demo_cycles demo_rule (0, []) of (r', s', l) \<Rightarrow>
     r_LastExec r' = Some 5000 \<and> r_Ops r' = [] \<and> window_finished l 1000 3000 \<and> window_finished l 1000 4000"
proof -
  have "(0 :: int) < 1000" "(1000 :: int) dvd 3000" "r_Interval demo_rule = 1000" "r_LastExec demo_rule = Some 3000" "r_Ops demo_rule = []" "r_pruned demo_rule = []"
    by (simp_all add: demo_rule_def)
  note h = this
  have "(1000 :: int) dvd 4000" by simp
  with no_window_skipped [OF h(1-5) demo_rule_run demo_log_service] have "window_finished demo_log 1000 3000 \<and> window_finished demo_log 1000 4000"
    using h by auto
  then show ?thesis by (simp add: demo_rule_run h)
qed

subsection \<open>Windows that are still open\<close>

text \<open>
  A rule that was neither edited nor marked for deletion runs a window only after its end, counted with the delay. An edit makes the rule run its next window at
  once, although the window has not ended; the last execution time moves behind it, so that data of the rest of the window is not summarised.
\<close>

lemma unedited_rule_runs_closed_window:
  assumes "r_Owner r = Some c" "oc_Generation c = r_Generation r" "\<not> r_Deleted r" "r_LastExec r = Some t" "0 < r_Interval r" "r_Interval r < 2 ^ 63"
    "ShouldSubmitRule now r"
  shows "t + r_Interval r \<le> now - delay_of r" "snd (NextExecutionWindow now r) \<le> now - delay_of r"
proof -
  have "time_Sub (now - delay_of r) t \<ge> r_Interval r" using assms by (simp add: ShouldSubmitRule_def)
  then show a: "t + r_Interval r \<le> now - delay_of r" using assms(5,6) unfolding time_Sub_def by linarith
  have "Truncate t (r_Interval r) \<le> t" using assms(5) by (simp add: Truncate_def)
  then show "snd (NextExecutionWindow now r) \<le> now - delay_of r" using a assms(4) by (simp add: NextExecutionWindow_def Let_def)
qed

lemma edited_rule_runs_open_window:
  assumes "r_Owner r = Some c" "oc_Generation c \<noteq> r_Generation r" "r_LastExec r = Some t" "r_Interval r dvd t" "0 < r_Interval r"
    and "SubmitRule k s t (t + r_Interval r - OneTick) = (Some i, s')"
  shows "\<exists>r'. handleRuleExecution k now r s = (False, r', s') \<and> r_LastExec r' = Some (t + r_Interval r)"
  using assms by (simp add: handleRuleExecution_def NextExecutionWindow_def Truncate_def ShouldSubmitRule_def SetLastExecutionTime_def Let_def dvd_imp_mod_0)

subsection \<open>Ownership\<close>

text \<open>Each rule has at most one owner, and a claim transfers it.\<close>

lemma one_owner: "IsOwnedBy ann a \<Longrightarrow> IsOwnedBy ann b \<Longrightarrow> a = b"
  by (auto simp: IsOwnedBy_def Let_def split: option.splits if_splits)

lemma claim_transfers:
  assumes "owner \<in> {OwnerIngestor, OwnerADXExporter}"
  shows "IsOwnedBy (ClaimInMemory owner ann) owner" "\<not> WantsOwner (ClaimInMemory owner ann) owner"
  using assms by (auto simp: IsOwnedBy_def WantsOwner_def ClaimInMemory_def OwnerIngestor_def OwnerADXExporter_def owner_annotation_def desired_owner_annotation_def)

end
