(* ===== verification/Labels.thy ===== *)
theory Labels
  imports Prelude "HOL-Library.List_Lexorder" "HOL-Library.Product_Lexorder" "HOL-Library.Multiset"
begin

unbundle bit_operations_syntax

text \<open>
  Labels of metrics, \<open>pkg/prompb/sort.go\<close>, \<open>merge.go\<close>, \<open>util.go\<close> and \<open>transform/transformer.go\<close>: the order of labels, the merge of the labels of a series with
  those of its request, and the transformation of a request by dropping and adding labels, either in every series or once for the request.

  A compiled regular expression is the predicate it decides. \<open>sort.Sort\<close> is a parameter: it permutes its argument into an order that its \<open>Less\<close> does
  not contradict, and which one it picks among equal elements is not specified. What the labeler of a node adds is a list of labels.
\<close>

section \<open>Labels\<close>

record label =
  lname :: bytes
  lvalue :: bytes

type_synonym regexp = "bytes \<Rightarrow> bool"

definition nameBytes :: bytes where
  "nameBytes = [95, 95, 110, 97, 109, 101, 95, 95]"

definition MetricName :: "label list \<Rightarrow> bytes" where
  "MetricName ls = (case filter (\<lambda>l. lname l = nameBytes) ls of [] \<Rightarrow> [] | l # _ \<Rightarrow> lvalue l)"

section \<open>Order\<close>

definition lower_byte :: "byte \<Rightarrow> byte" where
  "lower_byte b = (if b \<ge> 65 \<and> b \<le> 90 then b + 32 else b)"

fun CompareLower :: "bytes \<Rightarrow> bytes \<Rightarrow> int" where
  "CompareLower (a # as) (b # bs) =
     (let ra = lower_byte a; rb = lower_byte b
      in if ra \<noteq> rb then (if ra < rb then -1 else 1) else CompareLower as bs)"
| "CompareLower as bs = (if length as = length bs then 0 else if length as < length bs then -1 else 1)"

definition labelLess :: "bytes \<Rightarrow> bytes \<Rightarrow> bool" where
  "labelLess a b = (if a = nameBytes then True else if b = nameBytes then False else CompareLower a b < 0)"

fun IsSorted_from :: "label \<Rightarrow> label list \<Rightarrow> bool" where
  "IsSorted_from p [] = True"
| "IsSorted_from p (l # ls) = (labelLess (lname p) (lname l) \<and> IsSorted_from l ls)"

definition IsSorted :: "label list \<Rightarrow> bool" where
  "IsSorted ls = (case ls of [] \<Rightarrow> True | l # ls \<Rightarrow> IsSorted_from l ls)"

text \<open>The order as an order of keys: the metric name first, then by name without case.\<close>

definition rank :: "bytes \<Rightarrow> bool \<times> bytes" where
  "rank n = (if n = nameBytes then (False, []) else (True, map lower_byte n))"

lemma CompareLower_spec:
  "CompareLower a b = (if map lower_byte a = map lower_byte b then 0 else if map lower_byte a < map lower_byte b then -1 else 1)"
proof (induction a arbitrary: b)
  case Nil
  then show ?case by (cases b) simp_all
next
  case (Cons x a)
  then show ?case by (cases b) (auto simp: Let_def)
qed

lemma labelLess_rank: "a \<noteq> nameBytes \<or> b \<noteq> nameBytes \<Longrightarrow> labelLess a b \<longleftrightarrow> rank a < rank b"
  by (auto simp: labelLess_def rank_def CompareLower_spec less_prod_simp)

section \<open>Filters\<close>

record LabelFilter =
  Drop :: "(regexp \<times> regexp) list"
  Keep :: "bytes list"

fun matching_loop :: "bytes \<Rightarrow> nat \<Rightarrow> (regexp \<times> regexp) list \<Rightarrow> 64 word \<Rightarrow> 64 word" where
  "matching_loop metricName i [] m = m"
| "matching_loop metricName i (r # rs) m =
     matching_loop metricName (Suc i) rs (if fst r metricName then m OR push_bit i 1 else m)"

definition matchingDropRules :: "LabelFilter option \<Rightarrow> bytes \<Rightarrow> 64 word \<times> bool" where
  "matchingDropRules f metricName =
     (case f of
        None \<Rightarrow> (0, True)
      | Some f \<Rightarrow> if length (Drop f) > 64 then (0, False) else (matching_loop metricName 0 (Drop f) 0, True))"

definition TrailingZeros64 :: "64 word \<Rightarrow> nat" where
  "TrailingZeros64 m = length (takeWhile (\<lambda>i. \<not> bit m i) [0..<64])"

lemma word_minus_one_less: "(m :: 64 word) \<noteq> 0 \<Longrightarrow> unat (m AND (m - 1)) < unat m"
proof -
  assume "m \<noteq> 0"
  then have "unat (m - 1) < unat m" using unat_gt_0 [of m] by (simp add: unat_minus_one)
  moreover have "m AND (m - 1) \<le> m - 1" by (simp add: word_and_le1)
  ultimately show ?thesis by (simp add: word_le_nat_alt)
qed

function mask_loop :: "(regexp \<times> regexp) list \<Rightarrow> bytes \<Rightarrow> 64 word \<Rightarrow> bool" where
  "mask_loop rules name m =
     (if m = 0 then False
      else if snd (rules ! TrailingZeros64 m) name then True else mask_loop rules name (m AND (m - 1)))"
  by pat_completeness auto
termination
  by (relation "measure (\<lambda>(rules, name, m). unat m)") (auto intro: word_minus_one_less)

declare mask_loop.simps [simp del]

definition dropsWithMask :: "LabelFilter option \<Rightarrow> bytes \<Rightarrow> bytes \<Rightarrow> 64 word \<Rightarrow> bool \<Rightarrow> bool" where
  "dropsWithMask f metricName name dropMask useMask =
     (case f of
        None \<Rightarrow> False
      | Some f \<Rightarrow>
          if name = nameBytes then False
          else if name \<in> set (Keep f) then False
          else if useMask then mask_loop (Drop f) name dropMask
          else list_ex (\<lambda>r. snd r name \<and> fst r metricName) (Drop f))"

definition Drops :: "LabelFilter option \<Rightarrow> bytes \<Rightarrow> bytes \<Rightarrow> bool" where
  "Drops f metricName name = (case matchingDropRules f metricName of (dropMask, useMask) \<Rightarrow> dropsWithMask f metricName name dropMask useMask)"

text \<open>Clearing the lowest bit, word by word.\<close>

lemma TrailingZeros64_bit:
  assumes "m \<noteq> 0"
  shows "TrailingZeros64 m < 64" "bit m (TrailingZeros64 m)" "i < TrailingZeros64 m \<Longrightarrow> \<not> bit m i"
proof -
  obtain j where j: "bit m j" using assms by (auto simp: bit_eq_iff)
  then have "j < 64" by (simp add: bit_word.rep_eq)
  then have ex: "\<exists>x\<in>set [0..<64]. \<not> \<not> bit m x" using j by auto
  then show lt: "TrailingZeros64 m < 64"
    using length_takeWhile_le [of "\<lambda>i. \<not> bit m i" "[0..<64]"] takeWhile_eq_all_conv [of "\<lambda>i. \<not> bit m i" "[0..<64]"]
      takeWhile_eq_take [of "\<lambda>i. \<not> bit m i" "[0..<64]"]
    unfolding TrailingZeros64_def by (metis diff_zero le_neq_implies_less length_upt take_all)
  show "bit m (TrailingZeros64 m)"
    using nth_length_takeWhile [of "\<lambda>i. \<not> bit m i" "[0..<64]"] lt by (simp add: TrailingZeros64_def)
  show "\<not> bit m i" if "i < TrailingZeros64 m"
    using takeWhile_nth [of i "\<lambda>i. \<not> bit m i" "[0..<64]"] set_takeWhileD [of i "\<lambda>i. \<not> bit m i" "[0..<64]"] that lt
      nth_mem [of i "takeWhile (\<lambda>i. \<not> bit m i) [0..<64]"]
    by (auto simp: TrailingZeros64_def)
qed

lemma bit_clear_lowest:
  fixes m :: "64 word"
  assumes "m \<noteq> 0"
  shows "bit (m AND (m - 1)) i \<longleftrightarrow> bit m i \<and> i \<noteq> TrailingZeros64 m"
proof -
  define t where "t = TrailingZeros64 m"
  note tz = TrailingZeros64_bit [OF assms, folded t_def]
  define n where "n = Suc t"
  define q where "q = push_bit n (drop_bit n m)"
  have "take_bit (Suc t) m = push_bit t 1"
    using tz by (intro bit_eqI) (auto simp: bit_take_bit_iff bit_exp_iff less_Suc_eq)
  then have m: "m = q + push_bit t 1"
    using bits_ident [of n m] by (simp add: q_def n_def)
  have "m - 1 = q + mask t"
    by (simp add: m mask_eq_exp_minus_1 push_bit_eq_mult)
  also have "\<dots> = q OR mask t"
    by (rule disjunctive_add) (auto simp: q_def n_def bit_push_bit_iff bit_mask_iff)
  finally have "bit (m - 1) i \<longleftrightarrow> bit q i \<or> i < t \<and> i < 64"
    by (auto simp: bit_or_iff bit_mask_iff)
  moreover have "bit q i \<longleftrightarrow> i > t \<and> bit m i"
    by (auto simp: q_def bit_push_bit_iff bit_drop_bit_eq Suc_le_eq [symmetric] n_def [symmetric] dest: bit_imp_le_length)
  ultimately show ?thesis
    using tz(3) [of i] by (auto simp: bit_and_iff t_def [symmetric])
qed

text \<open>The set of rules in a mask, and the loop over it: it looks at exactly those rules.\<close>

lemma mask_loop_iff: "mask_loop rules name m \<longleftrightarrow> (\<exists>i. bit m i \<and> snd (rules ! i) name)"
proof (induction "unat m" arbitrary: m rule: less_induct)
  case less
  show ?case
  proof (cases "m = 0")
    case True
    then show ?thesis by (simp add: mask_loop.simps)
  next
    case False
    have "mask_loop rules name (m AND (m - 1)) \<longleftrightarrow> (\<exists>i. bit m i \<and> i \<noteq> TrailingZeros64 m \<and> snd (rules ! i) name)"
      using less [OF word_minus_one_less [OF False]] bit_clear_lowest [OF False] by auto
    then show ?thesis
      using False TrailingZeros64_bit(2) [OF False] by (auto simp: mask_loop.simps [of _ _ m])
  qed
qed

lemma matching_loop_bit:
  assumes "i + length rs \<le> 64"
  shows "bit (matching_loop metricName i rs m) j \<longleftrightarrow> bit m j \<or> (i \<le> j \<and> j < i + length rs \<and> fst (rs ! (j - i)) metricName)"
  using assms
proof (induction rs arbitrary: i m)
  case Nil
  then show ?case by auto
next
  case (Cons r rs)
  have nth: "(r # rs) ! (j - i) = rs ! (j - Suc i)" if "i < j"
    using that by (metis Suc_diff_Suc nth_Cons_Suc)
  define m' where "m' = (if fst r metricName then m OR push_bit i 1 else m)"
  have m': "bit m' j \<longleftrightarrow> bit m j \<or> j = i \<and> fst r metricName"
    using Cons.prems by (auto simp: m'_def bit_or_iff bit_exp_iff)
  have ih: "bit (matching_loop metricName (Suc i) rs m') j \<longleftrightarrow>
      bit m' j \<or> Suc i \<le> j \<and> j < Suc i + length rs \<and> fst (rs ! (j - Suc i)) metricName"
    by (rule Cons.IH) (use Cons.prems in simp)
  have "matching_loop metricName i (r # rs) m = matching_loop metricName (Suc i) rs m'"
    by (simp add: m'_def)
  then show ?case
    using ih m' nth by (cases i j rule: linorder_cases) simp_all
qed

text \<open>What a filter drops, without masks.\<close>

definition filter_drops :: "LabelFilter option \<Rightarrow> bytes \<Rightarrow> bytes \<Rightarrow> bool" where
  "filter_drops f metricName name \<longleftrightarrow>
     (case f of
        None \<Rightarrow> False
      | Some f \<Rightarrow> name \<noteq> nameBytes \<and> name \<notin> set (Keep f) \<and> (\<exists>r\<in>set (Drop f). fst r metricName \<and> snd r name))"

lemma matching_rules_drop:
  "matchingDropRules f metricName = (mk, um) \<Longrightarrow> dropsWithMask f metricName name mk um = filter_drops f metricName name"
proof (cases f)
  case (Some g)
  assume m: "matchingDropRules f metricName = (mk, um)"
  show ?thesis
  proof (cases "length (Drop g) > 64")
    case True
    then show ?thesis using m Some by (auto simp: matchingDropRules_def dropsWithMask_def filter_drops_def list_ex_iff)
  next
    case False
    have "bit (matching_loop metricName 0 (Drop g) 0) i \<longleftrightarrow> i < length (Drop g) \<and> fst (Drop g ! i) metricName" for i
      using False matching_loop_bit [of 0 "Drop g" metricName 0 i] by simp
    then have "(\<exists>i. bit (matching_loop metricName 0 (Drop g) 0) i \<and> snd (Drop g ! i) name) \<longleftrightarrow>
        (\<exists>r\<in>set (Drop g). fst r metricName \<and> snd r name)"
      by (metis in_set_conv_nth)
    then show ?thesis
      using m Some False by (auto simp: matchingDropRules_def dropsWithMask_def filter_drops_def mask_loop_iff)
  qed
qed (simp add: dropsWithMask_def filter_drops_def)

lemma Drops_spec: "Drops f metricName name = filter_drops f metricName name"
  by (simp add: Drops_def matching_rules_drop split: prod.splits)

section \<open>Merging\<close>

text \<open>The loops of \<open>mergedLabelsWithFilter\<close>, for a consumer that takes all labels.\<close>

function merge_loop :: "(bytes \<Rightarrow> bool) \<Rightarrow> label list \<Rightarrow> label list \<Rightarrow> label list" where
  "merge_loop dropped (s # ss) (c # cs) =
     (if lname s = lname c then (if dropped (lname s) then merge_loop dropped ss cs else s # merge_loop dropped ss cs)
      else if labelLess (lname c) (lname s)
      then (if dropped (lname c) then merge_loop dropped (s # ss) cs else c # merge_loop dropped (s # ss) cs)
      else (if dropped (lname s) then merge_loop dropped ss (c # cs) else s # merge_loop dropped ss (c # cs)))"
| "merge_loop dropped ss [] = filter (\<lambda>l. \<not> dropped (lname l)) ss"
| "merge_loop dropped [] (c # cs) = filter (\<lambda>l. \<not> dropped (lname l)) (c # cs)"
  by pat_completeness auto
termination
  by (relation "measure (\<lambda>(d, ss, cs). length ss + length cs)") auto

definition mergedLabelsWithFilter :: "label list \<Rightarrow> label list \<Rightarrow> bytes \<Rightarrow> LabelFilter option \<Rightarrow> label list" where
  "mergedLabelsWithFilter seriesLabels commonLabels metricName f =
     (case matchingDropRules f metricName of (dropMask, useMask) \<Rightarrow>
        merge_loop (\<lambda>name. dropsWithMask f metricName name dropMask useMask) seriesLabels commonLabels)"

definition MergedLabels :: "label list \<Rightarrow> label list \<Rightarrow> label list" where
  "MergedLabels seriesLabels commonLabels = mergedLabelsWithFilter seriesLabels commonLabels [] None"

text \<open>Labels in strict order, and two lists none of whose names differ by case only.\<close>

definition ordered :: "label list \<Rightarrow> bool" where
  "ordered ls \<longleftrightarrow> sorted_wrt (\<lambda>a b. rank (lname a) < rank (lname b)) ls"

definition no_clash :: "label list \<Rightarrow> label list \<Rightarrow> bool" where
  "no_clash ss cs \<longleftrightarrow> (\<forall>s\<in>set ss. \<forall>c\<in>set cs. rank (lname s) = rank (lname c) \<longrightarrow> lname s = lname c)"

lemma merge_loop_set:
  assumes "ordered ss" "ordered cs" "no_clash ss cs"
  shows "set (merge_loop d ss cs) =
      {l \<in> set ss. \<not> d (lname l)} \<union> {l \<in> set cs. \<not> d (lname l) \<and> lname l \<notin> lname ` set ss} \<and> ordered (merge_loop d ss cs)"
  using assms
proof (induction d ss cs rule: merge_loop.induct)
  case (1 d s ss c cs)
  have os: "ordered ss" "ordered cs" "\<forall>l\<in>set ss. rank (lname s) < rank (lname l)" "\<forall>l\<in>set cs. rank (lname c) < rank (lname l)"
    using 1(7,8) by (auto simp: ordered_def)
  have nc: "no_clash ss cs" "no_clash (s # ss) cs" "no_clash ss (c # cs)" using 1(9) by (auto simp: no_clash_def)
  consider (eq) "lname s = lname c" | (common) "lname s \<noteq> lname c" "rank (lname c) < rank (lname s)"
    | (series) "lname s \<noteq> lname c" "rank (lname s) < rank (lname c)"
    using 1(9) by (auto simp: no_clash_def) (metis linorder_neqE)
  then show ?case
  proof cases
    case eq
    then have ne: "lname s \<notin> lname ` set ss" "lname s \<notin> lname ` set cs" using os(3,4) by auto
    have ih: "set (merge_loop d ss cs) = {l \<in> set ss. \<not> d (lname l)} \<union> {l \<in> set cs. \<not> d (lname l) \<and> lname l \<notin> lname ` set ss}"
        "ordered (merge_loop d ss cs)"
      using 1(1,2) eq os(1,2) nc(1) by (cases "d (lname s)"; simp)+
    then have "\<forall>l\<in>set (merge_loop d ss cs). rank (lname s) < rank (lname l)" using os(3,4) eq by auto
    moreover have "\<forall>l\<in>set cs. lname l \<noteq> lname s" using ne(2) by (metis imageI)
    ultimately show ?thesis using ih eq ne(1) by (auto simp: ordered_def)
  next
    case common
    then have less: "labelLess (lname c) (lname s)" using labelLess_rank [of "lname c" "lname s"] by (metis order_less_asym)
    have ne: "lname c \<notin> lname ` set ss" using os(3) common(2) by fastforce
    have ih: "set (merge_loop d (s # ss) cs) = {l \<in> set (s # ss). \<not> d (lname l)} \<union> {l \<in> set cs. \<not> d (lname l) \<and> lname l \<notin> lname ` set (s # ss)}"
        "ordered (merge_loop d (s # ss) cs)"
      using 1(3,4) common(1) less 1(7) os(2) nc(2) by (cases "d (lname c)"; simp)+
    then have "\<forall>l\<in>set (merge_loop d (s # ss) cs). rank (lname c) < rank (lname l)" using os(3,4) common(2) by fastforce
    then show ?thesis using ih common(1) less ne by (auto simp: ordered_def)
  next
    case series
    then have less: "\<not> labelLess (lname c) (lname s)" using labelLess_rank [of "lname c" "lname s"] by (metis order_less_asym)
    have ne: "\<forall>l\<in>set cs. lname l \<noteq> lname s" using os(4) series(2) by fastforce
    have ih: "set (merge_loop d ss (c # cs)) = {l \<in> set ss. \<not> d (lname l)} \<union> {l \<in> set (c # cs). \<not> d (lname l) \<and> lname l \<notin> lname ` set ss}"
        "ordered (merge_loop d ss (c # cs))"
      using 1(5,6) series(1) less os(1) 1(8) nc(3) by (cases "d (lname s)"; simp)+
    then have "\<forall>l\<in>set (merge_loop d ss (c # cs)). rank (lname s) < rank (lname l)" using os(3,4) series(2) by fastforce
    then show ?thesis using ih series(1) less ne by (auto simp: ordered_def)
  qed
qed (auto simp: ordered_def sorted_wrt_filter)

section \<open>The transformer\<close>

text \<open>
  The maps of the configuration are lists, in the order in which Go visits them; \<open>AddLabels\<close> has each name once. \<open>Dynamic\<close> is what a labeler adds, or none.
\<close>

record RequestTransformer =
  DefaultDropMetrics :: bool
  KeepMetrics :: "regexp list"
  KeepMetricsWithLabelValue :: "(regexp \<times> regexp) list"
  DropLabels :: "(regexp \<times> regexp) list"
  DropMetrics :: "regexp list"
  AddLabels :: "label list"
  AllowedDatabase :: "bytes list"
  Dynamic :: "label list option"

record 'a TimeSeries =
  ts_Labels :: "label list"
  ts_Samples :: "'a list"

record 'a WriteRequest =
  Timeseries :: "'a TimeSeries list"
  CommonLabels :: "label list"
  wr_LabelFilter :: "LabelFilter option"

type_synonym label_sort = "label list \<Rightarrow> label list"

definition dynamic :: "RequestTransformer \<Rightarrow> label list" where
  "dynamic f = (case Dynamic f of None \<Rightarrow> [] | Some ls \<Rightarrow> ls)"

text \<open>What \<open>init\<close> computes once.\<close>

definition addLabels :: "label_sort \<Rightarrow> RequestTransformer \<Rightarrow> label list" where
  "addLabels srt f = srt (AddLabels f)"

definition addLabelsKeys :: "RequestTransformer \<Rightarrow> bytes list" where
  "addLabelsKeys f = map lname (AddLabels f) @ map lname (dynamic f)"

definition labelFilter :: "RequestTransformer \<Rightarrow> LabelFilter option" where
  "labelFilter f =
     (if DropLabels f \<noteq> [] \<or> addLabelsKeys f \<noteq> [] then Some \<lparr>Drop = DropLabels f, Keep = addLabelsKeys f\<rparr> else None)"

definition shouldDropMetricByName :: "RequestTransformer \<Rightarrow> bytes \<Rightarrow> bool option" where
  "shouldDropMetricByName f name =
     (if DefaultDropMetrics f then
        if list_ex (\<lambda>r. r name) (DropMetrics f) then Some True
        else if list_ex (\<lambda>r. r name) (KeepMetrics f) then Some False
        else if KeepMetricsWithLabelValue f = [] then Some True else None
      else Some (list_ex (\<lambda>r. r name) (DropMetrics f)))"

definition shouldKeepMetricWithLabel :: "RequestTransformer \<Rightarrow> label \<Rightarrow> bool" where
  "shouldKeepMetricWithLabel f l = list_ex (\<lambda>r. fst r (lname l) \<and> snd r (lvalue l)) (KeepMetricsWithLabelValue f)"

definition shouldDropMetricWithCommonLabels :: "RequestTransformer \<Rightarrow> label list \<Rightarrow> label list \<Rightarrow> bytes \<Rightarrow> bool" where
  "shouldDropMetricWithCommonLabels f ls common name =
     (case shouldDropMetricByName f name of
        Some d \<Rightarrow> d
      | None \<Rightarrow> \<not> list_ex (shouldKeepMetricWithLabel f) (MergedLabels ls common))"

definition req_Labels :: "'a WriteRequest \<Rightarrow> 'a TimeSeries \<Rightarrow> label list" where
  "req_Labels req v = mergedLabelsWithFilter (ts_Labels v) (CommonLabels req) (MetricName (ts_Labels v)) (wr_LabelFilter req)"

definition ShouldDropMetric :: "RequestTransformer \<Rightarrow> 'a WriteRequest \<Rightarrow> 'a TimeSeries \<Rightarrow> bytes \<Rightarrow> bool" where
  "ShouldDropMetric f req v name =
     (case shouldDropMetricByName f name of
        Some d \<Rightarrow> d
      | None \<Rightarrow> \<not> list_ex (shouldKeepMetricWithLabel f) (req_Labels req v))"

definition skips :: "RequestTransformer \<Rightarrow> bytes \<Rightarrow> bytes \<Rightarrow> bool" where
  "skips f name n \<longleftrightarrow> n \<noteq> nameBytes \<and> (list_ex (\<lambda>r. fst r name \<and> snd r n) (DropLabels f) \<or> n \<in> set (addLabelsKeys f))"

definition filterTimeSeries :: "RequestTransformer \<Rightarrow> label list \<Rightarrow> label list" where
  "filterTimeSeries f ls = filter (\<lambda>l. \<not> skips f (MetricName ls) (lname l)) ls"

definition TransformTimeSeries :: "label_sort \<Rightarrow> RequestTransformer \<Rightarrow> 'a TimeSeries \<Rightarrow> 'a TimeSeries" where
  "TransformTimeSeries srt f v = v\<lparr>ts_Labels := srt (filterTimeSeries f (ts_Labels v) @ dynamic f @ addLabels srt f)\<rparr>"

definition commonLabels :: "label_sort \<Rightarrow> RequestTransformer \<Rightarrow> label list \<Rightarrow> label list" where
  "commonLabels srt f existing =
     (if Dynamic f = None \<and> addLabels srt f = [] then existing
      else srt (filter (\<lambda>l. lname l \<notin> set (addLabelsKeys f)) existing @
                filter (\<lambda>l. lname l \<notin> lname ` set (addLabels srt f)) (dynamic f) @ addLabels srt f))"

text \<open>The database of a series: the value of the first label \<open>adxmon_database\<close>.\<close>

definition database_label :: bytes where
  "database_label = [97, 100, 120, 109, 111, 110, 95, 100, 97, 116, 97, 98, 97, 115, 101]"

definition database_of :: "label list \<Rightarrow> bytes" where
  "database_of ls = (case filter (\<lambda>l. lname l = database_label) ls of [] \<Rightarrow> [] | l # _ \<Rightarrow> lvalue l)"

definition allowed :: "RequestTransformer \<Rightarrow> label list \<Rightarrow> bool" where
  "allowed f ls \<longleftrightarrow> AllowedDatabase f = [] \<or> database_of ls \<in> set (AllowedDatabase f)"

definition TransformWriteRequest :: "label_sort \<Rightarrow> RequestTransformer \<Rightarrow> 'a WriteRequest \<Rightarrow> 'a WriteRequest" where
  "TransformWriteRequest srt f req =
     req\<lparr>Timeseries := map (TransformTimeSeries srt f)
       (filter (\<lambda>v. \<not> shouldDropMetricWithCommonLabels f (ts_Labels v) [] (MetricName (ts_Labels v)) \<and> allowed f (ts_Labels v)) (Timeseries req))\<rparr>"

definition TransformWriteRequestWithCommonLabels :: "label_sort \<Rightarrow> RequestTransformer \<Rightarrow> 'a WriteRequest \<Rightarrow> 'a WriteRequest" where
  "TransformWriteRequestWithCommonLabels srt f req =
     (let common = commonLabels srt f (CommonLabels req)
      in req\<lparr>Timeseries := map (\<lambda>v. v\<lparr>ts_Labels := filterTimeSeries f (ts_Labels v)\<rparr>)
             (filter (\<lambda>v. \<not> shouldDropMetricWithCommonLabels f (ts_Labels v) common (MetricName (ts_Labels v)) \<and>
                allowed f (MergedLabels (ts_Labels v) common)) (Timeseries req)),
           CommonLabels := common, wr_LabelFilter := labelFilter f\<rparr>)"

text \<open>\<open>WalkLabels\<close>: the labels the callback is called with.\<close>

definition WalkLabels :: "label_sort \<Rightarrow> RequestTransformer \<Rightarrow> 'a WriteRequest \<Rightarrow> 'a TimeSeries \<Rightarrow> label list" where
  "WalkLabels srt f req v =
     filter (\<lambda>l. \<not> skips f (MetricName (ts_Labels v)) (lname l)) (req_Labels req v) @ dynamic f @ addLabels srt f"

section \<open>Both ways agree\<close>

definition sorts :: "label_sort \<Rightarrow> bool" where
  "sorts srt \<longleftrightarrow> (\<forall>ls. mset (srt ls) = mset ls \<and> sorted_wrt (\<lambda>a b. lname a = nameBytes \<or> \<not> labelLess (lname b) (lname a)) (srt ls))"

lemma ordered_unique:
  assumes "ordered xs" "ordered ys" "set xs = set ys"
  shows "xs = ys"
  using assms
proof (induction xs arbitrary: ys)
  case (Cons x xs)
  then obtain y ys' where ys: "ys = y # ys'" by (cases ys) auto
  have "x = y"
    using Cons.prems ys by (auto simp: ordered_def) (metis insert_iff order_less_asym)
  moreover have "x \<notin> set xs" "y \<notin> set ys'" using Cons.prems(1,2) ys by (auto simp: ordered_def)
  ultimately have "set xs = set ys'" using Cons.prems(3) ys by auto
  then show ?case using Cons ys \<open>x = y\<close> by (simp add: ordered_def)
qed simp

lemma ordered_distinct: "ordered ls \<Longrightarrow> distinct (map (\<lambda>l. rank (lname l)) ls)"
  by (induction ls) (auto simp: ordered_def)

lemma sorts_ordered:
  assumes "sorts srt" and "distinct (map (\<lambda>l. rank (lname l)) ls)"
  shows "ordered (srt ls)" "set (srt ls) = set ls"
proof -
  have m: "mset (srt ls) = mset ls" and s: "sorted_wrt (\<lambda>a b. lname a = nameBytes \<or> \<not> labelLess (lname b) (lname a)) (srt ls)"
    using assms(1) by (auto simp: sorts_def)
  then show "set (srt ls) = set ls" by (metis set_mset_mset)
  have "mset (map (\<lambda>l. rank (lname l)) (srt ls)) = mset (map (\<lambda>l. rank (lname l)) ls)"
    using m by simp
  then have d: "distinct (map (\<lambda>l. rank (lname l)) (srt ls))"
    using assms(2) mset_eq_imp_distinct_iff by blast
  have "ordered xs" if "distinct (map (\<lambda>l. rank (lname l)) xs)" "sorted_wrt (\<lambda>a b. lname a = nameBytes \<or> \<not> labelLess (lname b) (lname a)) xs" for xs
    using that
  proof (induction xs)
    case (Cons x xs)
    have "rank (lname x) < rank (lname l)" if l: "l \<in> set xs" for l
    proof -
      have ne: "rank (lname x) \<noteq> rank (lname l)" using Cons.prems(1) l by auto
      have "lname x = nameBytes \<or> \<not> labelLess (lname l) (lname x)" using Cons.prems(2) l by auto
      moreover have "lname l \<noteq> nameBytes \<or> lname x \<noteq> nameBytes" using ne by metis
      ultimately show ?thesis using labelLess_rank [of "lname l" "lname x"] ne by (auto simp: rank_def)
    qed
    then show ?case using Cons by (simp add: ordered_def)
  qed (simp add: ordered_def)
  then show "ordered (srt ls)" using d s by blast
qed

text \<open>
  A series and a configuration that leave no doubt: the labels are in order, the added labels are not the metric name, and names that differ by case only do
  not occur.
\<close>

definition clean :: "RequestTransformer \<Rightarrow> label list \<Rightarrow> bool" where
  "clean f ls \<longleftrightarrow> ordered ls \<and> distinct (map (\<lambda>l. rank (lname l)) (AddLabels f @ dynamic f)) \<and>
     nameBytes \<notin> lname ` set (AddLabels f @ dynamic f) \<and> no_clash ls (AddLabels f @ dynamic f)"

lemma MetricName_filter: "MetricName (filterTimeSeries f ls) = MetricName ls"
proof -
  have "filter (\<lambda>l. lname l = nameBytes) (filter (\<lambda>l. \<not> skips f n (lname l)) ls) = filter (\<lambda>l. lname l = nameBytes) ls" for n
    by (induction ls) (auto simp: skips_def)
  then show ?thesis by (simp add: MetricName_def filterTimeSeries_def)
qed

lemma filtered_labels:
  assumes "clean f ls" and "l \<in> set (filterTimeSeries f ls)"
  shows "lname l \<notin> lname ` set (AddLabels f @ dynamic f)" "\<not> filter_drops (labelFilter f) (MetricName ls) (lname l)"
  using assms by (auto simp: filterTimeSeries_def skips_def addLabelsKeys_def clean_def filter_drops_def labelFilter_def list_ex_iff)

lemma added_labels:
  assumes "l \<in> set (AddLabels f @ dynamic f)"
  shows "\<not> filter_drops (labelFilter f) m (lname l)"
  using assms by (auto simp: filter_drops_def labelFilter_def addLabelsKeys_def)

lemma commonLabels_ordered:
  assumes "sorts srt" and "clean f ls"
  shows "ordered (commonLabels srt f [])" "set (commonLabels srt f []) = set (AddLabels f @ dynamic f)"
proof -
  have d: "distinct (map (\<lambda>l. rank (lname l)) (AddLabels f @ dynamic f))" using assms(2) by (simp add: clean_def)
  have ms: "mset (addLabels srt f) = mset (AddLabels f)" using assms(1) by (auto simp: addLabels_def sorts_def)
  then have sm: "set (addLabels srt f) = set (AddLabels f)" by (metis set_mset_mset)
  have "(\<lambda>l. rank (lname l)) ` set (AddLabels f) \<inter> (\<lambda>l. rank (lname l)) ` set (dynamic f) = {}" using d by simp
  then have "lname l \<noteq> lname a" if "l \<in> set (dynamic f)" "a \<in> set (AddLabels f)" for l a
    using that by (metis (no_types, lifting) IntI empty_iff image_eqI)
  then have nd: "filter (\<lambda>l. lname l \<notin> lname ` set (addLabels srt f)) (dynamic f) = dynamic f"
    by (auto simp: sm filter_id_conv)
  have "mset (dynamic f @ addLabels srt f) = mset (AddLabels f @ dynamic f)" using ms by simp
  then have "mset (map (\<lambda>l. rank (lname l)) (dynamic f @ addLabels srt f)) = mset (map (\<lambda>l. rank (lname l)) (AddLabels f @ dynamic f))"
    by (metis mset_map)
  then have d': "distinct (map (\<lambda>l. rank (lname l)) (dynamic f @ addLabels srt f))"
    using d mset_eq_imp_distinct_iff by blast
  show "ordered (commonLabels srt f [])" "set (commonLabels srt f []) = set (AddLabels f @ dynamic f)"
    using sorts_ordered [OF assms(1) d'] nd sm by (auto simp: commonLabels_def ordered_def dynamic_def)
qed

lemma effective_labels:
  assumes "sorts srt" and "clean f ls"
  shows "mergedLabelsWithFilter (filterTimeSeries f ls) (commonLabels srt f []) (MetricName (filterTimeSeries f ls)) (labelFilter f) =
    srt (filterTimeSeries f ls @ dynamic f @ addLabels srt f)"
proof (rule ordered_unique)
  let ?ss = "filterTimeSeries f ls" and ?cs = "commonLabels srt f []" and ?add = "AddLabels f @ dynamic f"
  obtain mk um where m: "matchingDropRules (labelFilter f) (MetricName ls) = (mk, um)" by (rule prod.exhaust)
  let ?d = "\<lambda>name. dropsWithMask (labelFilter f) (MetricName ls) name mk um"
  have eq: "mergedLabelsWithFilter ?ss ?cs (MetricName ?ss) (labelFilter f) = merge_loop ?d ?ss ?cs"
    by (simp add: mergedLabelsWithFilter_def MetricName_filter m)
  note c = commonLabels_ordered [OF assms]
  have os: "ordered ?ss"
    using assms(2) by (auto simp: clean_def filterTimeSeries_def ordered_def sorted_wrt_filter)
  have nc: "no_clash ?ss ?cs"
    using assms(2) c(2) by (auto simp: clean_def no_clash_def filterTimeSeries_def)
  note M = merge_loop_set [OF os c(1) nc, of ?d]
  have disj: "lname x \<notin> lname ` set ?ss" if "x \<in> set ?add" for x
    using filtered_labels(1) [OF assms(2)] that by (metis imageE imageI)
  have keep: "\<not> ?d (lname x)" if "x \<in> set ?ss \<union> set ?add" for x
    using that filtered_labels(2) [OF assms(2)] added_labels [of _ f "MetricName ls"] by (auto simp: matching_rules_drop [OF m])
  have "set (merge_loop ?d ?ss ?cs) = set ?ss \<union> set ?add"
    unfolding M [THEN conjunct1] c(2) using disj keep by blast
  moreover have dist: "distinct (map (\<lambda>l. rank (lname l)) (?ss @ dynamic f @ addLabels srt f))"
  proof -
    have ms: "mset (addLabels srt f) = mset (AddLabels f)" using assms(1) by (auto simp: addLabels_def sorts_def)
    have d1: "distinct (map (\<lambda>l. rank (lname l)) ?ss)"
      using os by (rule ordered_distinct)
    have d2: "distinct (map (\<lambda>l. rank (lname l)) ?add)"
      using assms(2) unfolding clean_def by (elim conjE)
    have ne: "rank (lname s) \<noteq> rank (lname a)" if "s \<in> set ?ss" "a \<in> set ?add" for s a
    proof -
      have "s \<in> set ls" using that(1) by (simp add: filterTimeSeries_def)
      moreover have "lname s \<noteq> lname a" using filtered_labels(1) [OF assms(2) that(1)] that(2) by (metis imageI)
      ultimately show ?thesis using assms(2) that(2) unfolding clean_def no_clash_def by blast
    qed
    have "(\<lambda>l. rank (lname l)) ` set ?ss \<inter> (\<lambda>l. rank (lname l)) ` set ?add = {}"
    proof (rule equals0I)
      fix x assume "x \<in> (\<lambda>l. rank (lname l)) ` set ?ss \<inter> (\<lambda>l. rank (lname l)) ` set ?add"
      then obtain s a where "s \<in> set ?ss" "x = rank (lname s)" "a \<in> set ?add" "x = rank (lname a)" by blast
      then show False using ne [of s a] by simp
    qed
    then have "distinct (map (\<lambda>l. rank (lname l)) (?ss @ ?add))"
      using d1 d2 by (subst map_append) (subst distinct_append, simp only: set_map)
    moreover have "mset (map (\<lambda>l. rank (lname l)) (?ss @ dynamic f @ addLabels srt f)) = mset (map (\<lambda>l. rank (lname l)) (?ss @ ?add))"
      using ms by simp
    ultimately show ?thesis using mset_eq_imp_distinct_iff by blast
  qed
  note S = sorts_ordered [OF assms(1) dist]
  have "set (addLabels srt f) = set (AddLabels f)" using assms(1) by (metis addLabels_def set_mset_mset sorts_def)
  ultimately show "set (mergedLabelsWithFilter ?ss ?cs (MetricName ?ss) (labelFilter f)) = set (srt (?ss @ dynamic f @ addLabels srt f))"
    using S(2) eq by auto
  show "ordered (mergedLabelsWithFilter ?ss ?cs (MetricName ?ss) (labelFilter f))" using M eq by simp
  show "ordered (srt (?ss @ dynamic f @ addLabels srt f))" using S(1) .
qed

text \<open>Where the conditions of \<open>clean\<close> fail: a static and a dynamic label of one name are both added, and a merge keeps a common label that a series overrides.\<close>

lemma static_and_dynamic_added:
  assumes "sorts srt" and "a \<in> set (AddLabels f)" and "d \<in> set (dynamic f)"
  shows "a \<in> set (ts_Labels (TransformTimeSeries srt f v)) \<and> d \<in> set (ts_Labels (TransformTimeSeries srt f v))"
proof -
  have "set (srt ls) = set ls" for ls using assms(1) by (metis set_mset_mset sorts_def)
  then show ?thesis using assms(2,3) by (simp add: TransformTimeSeries_def addLabels_def)
qed

lemma merge_keeps_overridden:
  "MergedLabels [\<lparr>lname = [97], lvalue = [1]\<rparr>] [\<lparr>lname = [65], lvalue = [2]\<rparr>, \<lparr>lname = [97], lvalue = [3]\<rparr>] =
     [\<lparr>lname = [97], lvalue = [1]\<rparr>, \<lparr>lname = [65], lvalue = [2]\<rparr>, \<lparr>lname = [97], lvalue = [3]\<rparr>]"
  by (simp add: MergedLabels_def mergedLabelsWithFilter_def matchingDropRules_def dropsWithMask_def labelLess_def nameBytes_def lower_byte_def)

text \<open>The configuration in which a static label overrides a dynamic one of the same name.\<close>

definition overriding :: "RequestTransformer \<Rightarrow> RequestTransformer" where
  "overriding f = f\<lparr>Dynamic := map_option (filter (\<lambda>l. lname l \<notin> lname ` set (AddLabels f))) (Dynamic f)\<rparr>"

lemma merge_filter: "mergedLabelsWithFilter ss cs m lf = merge_loop (filter_drops lf m) ss cs"
proof -
  obtain mk um where m: "matchingDropRules lf m = (mk, um)" by (rule prod.exhaust)
  have "(\<lambda>name. dropsWithMask lf m name mk um) = filter_drops lf m" using matching_rules_drop [OF m] by blast
  then show ?thesis by (simp add: mergedLabelsWithFilter_def m)
qed

lemma overriding_simps:
  assumes "sorts srt"
  shows "dynamic (overriding f) = filter (\<lambda>l. lname l \<notin> lname ` set (AddLabels f)) (dynamic f)" "addLabels srt (overriding f) = addLabels srt f"
    "commonLabels srt (overriding f) [] = commonLabels srt f []" "filterTimeSeries (overriding f) ls = filterTimeSeries f ls"
    "filter_drops (labelFilter (overriding f)) = filter_drops (labelFilter f)"
    "shouldDropMetricWithCommonLabels (overriding f) = shouldDropMetricWithCommonLabels f" "AllowedDatabase (overriding f) = AllowedDatabase f"
proof -
  have sm: "set (addLabels srt f) = set (AddLabels f)" using assms by (metis addLabels_def set_mset_mset sorts_def)
  show dyn: "dynamic (overriding f) = filter (\<lambda>l. lname l \<notin> lname ` set (AddLabels f)) (dynamic f)" by (simp add: overriding_def dynamic_def split: option.splits)
  show add: "addLabels srt (overriding f) = addLabels srt f" by (simp add: overriding_def addLabels_def)
  show "commonLabels srt (overriding f) [] = commonLabels srt f []"
    unfolding commonLabels_def dyn add by (simp add: overriding_def sm)
  have keys: "set (addLabelsKeys (overriding f)) = set (addLabelsKeys f)"
    unfolding addLabelsKeys_def by (auto simp: dyn) (auto simp: overriding_def)
  then show "filterTimeSeries (overriding f) ls = filterTimeSeries f ls"
    by (simp add: filterTimeSeries_def skips_def) (simp add: overriding_def)
  have "addLabelsKeys (overriding f) = [] \<longleftrightarrow> addLabelsKeys f = []" using keys by (metis set_empty)
  moreover have "DropLabels (overriding f) = DropLabels f" by (simp add: overriding_def)
  ultimately show "filter_drops (labelFilter (overriding f)) = filter_drops (labelFilter f)"
    using keys by (simp add: filter_drops_def labelFilter_def fun_eq_iff)
  show "shouldDropMetricWithCommonLabels (overriding f) = shouldDropMetricWithCommonLabels f" "AllowedDatabase (overriding f) = AllowedDatabase f"
    by (simp_all add: overriding_def fun_eq_iff shouldDropMetricWithCommonLabels_def shouldDropMetricByName_def shouldKeepMetricWithLabel_def [abs_def])
qed

section \<open>Properties\<close>

text \<open>
  C11. Keeping added labels at the request is the same as adding them to every series. Take a request that has no common labels yet and whose series have their labels in order; added labels
  that are not the metric name, of which no two static and no two dynamic ones have one name, and no names that differ by case only, among the added labels and between them and a series; and a
  configuration that selects series neither by their database nor, when metrics are dropped by default, by label values. Then transforming the request with common labels and reading the effective labels of its
  series, by a merge with a 64-bit mask of drop rules, gives the same series, with the same labels in the same order, as adding the labels to every series and sorting, where a static label
  overrides a dynamic one of its name; whatever \<open>sort.Sort\<close> does with equal elements and however many drop rules there are. (Without that override the two ways differ for such a pair: see
  \<open>static_and_dynamic_added\<close>.)
\<close>

theorem common_labels_equivalent:
  assumes "sorts srt" and "CommonLabels req = []" and "\<forall>v\<in>set (Timeseries req). clean (overriding f) (ts_Labels v)"
    and "\<not> DefaultDropMetrics f \<or> KeepMetricsWithLabelValue f = []" and "AllowedDatabase f = []"
  shows "map (\<lambda>v. v\<lparr>ts_Labels := req_Labels (TransformWriteRequestWithCommonLabels srt f req) v\<rparr>)
      (Timeseries (TransformWriteRequestWithCommonLabels srt f req)) = Timeseries (TransformWriteRequest srt (overriding f) req)"
proof -
  note O = overriding_simps [OF assms(1)]
  have decided: "shouldDropMetricWithCommonLabels f ls common name = shouldDropMetricWithCommonLabels f ls [] name" for ls common name
    using assms(4) by (auto simp: shouldDropMetricWithCommonLabels_def shouldDropMetricByName_def)
  define kept where "kept = filter (\<lambda>v. \<not> shouldDropMetricWithCommonLabels f (ts_Labels v) [] (MetricName (ts_Labels v))) (Timeseries req)"
  define req' where "req' = TransformWriteRequestWithCommonLabels srt f req"
  have req': "Timeseries req' = map (\<lambda>v. v\<lparr>ts_Labels := filterTimeSeries f (ts_Labels v)\<rparr>) kept"
      "CommonLabels req' = commonLabels srt f []" "wr_LabelFilter req' = labelFilter f"
    using assms(2,5) by (simp_all add: req'_def TransformWriteRequestWithCommonLabels_def Let_def decided [of _ "commonLabels srt f []"] allowed_def kept_def)
  have "v\<lparr>ts_Labels := req_Labels req' (v\<lparr>ts_Labels := filterTimeSeries f (ts_Labels v)\<rparr>)\<rparr> = TransformTimeSeries srt (overriding f) v" if "v \<in> set kept" for v
    using effective_labels [OF assms(1), of "overriding f" "ts_Labels v"] assms(3) that
    by (simp add: req_Labels_def req' TransformTimeSeries_def kept_def merge_filter O(2-5))
  then have "map (\<lambda>v. v\<lparr>ts_Labels := req_Labels req' v\<rparr>) (Timeseries req') = map (TransformTimeSeries srt (overriding f)) kept"
    by (simp add: req'(1) comp_def)
  moreover have "Timeseries (TransformWriteRequest srt (overriding f) req) = map (TransformTimeSeries srt (overriding f)) kept"
    using assms(5) by (simp add: TransformWriteRequest_def kept_def allowed_def O(6,7))
  ultimately show ?thesis by (simp add: req'_def)
qed

text \<open>Insertion sort, which \<open>sort.Sort\<close> uses for up to twelve elements.\<close>

fun insert_label :: "label \<Rightarrow> label list \<Rightarrow> label list" where
  "insert_label l [] = [l]"
| "insert_label l (x # xs) = (if labelLess (lname l) (lname x) then l # x # xs else x # insert_label l xs)"

definition insertion_sort :: label_sort where
  "insertion_sort ls = fold insert_label ls []"

lemma mset_insert_label: "mset (insert_label l xs) = add_mset l (mset xs)"
  by (induction xs) auto

lemma rank_le: "lname a = nameBytes \<or> \<not> labelLess (lname b) (lname a) \<longleftrightarrow> rank (lname a) \<le> rank (lname b)"
  using labelLess_rank [of "lname b" "lname a"] by (auto simp: rank_def not_less)

lemma sorted_insert_label:
  assumes "sorted_wrt (\<lambda>a b. rank (lname a) \<le> rank (lname b)) xs"
  shows "sorted_wrt (\<lambda>a b. rank (lname a) \<le> rank (lname b)) (insert_label l xs)"
  using assms
proof (induction xs)
  case (Cons x xs)
  have "set (insert_label l xs) = insert l (set xs)" by (metis mset_insert_label set_mset_add_mset_insert set_mset_mset)
  moreover have "rank (lname l) \<le> rank (lname x)" if "labelLess (lname l) (lname x)"
    using labelLess_rank [of "lname l" "lname x"] that by (cases "lname l = nameBytes") (auto simp: rank_def)
  moreover have "rank (lname x) \<le> rank (lname l)" if "\<not> labelLess (lname l) (lname x)"
    using rank_le [of x l] that by simp
  ultimately show ?case using Cons by (auto intro: order_trans)
qed simp

lemma insertion_sort_sorts: "sorts insertion_sort"
proof -
  have "mset (fold insert_label ls acc) = mset ls + mset acc \<and>
      (sorted_wrt (\<lambda>a b. rank (lname a) \<le> rank (lname b)) acc \<longrightarrow> sorted_wrt (\<lambda>a b. rank (lname a) \<le> rank (lname b)) (fold insert_label ls acc))" for ls acc
    by (induction ls arbitrary: acc) (auto simp: mset_insert_label sorted_insert_label)
  then show ?thesis by (simp add: sorts_def insertion_sort_def rank_le)
qed

text \<open>
  A series \<open>__name__="up", a="1", z="2"\<close> to which the static label \<open>m="3"\<close> and dynamic labels \<open>m="4"\<close> and \<open>n="5"\<close> are added and from which \<open>z\<close> is dropped.
\<close>

definition demo_labels :: "label list" where
  "demo_labels = [\<lparr>lname = nameBytes, lvalue = [117, 112]\<rparr>, \<lparr>lname = [97], lvalue = [49]\<rparr>, \<lparr>lname = [122], lvalue = [50]\<rparr>]"

definition demo_transformer :: RequestTransformer where
  "demo_transformer = \<lparr>DefaultDropMetrics = False, KeepMetrics = [], KeepMetricsWithLabelValue = [], DropLabels = [(\<lambda>m. True, \<lambda>n. n = [122])],
     DropMetrics = [], AddLabels = [\<lparr>lname = [109], lvalue = [51]\<rparr>], AllowedDatabase = [],
     Dynamic = Some [\<lparr>lname = [109], lvalue = [52]\<rparr>, \<lparr>lname = [110], lvalue = [53]\<rparr>]\<rparr>"

definition demo_request :: "int WriteRequest" where
  "demo_request = \<lparr>Timeseries = [\<lparr>ts_Labels = demo_labels, ts_Samples = [7]\<rparr>], CommonLabels = [], wr_LabelFilter = None\<rparr>"

theorem common_labels_equivalent_witness:
  "map (\<lambda>v. map lvalue (req_Labels (TransformWriteRequestWithCommonLabels insertion_sort demo_transformer demo_request) v))
     (Timeseries (TransformWriteRequestWithCommonLabels insertion_sort demo_transformer demo_request)) = [[[117, 112], [49], [51], [53]]]"
proof -
  have "clean (overriding demo_transformer) demo_labels"
    by (simp add: clean_def overriding_def ordered_def demo_labels_def demo_transformer_def dynamic_def rank_def nameBytes_def no_clash_def lower_byte_def)
  then have "\<forall>v\<in>set (Timeseries demo_request). clean (overriding demo_transformer) (ts_Labels v)"
    by (simp add: demo_request_def)
  moreover have "CommonLabels demo_request = []" "KeepMetricsWithLabelValue demo_transformer = []" "AllowedDatabase demo_transformer = []"
    by (simp_all add: demo_request_def demo_transformer_def)
  ultimately have "map (\<lambda>v. v\<lparr>ts_Labels := req_Labels (TransformWriteRequestWithCommonLabels insertion_sort demo_transformer demo_request) v\<rparr>)
      (Timeseries (TransformWriteRequestWithCommonLabels insertion_sort demo_transformer demo_request)) =
    Timeseries (TransformWriteRequest insertion_sort (overriding demo_transformer) demo_request)"
    using common_labels_equivalent [OF insertion_sort_sorts] by blast
  from arg_cong [OF this, of "map (\<lambda>v. map lvalue (ts_Labels v))"] show ?thesis
    by (simp add: comp_def) code_simp
qed

end
