(* ===== verification/Store.thy ===== *)
theory Store
  imports Repository SchemaNames Labels
begin

text \<open>
  The local store, \<open>storage/store.go\<close>, \<open>outcome.go\<close> and \<open>memory_limiter.go\<close>, and the sink of the collector's logs, \<open>collector/logs/sinks/store.go\<close>: a request is split by
  table, each table is admitted, encoded and written to its log as one block or, when that does not fit, record by record; what does not fit is shed or left to the sender.

  The repository, the admission controller and the logs are those of the other theories. The CSV writers are modelled up to the rows of a record, which are an argument: a pooled writer is handed out in any state, reset and then writes the header of its schema once and the rows of each record. A log
  record is its database and table attributes and the rest. The clock, the faults, the interference by other goroutines and the sampled size of the repository during the \<open>n\<close>-th
  call of a log are fields of \<open>store_env\<close>. A \<open>*WAL\<close> is found again by its key. Metrics and debug output are not modelled. \<open>ls_written\<close> and \<open>ls_shed\<close> are not in the code:
  they remember the blocks that a log accepted (its call returned no error), with their key and their records, and the records that were shed, with the reason.
\<close>

section \<open>State\<close>

text \<open>
  \<open>MetricsCSVWriter\<close> and \<open>NativeLogsCSVWriter\<close>: the buffer, whether it has the header of the schema, and the number of records that were marshalled, which tells the clock of a record
  from that of another.
\<close>

record csv_writer =
  cw_bytes :: bytes
  cw_headerWritten :: bool
  cw_calls :: nat

record call_env =
  ce_now :: gotime
  ce_env :: "nat \<Rightarrow> env"
  ce_others :: "nat \<Rightarrow> bool \<Rightarrow> wal \<times> world \<Rightarrow> wal \<times> world"
  ce_ctx :: "nat \<Rightarrow> wal_error option"
  ce_repoSize :: int

record store_env =
  se_hash :: hash
  se_idgen :: idgen
  se_codec :: codec
  se_call :: "nat \<Rightarrow> call_env"
  se_pool :: "nat \<Rightarrow> csv_writer"

record 'r local_store =
  ls_repo :: repository
  ls_inflight :: int
  ls_calls :: nat
  ls_written :: "(string \<times> 'r list \<times> bytes) list"
  ls_shed :: "(wal_error \<times> 'r) list"

definition ls_admission :: "'r local_store \<Rightarrow> admission option" where
  "ls_admission s = budgets (w_store (rp_world (ls_repo s)))"

definition set_admission :: "admission \<Rightarrow> 'r local_store \<Rightarrow> 'r local_store" where
  "set_admission a s =
     (let rp = ls_repo s; W = rp_world rp in s\<lparr>ls_repo := rp\<lparr>rp_world := W\<lparr>w_store := (w_store W)\<lparr>budgets := Some a\<rparr>\<rparr>\<rparr>\<rparr>)"

section \<open>Admission\<close>

definition GetWAL :: "store_env \<Rightarrow> string \<Rightarrow> 'r local_store \<Rightarrow> (string + wal) \<times> 'r local_store" where
  "GetWAL e key s = (case repo_Get (se_hash e) key (ls_repo s) of (r, rp) \<Rightarrow> (r, s\<lparr>ls_repo := rp\<rparr>))"

definition preAdmit :: "string \<Rightarrow> 'r local_store \<Rightarrow> wal_error option \<times> 'r local_store" where
  "preAdmit prefix s =
     (case ls_admission s of
        None \<Rightarrow> (None, s)
      | Some a \<Rightarrow>
          (case DestinationFromPrefix prefix of
             (d, Some err) \<Rightarrow> (None, s)
           | (d, None) \<Rightarrow>
               (case Throttled d a of
                  (None, a) \<Rightarrow> (None, set_admission a s)
                | (Some reason, a) \<Rightarrow> (Some (TableOverloadedError d reason (5 * second)), set_admission a s))))"

definition recordRejection :: "store_env \<Rightarrow> wal_error \<Rightarrow> int \<Rightarrow> int \<Rightarrow> 'r local_store \<Rightarrow> 'r local_store" where
  "recordRejection e quota records nbytes s =
     (case (ls_admission s, quota) of
        (Some a, TableOverloadedError d reason after) \<Rightarrow> set_admission (snd (RecordRejection (ce_now (se_call e (ls_calls s))) d records nbytes a)) s
      | _ \<Rightarrow> s)"

definition ls_Size :: "store_env \<Rightarrow> destination list \<Rightarrow> 'r local_store \<Rightarrow> int" where
  "ls_Size e ds s =
     (case ls_admission s of
        Some a \<Rightarrow> Bytes (Usage ds a)
      | None \<Rightarrow> ce_repoSize (se_call e (ls_calls s)) + ls_inflight s + totalSize (w_index (rp_world (ls_repo s))))"

definition diskUsageExceeded :: "store_env \<Rightarrow> wal \<Rightarrow> 'r local_store \<Rightarrow> bool" where
  "diskUsageExceeded e w s =
     (if ls_admission s \<noteq> None then False else ls_Size e [] s > repo_MaxDiskUsage (rp_opts (ls_repo s)) (WPriority (w_opts w)))"

text \<open>The kinds of \<open>overBudget\<close>; \<open>tbls\<close> are the keys with their estimates.\<close>

datatype table_kind = NoDestination | RealtimeTable destination | QueuedTable destination

definition table_kind_of :: "admission \<Rightarrow> string \<Rightarrow> table_kind" where
  "table_kind_of a key =
     (case DestinationFromPrefix key of
        (d, Some err) \<Rightarrow> NoDestination
      | (d, None) \<Rightarrow> if UsesReservation d a then RealtimeTable d else QueuedTable d)"

fun kind_totals :: "admission \<Rightarrow> (string \<times> int) list \<Rightarrow> (destination \<times> int) \<times> (destination \<times> int) \<Rightarrow> (destination \<times> int) \<times> (destination \<times> int)" where
  "kind_totals a [] acc = acc"
| "kind_totals a ((key, n) # ts) ((rd, rt), (qd, queued)) =
     kind_totals a ts
       (case table_kind_of a key of
          NoDestination \<Rightarrow> ((rd, rt), (qd, queued))
        | RealtimeTable d \<Rightarrow> ((d, rt + n), (qd, queued))
        | QueuedTable d \<Rightarrow> ((rd, rt), (d, queued + n)))"

definition no_dest :: destination where
  "no_dest = \<lparr>Database = [], Table = []\<rparr>"

definition overBudget :: "(string \<times> int) list \<Rightarrow> admission option \<Rightarrow> wal_error + bool list option" where
  "overBudget tbls ao =
     (case ao of
        None \<Rightarrow> Inr None
      | Some a \<Rightarrow>
          if FitsAll (sum_list (map snd tbls)) a then Inr None
          else
            case kind_totals a tbls ((no_dest, 0), (no_dest, 0)) of ((realtimeDest, rt), (queuedDest, queued)) \<Rightarrow>
              if rt > 0 \<and> \<not> FitsEstimate realtimeDest rt a then Inl ErrMaxDiskUsageExceeded
              else
                let queuedFits = FitsEstimate queuedDest queued a \<and> (rt = 0 \<or> FitsEstimate realtimeDest (rt + queued) a);
                    full = map (\<lambda>(key, n). (case table_kind_of a key of QueuedTable d \<Rightarrow> \<not> queuedFits | _ \<Rightarrow> False)) tbls
                in if list_all (\<lambda>b. b) full then Inl ErrMaxDiskUsageExceeded else Inr (Some full))"

section \<open>Writing blocks\<close>

definition put_wal :: "store_env \<Rightarrow> string \<Rightarrow> wal \<Rightarrow> world \<Rightarrow> repository \<Rightarrow> repository" where
  "put_wal e key w W rp = rp\<lparr>rp_wals := snd (at_partition (se_hash e) key (\<lambda>m. ((), m(key \<mapsto> w))) (rp_wals rp)), rp_world := W\<rparr>"

text \<open>A call of \<open>Write\<close> on the log of a key; the records \<open>rs\<close> are what the buffer encodes.\<close>

definition store_Write :: "store_env \<Rightarrow> write_options \<Rightarrow> string \<Rightarrow> 'r list \<Rightarrow> bytes \<Rightarrow> 'r local_store \<Rightarrow> wal_error option \<times> 'r local_store" where
  "store_Write e wopts key rs buf s =
     (let c = se_call e (ls_calls s); rp = ls_repo s
      in case map_Get (se_hash e) key (rp_wals rp) of
           None \<Rightarrow> (Some ErrSegmentClosed, s)
         | Some w \<Rightarrow>
             (case wal_Write (se_idgen e) (ce_env c) (ce_others c) (ce_ctx c) (se_codec e) wopts buf w (rp_world rp) of
                (k, err, w, W) \<Rightarrow>
                  (err, s\<lparr>ls_repo := put_wal e key w W rp, ls_calls := Suc (ls_calls s),
                          ls_written := (if err = None then ls_written s @ [(key, rs, buf)] else ls_written s)\<rparr>)))"

datatype block_error = BlockTooLarge | WalError wal_error

definition writeBlock :: "store_env \<Rightarrow> string \<Rightarrow> 'r list \<Rightarrow> bytes \<Rightarrow> 'r local_store \<Rightarrow> block_error option \<times> 'r local_store" where
  "writeBlock e key rs buf s =
     (let (fits, s) =
            (if length rs > 1 then
               (case (DestinationFromPrefix key, ls_admission s) of
                  ((d, None), Some a) \<Rightarrow> (case FitsTable d (int (length buf)) a of (ok, a) \<Rightarrow> (ok, set_admission a s))
                | _ \<Rightarrow> (True, s))
             else (True, s))
      in if \<not> fits then (Some BlockTooLarge, s)
         else case store_Write e [] key rs buf s of (err, s) \<Rightarrow> (map_option WalError err, s))"

definition blockTooLarge :: "wal_error \<Rightarrow> nat \<Rightarrow> bool" where
  "blockTooLarge quota n = (case quota of TableOverloadedError d reason after \<Rightarrow> reason = ''bytes'' \<and> n > 1 | _ \<Rightarrow> False)"

definition is_quota :: "wal_error \<Rightarrow> bool" where
  "is_quota err = (case err of TableOverloadedError d reason after \<Rightarrow> True | _ \<Rightarrow> False)"

text \<open>Shedding records: they are counted and never written.\<close>

definition shed :: "store_env \<Rightarrow> wal_error \<Rightarrow> int \<Rightarrow> int \<Rightarrow> 'r list \<Rightarrow> 'r local_store \<Rightarrow> 'r local_store" where
  "shed e quota records nbytes rs s = (recordRejection e quota records nbytes s)\<lparr>ls_shed := ls_shed s @ map (Pair quota) rs\<rparr>"

definition add_inflight :: "int \<Rightarrow> 'r local_store \<Rightarrow> 'r local_store" where
  "add_inflight n s = s\<lparr>ls_inflight := ls_inflight s + n\<rparr>"

section \<open>Grouping by table\<close>

fun add_record :: "string \<Rightarrow> 'i \<Rightarrow> (string \<times> 'i list) list \<Rightarrow> (string \<times> 'i list) list" where
  "add_record key i [] = [(key, [i])]"
| "add_record key i ((k, is) # ts) = (if k = key then (k, is @ [i]) # ts else (k, is) # add_record key i ts)"

section \<open>Marshalling\<close>

definition bytes_of_string :: "string \<Rightarrow> bytes" where
  "bytes_of_string cs = map (\<lambda>c. of_nat (of_char c)) cs"

text \<open>The schema of a writer and the rows it writes for a record, with whether it succeeded; rows may depend on the clock.\<close>

record 'r encoder =
  en_schema :: schema_mapping
  en_rows :: "nat \<Rightarrow> 'r \<Rightarrow> bytes \<times> bool"

definition writer_Reset :: "csv_writer \<Rightarrow> csv_writer" where
  "writer_Reset w = w\<lparr>cw_bytes := [], cw_headerWritten := False\<rparr>"

definition Marshal :: "'r encoder \<Rightarrow> 'r \<Rightarrow> csv_writer \<Rightarrow> bool \<times> csv_writer" where
  "Marshal enc r w =
     (let w = (if cw_headerWritten w then w
               else w\<lparr>cw_bytes := cw_bytes w @ bytes_of_string (AppendCSVHeader [] (en_schema enc)), cw_headerWritten := True\<rparr>)
      in case en_rows enc (cw_calls w) r of (rows, ok) \<Rightarrow> (ok, w\<lparr>cw_bytes := cw_bytes w @ rows, cw_calls := Suc (cw_calls w)\<rparr>))"

fun marshal_all :: "'r encoder \<Rightarrow> 'r list \<Rightarrow> csv_writer \<Rightarrow> bool \<times> csv_writer" where
  "marshal_all enc [] w = (True, w)"
| "marshal_all enc (r # rs) w = (case Marshal enc r w of (False, w) \<Rightarrow> (False, w) | (True, w) \<Rightarrow> marshal_all enc rs w)"

text \<open>What a block should hold: the header of the schema once, and then the rows of its records in order.\<close>

fun rows_from :: "'r encoder \<Rightarrow> nat \<Rightarrow> 'r list \<Rightarrow> bytes option" where
  "rows_from enc n [] = Some []"
| "rows_from enc n (r # rs) = (case en_rows enc n r of (rows, ok) \<Rightarrow> if ok then map_option ((@) rows) (rows_from enc (Suc n) rs) else None)"

definition block_of :: "'r encoder \<Rightarrow> 'r list \<Rightarrow> bytes \<Rightarrow> bool" where
  "block_of enc rs buf \<longleftrightarrow>
     (\<exists>n rows. rows_from enc n rs = Some rows \<and> buf = (if rs = [] then [] else bytes_of_string (AppendCSVHeader [] (en_schema enc))) @ rows)"

lemma marshal_rows:
  "cw_headerWritten w \<Longrightarrow> marshal_all enc rs w = (True, w') \<Longrightarrow> \<exists>rows. rows_from enc (cw_calls w) rs = Some rows \<and> cw_bytes w' = cw_bytes w @ rows"
proof (induction rs arbitrary: w)
  case (Cons r rs)
  obtain b ok where r: "en_rows enc (cw_calls w) r = (b, ok)" by (rule prod.exhaust)
  then have m: "Marshal enc r w = (ok, w\<lparr>cw_bytes := cw_bytes w @ b, cw_calls := Suc (cw_calls w)\<rparr>)" using Cons.prems(1) by (simp add: Marshal_def)
  have ok: "ok" using Cons.prems(2) m by (cases ok) simp_all
  show ?case using Cons.IH [of "w\<lparr>cw_bytes := cw_bytes w @ b, cw_calls := Suc (cw_calls w)\<rparr>"] Cons.prems m ok r by auto
qed simp

text \<open>A writer that was reset gives such a block.\<close>

lemma marshal_block:
  assumes "marshal_all enc rs (writer_Reset w) = (True, w')"
  shows "block_of enc rs (cw_bytes w')"
proof (cases "rs = []")
  case True
  then show ?thesis using assms by (auto simp: block_of_def writer_Reset_def)
next
  case False
  let ?h = "bytes_of_string (AppendCSVHeader [] (en_schema enc))"
  let ?w = "w\<lparr>cw_bytes := ?h, cw_headerWritten := True\<rparr>"
  have "Marshal enc r (writer_Reset w) = Marshal enc r ?w" for r by (simp add: Marshal_def writer_Reset_def Let_def)
  then have "marshal_all enc rs ?w = (True, w')" using assms False by (cases rs) simp_all
  then show ?thesis using marshal_rows [of ?w enc rs w'] False by (auto simp: block_of_def)
qed

lemma marshal_one: "Marshal enc r (writer_Reset w) = (True, w') \<Longrightarrow> block_of enc [r] (cw_bytes w')"
  using marshal_block [of enc "[r]" w w'] by simp

text \<open>\<open>strconv.AppendUint(key, hash, 36)\<close>.\<close>

definition base36_digit :: "nat \<Rightarrow> char" where
  "base36_digit n = char_of (if n < 10 then 48 + n else 87 + n)"

fun base36 :: "nat \<Rightarrow> string" where
  "base36 n = (if n < 36 then [base36_digit n] else base36 (n div 36) @ [base36_digit (n mod 36)])"

declare base36.simps [simp del]

section \<open>Outcomes\<close>

datatype 'r write_result =
    WriteOK
  | WriteOutcome int int "'r list"
  | PartialWrite "nat list" wal_error
  | WriteFailed wal_error

definition finish_write :: "int \<Rightarrow> int \<Rightarrow> 'r list \<Rightarrow> 'r write_result" where
  "finish_write accepted rejected rs = (if rejected > 0 then WriteOutcome accepted rejected rs else WriteOK)"

section \<open>Native logs\<close>

record 'a native_log =
  log_database :: string
  log_table :: string
  log_rest :: 'a

definition log_key :: "nat \<Rightarrow> 'a native_log \<Rightarrow> string option" where
  "log_key schemaHash l =
     (let db = NormalizeAdxIdentifier (log_database l); tbl = NormalizeAdxIdentifier (log_table l)
      in if log_database l = [] \<or> db = [] \<or> log_table l = [] \<or> tbl = [] then None
         else Some (db @ ''_'' @ tbl @ ''_'' @ base36 schemaHash))"

fun group_logs :: "nat \<Rightarrow> (nat \<times> 'a native_log) list \<Rightarrow> (string \<times> (nat \<times> 'a native_log) list) list \<Rightarrow> (string \<times> (nat \<times> 'a native_log) list) list" where
  "group_logs h [] ts = ts"
| "group_logs h (i # is) ts = group_logs h is (case log_key h (snd i) of None \<Rightarrow> ts | Some key \<Rightarrow> add_record key i ts)"

definition pending :: "(string \<times> (nat \<times> 'r) list) list \<Rightarrow> nat list" where
  "pending ts = concat (map (map fst \<circ> snd) ts)"

text \<open>\<open>writeEachLog\<close>: the counts, and on an error the logs from the one that failed on.\<close>

fun writeEachLog ::
  "store_env \<Rightarrow> 'r encoder \<Rightarrow> csv_writer \<Rightarrow> string \<Rightarrow> (nat \<times> 'r) list \<Rightarrow> int \<Rightarrow> int \<Rightarrow> 'r local_store \<Rightarrow>
   int \<times> int \<times> (nat list \<times> wal_error) option \<times> csv_writer \<times> 'r local_store"
where
  "writeEachLog e enc cw key [] acc rej s = (acc, rej, None, cw, s)"
| "writeEachLog e enc cw key (i # is) acc rej s =
     (case Marshal enc (snd i) (writer_Reset cw) of
        (False, cw) \<Rightarrow> (acc, rej, Some (map fst (i # is), ErrOther ''marshal''), cw, s)
      | (True, cw) \<Rightarrow>
          (case store_Write e [] key [snd i] (cw_bytes cw) s of
             (None, s) \<Rightarrow> writeEachLog e enc cw key is (acc + 1) rej s
           | (Some err, s) \<Rightarrow>
               if is_quota err then writeEachLog e enc cw key is acc (rej + 1) (shed e err 1 (int (length (cw_bytes cw))) [snd i] s)
               else (acc, rej, Some (map fst (i # is), err), cw, s)))"

definition storage_full :: "wal_error \<Rightarrow> bool" where
  "storage_full err \<longleftrightarrow> err = ErrMaxDiskUsageExceeded \<or> err = ErrMaxSegmentsExceeded"

fun native_loop ::
  "store_env \<Rightarrow> 'r encoder \<Rightarrow> csv_writer \<Rightarrow> (string \<times> (nat \<times> 'r) list) list \<Rightarrow> int \<Rightarrow> int \<Rightarrow> 'r local_store \<Rightarrow> 'r write_result \<times> 'r local_store"
where
  "native_loop e enc cw [] acc rej s = (finish_write acc rej [], s)"
| "native_loop e enc cw ((key, is) # ts) acc rej s =
     (let n = int (length is)
      in case preAdmit key s of
           (Some quota, s) \<Rightarrow> native_loop e enc cw ts acc (rej + n) (shed e quota n 0 (map snd is) s)
         | (None, s) \<Rightarrow>
             (case GetWAL e key s of
                (Inl err, s) \<Rightarrow> (WriteFailed (ErrOther err), s)
              | (Inr w, s) \<Rightarrow>
                  (case marshal_all enc (map snd is) (writer_Reset cw) of
                     (False, cw) \<Rightarrow> (WriteFailed (ErrOther ''marshal''), s)
                   | (True, cw) \<Rightarrow>
                       let buf = cw_bytes cw; size = int (length buf); s = add_inflight size s
                       in if diskUsageExceeded e w s
                          then (PartialWrite (pending ((key, is) # ts)) ErrMaxDiskUsageExceeded, add_inflight (- size) s)
                          else
                            (case writeBlock e key (map snd is) buf s of
                               (None, s) \<Rightarrow> native_loop e enc cw ts (acc + n) rej (add_inflight (- size) s)
                             | (Some err, s) \<Rightarrow>
                                 let s = add_inflight (- size) s
                                 in if (case err of BlockTooLarge \<Rightarrow> True | WalError we \<Rightarrow> blockTooLarge we (length is)) then
                                      (case writeEachLog e enc cw key is 0 0 s of
                                         (a, r, None, cw, s) \<Rightarrow> native_loop e enc cw ts (acc + a) (rej + r) s
                                       | (a, r, Some (unwritten, we), cw, s) \<Rightarrow>
                                           if storage_full we then (PartialWrite (unwritten @ pending ts) we, s) else (WriteFailed we, s))
                                    else
                                      (case err of
                                         BlockTooLarge \<Rightarrow> (WriteFailed (ErrOther ''unreachable''), s)
                                       | WalError we \<Rightarrow>
                                           if is_quota we then native_loop e enc cw ts acc (rej + n) (shed e we n size (map snd is) s)
                                           else if storage_full we then (PartialWrite (pending ((key, is) # ts)) we, s)
                                           else (WriteFailed we, s))))))"

definition WriteNativeLogs :: "store_env \<Rightarrow> 'a native_log encoder \<Rightarrow> nat \<Rightarrow> 'a native_log list \<Rightarrow> 'a native_log local_store \<Rightarrow>
    'a native_log write_result \<times> 'a native_log local_store" where
  "WriteNativeLogs e enc schemaHash logs s = native_loop e enc (se_pool e (ls_calls s)) (group_logs schemaHash (List.enumerate 0 logs) []) 0 0 s"

section \<open>Time series\<close>

definition string_of_bytes :: "bytes \<Rightarrow> string" where
  "string_of_bytes bs = map (\<lambda>b. char_of (unat b)) bs"

fun segment_key_loop :: "label list \<Rightarrow> bytes \<Rightarrow> bytes \<Rightarrow> bytes \<times> bytes" where
  "segment_key_loop [] name database = (name, database)"
| "segment_key_loop (l # ls) name database =
     (if lname l = bytes_of_string ''adxmon_database'' then
        (if name \<noteq> [] then (name, lvalue l) else segment_key_loop ls name (lvalue l))
      else if lname l = bytes_of_string ''__name__'' then
        (if database \<noteq> [] then (lvalue l, database) else segment_key_loop ls (lvalue l) database)
      else segment_key_loop ls name database)"

definition SegmentKey :: "string \<Rightarrow> 'a WriteRequest \<Rightarrow> 'a TimeSeries \<Rightarrow> nat \<Rightarrow> string + string" where
  "SegmentKey dst req series schemaHash =
     (case segment_key_loop (req_Labels req series) [] [] of (name, database) \<Rightarrow>
        if database = [] then Inl ''database label not found''
        else if name = [] then Inl ''name label not found''
        else Inr (AppendNormalizeMetricName (AppendNormalizeAdxIdentifier dst (string_of_bytes database) @ ''_'') (string_of_bytes name) @ ''_'' @ base36 schemaHash))"

definition seriesEstimate :: "'a WriteRequest \<Rightarrow> 'a TimeSeries \<Rightarrow> int" where
  "seriesEstimate req v =
     int (length (ts_Samples v)) * (sum_list (map (\<lambda>l. int (length (lname l)) + int (length (lvalue l)) + 6) (req_Labels req v)) + 64)"

definition sample_count :: "'a TimeSeries list \<Rightarrow> int" where
  "sample_count vs = sum_list (map (\<lambda>v. int (length (ts_Samples v))) vs)"

fun group_series :: "'a WriteRequest \<Rightarrow> nat \<Rightarrow> 'a TimeSeries list \<Rightarrow> (string \<times> 'a TimeSeries list) list \<Rightarrow> string + (string \<times> 'a TimeSeries list) list" where
  "group_series req h [] ts = Inr ts"
| "group_series req h (v # vs) ts = (case SegmentKey [] req v h of Inl err \<Rightarrow> Inl err | Inr key \<Rightarrow> group_series req h vs (add_record key v ts))"

definition queuedBudgetFull :: "string \<Rightarrow> wal_error" where
  "queuedBudgetFull key = TableOverloadedError (fst (DestinationFromPrefix key)) ''queued_budget'' 0"

text \<open>The tables that fit come first; the others carry the rejection that is recorded when their write does not fit.\<close>

definition order_tables :: "(string \<times> 'v list) list \<Rightarrow> bool list option \<Rightarrow> (string \<times> 'v list \<times> wal_error option) list" where
  "order_tables ts mayNotFit =
     (case mayNotFit of
        None \<Rightarrow> map (\<lambda>(key, vs). (key, vs, None)) ts
      | Some bs \<Rightarrow>
          map (\<lambda>((key, vs), b). (key, vs, None)) (filter (\<lambda>x. \<not> snd x) (zip ts bs)) @
          map (\<lambda>((key, vs), b). (key, vs, Some (queuedBudgetFull key))) (filter snd (zip ts bs)))"

text \<open>The quota that a refused write counts against, if the request goes on.\<close>

definition shed_reason :: "wal_error option \<Rightarrow> wal_error \<Rightarrow> wal_error option" where
  "shed_reason full err = (if is_quota err then Some err else if full \<noteq> None \<and> err = ErrMaxDiskUsageExceeded then full else None)"

fun writeEachSeries ::
  "store_env \<Rightarrow> 'a TimeSeries encoder \<Rightarrow> csv_writer \<Rightarrow> string \<Rightarrow> 'a TimeSeries list \<Rightarrow> wal_error option \<Rightarrow> int \<Rightarrow> 'a TimeSeries list \<Rightarrow>
   'a TimeSeries local_store \<Rightarrow> int \<times> 'a TimeSeries list \<times> wal_error option \<times> csv_writer \<times> 'a TimeSeries local_store"
where
  "writeEachSeries e enc cw key [] full acc rej s = (acc, rej, None, cw, s)"
| "writeEachSeries e enc cw key (v # vs) full acc rej s =
     (case Marshal enc v (writer_Reset cw) of
        (False, cw) \<Rightarrow> (acc, rej, Some (ErrOther ''marshal''), cw, s)
      | (True, cw) \<Rightarrow>
          (case store_Write e [] key [v] (cw_bytes cw) s of
             (None, s) \<Rightarrow> writeEachSeries e enc cw key vs full (acc + int (length (ts_Samples v))) rej s
           | (Some err, s) \<Rightarrow>
               (case shed_reason full err of
                  None \<Rightarrow> (acc, rej, Some err, cw, s)
                | Some quota \<Rightarrow>
                    writeEachSeries e enc cw key vs full acc (rej @ [v]) (shed e quota (int (length (ts_Samples v))) (int (length (cw_bytes cw))) [v] s))))"

fun series_loop ::
  "store_env \<Rightarrow> 'a TimeSeries encoder \<Rightarrow> csv_writer \<Rightarrow> (string \<times> 'a TimeSeries list \<times> wal_error option) list \<Rightarrow> int \<Rightarrow> int \<Rightarrow> 'a TimeSeries list \<Rightarrow>
   'a TimeSeries local_store \<Rightarrow> 'a TimeSeries write_result \<times> 'a TimeSeries local_store"
where
  "series_loop e enc cw [] acc rej rs s = (finish_write acc rej rs, s)"
| "series_loop e enc cw ((key, vs, full) # ts) acc rej rs s =
     (let samples = sample_count vs
      in case preAdmit key s of
           (Some quota, s) \<Rightarrow> series_loop e enc cw ts acc (rej + samples) (rs @ vs) (shed e quota samples 0 vs s)
         | (None, s) \<Rightarrow>
             (case GetWAL e key s of
                (Inl err, s) \<Rightarrow> (WriteFailed (ErrOther err), s)
              | (Inr w, s) \<Rightarrow>
                  (case marshal_all enc vs (writer_Reset cw) of
                     (False, cw) \<Rightarrow> (WriteFailed (ErrOther ''marshal''), s)
                   | (True, cw) \<Rightarrow>
                       let buf = cw_bytes cw; n = int (length buf); s = add_inflight n s
                       in if diskUsageExceeded e w s then (WriteFailed ErrMaxDiskUsageExceeded, add_inflight (- n) s)
                          else
                            (case writeBlock e key vs buf s of
                               (None, s) \<Rightarrow> series_loop e enc cw ts (acc + samples) rej rs (add_inflight (- n) s)
                             | (Some err, s) \<Rightarrow>
                                 let s = add_inflight (- n) s
                                 in if (case err of BlockTooLarge \<Rightarrow> True | WalError we \<Rightarrow> blockTooLarge we (length vs)) then
                                      (case writeEachSeries e enc cw key vs full 0 [] s of
                                         (a, r, None, cw, s) \<Rightarrow> series_loop e enc cw ts (acc + a) (rej + sample_count r) (rs @ r) s
                                       | (a, r, Some we, cw, s) \<Rightarrow> (WriteFailed we, s))
                                    else
                                      (case err of
                                         BlockTooLarge \<Rightarrow> (WriteFailed (ErrOther ''unreachable''), s)
                                       | WalError we \<Rightarrow>
                                           (case shed_reason full we of
                                              None \<Rightarrow> (WriteFailed we, s)
                                            | Some quota \<Rightarrow> series_loop e enc cw ts acc (rej + samples) (rs @ vs) (shed e quota samples n vs s)))))))"

definition WriteTimeSeries ::
  "store_env \<Rightarrow> ('a WriteRequest \<Rightarrow> 'a TimeSeries encoder) \<Rightarrow> nat \<Rightarrow> 'a WriteRequest \<Rightarrow> 'a TimeSeries local_store \<Rightarrow>
   'a TimeSeries write_result \<times> 'a TimeSeries local_store"
where
  "WriteTimeSeries e enc h req s =
     (case group_series req h (Timeseries req) [] of
        Inl err \<Rightarrow> (WriteFailed (ErrOther err), s)
      | Inr ts \<Rightarrow>
          (case overBudget (map (\<lambda>(key, vs). (key, sum_list (map (seriesEstimate req) vs))) ts) (ls_admission s) of
             Inl err \<Rightarrow> (WriteFailed err, s)
           | Inr mayNotFit \<Rightarrow> series_loop e (enc req) (se_pool e (ls_calls s)) (order_tables ts mayNotFit) 0 0 [] s))"

section \<open>OTLP logs\<close>

text \<open>\<open>MarshalLog\<close> of a whole batch on the writer is the argument \<open>enc\<close>.\<close>

definition WriteOTLPLogs ::
  "store_env \<Rightarrow> ('r list \<Rightarrow> csv_writer \<Rightarrow> bool \<times> csv_writer) \<Rightarrow> string \<Rightarrow> string \<Rightarrow> 'r list \<Rightarrow> 'r local_store \<Rightarrow> 'r write_result \<times> 'r local_store"
where
  "WriteOTLPLogs e enc database tbl logs s =
     (let db = NormalizeAdxIdentifier database; tb = NormalizeAdxIdentifier tbl; key = db @ ''_'' @ tb; n = int (length logs)
      in if db = [] \<or> tb = [] then (WriteOK, s)
         else case preAdmit key s of
           (Some quota, s) \<Rightarrow> (WriteOutcome 0 n [], shed e quota n 0 logs s)
         | (None, s) \<Rightarrow>
             (case GetWAL e key s of
                (Inl err, s) \<Rightarrow> (WriteFailed (ErrOther err), s)
              | (Inr w, s) \<Rightarrow>
                  (case enc logs (writer_Reset (se_pool e (ls_calls s))) of
                     (False, cw) \<Rightarrow> (WriteFailed (ErrOther ''marshal''), s)
                   | (True, cw) \<Rightarrow>
                       let buf = cw_bytes cw; m = int (length buf); s = add_inflight m s
                       in if diskUsageExceeded e w s then (WriteFailed ErrMaxDiskUsageExceeded, add_inflight (- m) s)
                          else
                            (case store_Write e [(LogSampleType, of_nat (length logs))] key logs buf s of
                               (None, s) \<Rightarrow> (WriteOK, add_inflight (- m) s)
                             | (Some err, s) \<Rightarrow>
                                 if is_quota err then (WriteOutcome 0 n [], add_inflight (- m) (shed e err n m logs s))
                                 else (WriteFailed err, add_inflight (- m) s)))))"

section \<open>The sink of the collector\<close>

text \<open>\<open>SplitOutcome\<close> on these results: shed records are not a failure.\<close>

definition write_failure :: "'r write_result \<Rightarrow> bool" where
  "write_failure r = (case r of WriteOK \<Rightarrow> False | WriteOutcome a n rs \<Rightarrow> False | _ \<Rightarrow> True)"

text \<open>
  \<open>waitForStorage\<close>. Each element of \<open>waits\<close> is the result of one \<open>select\<close>: \<open>True\<close> when \<open>stop\<close> was done, \<open>False\<close> when the timer fired. \<open>None\<close> is a call that still waits.
\<close>

fun waitForStorage ::
  "store_env \<Rightarrow> 'a native_log encoder \<Rightarrow> nat \<Rightarrow> bool list \<Rightarrow> 'a native_log list \<Rightarrow> 'a native_log write_result \<Rightarrow>
   'a native_log local_store \<Rightarrow> ('a native_log write_result \<times> 'a native_log local_store) option"
where
  "waitForStorage e enc h waits remaining r s =
     (case r of
        PartialWrite pend err \<Rightarrow>
          (case waits of
             [] \<Rightarrow> None
           | True # ws \<Rightarrow> Some (r, s)
           | False # ws \<Rightarrow>
               (let unwritten = map ((!) remaining) pend
                in case WriteNativeLogs e enc h unwritten s of (r, s) \<Rightarrow> waitForStorage e enc h ws unwritten r s))
      | _ \<Rightarrow> Some (r, s))"

text \<open>Whether the batch was acknowledged comes first.\<close>

definition sink_Send ::
  "store_env \<Rightarrow> 'a native_log encoder \<Rightarrow> nat \<Rightarrow> bool list option \<Rightarrow> 'a native_log list \<Rightarrow> 'a native_log local_store \<Rightarrow>
   (bool \<times> 'a native_log write_result \<times> 'a native_log local_store) option"
where
  "sink_Send e enc h stop logs s =
     (case WriteNativeLogs e enc h logs s of (r, s) \<Rightarrow>
      map_option (\<lambda>(r, s). (\<not> write_failure r, r, s))
        (case stop of None \<Rightarrow> Some (r, s) | Some waits \<Rightarrow> waitForStorage e enc h waits logs r s))"

section \<open>Every record is written once or shed once\<close>

text \<open>
  From one state to a later one: blocks were accepted that encode their records under the key of these records, the records \<open>w\<close> in all; and the records \<open>d\<close> were shed because a
  table was over its budget. Nothing that was written or shed before is touched.
\<close>

definition settles_records ::
  "'r encoder \<Rightarrow> ('r \<Rightarrow> string option) \<Rightarrow> 'r local_store \<Rightarrow> 'r local_store \<Rightarrow> 'r multiset \<Rightarrow> 'r multiset \<Rightarrow> bool"
where
  "settles_records enc kf s s' w d \<longleftrightarrow>
     (\<exists>blocks. ls_written s' = ls_written s @ blocks \<and> mset (concat (map (fst \<circ> snd) blocks)) = w \<and>
        (\<forall>(key, rs, buf)\<in>set blocks. block_of enc rs buf \<and> (\<forall>r\<in>set rs. kf r = Some key))) \<and>
     (\<exists>shed. ls_shed s' = ls_shed s @ shed \<and> mset (map snd shed) = d \<and> (\<forall>(quota, r)\<in>set shed. is_quota quota))"

lemma settles_frame:
  "ls_written s' = ls_written s \<Longrightarrow> ls_shed s' = ls_shed s \<Longrightarrow> settles_records enc kf s s' {#} {#}"
  by (simp add: settles_records_def)

lemma settles_trans:
  assumes "settles_records enc kf s1 s2 w d" "settles_records enc kf s2 s3 w' d'"
  shows "settles_records enc kf s1 s3 (w + w') (d + d')"
proof -
  from assms(1) obtain b1 h1 where 1: "ls_written s2 = ls_written s1 @ b1" "mset (concat (map (fst \<circ> snd) b1)) = w" "ls_shed s2 = ls_shed s1 @ h1" "mset (map snd h1) = d"
    "\<forall>(key, rs, buf)\<in>set b1. block_of enc rs buf \<and> (\<forall>r\<in>set rs. kf r = Some key)" "\<forall>(quota, r)\<in>set h1. is_quota quota"
    unfolding settles_records_def by blast
  from assms(2) obtain b2 h2 where 2: "ls_written s3 = ls_written s2 @ b2" "mset (concat (map (fst \<circ> snd) b2)) = w'" "ls_shed s3 = ls_shed s2 @ h2" "mset (map snd h2) = d'"
    "\<forall>(key, rs, buf)\<in>set b2. block_of enc rs buf \<and> (\<forall>r\<in>set rs. kf r = Some key)" "\<forall>(quota, r)\<in>set h2. is_quota quota"
    unfolding settles_records_def by blast
  have "ls_written s3 = ls_written s1 @ (b1 @ b2)" "mset (concat (map (fst \<circ> snd) (b1 @ b2))) = w + w'"
    "\<forall>(key, rs, buf)\<in>set (b1 @ b2). block_of enc rs buf \<and> (\<forall>r\<in>set rs. kf r = Some key)"
    using 1(1,2,5) 2(1,2,5) by auto
  moreover have "ls_shed s3 = ls_shed s1 @ (h1 @ h2)" "mset (map snd (h1 @ h2)) = d + d'" "\<forall>(quota, r)\<in>set (h1 @ h2). is_quota quota"
    using 1(3,4,6) 2(3,4,6) by auto
  ultimately show ?thesis unfolding settles_records_def by blast
qed

text \<open>Steps in front of or behind others that settle nothing.\<close>

lemma settles_after:
  "settles_records enc kf s2 s3 w d \<Longrightarrow> ls_written s2 = ls_written s1 \<Longrightarrow> ls_shed s2 = ls_shed s1 \<Longrightarrow> settles_records enc kf s1 s3 w d"
  by (simp add: settles_records_def)

lemma frame_simps [simp]:
  "ls_written (set_admission a s) = ls_written s" "ls_shed (set_admission a s) = ls_shed s"
  "ls_written (add_inflight n s) = ls_written s" "ls_shed (add_inflight n s) = ls_shed s"
  "ls_written (recordRejection e q m n s) = ls_written s" "ls_shed (recordRejection e q m n s) = ls_shed s"
  by (simp_all add: set_admission_def add_inflight_def recordRejection_def Let_def split: option.splits wal_error.splits)

lemma preAdmit_frame:
  assumes "preAdmit key s = (q, s')"
  shows "ls_written s' = ls_written s \<and> ls_shed s' = ls_shed s \<and> (\<forall>quota. q = Some quota \<longrightarrow> is_quota quota)"
  using assms by (auto simp: preAdmit_def is_quota_def split: option.splits prod.splits)

lemma GetWAL_frame:
  assumes "GetWAL e key s = (r, s')" shows "ls_written s' = ls_written s \<and> ls_shed s' = ls_shed s"
  using assms by (auto simp: GetWAL_def split: prod.splits)

lemma store_Write_settles:
  assumes "store_Write e wopts key rs buf s = (err, s')" "block_of enc rs buf" "\<forall>r\<in>set rs. kf r = Some key"
  shows "settles_records enc kf s s' (if err = None then mset rs else {#}) {#}"
  using assms by (auto simp: store_Write_def settles_records_def Let_def split: option.splits prod.splits)

lemma writeBlock_settles:
  assumes "writeBlock e key rs buf s = (err, s')" "block_of enc rs buf" "\<forall>r\<in>set rs. kf r = Some key"
  shows "settles_records enc kf s s' (if err = None then mset rs else {#}) {#}"
proof -
  define p where "p = (if length rs > 1 then
               (case (DestinationFromPrefix key, ls_admission s) of
                  ((d, None), Some a) \<Rightarrow> (case FitsTable d (int (length buf)) a of (ok, a) \<Rightarrow> (ok, set_admission a s))
                | _ \<Rightarrow> (True, s))
             else (True, s))"
  obtain fits s1 where p: "p = (fits, s1)" by (rule prod.exhaust)
  have f: "ls_written s1 = ls_written s" "ls_shed s1 = ls_shed s"
    using p by (auto simp: p_def split: if_splits prod.splits option.splits)
  obtain err2 s2 where w: "store_Write e [] key rs buf s1 = (err2, s2)" by (rule prod.exhaust)
  have eq: "writeBlock e key rs buf s = (if \<not> fits then (Some BlockTooLarge, s1) else (map_option WalError err2, s2))"
    unfolding writeBlock_def p_def [symmetric] Let_def by (simp add: p w)
  show ?thesis
  proof (cases fits)
    case True
    then have "err = map_option WalError err2" "s' = s2" using assms(1) eq by auto
    then show ?thesis using settles_after [OF store_Write_settles [OF w assms(2,3)] f] by simp
  next
    case False
    then show ?thesis using assms(1) eq f settles_frame [of s' s] by auto
  qed
qed

lemma shed_settles: "is_quota quota \<Longrightarrow> settles_records enc kf s (shed e quota m n rs s) {#} (mset rs)"
  by (auto simp: shed_def settles_records_def multiset.map_comp comp_def)

lemma writeEachLog_settles:
  assumes "writeEachLog e enc cw key is acc rej s = (a, r, res, cw', s')" "\<forall>i\<in>set is. kf (snd i) = Some key"
  shows "\<exists>w d. settles_records enc kf s s' w d \<and> a = acc + int (size w) \<and> r = rej + int (size d) \<and>
    (case res of None \<Rightarrow> w + d = mset (map snd is)
     | Some (unwritten, err) \<Rightarrow> \<exists>settled rest. is = settled @ rest \<and> unwritten = map fst rest \<and> w + d = mset (map snd settled))"
  using assms
proof (induction "is" arbitrary: cw acc rej s)
  case Nil
  then show ?case by (intro exI [of _ "{#}"]) (simp add: settles_frame)
next
  case (Cons i "is")
  have stop: ?case if "(a, r, res, s') = (acc, rej, Some (map fst (i # is), err), s1)" "ls_written s1 = ls_written s" "ls_shed s1 = ls_shed s" for err s1
    using that by (intro exI [of _ "{#}"]) (auto simp: settles_frame intro!: exI [of _ "[]"])
  obtain ok cw1 where m: "Marshal enc (snd i) (writer_Reset cw) = (ok, cw1)" by (rule prod.exhaust)
  let ?buf = "cw_bytes cw1"
  show ?case
  proof (cases ok)
    case False
    then have "(a, r, res, s') = (acc, rej, Some (map fst (i # is), ErrOther ''marshal''), s)" using Cons.prems(1) m by simp
    then show ?thesis by (rule stop) simp_all
  next
    case ok: True
    obtain err s1 where wr: "store_Write e [] key [snd i] ?buf s = (err, s1)" by (rule prod.exhaust)
    have enc: "block_of enc [snd i] ?buf" using m ok by (auto intro: marshal_one)
    have st: "settles_records enc kf s s1 (if err = None then {#snd i#} else {#}) {#}"
      using store_Write_settles [OF wr enc, of kf] Cons.prems(2) by (cases err) simp_all
    have step: ?thesis if run: "writeEachLog e enc cw1 key is (acc + int (size w1)) (rej + int (size d1)) s2 = (a, r, res, cw', s')"
      and s2: "settles_records enc kf s s2 w1 d1" and one: "w1 + d1 = {#snd i#}" for w1 d1 s2
    proof -
      obtain w d where h: "settles_records enc kf s2 s' w d" "a = acc + int (size w1) + int (size w)" "r = rej + int (size d1) + int (size d)"
        "case res of None \<Rightarrow> w + d = mset (map snd is)
         | Some (unwritten, err) \<Rightarrow> \<exists>settled rest. is = settled @ rest \<and> unwritten = map fst rest \<and> w + d = mset (map snd settled)"
        using Cons.IH [OF run] Cons.prems(2) by auto
      have sum: "(w1 + w) + (d1 + d) = add_mset (snd i) (w + d)" using one by (metis add.assoc add.left_commute add_mset_add_single add.commute)
      show ?thesis
      proof (intro exI conjI)
        show "settles_records enc kf s s' (w1 + w) (d1 + d)" by (rule settles_trans [OF s2 h(1)])
        show "a = acc + int (size (w1 + w))" "r = rej + int (size (d1 + d))" using h(2,3) by simp_all
        show "case res of None \<Rightarrow> w1 + w + (d1 + d) = mset (map snd (i # is))
          | Some (unwritten, err) \<Rightarrow> \<exists>settled rest. i # is = settled @ rest \<and> unwritten = map fst rest \<and> w1 + w + (d1 + d) = mset (map snd settled)"
        proof (cases res)
          case None
          then show ?thesis using h(4) sum by simp
        next
          case (Some p)
          obtain unwritten err where p: "p = (unwritten, err)" by (rule prod.exhaust)
          then obtain settled rest where "is = settled @ rest" "unwritten = map fst rest" "w + d = mset (map snd settled)" using h(4) Some by auto
          then have "\<exists>settled' rest'. i # is = settled' @ rest' \<and> unwritten = map fst rest' \<and> w1 + w + (d1 + d) = mset (map snd settled')"
            using sum by (intro exI [of _ "i # settled"] exI [of _ rest]) simp
          then show ?thesis using Some p by simp
        qed
      qed
    qed
    show ?thesis
    proof (cases err)
      case None
      then show ?thesis using step [of "{#snd i#}" "{#}" s1] st Cons.prems(1) m ok wr by simp
    next
      case (Some we)
      have s1: "ls_written s1 = ls_written s" "ls_shed s1 = ls_shed s"
        using wr Some by (auto simp: store_Write_def Let_def split: option.splits prod.splits)
      show ?thesis
      proof (cases "is_quota we")
        case True
        have "settles_records enc kf s (shed e we 1 (int (length ?buf)) [snd i] s1) {#} {#snd i#}"
          using settles_after [OF shed_settles [OF True, of enc kf s1 e 1 "int (length ?buf)" "[snd i]"] s1] by simp
        then show ?thesis using step [of "{#}" "{#snd i#}"] Cons.prems(1) m ok wr Some True by simp
      next
        case False
        then have "(a, r, res, s') = (acc, rej, Some (map fst (i # is), we), s1)" using Cons.prems(1) m ok wr Some by simp
        then show ?thesis using s1 by (rule stop)
      qed
    qed
  qed
qed

text \<open>The same for a whole request; \<open>records ts\<close> are its records, table by table.\<close>

definition records :: "(string \<times> (nat \<times> 'r) list) list \<Rightarrow> (nat \<times> 'r) list" where
  "records ts = concat (map snd ts)"

lemma records_simps [simp]: "records [] = []" "records ((key, is) # ts) = is @ records ts"
  by (simp_all add: records_def)

lemma pending_records: "pending ts = map fst (records ts)"
  by (simp add: pending_def records_def map_concat comp_def)

definition result_ok :: "int \<Rightarrow> int \<Rightarrow> (nat \<times> 'r) list \<Rightarrow> 'r multiset \<Rightarrow> 'r multiset \<Rightarrow> 'r write_result \<Rightarrow> bool" where
  "result_ok acc rej is w d res =
     (case res of
        WriteOK \<Rightarrow> w + d = mset (map snd is) \<and> rej + int (size d) \<le> 0
      | WriteOutcome a r rs \<Rightarrow> w + d = mset (map snd is) \<and> a = acc + int (size w) \<and> r = rej + int (size d)
      | PartialWrite p err \<Rightarrow> storage_full err \<and> (\<exists>settled rest. is = settled @ rest \<and> p = map fst rest \<and> w + d = mset (map snd settled))
      | WriteFailed err \<Rightarrow> w + d \<subseteq># mset (map snd is))"

lemma result_ok_step:
  assumes "result_ok (acc + int (size w1)) (rej + int (size d1)) is w d res" "w1 + d1 = mset (map snd js)"
  shows "result_ok acc rej (js @ is) (w1 + w) (d1 + d) res"
proof -
  have sum: "(w1 + w) + (d1 + d) = mset (map snd js) + (w + d)" using assms(2) by (metis add.assoc add.left_commute)
  show ?thesis
  proof (cases res)
    case (PartialWrite p err)
    then obtain settled rest where "is = settled @ rest" "p = map fst rest" "w + d = mset (map snd settled)" "storage_full err"
      using assms(1) by (auto simp: result_ok_def)
    moreover from this have "\<exists>settled' rest'. js @ is = settled' @ rest' \<and> p = map fst rest' \<and> (w1 + w) + (d1 + d) = mset (map snd settled')"
      using sum by (intro exI [of _ "js @ settled"] exI [of _ rest]) simp
    ultimately show ?thesis using PartialWrite by (simp add: result_ok_def)
  next
    case (WriteFailed err)
    then have "w + d \<subseteq># mset (map snd is)" using assms(1) by (simp add: result_ok_def)
    then show ?thesis unfolding WriteFailed result_ok_def sum by simp
  qed (use assms(1) sum in \<open>auto simp: result_ok_def\<close>)
qed

lemma result_ok_stop:
  "storage_full err \<Longrightarrow> result_ok acc rej js {#} {#} (PartialWrite (map fst js) err)" "result_ok acc rej js {#} {#} (WriteFailed err)"
  by (simp_all add: result_ok_def)

text \<open>What the body of the loop does with one table once its log and its encoding are known.\<close>

definition native_table ::
  "store_env \<Rightarrow> 'r encoder \<Rightarrow> csv_writer \<Rightarrow> string \<Rightarrow> (nat \<times> 'r) list \<Rightarrow> (string \<times> (nat \<times> 'r) list) list \<Rightarrow> int \<Rightarrow> int \<Rightarrow> int \<Rightarrow> block_error option \<Rightarrow>
   'r local_store \<Rightarrow> 'r write_result \<times> 'r local_store"
where
  "native_table e enc cw key is ts acc rej sz err s =
     (case err of
        None \<Rightarrow> native_loop e enc cw ts (acc + int (length is)) rej s
      | Some be \<Rightarrow>
          if (case be of BlockTooLarge \<Rightarrow> True | WalError we \<Rightarrow> blockTooLarge we (length is)) then
            (case writeEachLog e enc cw key is 0 0 s of
               (a, r, None, cw, s) \<Rightarrow> native_loop e enc cw ts (acc + a) (rej + r) s
             | (a, r, Some (unwritten, we), cw, s) \<Rightarrow>
                 if storage_full we then (PartialWrite (unwritten @ pending ts) we, s) else (WriteFailed we, s))
          else
            (case be of
               BlockTooLarge \<Rightarrow> (WriteFailed (ErrOther ''unreachable''), s)
             | WalError we \<Rightarrow>
                 if is_quota we then native_loop e enc cw ts acc (rej + int (length is)) (shed e we (int (length is)) sz (map snd is) s)
                 else if storage_full we then (PartialWrite (pending ((key, is) # ts)) we, s)
                 else (WriteFailed we, s)))"

lemma native_table_settles:
  assumes run: "native_table e enc cw key is ts acc rej sz err s = (res, s')" and kf: "\<forall>i\<in>set is. kf (snd i) = Some key"
    and IH: "\<And>cw acc rej s. native_loop e enc cw ts acc rej s = (res, s') \<Longrightarrow> \<exists>w d. settles_records enc kf s s' w d \<and> result_ok acc rej (records ts) w d res"
    and s0: "settles_records enc kf s0 s (if err = None then mset (map snd is) else {#}) {#}"
  shows "\<exists>w d. settles_records enc kf s0 s' w d \<and> result_ok acc rej (records ((key, is) # ts)) w d res"
proof -
  have go: ?thesis if run: "native_loop e enc cw1 ts (acc + int (size w1)) (rej + int (size d1)) s2 = (res, s')"
    and s2: "settles_records enc kf s0 s2 w1 d1" and all: "w1 + d1 = mset (map snd is)" for cw1 w1 d1 s2
  proof -
    obtain w d where h: "settles_records enc kf s2 s' w d" "result_ok (acc + int (size w1)) (rej + int (size d1)) (records ts) w d res"
      using IH [OF run] by blast
    show ?thesis using settles_trans [OF s2 h(1)] result_ok_step [OF h(2) all] unfolding records_simps by blast
  qed
  show ?thesis
  proof (cases err)
    case None
    then show ?thesis using go [of cw "mset (map snd is)" "{#}" s] run s0 by (simp add: native_table_def)
  next
    case be: (Some be)
    show ?thesis
    proof (cases "case be of BlockTooLarge \<Rightarrow> True | WalError we \<Rightarrow> blockTooLarge we (length is)")
      case True
      obtain a r0 o0 cw1 s6 where each: "writeEachLog e enc cw key is 0 0 s = (a, r0, o0, cw1, s6)" by (rule prod_cases5)
      obtain w d where h: "settles_records enc kf s s6 w d" "a = int (size w)" "r0 = int (size d)"
        "case o0 of None \<Rightarrow> w + d = mset (map snd is)
         | Some (unwritten, err) \<Rightarrow> \<exists>settled rest. is = settled @ rest \<and> unwritten = map fst rest \<and> w + d = mset (map snd settled)"
        using writeEachLog_settles [OF each kf] by auto
      have s6: "settles_records enc kf s0 s6 w d" using settles_trans [OF s0 h(1)] be by simp
      show ?thesis
      proof (cases o0)
        case None
        then show ?thesis using go [OF _ s6] run be True each h by (simp add: native_table_def)
      next
        case (Some p)
        obtain unwritten we where p: "p = (unwritten, we)" by (rule prod.exhaust)
        obtain settled rest where sr: "is = settled @ rest" "unwritten = map fst rest" "w + d = mset (map snd settled)" using h(4) Some p by auto
        have res: "s' = s6" "res = (if storage_full we then PartialWrite (unwritten @ pending ts) we else WriteFailed we)"
          using run be True each Some p by (auto simp: native_table_def split: if_splits)
        have "\<exists>settled' rest'. is @ records ts = settled' @ rest' \<and> unwritten @ pending ts = map fst rest' \<and> w + d = mset (map snd settled')"
          using sr by (intro exI [of _ settled] exI [of _ "rest @ records ts"]) (simp add: pending_records)
        moreover have "w + d \<subseteq># mset (map snd (is @ records ts))" using sr by simp
        ultimately have "result_ok acc rej (records ((key, is) # ts)) w d res" unfolding res(2) by (simp add: result_ok_def)
        then show ?thesis using s6 res(1) by blast
      qed
    next
      case False
      then obtain we where we: "be = WalError we" by (cases be) simp_all
      have s0': "settles_records enc kf s0 s {#} {#}" using s0 be by simp
      show ?thesis
      proof (cases "is_quota we")
        case True
        have "settles_records enc kf s0 (shed e we (int (length is)) sz (map snd is) s) {#} (mset (map snd is))"
          using settles_trans [OF s0' shed_settles [OF True, of enc kf s e "int (length is)" sz "map snd is"]] by simp
        then show ?thesis using go [of cw "{#}" "mset (map snd is)"] run be we False True by (simp add: native_table_def)
      next
        case no: False
        then have "s' = s" "res = (if storage_full we then PartialWrite (pending ((key, is) # ts)) we else WriteFailed we)"
          using run be we False by (auto simp: native_table_def split: if_splits)
        then show ?thesis using s0' result_ok_stop [where err = we and acc = acc and rej = rej and js = "records ((key, is) # ts)"] by (auto simp: pending_records simp del: records_simps)
      qed
    qed
  qed
qed

lemma native_loop_settles:
  assumes "native_loop e enc cw ts acc rej s = (res, s')" "\<forall>(key, is)\<in>set ts. \<forall>i\<in>set is. kf (snd i) = Some key"
  shows "\<exists>w d. settles_records enc kf s s' w d \<and> result_ok acc rej (records ts) w d res"
  using assms
proof (induction ts arbitrary: cw acc rej s)
  case Nil
  then show ?case by (intro exI [of _ "{#}"]) (auto simp: settles_frame result_ok_def finish_write_def split: if_splits)
next
  case (Cons t ts)
  obtain key "is" where t: "t = (key, is)" by (rule prod.exhaust)
  have kf: "\<forall>i\<in>set is. kf (snd i) = Some key" and kfs: "\<forall>(key, is)\<in>set ts. \<forall>i\<in>set is. kf (snd i) = Some key" using Cons.prems(2) t by auto
  note IH = Cons.IH [OF _ kfs]
  have stop: ?case if "ls_written s' = ls_written s" "ls_shed s' = ls_shed s" "res = WriteFailed err \<or> storage_full err \<and> res = PartialWrite (pending (t # ts)) err" for err
    using that result_ok_stop [where err = err and acc = acc and rej = rej and js = "records (t # ts)"] settles_frame [of s' s enc kf] by (auto simp: pending_records)
  obtain q s1 where pre: "preAdmit key s = (q, s1)" by (rule prod.exhaust)
  note f1 = preAdmit_frame [OF pre]
  show ?case
  proof (cases q)
    case (Some quota)
    have q: "is_quota quota" and f: "ls_written s1 = ls_written s" "ls_shed s1 = ls_shed s" using f1 Some by auto
    have run: "native_loop e enc cw ts acc (rej + int (size (mset (map snd is)))) (shed e quota (int (length is)) 0 (map snd is) s1) = (res, s')"
      using Cons.prems(1) t pre Some by (simp add: Let_def)
    obtain w d where h: "settles_records enc kf (shed e quota (int (length is)) 0 (map snd is) s1) s' w d"
      "result_ok acc (rej + int (size (mset (map snd is)))) (records ts) w d res" using IH [OF run] by blast
    have "settles_records enc kf s s' ({#} + w) (mset (map snd is) + d)"
      using settles_trans [OF settles_after [OF shed_settles [OF q] f] h(1)] .
    moreover have "result_ok acc rej (is @ records ts) ({#} + w) (mset (map snd is) + d) res" using h(2) by (intro result_ok_step) simp_all
    ultimately show ?thesis unfolding t records_simps by blast
  next
    case None
    obtain r s2 where get: "GetWAL e key s1 = (r, s2)" by (rule prod.exhaust)
    have f2: "ls_written s2 = ls_written s" "ls_shed s2 = ls_shed s" using GetWAL_frame [OF get] f1 by simp_all
    obtain ok cw1 where m: "marshal_all enc (map snd is) (writer_Reset cw) = (ok, cw1)" by (rule prod.exhaust)
    define buf where "buf = cw_bytes cw1"
    show ?thesis
    proof (cases "\<exists>w. r = Inr w \<and> ok")
      case False
      then have "\<exists>err. res = WriteFailed err \<and> s' = s2"
        using Cons.prems(1) t pre None get m by (cases r) (auto split: bool.splits)
      then show ?thesis using stop f2 by blast
    next
      case True
      then obtain w0 where w0: "r = Inr w0" and ok: "ok" by blast
      have buf: "block_of enc (map snd is) buf" unfolding buf_def using m ok by (auto intro: marshal_block)
      define s3 where "s3 = add_inflight (int (length buf)) s2"
      have f3: "ls_written s3 = ls_written s" "ls_shed s3 = ls_shed s" using f2 by (simp_all add: s3_def)
      show ?thesis
      proof (cases "diskUsageExceeded e w0 s3")
        case True
        then have "res = PartialWrite (pending (t # ts)) ErrMaxDiskUsageExceeded" "s' = add_inflight (- int (length buf)) s3"
          using Cons.prems(1) t pre None get w0 m ok by (simp_all add: s3_def buf_def Let_def)
        then show ?thesis using stop [of ErrMaxDiskUsageExceeded] f3 by (simp add: storage_full_def)
      next
        case False
        obtain err s4 where blk: "writeBlock e key (map snd is) buf s3 = (err, s4)" by (rule prod.exhaust)
        define s5 where "s5 = add_inflight (- int (length buf)) s4"
        have "settles_records enc kf s s4 (if err = None then mset (map snd is) else {#}) {#}"
          using settles_after [OF writeBlock_settles [OF blk buf, of kf] f3] kf by simp
        then have st: "settles_records enc kf s s5 (if err = None then mset (map snd is) else {#}) {#}"
          using settles_trans [OF _ settles_frame [of s5 s4 enc kf]] by (fastforce simp: s5_def)
        have "native_table e enc cw1 key is ts acc rej (int (length buf)) err s5 = (res, s')"
          using Cons.prems(1) t pre None get w0 m ok blk False by (cases err) (simp_all add: native_table_def Let_def s3_def s5_def buf_def)
        from native_table_settles [OF this kf IH st] show ?thesis unfolding t .
      qed
    qed
  qed
qed

subsection \<open>Requests and batches\<close>

lemma add_record_records: "mset (records (add_record key i ts)) = add_mset i (mset (records ts))"
  by (induction ts rule: add_record.induct) auto

lemma add_record_keys:
  assumes "\<forall>(key, is)\<in>set ts. \<forall>i\<in>set is. kf (snd i) = Some key" "kf (snd i) = Some key"
  shows "\<forall>(key, is)\<in>set (add_record key i ts). \<forall>i\<in>set is. kf (snd i) = Some key"
  using assms by (induction key i ts rule: add_record.induct) auto

lemma group_logs_records:
  "mset (records (group_logs h is ts)) = mset (records ts) + filter_mset (\<lambda>i. log_key h (snd i) \<noteq> None) (mset is)"
  by (induction h "is" ts rule: group_logs.induct) (auto simp: add_record_records split: option.split)

lemma group_logs_keys:
  "\<forall>(key, is)\<in>set ts. \<forall>i\<in>set is. log_key h (snd i) = Some key \<Longrightarrow>
   \<forall>(key, is)\<in>set (group_logs h js ts). \<forall>i\<in>set is. log_key h (snd i) = Some key"
proof (induction h js ts rule: group_logs.induct)
  case (2 h j js ts)
  then show ?case using add_record_keys [of ts "log_key h" j] by (cases "log_key h (snd j)") simp_all
qed simp

definition destined :: "nat \<Rightarrow> 'a native_log list \<Rightarrow> 'a native_log multiset" where
  "destined h logs = filter_mset (\<lambda>l. log_key h l \<noteq> None) (mset logs)"

lemma destined_records: "image_mset snd (mset (records (group_logs h (List.enumerate 0 logs) []))) = destined h logs"
proof -
  have "image_mset snd (filter_mset (\<lambda>i. log_key h (snd i) \<noteq> None) (mset (List.enumerate 0 logs))) = filter_mset (\<lambda>l. log_key h l \<noteq> None) (image_mset snd (mset (List.enumerate 0 logs)))"
    by (simp add: filter_mset_image_mset)
  also have "image_mset snd (mset (List.enumerate 0 logs)) = mset logs" by (metis map_snd_enumerate mset_map)
  finally show ?thesis by (simp add: group_logs_records destined_def)
qed

lemma WriteNativeLogs_settles:
  assumes "WriteNativeLogs e enc h logs s = (res, s')"
  shows "\<exists>w d. settles_records enc (log_key h) s s' w d \<and> w + d \<subseteq># destined h logs \<and>
    (case res of
       WriteOK \<Rightarrow> w = destined h logs \<and> d = {#}
     | WriteOutcome a r rs \<Rightarrow> w + d = destined h logs \<and> a = int (size w) \<and> r = int (size d)
     | PartialWrite p err \<Rightarrow> storage_full err \<and> w + d + mset (map ((!) logs) p) = destined h logs
     | WriteFailed err \<Rightarrow> True)"
proof -
  let ?ts = "group_logs h (List.enumerate 0 logs) []"
  have keys: "\<forall>(key, is)\<in>set ?ts. \<forall>i\<in>set is. log_key h (snd i) = Some key" by (rule group_logs_keys) simp
  have run: "native_loop e enc (se_pool e (ls_calls s)) ?ts 0 0 s = (res, s')" using assms by (simp add: WriteNativeLogs_def)
  obtain w d where st: "settles_records enc (log_key h) s s' w d" and ok: "result_ok 0 0 (records ?ts) w d res"
    using native_loop_settles [OF run keys] by blast
  have all: "mset (map snd (records ?ts)) = destined h logs" by (simp add: destined_records)
  show ?thesis
  proof (cases res)
    case (PartialWrite p err)
    then obtain settled rest where sr: "records ?ts = settled @ rest" "p = map fst rest" "w + d = mset (map snd settled)" "storage_full err"
      using ok by (auto simp: result_ok_def)
    have "i \<in> set (List.enumerate 0 logs)" if "i \<in> set (records ?ts)" for i
    proof -
      have "i \<in># mset (records ?ts)" using that by simp
      then show ?thesis unfolding group_logs_records by simp
    qed
    then have "logs ! fst i = snd i" if "i \<in> set rest" for i using that sr(1) by (fastforce simp: in_set_enumerate_eq)
    then have "map ((!) logs) p = map snd rest" using sr(2) by simp
    then have "w + d + mset (map ((!) logs) p) = destined h logs" using all sr(1,3) by (metis map_append mset_append)
    moreover from this have "w + d \<subseteq># destined h logs" by (metis mset_subset_eq_add_left)
    ultimately show ?thesis using st sr(4) PartialWrite by (intro exI [of _ w] exI [of _ d]) simp
  qed (use st ok all in \<open>(intro exI [of _ w] exI [of _ d], simp add: result_ok_def)\<close>)+
qed

lemma destined_part: "x + mset (ls :: 'a native_log list) = destined h logs \<Longrightarrow> destined h ls = mset ls"
proof -
  assume "x + mset ls = destined h logs"
  then have "mset ls \<subseteq># destined h logs" by (metis mset_subset_eq_add_right)
  then have "set ls \<subseteq> {l. log_key h l \<noteq> None}" unfolding destined_def by (auto dest!: mset_subset_eqD)
  then show ?thesis unfolding destined_def by (auto simp: filter_mset_eq_conv)
qed

text \<open>Two attempts, the second with what the first left.\<close>

lemma settled_sum:
  assumes "w + d \<subseteq># all"
    and "case r1 of WriteOK \<Rightarrow> w = all \<and> d = {#} | WriteOutcome a r rs \<Rightarrow> w + d = all \<and> a = int (size w) \<and> r = int (size d)
       | PartialWrite q err \<Rightarrow> storage_full err \<and> w + d + mset (map ((!) logs) q) = all | WriteFailed err \<Rightarrow> True"
    and "case r1 of PartialWrite q err \<Rightarrow> w' + d' \<subseteq># mset (map ((!) logs) q) \<and> (\<not> write_failure res \<longrightarrow> w' + d' = mset (map ((!) logs) q))
       | _ \<Rightarrow> w' = {#} \<and> d' = {#} \<and> res = r1"
  shows "(w + d) + (w' + d') \<subseteq># all \<and> (\<not> write_failure res \<longrightarrow> (w + d) + (w' + d') = all)"
proof (cases r1)
  case (PartialWrite q err')
  then have a: "w + d + mset (map ((!) logs) q) = all" and b: "w' + d' \<subseteq># mset (map ((!) logs) q)"
    "\<not> write_failure res \<longrightarrow> w' + d' = mset (map ((!) logs) q)" using assms(2,3) by simp_all
  show ?thesis using subset_mset.add_left_mono [OF b(1), of "w + d"] b(2) unfolding a [symmetric] by simp
qed (use assms in \<open>auto simp: write_failure_def\<close>)

lemma waitForStorage_settles:
  assumes "waitForStorage e enc h waits remaining r s = Some (res, s')"
    and "\<And>p err. r = PartialWrite p err \<Longrightarrow> storage_full err \<and> destined h (map ((!) remaining) p) = mset (map ((!) remaining) p)"
  shows "\<exists>w d. settles_records enc (log_key h) s s' w d \<and>
    (case r of PartialWrite p err \<Rightarrow> w + d \<subseteq># mset (map ((!) remaining) p) \<and> (\<not> write_failure res \<longrightarrow> w + d = mset (map ((!) remaining) p))
     | _ \<Rightarrow> w = {#} \<and> d = {#} \<and> res = r)"
  using assms
proof (induction waits arbitrary: remaining r s)
  case Nil
  then show ?case by (intro exI [of _ "{#}"]) (auto simp: settles_frame split: write_result.splits)
next
  case (Cons b ws)
  show ?case
  proof (cases "\<exists>p err. r = PartialWrite p err \<and> \<not> b")
    case False
    then have "res = r" "s' = s" using Cons.prems(1) by (auto split: write_result.splits bool.splits)
    then show ?thesis
      by (intro exI [of _ "{#}"]) (auto simp: settles_frame write_failure_def split: write_result.splits)
  next
    case True
    then obtain p err where p: "r = PartialWrite p err" and b: "b = False" by auto
    let ?un = "map ((!) remaining) p"
    obtain r1 s1 where wr: "WriteNativeLogs e enc h ?un s = (r1, s1)" by (rule prod.exhaust)
    have run: "waitForStorage e enc h ws ?un r1 s1 = Some (res, s')" using Cons.prems(1) p b wr by (simp add: Let_def)
    have un: "destined h ?un = mset ?un" using Cons.prems(2) [OF p] by blast
    obtain w d where 1: "settles_records enc (log_key h) s s1 w d" "w + d \<subseteq># mset ?un"
      "case r1 of WriteOK \<Rightarrow> w = mset ?un \<and> d = {#} | WriteOutcome a r rs \<Rightarrow> w + d = mset ?un \<and> a = int (size w) \<and> r = int (size d)
       | PartialWrite q err \<Rightarrow> storage_full err \<and> w + d + mset (map ((!) ?un) q) = mset ?un | WriteFailed err \<Rightarrow> True"
      using WriteNativeLogs_settles [OF wr] unfolding un by blast
    have next1: "storage_full err' \<and> destined h (map ((!) ?un) q) = mset (map ((!) ?un) q)" if "r1 = PartialWrite q err'" for q err'
      using 1(3) that destined_part [of "w + d" _ h ?un] un by simp
    obtain w' d' where 2: "settles_records enc (log_key h) s1 s' w' d'"
      "case r1 of PartialWrite q err \<Rightarrow> w' + d' \<subseteq># mset (map ((!) ?un) q) \<and> (\<not> write_failure res \<longrightarrow> w' + d' = mset (map ((!) ?un) q))
       | _ \<Rightarrow> w' = {#} \<and> d' = {#} \<and> res = r1"
      using Cons.IH [OF run next1] by blast
    have "(w + d) + (w' + d') \<subseteq># mset ?un \<and> (\<not> write_failure res \<longrightarrow> (w + d) + (w' + d') = mset ?un)"
      by (rule settled_sum [OF 1(2,3) 2(2)])
    then show ?thesis using settles_trans [OF 1(1) 2(1)] p by (intro exI [of _ "w + w'"] exI [of _ "d + d'"]) (simp add: ac_simps)
  qed
qed

text \<open>
  C14. No log is lost or stored twice on its way to the write-ahead logs. When the sink has sent a batch, with any waiting for storage in between, each log that it wrote to a write-ahead log was
  written there in one block only, under the key of its database and table, and that block is the header of the schema, once, and the rows of its logs; each log that it shed was refused by the budget of its table. No log of the batch is
  written and shed, or written twice. When the batch is acknowledged, every log that names a database and a table was written or shed.
\<close>

theorem batch_settled_once:
  assumes "sink_Send e enc h stop logs s = Some (acked, res, s')"
  shows "\<exists>blocks refused. ls_written s' = ls_written s @ blocks \<and> ls_shed s' = ls_shed s @ refused \<and>
    (\<forall>(key, rs, buf)\<in>set blocks. block_of enc rs buf \<and> (\<forall>r\<in>set rs. log_key h r = Some key)) \<and>
    (\<forall>(quota, r)\<in>set refused. is_quota quota) \<and>
    mset (concat (map (fst \<circ> snd) blocks)) + mset (map snd refused) \<subseteq># filter_mset (\<lambda>l. log_key h l \<noteq> None) (mset logs) \<and>
    (acked \<longrightarrow> mset (concat (map (fst \<circ> snd) blocks)) + mset (map snd refused) = filter_mset (\<lambda>l. log_key h l \<noteq> None) (mset logs))"
proof -
  obtain r1 s1 where wr: "WriteNativeLogs e enc h logs s = (r1, s1)" by (rule prod.exhaust)
  have acked: "acked = (\<not> write_failure res)" using assms wr by (auto simp: sink_Send_def split: option.splits)
  obtain w d where 1: "settles_records enc (log_key h) s s1 w d" "w + d \<subseteq># destined h logs"
      "case r1 of WriteOK \<Rightarrow> w = destined h logs \<and> d = {#} | WriteOutcome a r rs \<Rightarrow> w + d = destined h logs \<and> a = int (size w) \<and> r = int (size d)
       | PartialWrite q err \<Rightarrow> storage_full err \<and> w + d + mset (map ((!) logs) q) = destined h logs | WriteFailed err \<Rightarrow> True"
    using WriteNativeLogs_settles [OF wr] by blast
  have "\<exists>w d. settles_records enc (log_key h) s s' w d \<and> w + d \<subseteq># destined h logs \<and> (acked \<longrightarrow> w + d = destined h logs)"
  proof (cases stop)
    case None
    then have "res = r1" "s' = s1" using assms wr by (auto simp: sink_Send_def)
    then show ?thesis using 1 acked by (intro exI [of _ w] exI [of _ d]) (auto simp: write_failure_def split: write_result.splits)
  next
    case (Some waits)
    then have run: "waitForStorage e enc h waits logs r1 s1 = Some (res, s')" using assms wr by (auto simp: sink_Send_def)
    have next1: "storage_full err \<and> destined h (map ((!) logs) q) = mset (map ((!) logs) q)" if "r1 = PartialWrite q err" for q err
      using 1(3) that destined_part [of "w + d"] by simp
    obtain w' d' where 2: "settles_records enc (log_key h) s1 s' w' d'"
      "case r1 of PartialWrite q err \<Rightarrow> w' + d' \<subseteq># mset (map ((!) logs) q) \<and> (\<not> write_failure res \<longrightarrow> w' + d' = mset (map ((!) logs) q))
       | _ \<Rightarrow> w' = {#} \<and> d' = {#} \<and> res = r1"
      using waitForStorage_settles [OF run next1] by blast
    have "(w + d) + (w' + d') \<subseteq># destined h logs \<and> (acked \<longrightarrow> (w + d) + (w' + d') = destined h logs)"
      using settled_sum [OF 1(2,3) 2(2)] acked by simp
    then show ?thesis using settles_trans [OF 1(1) 2(1)] by (intro exI [of _ "w + w'"] exI [of _ "d + d'"]) (simp add: ac_simps)
  qed
  then show ?thesis unfolding settles_records_def destined_def by blast
qed

section \<open>Time series are written once or reported\<close>

definition samples_of :: "'a TimeSeries multiset \<Rightarrow> int" where
  "samples_of m = (\<Sum>v\<in>#m. int (length (ts_Samples v)))"

lemma samples_of_simps [simp]:
  "samples_of {#} = 0" "samples_of (m + m') = samples_of m + samples_of m'" "samples_of (mset vs) = sample_count vs"
  "samples_of {#v#} = int (length (ts_Samples v))" "samples_of (add_mset v m) = int (length (ts_Samples v)) + samples_of m"
  by (simp_all add: samples_of_def sample_count_def) (metis mset_map sum_mset_sum_list)

lemma sample_count_append [simp]: "sample_count (vs @ ws) = sample_count vs + sample_count ws"
  by (simp add: sample_count_def)

lemma samples_of_nonneg: "0 \<le> samples_of m"
  by (induction m) simp_all

lemma samples_of_zero: "samples_of m \<le> 0 \<Longrightarrow> v \<in># m \<Longrightarrow> ts_Samples v = []"
  using samples_of_nonneg by (metis add_le_same_cancel2 insert_DiffM length_0_conv of_nat_le_0_iff order_trans add_increasing samples_of_simps(5) of_nat_0_le_iff le_add_same_cancel1)

definition full_ok :: "wal_error option \<Rightarrow> bool" where
  "full_ok full = (\<forall>q. full = Some q \<longrightarrow> is_quota q)"

lemma shed_reason_quota: "shed_reason full err = Some quota \<Longrightarrow> full_ok full \<Longrightarrow> is_quota quota"
  by (auto simp: shed_reason_def full_ok_def split: if_splits)

lemma order_tables_full: "\<forall>(key, vs, full)\<in>set (order_tables ts m). full_ok full"
  by (auto simp: order_tables_def full_ok_def queuedBudgetFull_def is_quota_def split: option.splits)

lemma writeEachSeries_settles:
  assumes "writeEachSeries e enc cw key vs full acc rs s = (a, out, res, cw', s')" "\<forall>v\<in>set vs. kf v = Some key" "full_ok full"
  shows "\<exists>w d. settles_records enc kf s s' w d \<and> a = acc + samples_of w \<and> mset out = mset rs + d \<and> w + d \<subseteq># mset vs \<and> (res = None \<longrightarrow> w + d = mset vs)"
  using assms
proof (induction vs arbitrary: cw acc rs s)
  case Nil
  then show ?case by (intro exI [of _ "{#}"]) (simp add: settles_frame)
next
  case (Cons v vs)
  have stop: ?case if "(a, out, res, s') = (acc, rs, Some err, s1)" "ls_written s1 = ls_written s" "ls_shed s1 = ls_shed s" for err s1
    using that by (intro exI [of _ "{#}"]) (simp add: settles_frame)
  obtain ok cw1 where m: "Marshal enc v (writer_Reset cw) = (ok, cw1)" by (rule prod.exhaust)
  let ?buf = "cw_bytes cw1"
  show ?case
  proof (cases ok)
    case False
    then have "(a, out, res, s') = (acc, rs, Some (ErrOther ''marshal''), s)" using Cons.prems(1) m by simp
    then show ?thesis by (rule stop) simp_all
  next
    case ok: True
    obtain err s1 where wr: "store_Write e [] key [v] ?buf s = (err, s1)" by (rule prod.exhaust)
    have enc: "block_of enc [v] ?buf" using m ok by (auto intro: marshal_one)
    have st: "settles_records enc kf s s1 (if err = None then {#v#} else {#}) {#}"
      using store_Write_settles [OF wr enc, of kf] Cons.prems(2) by (cases err) simp_all
    have step: ?thesis if run: "writeEachSeries e enc cw1 key vs full (acc + samples_of w1) rs' s2 = (a, out, res, cw', s')"
      and s2: "settles_records enc kf s s2 w1 d1" and one: "w1 + d1 = {#v#}" and rs': "mset rs' = mset rs + d1" for w1 d1 s2 rs'
    proof -
      obtain w d where h: "settles_records enc kf s2 s' w d" "a = acc + samples_of w1 + samples_of w" "mset out = mset rs' + d" "w + d \<subseteq># mset vs" "res = None \<longrightarrow> w + d = mset vs"
        using Cons.IH [OF run] Cons.prems(2,3) by auto
      have sum: "(w1 + w) + (d1 + d) = add_mset v (w + d)" using one by (metis add.assoc add.left_commute add_mset_add_single add.commute)
      have "(w1 + w) + (d1 + d) \<subseteq># mset (v # vs)" "res = None \<longrightarrow> (w1 + w) + (d1 + d) = mset (v # vs)" "a = acc + samples_of (w1 + w)" "mset out = mset rs + (d1 + d)"
        using h(2-5) rs' unfolding sum by (simp_all add: ac_simps)
      then show ?thesis using settles_trans [OF s2 h(1)] by blast
    qed
    show ?thesis
    proof (cases err)
      case None
      then show ?thesis using step [of "{#v#}" rs s1 "{#}"] st Cons.prems(1) m ok wr by simp
    next
      case err: (Some we)
      show ?thesis
      proof (cases "shed_reason full we")
        case None
        then have "(a, out, res, s') = (acc, rs, Some we, s1)" using Cons.prems(1) m ok wr err by simp
        moreover have "ls_written s1 = ls_written s" "ls_shed s1 = ls_shed s"
          using wr err by (auto simp: store_Write_def Let_def split: option.splits prod.splits)
        ultimately show ?thesis by (rule stop)
      next
        case q: (Some quota)
        let ?s2 = "shed e quota (int (length (ts_Samples v))) (int (length ?buf)) [v] s1"
        have "settles_records enc kf s ?s2 ({#} + {#}) ({#} + mset [v])"
          using st err by (intro settles_trans [OF _ shed_settles]) (simp_all add: shed_reason_quota [OF q Cons.prems(3)])
        then show ?thesis using step [of "{#}" "rs @ [v]" ?s2 "{#v#}"] Cons.prems(1) m ok wr err q by simp
      qed
    qed
  qed
qed

definition series_ok :: "int \<Rightarrow> int \<Rightarrow> 'a TimeSeries list \<Rightarrow> 'a TimeSeries list \<Rightarrow> 'a TimeSeries multiset \<Rightarrow> 'a TimeSeries multiset \<Rightarrow> 'a TimeSeries write_result \<Rightarrow> bool" where
  "series_ok acc rej rs vs w d res =
     (case res of
        WriteOK \<Rightarrow> w + d = mset vs \<and> rej + samples_of d \<le> 0
      | WriteOutcome a r out \<Rightarrow> w + d = mset vs \<and> a = acc + samples_of w \<and> r = rej + samples_of d \<and> mset out = mset rs + d
      | PartialWrite p err \<Rightarrow> False
      | WriteFailed err \<Rightarrow> w + d \<subseteq># mset vs)"

lemma series_ok_step:
  assumes "series_ok (acc + samples_of w1) (rej + samples_of d1) rs' vs w d res" "w1 + d1 = mset us" "mset rs' = mset rs + d1"
  shows "series_ok acc rej rs (us @ vs) (w1 + w) (d1 + d) res"
proof -
  have sum: "(w1 + w) + (d1 + d) = mset us + (w + d)" using assms(2) by (metis add.assoc add.left_commute)
  show ?thesis
  proof (cases res)
    case (WriteFailed err)
    then have "w + d \<subseteq># mset vs" using assms(1) by (simp add: series_ok_def)
    then show ?thesis unfolding WriteFailed series_ok_def sum by simp
  qed (use assms(1,3) sum in \<open>auto simp: series_ok_def\<close>)
qed

lemma series_ok_failed: "w + d \<subseteq># mset us \<Longrightarrow> series_ok acc rej rs (us @ vs) w d (WriteFailed err)"
  by (simp add: series_ok_def) (metis mset_subset_eq_add_left subset_mset.order_trans)

definition series_table ::
  "store_env \<Rightarrow> 'a TimeSeries encoder \<Rightarrow> csv_writer \<Rightarrow> string \<Rightarrow> 'a TimeSeries list \<Rightarrow> wal_error option \<Rightarrow> (string \<times> 'a TimeSeries list \<times> wal_error option) list \<Rightarrow>
   int \<Rightarrow> int \<Rightarrow> 'a TimeSeries list \<Rightarrow> int \<Rightarrow> block_error option \<Rightarrow> 'a TimeSeries local_store \<Rightarrow> 'a TimeSeries write_result \<times> 'a TimeSeries local_store"
where
  "series_table e enc cw key vs full ts acc rej rs n err s =
     (case err of
        None \<Rightarrow> series_loop e enc cw ts (acc + sample_count vs) rej rs s
      | Some be \<Rightarrow>
          if (case be of BlockTooLarge \<Rightarrow> True | WalError we \<Rightarrow> blockTooLarge we (length vs)) then
            (case writeEachSeries e enc cw key vs full 0 [] s of
               (a, r, None, cw, s) \<Rightarrow> series_loop e enc cw ts (acc + a) (rej + sample_count r) (rs @ r) s
             | (a, r, Some we, cw, s) \<Rightarrow> (WriteFailed we, s))
          else
            (case be of
               BlockTooLarge \<Rightarrow> (WriteFailed (ErrOther ''unreachable''), s)
             | WalError we \<Rightarrow>
                 (case shed_reason full we of
                    None \<Rightarrow> (WriteFailed we, s)
                  | Some quota \<Rightarrow> series_loop e enc cw ts acc (rej + sample_count vs) (rs @ vs) (shed e quota (sample_count vs) n vs s))))"

lemma series_table_settles:
  assumes run: "series_table e enc cw key vs full ts acc rej rs n err s = (res, s')" and kf: "\<forall>v\<in>set vs. kf v = Some key" and full: "full_ok full"
    and IH: "\<And>cw acc rej rs s. series_loop e enc cw ts acc rej rs s = (res, s') \<Longrightarrow> \<exists>w d. settles_records enc kf s s' w d \<and> series_ok acc rej rs us w d res"
    and s0: "settles_records enc kf s0 s (if err = None then mset vs else {#}) {#}"
  shows "\<exists>w d. settles_records enc kf s0 s' w d \<and> series_ok acc rej rs (vs @ us) w d res"
proof -
  have go: ?thesis if run: "series_loop e enc cw1 ts (acc + samples_of w1) (rej + samples_of d1) rs' s2 = (res, s')"
    and s2: "settles_records enc kf s0 s2 w1 d1" and all: "w1 + d1 = mset vs" "mset rs' = mset rs + d1" for cw1 w1 d1 s2 rs'
  proof -
    obtain w d where h: "settles_records enc kf s2 s' w d" "series_ok (acc + samples_of w1) (rej + samples_of d1) rs' us w d res" using IH [OF run] by blast
    show ?thesis using settles_trans [OF s2 h(1)] series_ok_step [OF h(2) all] by blast
  qed
  show ?thesis
  proof (cases err)
    case None
    then show ?thesis using go [of cw "mset vs" "{#}" rs s] run s0 by (simp add: series_table_def)
  next
    case be: (Some be)
    have s0': "settles_records enc kf s0 s {#} {#}" using s0 be by simp
    show ?thesis
    proof (cases "case be of BlockTooLarge \<Rightarrow> True | WalError we \<Rightarrow> blockTooLarge we (length vs)")
      case True
      obtain a r0 o0 cw1 s6 where each: "writeEachSeries e enc cw key vs full 0 [] s = (a, r0, o0, cw1, s6)" by (rule prod_cases5)
      obtain w d where h: "settles_records enc kf s s6 w d" "a = samples_of w" "mset r0 = d" "w + d \<subseteq># mset vs" "o0 = None \<longrightarrow> w + d = mset vs"
        using writeEachSeries_settles [OF each kf full] by auto
      have s6: "settles_records enc kf s0 s6 w d" using settles_trans [OF s0' h(1)] by simp
      have r0: "sample_count r0 = samples_of d" using h(3) by (metis samples_of_simps(3))
      show ?thesis
      proof (cases o0)
        case None
        then show ?thesis using go [OF _ s6, of cw1 "rs @ r0"] run be True each h r0 by (simp add: series_table_def)
      next
        case (Some we)
        then have "s' = s6" "res = WriteFailed we" using run be True each by (auto simp: series_table_def)
        then show ?thesis using s6 series_ok_failed [OF h(4)] by blast
      qed
    next
      case False
      then obtain we where we: "be = WalError we" by (cases be) simp_all
      show ?thesis
      proof (cases "shed_reason full we")
        case None
        then have "s' = s" "res = WriteFailed we" using run be we False by (auto simp: series_table_def)
        then show ?thesis using s0' series_ok_failed [of "{#}" "{#}" vs acc rej rs us we] by auto
      next
        case (Some quota)
        have "settles_records enc kf s0 (shed e quota (sample_count vs) n vs s) {#} (mset vs)"
          using settles_trans [OF s0' shed_settles [OF shed_reason_quota [OF Some full], of enc kf s e "sample_count vs" n vs]] by simp
        then show ?thesis using go [of cw "{#}" "mset vs" "rs @ vs"] run be we False Some by (simp add: series_table_def)
      qed
    qed
  qed
qed

definition series_of :: "(string \<times> 'v list \<times> wal_error option) list \<Rightarrow> 'v list" where
  "series_of ts = concat (map (fst \<circ> snd) ts)"

lemma series_of_simps [simp]: "series_of [] = []" "series_of ((key, vs, full) # ts) = vs @ series_of ts"
  by (simp_all add: series_of_def)

lemma series_loop_settles:
  assumes "series_loop e enc cw ts acc rej rs s = (res, s')" "\<forall>(key, vs, full)\<in>set ts. full_ok full \<and> (\<forall>v\<in>set vs. kf v = Some key)"
  shows "\<exists>w d. settles_records enc kf s s' w d \<and> series_ok acc rej rs (series_of ts) w d res"
  using assms
proof (induction ts arbitrary: cw acc rej rs s)
  case Nil
  then show ?case by (intro exI [of _ "{#}"]) (auto simp: settles_frame series_ok_def finish_write_def split: if_splits)
next
  case (Cons t ts)
  obtain key vs full where t: "t = (key, vs, full)" by (rule prod_cases3)
  have kf: "\<forall>v\<in>set vs. kf v = Some key" and full: "full_ok full"
    and kfs: "\<forall>(key, vs, full)\<in>set ts. full_ok full \<and> (\<forall>v\<in>set vs. kf v = Some key)" using Cons.prems(2) t by auto
  note IH = Cons.IH [OF _ kfs]
  have stop: ?case if "ls_written s' = ls_written s" "ls_shed s' = ls_shed s" "res = WriteFailed err" for err
    using that series_ok_failed [of "{#}" "{#}" vs acc rej rs "series_of ts" err] settles_frame [of s' s enc kf] t by auto
  obtain q s1 where pre: "preAdmit key s = (q, s1)" by (rule prod.exhaust)
  note f1 = preAdmit_frame [OF pre]
  show ?case
  proof (cases q)
    case (Some quota)
    have q: "is_quota quota" and f: "ls_written s1 = ls_written s" "ls_shed s1 = ls_shed s" using f1 Some by auto
    let ?s2 = "shed e quota (sample_count vs) 0 vs s1"
    have run: "series_loop e enc cw ts acc (rej + samples_of (mset vs)) (rs @ vs) ?s2 = (res, s')"
      using Cons.prems(1) t pre Some by (simp add: Let_def)
    obtain w d where h: "settles_records enc kf ?s2 s' w d" "series_ok acc (rej + samples_of (mset vs)) (rs @ vs) (series_of ts) w d res"
      using IH [OF run] by blast
    have "settles_records enc kf s s' ({#} + w) (mset vs + d)" using settles_trans [OF settles_after [OF shed_settles [OF q] f] h(1)] .
    moreover have "series_ok acc rej rs (vs @ series_of ts) ({#} + w) (mset vs + d) res"
      using series_ok_step [of acc "{#}" rej "mset vs" "rs @ vs" "series_of ts" w d res vs rs] h(2) by simp
    ultimately show ?thesis unfolding t series_of_simps by blast
  next
    case None
    obtain r s2 where get: "GetWAL e key s1 = (r, s2)" by (rule prod.exhaust)
    have f2: "ls_written s2 = ls_written s" "ls_shed s2 = ls_shed s" using GetWAL_frame [OF get] f1 by simp_all
    obtain ok cw1 where m: "marshal_all enc vs (writer_Reset cw) = (ok, cw1)" by (rule prod.exhaust)
    define buf where "buf = cw_bytes cw1"
    show ?thesis
    proof (cases "\<exists>w. r = Inr w \<and> ok")
      case False
      then have "\<exists>err. res = WriteFailed err \<and> s' = s2"
        using Cons.prems(1) t pre None get m by (cases r) (auto split: bool.splits)
      then show ?thesis using stop f2 by blast
    next
      case True
      then obtain w0 where w0: "r = Inr w0" and ok: "ok" by blast
      have buf: "block_of enc vs buf" unfolding buf_def using m ok by (auto intro: marshal_block)
      define s3 where "s3 = add_inflight (int (length buf)) s2"
      have f3: "ls_written s3 = ls_written s" "ls_shed s3 = ls_shed s" using f2 by (simp_all add: s3_def)
      show ?thesis
      proof (cases "diskUsageExceeded e w0 s3")
        case True
        then have "res = WriteFailed ErrMaxDiskUsageExceeded" "s' = add_inflight (- int (length buf)) s3"
          using Cons.prems(1) t pre None get w0 m ok by (simp_all add: s3_def buf_def Let_def)
        then show ?thesis using stop f3 by simp
      next
        case False
        obtain err s4 where blk: "writeBlock e key vs buf s3 = (err, s4)" by (rule prod.exhaust)
        define s5 where "s5 = add_inflight (- int (length buf)) s4"
        have "settles_records enc kf s s4 (if err = None then mset vs else {#}) {#}"
          using settles_after [OF writeBlock_settles [OF blk buf kf] f3] .
        then have st: "settles_records enc kf s s5 (if err = None then mset vs else {#}) {#}"
          using settles_trans [OF _ settles_frame [of s5 s4 enc kf]] by (fastforce simp: s5_def)
        have "series_table e enc cw1 key vs full ts acc rej rs (int (length buf)) err s5 = (res, s')"
          using Cons.prems(1) t pre None get w0 m ok blk False by (cases err) (simp_all add: series_table_def Let_def s3_def s5_def buf_def)
        from series_table_settles [OF this kf full IH st] show ?thesis unfolding t series_of_simps .
      qed
    qed
  qed
qed

lemma add_record_series:
  "mset (concat (map snd (add_record key v ts))) = add_mset v (mset (concat (map snd ts)))"
  by (induction ts rule: add_record.induct) auto

definition series_key :: "'a WriteRequest \<Rightarrow> nat \<Rightarrow> 'a TimeSeries \<Rightarrow> string option" where
  "series_key req h v = (case SegmentKey [] req v h of Inl err \<Rightarrow> None | Inr key \<Rightarrow> Some key)"

lemma group_series_ok:
  assumes "group_series req h vs ts = Inr ts'" "\<forall>(key, us)\<in>set ts. \<forall>v\<in>set us. series_key req h v = Some key"
  shows "mset (concat (map snd ts')) = mset (concat (map snd ts)) + mset vs \<and> (\<forall>(key, us)\<in>set ts'. \<forall>v\<in>set us. series_key req h v = Some key)"
  using assms
proof (induction req h vs ts rule: group_series.induct)
  case (2 req h v vs ts)
  then obtain key where key: "SegmentKey [] req v h = Inr key" by (auto split: sum.splits)
  have "\<forall>(k, us)\<in>set (add_record key v ts). \<forall>u\<in>set us. series_key req h u = Some k"
    using "2.prems"(2) key by (induction key v ts rule: add_record.induct) (auto simp: series_key_def)
  then show ?case using 2 key by (simp add: add_record_series)
qed simp

lemma zip_parts: "length bs = length ts \<Longrightarrow> mset (concat (map (snd \<circ> fst) (filter (\<lambda>x. \<not> snd x) (zip ts bs)))) + mset (concat (map (snd \<circ> fst) (filter snd (zip ts bs)))) = mset (concat (map snd ts))"
  by (induction bs ts rule: list_induct2) auto

lemma order_tables_series:
  assumes "\<And>bs. m = Some bs \<Longrightarrow> length bs = length ts"
  shows "mset (series_of (order_tables ts m)) = mset (concat (map snd ts))"
proof (cases m)
  case None
  have "series_of (map (\<lambda>(key, vs). (key, vs, None)) ts) = concat (map snd ts)" by (induction ts) auto
  then show ?thesis using None by (simp add: order_tables_def)
next
  case (Some bs)
  have "series_of (map (\<lambda>((key, vs), b). (key, vs, g key)) xs) = concat (map (snd \<circ> fst) xs)" for g and xs :: "((string \<times> 'a list) \<times> bool) list"
    by (induction xs) auto
  from this [of "\<lambda>_. None"] this [of "\<lambda>key. Some (queuedBudgetFull key)"] show ?thesis
    using Some zip_parts [OF assms [OF Some]] by (simp add: order_tables_def series_of_def)
qed

lemma order_tables_keys:
  assumes "\<forall>(key, us)\<in>set ts. \<forall>v\<in>set us. kf v = Some key"
  shows "\<forall>(key, vs, full)\<in>set (order_tables ts m). full_ok full \<and> (\<forall>v\<in>set vs. kf v = Some key)"
  using assms order_tables_full [of ts m] by (fastforce simp: order_tables_def split: option.splits dest: set_zip_leftD)

lemma overBudget_length: "overBudget tbls ao = Inr (Some bs) \<Longrightarrow> length bs = length tbls"
  by (auto simp: overBudget_def Let_def split: option.splits if_splits prod.splits)

text \<open>The tables that may be shed for the global budget are not realtime tables.\<close>

lemma overBudget_spares_realtime:
  assumes "overBudget tbls (Some a) = Inr (Some bs)" "i < length tbls" "bs ! i"
  shows "\<exists>d. DestinationFromPrefix (fst (tbls ! i)) = (d, None) \<and> \<not> UsesReservation d a"
proof -
  obtain rd r qd q where k: "kind_totals a tbls ((no_dest, 0), (no_dest, 0)) = ((rd, r), (qd, q))" by (metis surj_pair)
  obtain fits where "bs = map (\<lambda>(key, n). (case table_kind_of a key of QueuedTable d \<Rightarrow> \<not> fits | _ \<Rightarrow> False)) tbls"
    using assms(1) k by (auto simp: overBudget_def Let_def split: if_splits)
  then show ?thesis using assms(2,3) by (auto simp: table_kind_of_def split: prod.splits table_kind.splits option.splits if_splits)
qed

text \<open>
  C2. A write of time series loses nothing silently. Whatever the logs and the budgets do: no series is stored twice or both stored and shed; each stored block is the header of the schema, once, and the rows of series with the
  block's key, also when the series are written one by one and whatever the pooled writer held before; each shed series was refused by a budget. When the write returns nil, all series were stored but for shed ones without samples; when it returns an outcome, every series was
  stored or shed, the reported series are exactly the shed ones, and the counts are the numbers of samples stored and shed.
\<close>

theorem time_series_settled_once:
  assumes "WriteTimeSeries e enc h req s = (res, s')"
  shows "\<exists>blocks refused. ls_written s' = ls_written s @ blocks \<and> ls_shed s' = ls_shed s @ refused \<and>
    (\<forall>(key, vs, buf)\<in>set blocks. block_of (enc req) vs buf \<and> (\<forall>v\<in>set vs. SegmentKey [] req v h = Inr key)) \<and>
    (\<forall>(quota, v)\<in>set refused. is_quota quota) \<and>
    (let stored = concat (map (fst \<circ> snd) blocks); lost = map snd refused
     in mset stored + mset lost \<subseteq># mset (Timeseries req) \<and>
       (case res of
          WriteOK \<Rightarrow> mset stored + mset lost = mset (Timeseries req) \<and> (\<forall>v\<in>set lost. ts_Samples v = [])
        | WriteOutcome a r out \<Rightarrow> mset stored + mset lost = mset (Timeseries req) \<and> mset out = mset lost \<and> a = sample_count stored \<and> r = sample_count lost
        | PartialWrite p err \<Rightarrow> False
        | WriteFailed err \<Rightarrow> True))"
proof -
  have "\<exists>w d. settles_records (enc req) (series_key req h) s s' w d \<and> series_ok 0 0 [] (Timeseries req) w d res"
  proof (cases "\<exists>ts m. group_series req h (Timeseries req) [] = Inr ts \<and>
      overBudget (map (\<lambda>(key, vs). (key, sum_list (map (seriesEstimate req) vs))) ts) (ls_admission s) = Inr m")
    case True
    then obtain ts m where ts: "group_series req h (Timeseries req) [] = Inr ts"
      and m: "overBudget (map (\<lambda>(key, vs). (key, sum_list (map (seriesEstimate req) vs))) ts) (ls_admission s) = Inr m" by blast
    have run: "series_loop e (enc req) (se_pool e (ls_calls s)) (order_tables ts m) 0 0 [] s = (res, s')" using assms ts m by (simp add: WriteTimeSeries_def)
    have g: "mset (concat (map snd ts)) = mset (Timeseries req)" "\<forall>(key, us)\<in>set ts. \<forall>v\<in>set us. series_key req h v = Some key"
      using group_series_ok [OF ts] by simp_all
    have "mset (series_of (order_tables ts m)) = mset (Timeseries req)"
      using order_tables_series [of m ts] overBudget_length m g(1) by fastforce
    then have "series_ok 0 0 [] (series_of (order_tables ts m)) w d res = series_ok 0 0 [] (Timeseries req) w d res" for w d by (simp only: series_ok_def)
    then show ?thesis using series_loop_settles [OF run order_tables_keys [OF g(2)]] by simp
  next
    case False
    then have "\<exists>err. res = WriteFailed err \<and> s' = s" using assms by (auto simp: WriteTimeSeries_def split: sum.splits)
    then show ?thesis using settles_frame [of s s "enc req" "series_key req h"] by (auto simp: series_ok_def intro!: exI [of _ "{#}"])
  qed
  then obtain w d where st: "settles_records (enc req) (series_key req h) s s' w d" and ok: "series_ok 0 0 [] (Timeseries req) w d res" by blast
  obtain blocks refused where b: "ls_written s' = ls_written s @ blocks" "ls_shed s' = ls_shed s @ refused" "mset (concat (map (fst \<circ> snd) blocks)) = w" "mset (map snd refused) = d"
    "\<forall>(key, vs, buf)\<in>set blocks. block_of (enc req) vs buf \<and> (\<forall>v\<in>set vs. series_key req h v = Some key)" "\<forall>(quota, v)\<in>set refused. is_quota quota"
    using st unfolding settles_records_def by blast
  have keys: "series_key req h v = Some key \<longleftrightarrow> SegmentKey [] req v h = Inr key" for v key by (simp add: series_key_def split: sum.splits)
  have sums: "samples_of w = sample_count (concat (map (fst \<circ> snd) blocks))" "samples_of d = sample_count (map snd refused)"
    using samples_of_simps(3) b(3,4) by metis+
  have "w + d \<subseteq># mset (Timeseries req)" using ok by (auto simp: series_ok_def split: write_result.splits)
  moreover have zero: "v \<in> set (map snd refused) \<Longrightarrow> ts_Samples v = []" if "samples_of d \<le> 0" for v
    using samples_of_zero [OF that, of v] b(4) by (metis set_mset_mset)
  then have "case res of
          WriteOK \<Rightarrow> w + d = mset (Timeseries req) \<and> (\<forall>v\<in>set (map snd refused). ts_Samples v = [])
        | WriteOutcome a r out \<Rightarrow> w + d = mset (Timeseries req) \<and> mset out = d \<and> a = sample_count (concat (map (fst \<circ> snd) blocks)) \<and> r = sample_count (map snd refused)
        | PartialWrite p err \<Rightarrow> False
        | WriteFailed err \<Rightarrow> True"
    using ok sums by (cases res) (simp_all add: series_ok_def)
  ultimately show ?thesis using b unfolding keys [symmetric] Let_def by blast
qed

subsection \<open>A table over its budget\<close>

definition demo_call :: call_env where
  "demo_call = \<lparr>ce_now = 1, ce_env = (\<lambda>_. \<lparr>e_now = 1, e_mono = 1, e_jitter = 0, e_create = CreateOK, e_write = None, e_close = None, e_remove = False,
     e_locked = False, e_prefixes = []\<rparr>), ce_others = (\<lambda>_ _ x. x), ce_ctx = (\<lambda>_. None), ce_repoSize = 0\<rparr>"

definition demo_store_env :: store_env where
  "demo_store_env = \<lparr>se_hash = (\<lambda>_. 0), se_idgen = (\<lambda>n. replicate n CHR ''0'' @ ''1''), se_codec = stored_codec, se_call = (\<lambda>n. demo_call),
     se_pool = (\<lambda>n. \<lparr>cw_bytes = [1, 2], cw_headerWritten = True, cw_calls = 5\<rparr>)\<rparr>"

definition full_table :: admission where
  "full_table =
     (let ao = \<lparr>Global = \<lparr>Bytes = 0, Segments = 0\<rparr>, Default = \<lparr>Bytes = 100, Segments = 0\<rparr>, Overrides = [], Enforce = True, RealtimeReservedBytes = 0, Policy = None\<rparr>;
          d = \<lparr>Database = ''DB'', Table = ''T''\<rparr>
      in set_table ((new_budget ao d)\<lparr>busage := \<lparr>Bytes = 100, Segments = 1\<rparr>, throttled := ''bytes''\<rparr>) d (NewAdmission ao))"

definition full_store :: "'r local_store" where
  "full_store = \<lparr>ls_repo = NewRepository demo_repo_opts \<lparr>disk = Map.empty, budgets = Some full_table\<rparr>, ls_inflight = 0, ls_calls = 0, ls_written = [], ls_shed = []\<rparr>"

definition demo_native_logs :: "nat native_log list" where
  "demo_native_logs = [\<lparr>log_database = ''DB'', log_table = ''T'', log_rest = 1\<rparr>, \<lparr>log_database = [], log_table = ''T'', log_rest = 2\<rparr>,
     \<lparr>log_database = ''D.B'', log_table = ''T'', log_rest = 3\<rparr>]"

definition demo_log_enc :: "nat native_log encoder" where
  "demo_log_enc = \<lparr>en_schema = [], en_rows = (\<lambda>n l. ([of_nat n, of_nat (log_rest l)], True))\<rparr>"

lemma demo_send:
  "map_option (\<lambda>(a, r, s). (a, ls_written s)) (sink_Send demo_store_env demo_log_enc 7 None demo_native_logs full_store) = Some (True, [])"
  by code_simp

lemma demo_destined: "filter (\<lambda>l. log_key 7 l \<noteq> None) demo_native_logs = [demo_native_logs ! 0, demo_native_logs ! 2]"
  by code_simp

theorem batch_settled_once_witness:
  "\<exists>res s'. sink_Send demo_store_env demo_log_enc 7 None demo_native_logs full_store = Some (True, res, s') \<and>
     mset (map snd (ls_shed s')) = {#demo_native_logs ! 0, demo_native_logs ! 2#}"
proof -
  obtain res s' where run: "sink_Send demo_store_env demo_log_enc 7 None demo_native_logs full_store = Some (True, res, s')" and none: "ls_written s' = []"
    using demo_send by (cases "sink_Send demo_store_env demo_log_enc 7 None demo_native_logs full_store") auto
  have "ls_written full_store = []" "ls_shed full_store = []" by (simp_all add: full_store_def)
  then show ?thesis
    using batch_settled_once [OF run] run none unfolding mset_filter [symmetric] demo_destined by auto
qed

definition demo_series :: "nat WriteRequest" where
  "demo_series = \<lparr>Timeseries = [\<lparr>ts_Labels = [\<lparr>lname = bytes_of_string ''__name__'', lvalue = bytes_of_string ''t''\<rparr>,
       \<lparr>lname = bytes_of_string ''adxmon_database'', lvalue = bytes_of_string ''DB''\<rparr>], ts_Samples = [4, 5]\<rparr>], CommonLabels = [], wr_LabelFilter = None\<rparr>"

definition demo_series_enc :: "nat WriteRequest \<Rightarrow> nat TimeSeries encoder" where
  "demo_series_enc req = \<lparr>en_schema = [], en_rows = (\<lambda>n v. (map of_nat (ts_Samples v), True))\<rparr>"

definition demo_series_run :: "nat TimeSeries write_result \<times> nat TimeSeries local_store" where
  "demo_series_run = WriteTimeSeries demo_store_env demo_series_enc 7 demo_series full_store"

lemma demo_series_outcome: "case demo_series_run of (WriteOutcome a r out, s) \<Rightarrow> ls_written s = [] \<and> r = 2 | _ \<Rightarrow> False"
  by code_simp

theorem time_series_settled_once_witness:
  "\<exists>s' out. WriteTimeSeries demo_store_env demo_series_enc 7 demo_series full_store = (WriteOutcome 0 2 out, s') \<and>
     mset out = mset (Timeseries demo_series) \<and> mset (map snd (ls_shed s')) = mset (Timeseries demo_series)"
proof -
  obtain a out s' where run: "WriteTimeSeries demo_store_env demo_series_enc 7 demo_series full_store = (WriteOutcome a 2 out, s')"
    and none: "ls_written s' = []"
    using demo_series_outcome unfolding demo_series_run_def by (auto split: prod.splits write_result.splits)
  have empty: "ls_written full_store = []" "ls_shed full_store = []" by (simp_all add: full_store_def)
  from time_series_settled_once [OF run] obtain blocks refused where
    b: "ls_written s' = blocks" "ls_shed s' = refused" "mset (concat (map (fst \<circ> snd) blocks)) + mset (map snd refused) = mset (Timeseries demo_series)"
      "mset out = mset (map snd refused)" "a = sample_count (concat (map (fst \<circ> snd) blocks))"
    by (auto simp: Let_def empty)
  have "blocks = []" using b(1) none by simp
  then have "a = 0" "mset (map snd refused) = mset (Timeseries demo_series)" using b(3,5) by (simp_all add: sample_count_def)
  then show ?thesis using run b by simp
qed

end
