(* ===== verification/AppendTrace.thy ===== *)
theory AppendTrace
  imports WalLog
begin

text \<open>
  What a call of \<open>Append\<close> leaves in the files of its log, attempt by attempt, with any faults and any interference between the attempts: each attempt adds bytes to the active segment, or to the
  one it creates, and touches no other file. An attempt that fails adds nothing, unless the system failed to write (\<open>ErrIO\<close>): then it may add a prefix.
\<close>

section \<open>Attempts\<close>

text \<open>The attempts of \<open>writeWithRetry\<close>: the state before each, its result, and the state behind it.\<close>

type_synonym attempt = "(wal \<times> world) \<times> (wal_error + int) \<times> (wal \<times> world)"

function retry_trace ::
  "idgen \<Rightarrow> (nat \<Rightarrow> env) \<Rightarrow> (nat \<Rightarrow> bool \<Rightarrow> wal \<times> world \<Rightarrow> wal \<times> world) \<Rightarrow> (nat \<Rightarrow> wal_error option) \<Rightarrow>
   (nat \<Rightarrow> wal \<Rightarrow> world \<Rightarrow> (wal_error + int) \<times> wal \<times> world) \<Rightarrow> nat \<Rightarrow> nat \<Rightarrow> nat \<Rightarrow> wal \<Rightarrow> world \<Rightarrow> attempt list"
where
  "retry_trace idgen env others ctx f k rotations closedRetries w W =
     (case others k False (w, W) of (w, W) \<Rightarrow>
      case f k w W of (r, w', W') \<Rightarrow>
        ((w, W), r, (w', W')) #
        (case r of
           Inr n \<Rightarrow> []
         | Inl err \<Rightarrow>
             if err = ErrMaxSegmentSizeExceeded \<and> rotations < maxSegmentClosedRetries then
               (case rotateSegmentIfNecessary idgen (env k) (others k True) w' W' of (w, W) \<Rightarrow>
                  if ctx k = None then retry_trace idgen env others ctx f (Suc k) (Suc rotations) closedRetries w W else [])
             else if err = ErrSegmentClosed \<and> closedRetries < maxSegmentClosedRetries then
               (if ctx k = None then retry_trace idgen env others ctx f (Suc k) rotations (Suc closedRetries) w' W' else [])
             else []))"
  by pat_completeness auto
termination
  by (relation "measure (\<lambda>(idgen, env, others, ctx, f, k, rot, cl, w, W).
        (maxSegmentClosedRetries - rot) + (maxSegmentClosedRetries - cl))") auto

declare retry_trace.simps [simp del]

definition retried :: "attempt \<Rightarrow> bool" where
  "retried x \<longleftrightarrow> fst (snd x) = Inl ErrMaxSegmentSizeExceeded \<or> fst (snd x) = Inl ErrSegmentClosed"

text \<open>All attempts but the last were refused for a rotation or a closed segment, and the last decides.\<close>

definition trace_of :: "wal_error option \<Rightarrow> attempt list \<Rightarrow> bool" where
  "trace_of err tr \<longleftrightarrow> tr \<noteq> [] \<and> list_all retried (butlast tr) \<and>
     (case err of
        None \<Rightarrow> \<exists>n. fst (snd (List.last tr)) = Inr n
      | Some x \<Rightarrow> fst (snd (List.last tr)) = Inl x \<or> retried (List.last tr))"

lemma trace_of_Cons: "retried x \<Longrightarrow> trace_of err tr \<Longrightarrow> trace_of err (x # tr)"
  by (cases tr) (auto simp: trace_of_def split: option.splits)

lemma retry_trace_ok:
  "writeWithRetry idgen env others ctx f k rotations closedRetries w W = (n, err, w', W') \<Longrightarrow>
   trace_of err (retry_trace idgen env others ctx f k rotations closedRetries w W)"
proof (induction idgen env others ctx f k rotations closedRetries w W rule: retry_trace.induct)
  case (1 idgen env others ctx f k rotations closedRetries w W)
  obtain w0 W0 where others: "others k False (w, W) = (w0, W0)" by (rule prod.exhaust)
  obtain r w1 W1 where f: "f k w0 W0 = (r, w1, W1)" by (rule prod_cases3)
  note run = "1.prems" [unfolded writeWithRetry.simps [of idgen env others ctx f k] others f prod.case]
  note trace = retry_trace.simps [of idgen env others ctx f k rotations closedRetries w W, unfolded others f prod.case]
  show ?case
  proof (cases r)
    case (Inr m)
    then show ?thesis using run trace by (auto simp: trace_of_def)
  next
    case (Inl x)
    obtain w2 W2 where rot: "rotateSegmentIfNecessary idgen (env k) (others k True) w1 W1 = (w2, W2)" by (rule prod.exhaust)
    have head: "trace_of err [((w0, W0), r, w1, W1)]" if "err = Some x \<or> err \<noteq> None \<and> x \<in> {ErrMaxSegmentSizeExceeded, ErrSegmentClosed}"
      using that Inl by (auto simp: trace_of_def retried_def)
    have fin: "err = Some x" if "(case x of TableOverloadedError d reason after \<Rightarrow> (Suc k, Some x, y) | _ \<Rightarrow> (Suc k, Some x, z)) = (n, err, w', W')" for y z :: "wal \<times> world"
      using that by (cases x) auto
    consider (size) "x = ErrMaxSegmentSizeExceeded" "rotations < maxSegmentClosedRetries" "ctx k = None"
      | (closed) "x = ErrSegmentClosed" "closedRetries < maxSegmentClosedRetries" "ctx k = None"
      | (stop) "retry_trace idgen env others ctx f k rotations closedRetries w W = [((w0, W0), r, w1, W1)]"
          "err = Some x \<or> err \<noteq> None \<and> x \<in> {ErrMaxSegmentSizeExceeded, ErrSegmentClosed}"
      using run trace Inl rot by (cases "ctx k") (auto dest: fin dest!: sym [of "Some _" "ctx k"] split: if_splits prod.splits)
    then show ?thesis
    proof cases
      case size
      have "retry_trace idgen env others ctx f k rotations closedRetries w W =
          ((w0, W0), r, w1, W1) # retry_trace idgen env others ctx f (Suc k) (Suc rotations) closedRetries w2 W2"
        using trace Inl rot size by simp
      then show ?thesis
        using "1.IH"(1) [OF others [symmetric] f [symmetric] refl Inl _ rot [symmetric]] run Inl rot size by (auto simp: retried_def intro!: trace_of_Cons)
    next
      case closed
      have "retry_trace idgen env others ctx f k rotations closedRetries w W =
          ((w0, W0), r, w1, W1) # retry_trace idgen env others ctx f (Suc k) rotations (Suc closedRetries) w1 W1"
        using trace Inl closed by simp
      then show ?thesis
        using "1.IH"(2) [OF others [symmetric] f [symmetric] refl Inl] run Inl closed by (auto simp: retried_def intro!: trace_of_Cons)
    next
      case stop
      then show ?thesis using head by simp
    qed
  qed
qed

lemma retry_trace_calls:
  "(x, r, x') \<in> set (retry_trace idgen env others ctx f k rotations closedRetries w W) \<Longrightarrow> \<exists>j. f j (fst x) (snd x) = (r, x')"
proof (induction idgen env others ctx f k rotations closedRetries w W rule: retry_trace.induct)
  case (1 idgen env others ctx f k rotations closedRetries w W)
  obtain w0 W0 where others: "others k False (w, W) = (w0, W0)" by (rule prod.exhaust)
  obtain r1 w1 W1 where f: "f k w0 W0 = (r1, w1, W1)" by (rule prod_cases3)
  obtain w2 W2 where rot: "rotateSegmentIfNecessary idgen (env k) (others k True) w1 W1 = (w2, W2)" by (rule prod.exhaust)
  note trace = retry_trace.simps [of idgen env others ctx f k rotations closedRetries w W, unfolded others f prod.case]
  note IH = "1.IH"(1) [OF others [symmetric] f [symmetric] refl _ _ rot [symmetric]] "1.IH"(2) [OF others [symmetric] f [symmetric] refl]
  show ?case
  proof (cases "(x, r, x') = ((w0, W0), r1, w1, W1)")
    case True
    then show ?thesis using f by (intro exI [of _ k]) simp
  next
    case False
    then show ?thesis using "1.prems" trace rot IH by (cases r1) (auto split: if_splits)
  qed
qed

section \<open>What an attempt adds\<close>

text \<open>The bytes of the segment that the next write goes to; a new one starts with its header.\<close>

definition log_content :: "wal \<times> world \<Rightarrow> bytes" where
  "log_content x = (case w_segment (fst x) of None \<Rightarrow> segmentMagic | Some s \<Rightarrow> file_of s (w_store (snd x)) @ sg_buf s)"

definition write_path :: "idgen \<Rightarrow> wal \<times> world \<Rightarrow> string" where
  "write_path idgen x =
     (case w_segment (fst x) of
        Some s \<Rightarrow> sg_path s
      | None \<Rightarrow> filepath_Join (StorageDir (w_opts (fst x))) (segment_fileName (WPrefix (w_opts (fst x))) (idgen (w_nextId (snd x)))))"

definition adds :: "idgen \<Rightarrow> bytes \<Rightarrow> wal \<times> world \<Rightarrow> wal \<times> world \<Rightarrow> bool" where
  "adds idgen bs x x' \<longleftrightarrow> log_content x' = log_content x @ bs \<and>
     (\<forall>p. p \<noteq> write_path idgen x \<longrightarrow> disk (w_store (snd x')) p = disk (w_store (snd x)) p)"

text \<open>Every block of a body has its checksum; and the number of its blocks.\<close>

definition verified :: "bytes \<Rightarrow> bool" where
  "verified buf = (case NewSegmentIterator (of_bytes buf) of Inl _ \<Rightarrow> False | Inr it \<Rightarrow> (case iterator_Verify it of Inl _ \<Rightarrow> False | Inr n \<Rightarrow> True))"

definition blocks_in :: "bytes \<Rightarrow> nat" where
  "blocks_in buf = (case NewSegmentIterator (of_bytes buf) of Inl _ \<Rightarrow> 0 | Inr it \<Rightarrow> (case iterator_Verify it of Inl _ \<Rightarrow> 0 | Inr n \<Rightarrow> n))"

definition body_blocks :: "bytes \<Rightarrow> bytes" where
  "body_blocks buf = (if blocks_in buf = 0 then [] else drop 8 buf)"

definition may_add :: "bytes \<Rightarrow> wal_error + int \<Rightarrow> bytes \<Rightarrow> bool" where
  "may_add buf r bs =
     (case r of
        Inr n \<Rightarrow> verified buf \<and> bs = body_blocks buf
      | Inl err \<Rightarrow> (\<exists>k. bs = take k (drop 8 buf)) \<and> (bs \<noteq> [] \<longrightarrow> err = ErrIO))"

lemma may_add_none: "may_add buf (Inl err) []"
  by (auto simp: may_add_def intro: exI [of _ 0])

lemma write_bytes_adds:
  assumes "write_bytes now False fault b s st = (r, s', st')"
  shows "\<exists>bs. (case r of Inr n \<Rightarrow> bs = b | Inl err \<Rightarrow> (\<exists>k. bs = take k b) \<and> (bs \<noteq> [] \<longrightarrow> err = ErrIO)) \<and> sg_path s' = sg_path s \<and>
    file_of s' st' @ sg_buf s' = (file_of s st @ sg_buf s) @ bs \<and> (\<forall>p. p \<noteq> sg_path s \<longrightarrow> disk st' p = disk st p)"
proof -
  obtain ro ao where res: "reserve_opt now (sg_path s) (sg_budget s) (int (length b)) 0 (budgets st) = (ro, ao)" by (rule prod.exhaust)
  show ?thesis
  proof (cases ro)
    case (Inl err)
    then show ?thesis using assms res by (intro exI [of _ "[]"]) (auto simp: write_bytes_def file_of_def intro: exI [of _ 0])
  next
    case (Inr ra)
    define flt where "flt = (if sg_err s then Some 0 else fault)"
    define acc where "acc = (case flt of None \<Rightarrow> b | Some k \<Rightarrow> take k b)"
    obtain f bf where w: "bufio_Write (file_of s st) (sg_buf s) acc = (f, bf)" by (rule prod.exhaust)
    then have c: "f @ bf = file_of s st @ sg_buf s @ acc" using bufio_Write_content [of "file_of s st" "sg_buf s" acc] by simp
    have all: "flt = None \<Longrightarrow> acc = b" by (simp add: acc_def)
    have run: "(case flt of None \<Rightarrow> r = Inr (int (length acc)) | Some k \<Rightarrow> r = Inl ErrIO) \<and> sg_path s' = sg_path s \<and> sg_buf s' = bf \<and> disk st' = (disk st)(sg_path s \<mapsto> f)"
      using assms res Inr w all by (auto simp: write_bytes_def Let_def flt_def [symmetric] acc_def [symmetric] file_of_def [symmetric] split: option.splits)
    have "(case r of Inr n \<Rightarrow> acc = b | Inl err \<Rightarrow> (\<exists>k. acc = take k b) \<and> (acc \<noteq> [] \<longrightarrow> err = ErrIO))"
      using run by (auto simp: acc_def split: option.splits)
    moreover have "file_of s' st' @ sg_buf s' = (file_of s st @ sg_buf s) @ acc" using run c by (simp add: file_of_def)
    ultimately show ?thesis using run by (intro exI [of _ acc]) simp
  qed
qed

lemma segment_Append_adds:
  assumes "segment_Append now fault locked buf s st = (r, s', st')"
  shows "\<exists>bs. may_add buf r bs \<and> sg_path s' = sg_path s \<and> file_of s' st' @ sg_buf s' = (file_of s st @ sg_buf s) @ bs \<and>
    (\<forall>p. p \<noteq> sg_path s \<longrightarrow> disk st' p = disk st p)"
proof (cases "\<exists>it n. NewSegmentIterator (of_bytes buf) = Inr it \<and> iterator_Verify it = Inr n \<and> n \<noteq> 0 \<and> \<not> locked \<and> \<not> sg_closed s")
  case True
  then have run: "write_bytes now False fault (drop 8 buf) s st = (r, s', st')" and b: "body_blocks buf = drop 8 buf" "verified buf"
    using assms by (auto simp: segment_Append_def body_blocks_def blocks_in_def verified_def)
  show ?thesis using write_bytes_adds [OF run] b by (cases r) (simp_all add: may_add_def)
next
  case False
  then have "s' = s" "st' = st" "may_add buf r []"
    using assms may_add_none by (auto simp: segment_Append_def may_add_def body_blocks_def blocks_in_def verified_def split: sum.splits if_splits)
  then show ?thesis by (intro exI [of _ "[]"]) simp
qed

lemma newSegment_adds:
  assumes "newSegment idgen e w W = (r, W')" and "w_segment w = None"
  shows "(\<forall>p. p \<noteq> write_path idgen (w, W) \<longrightarrow> disk (w_store W') p = disk (w_store W) p) \<and>
    (\<forall>s. r = Inr s \<longrightarrow> sg_path s = write_path idgen (w, W) \<and> file_of s (w_store W') @ sg_buf s = segmentMagic)"
  using assms by (auto simp: newSegment_def NewSegment_def write_path_def file_of_def Let_def split: prod.splits option.splits sum.splits if_splits create_fault.splits)

lemma tryAppend_adds:
  assumes "tryAppend idgen e buf w W = (r, w', W')"
  shows "\<exists>bs. may_add buf r bs \<and> adds idgen bs (w, W) (w', W')"
proof -
  have stop: ?thesis if "w' = w" "W' = W" "r = Inl err" for err
    using that may_add_none by (intro exI [of _ "[]"]) (auto simp: adds_def)
  show ?thesis
  proof (cases "wal_validateLimits e w W")
    case (Some err)
    then show ?thesis using assms stop by (auto simp: tryAppend_def try_segment_def)
  next
    case ok: None
    show ?thesis
    proof (cases "w_segment w")
      case (Some s)
      obtain s' st' where a: "segment_Append (e_now e) (e_write e) (e_locked e) buf s (w_store W) = (r, s', st')" "w' = w\<lparr>w_segment := Some s'\<rparr>" "W' = W\<lparr>w_store := st'\<rparr>"
        using assms ok Some by (auto simp: tryAppend_def try_segment_def split: prod.splits)
      obtain bs where "may_add buf r bs" "file_of s' st' @ sg_buf s' = (file_of s (w_store W) @ sg_buf s) @ bs" "\<forall>p. p \<noteq> sg_path s \<longrightarrow> disk st' p = disk (w_store W) p"
        using segment_Append_adds [OF a(1)] by blast
      then show ?thesis using a(2,3) Some by (intro exI [of _ bs]) (simp add: adds_def log_content_def write_path_def)
    next
      case None
      obtain ro W1 where new: "newSegment idgen e w W = (ro, W1)" by (rule prod.exhaust)
      note N = newSegment_adds [OF new None]
      show ?thesis
      proof (cases "\<exists>s. ro = Inr s \<and> \<not> w_closed w")
        case False
        then have "w' = w \<and> (\<exists>err. r = Inl err) \<and> (W' = W \<or> W' = W1)" using assms ok None new by (cases ro) (auto simp: tryAppend_def try_segment_def split: if_splits)
        then show ?thesis using N None may_add_none by (intro exI [of _ "[]"]) (auto simp: adds_def log_content_def)
      next
        case True
        then obtain s where s: "ro = Inr s" "\<not> w_closed w" by blast
        obtain w1 W2 where set: "setSegment e (Some s) w W1 = (w1, W2)" by (rule prod.exhaust)
        have W2: "w_store W2 = w_store W1" using set by (auto simp: setSegment_def scheduleRotationLocked_def Let_def split: option.splits if_splits)
        obtain s' st' where a: "segment_Append (e_now e) (e_write e) (e_locked e) buf s (w_store W2) = (r, s', st')" "w_segment w' = Some s'" "w_store W' = st'"
          using assms ok None new s set by (auto simp: tryAppend_def try_segment_def split: prod.splits)
        obtain bs where bs: "may_add buf r bs" "sg_path s' = sg_path s" "file_of s' st' @ sg_buf s' = (file_of s (w_store W2) @ sg_buf s) @ bs"
            "\<forall>p. p \<noteq> sg_path s \<longrightarrow> disk st' p = disk (w_store W2) p"
          using segment_Append_adds [OF a(1)] by blast
        have "log_content (w', W') = log_content (w, W) @ bs" using a bs(3) N s(1) None W2 by (simp add: log_content_def)
        moreover have "disk (w_store W') p = disk (w_store W) p" if "p \<noteq> write_path idgen (w, W)" for p
          using that a bs(4) N s(1) W2 by simp
        ultimately show ?thesis using bs(1) by (auto simp: adds_def)
      qed
    qed
  qed
qed

section \<open>What a call adds\<close>

text \<open>The attempts of a call of \<open>Append\<close>.\<close>

definition append_trace :: "idgen \<Rightarrow> (nat \<Rightarrow> env) \<Rightarrow> (nat \<Rightarrow> bool \<Rightarrow> wal \<times> world \<Rightarrow> wal \<times> world) \<Rightarrow> (nat \<Rightarrow> wal_error option) \<Rightarrow> bytes \<Rightarrow> wal \<Rightarrow> world \<Rightarrow> attempt list" where
  "append_trace idgen env others ctx buf w W =
     retry_trace idgen env others ctx (\<lambda>k. tryAppend idgen (env k) buf) 0 0 0 (w\<lparr>w_inflight := w_inflight w + int (length buf)\<rparr>) W"

definition leaves :: "idgen \<Rightarrow> attempt list \<Rightarrow> bytes \<Rightarrow> bool" where
  "leaves idgen tr bs \<longleftrightarrow> tr \<noteq> [] \<and> (\<forall>(x, r, x') \<in> set (butlast tr). adds idgen [] x x') \<and> (case List.last tr of (x, r, x') \<Rightarrow> adds idgen bs x x')"

lemma wal_Append_leaves:
  assumes "wal_Append idgen env others ctx buf w W = (n, err, w', W')"
  shows "\<exists>bs. leaves idgen (append_trace idgen env others ctx buf w W) bs \<and>
    (case err of None \<Rightarrow> verified buf \<and> bs = body_blocks buf | Some x \<Rightarrow> (\<exists>k. bs = take k (drop 8 buf)) \<and> (bs \<noteq> [] \<longrightarrow> x = ErrIO))"
proof -
  let ?tr = "append_trace idgen env others ctx buf w W"
  obtain w1 where "writeWithRetry idgen env others ctx (\<lambda>k. tryAppend idgen (env k) buf) 0 0 0 (w\<lparr>w_inflight := w_inflight w + int (length buf)\<rparr>) W = (n, err, w1, W')"
    using assms by (auto simp: wal_Append_def split: prod.splits)
  from retry_trace_ok [OF this] have T: "trace_of err ?tr" by (simp add: append_trace_def)
  have one: "\<exists>bs. may_add buf r bs \<and> adds idgen bs x x'" if "(x, r, x') \<in> set ?tr" for x r x'
    using retry_trace_calls [OF that [unfolded append_trace_def]] tryAppend_adds by (metis prod.collapse)
  have none: "bs = []" if "may_add buf r bs" "r = Inl ErrMaxSegmentSizeExceeded \<or> r = Inl ErrSegmentClosed" for r bs
    using that by (auto simp: may_add_def)
  have early: "adds idgen [] x x'" if "(x, r, x') \<in> set (butlast ?tr)" for x r x'
  proof -
    have "retried (x, r, x')" using T that by (auto simp: trace_of_def list_all_iff)
    then show ?thesis using one [OF in_set_butlastD [OF that]] none by (auto simp: retried_def)
  qed
  obtain x r x' where l: "List.last ?tr = (x, r, x')" by (rule prod_cases3)
  have "?tr \<noteq> []" using T by (simp add: trace_of_def)
  then have "(x, r, x') \<in> set ?tr" using l last_in_set by metis
  then obtain bs where bs: "may_add buf r bs" "adds idgen bs x x'" using one by blast
  have "case err of None \<Rightarrow> verified buf \<and> bs = body_blocks buf | Some x \<Rightarrow> (\<exists>k. bs = take k (drop 8 buf)) \<and> (bs \<noteq> [] \<longrightarrow> x = ErrIO)"
  proof (cases err)
    case None
    then show ?thesis using T l bs(1) by (auto simp: trace_of_def may_add_def)
  next
    case (Some y)
    then consider "r = Inl y" | "r = Inl ErrMaxSegmentSizeExceeded \<or> r = Inl ErrSegmentClosed" using T l by (auto simp: trace_of_def retried_def)
    then show ?thesis
    proof cases
      case 1
      then show ?thesis using Some bs(1) by (simp add: may_add_def)
    next
      case 2
      have "\<exists>k. [] = take k (drop 8 buf)" by (rule exI [of _ 0]) simp
      then show ?thesis using Some none [OF bs(1) 2] by simp
    qed
  qed
  then show ?thesis using early bs(2) l \<open>?tr \<noteq> []\<close> by (intro exI [of _ bs]) (auto simp: leaves_def)
qed

end
