(* ===== verification/Intake.thy ===== *)
theory Intake
  imports Store AppendTrace
begin

text \<open>
  Imports of whole segments, \<open>storage/memory_limiter.go\<close> and \<open>ImportWith\<close>, \<open>Remove\<close> and the size queries of \<open>storage/store.go\<close>: the body of a transfer is buffered under a ceiling on memory that all
  requests share, then offered to \<open>forward\<close> and appended to its log.

  A body is the list of the pieces that its reader returns, and what it reports behind them: \<open>None\<close> is the end of the file. A piece is returned in several reads when the
  buffer is smaller. The memory that other requests hold at the \<open>n\<close>-th read is \<open>held n\<close>; \<open>room n\<close> is the size of the buffer that \<open>io.Copy\<close> offers, at least one byte. The loop of
  \<open>Reserve\<close> ends with a compare-and-swap that succeeded or with a refusal and is one atomic step.
\<close>

section \<open>The limiter\<close>

definition intakeStep :: int where
  "intakeStep = 65536"

definition limiter_Reserve :: "int \<Rightarrow> int \<Rightarrow> int \<Rightarrow> int option" where
  "limiter_Reserve limit n used = (if limit \<le> 0 then Some (used + n) else if used + n > limit then None else Some (used + n))"

definition limiter_Release :: "int \<Rightarrow> int \<Rightarrow> int" where
  "limiter_Release n used = used - n"

definition claim_step :: "int \<Rightarrow> int" where
  "claim_step limit = (if limit > 0 then min intakeStep limit else intakeStep)"

lemma claim_step_pos: "0 < claim_step limit"
  by (simp add: claim_step_def intakeStep_def)

section \<open>Concurrent requests\<close>

text \<open>Each reader has what it reserved and what it read. The steps are those of \<open>intakeReader\<close> and of its creation.\<close>

record intake =
  in_used :: int
  in_readers :: "(int \<times> int) multiset"

inductive intake_sys :: "int \<Rightarrow> intake \<Rightarrow> intake \<Rightarrow> bool" for limit where
  Begin: "intake_sys limit \<lparr>in_used = u, in_readers = R\<rparr> \<lparr>in_used = u, in_readers = add_mset (0, 0) R\<rparr>"
| Claim: "n \<ge> r \<Longrightarrow> limiter_Reserve limit (claim_step limit) u = Some u' \<Longrightarrow>
    intake_sys limit \<lparr>in_used = u, in_readers = add_mset (r, n) R\<rparr> \<lparr>in_used = u', in_readers = add_mset (r + claim_step limit, n) R\<rparr>"
| Buffer: "0 \<le> k \<Longrightarrow> k \<le> r - n \<Longrightarrow>
    intake_sys limit \<lparr>in_used = u, in_readers = add_mset (r, n) R\<rparr> \<lparr>in_used = u, in_readers = add_mset (r, n + k) R\<rparr>"
| Finish: "intake_sys limit \<lparr>in_used = u, in_readers = add_mset (r, n) R\<rparr> \<lparr>in_used = limiter_Release r u, in_readers = R\<rparr>"

inductive_cases intake_sysE: "intake_sys limit s s'"

definition intake_init :: "intake \<Rightarrow> bool" where
  "intake_init s \<longleftrightarrow> s = \<lparr>in_used = 0, in_readers = {#}\<rparr>"

definition intake_inv :: "int \<Rightarrow> intake \<Rightarrow> bool" where
  "intake_inv limit s \<longleftrightarrow> in_used s = (\<Sum>x\<in>#in_readers s. fst x) \<and> (limit > 0 \<longrightarrow> in_used s \<le> limit) \<and> (\<forall>(r, n)\<in>#in_readers s. 0 \<le> n \<and> n \<le> r)"

lemma intake_inv_step:
  assumes "intake_sys limit s s'" "intake_inv limit s" shows "intake_inv limit s'"
  using assms claim_step_pos [of limit]
  by (cases rule: intake_sys.cases) (auto simp: intake_inv_def limiter_Reserve_def limiter_Release_def split: if_splits)

interpretation intake: step_system intake_init "intake_sys limit" "intake_inv limit" for limit
proof unfold_locales
  show "intake_init s \<Longrightarrow> intake_inv limit s" for s by (simp add: intake_init_def intake_inv_def)
  show "intake_sys limit s s' \<Longrightarrow> intake_inv limit s \<Longrightarrow> intake_inv limit s'" for s s' by (rule intake_inv_step)
qed

text \<open>However requests interleave, they have buffered at most what is counted, and that is within the ceiling.\<close>

lemma intake_within_ceiling:
  assumes "intake_init s" "(intake_sys limit)\<^sup>*\<^sup>* s s'"
  shows "(\<Sum>x\<in>#in_readers s'. snd x) \<le> in_used s'" "0 < limit \<Longrightarrow> in_used s' \<le> limit"
proof -
  have inv: "intake_inv limit s'" by (rule intake.reachable_inv [OF assms])
  have "(\<Sum>x\<in>#in_readers s'. snd x) \<le> (\<Sum>x\<in>#in_readers s'. fst x)"
    using inv by (intro sum_mset_mono) (auto simp: intake_inv_def)
  then show "(\<Sum>x\<in>#in_readers s'. snd x) \<le> in_used s'" using inv by (simp add: intake_inv_def)
  show "0 < limit \<Longrightarrow> in_used s' \<le> limit" using inv by (simp add: intake_inv_def)
qed

section \<open>Reading a body\<close>

datatype import_error = ErrIntakeMemoryExhausted | BodyError string | SegmentTooLargeError destination int int | ImportWal wal_error

type_synonym body = "bytes list \<times> import_error option"

text \<open>One read of at most \<open>k\<close> bytes; \<open>Inl\<close> is the end, with its error.\<close>

definition body_Read :: "nat \<Rightarrow> body \<Rightarrow> import_error option + (bytes \<times> body)" where
  "body_Read k b =
     (case b of
        ([], err) \<Rightarrow> Inl err
      | (c # cs, err) \<Rightarrow> Inr (take k c, (if drop k c = [] then cs else drop k c # cs), err))"

text \<open>\<open>io.LimitReader\<close>: the end of the file after \<open>n\<close> bytes.\<close>

fun limit_pieces :: "nat \<Rightarrow> bytes list \<Rightarrow> bytes list" where
  "limit_pieces n [] = []"
| "limit_pieces n (c # cs) = (if n = 0 then [] else take n c # limit_pieces (n - length c) cs)"

definition LimitReader :: "nat \<Rightarrow> body \<Rightarrow> body" where
  "LimitReader n b = (limit_pieces n (fst b), if length (concat (fst b)) < n then snd b else None)"

text \<open>\<open>io.Copy(buf, intake)\<close> with \<open>intakeReader.Read\<close>: \<open>j\<close> reads were made, \<open>reserved\<close> and \<open>nread\<close> are the fields of the reader.\<close>

function copy_loop ::
  "int \<Rightarrow> (nat \<Rightarrow> int) \<Rightarrow> (nat \<Rightarrow> nat) \<Rightarrow> nat \<Rightarrow> int \<Rightarrow> int \<Rightarrow> bytes \<Rightarrow> body \<Rightarrow> (import_error + bytes) \<times> int"
where
  "copy_loop limit held room j reserved nread buf b =
     (let claim = (if nread \<ge> reserved then map_option (\<lambda>_. reserved + claim_step limit) (limiter_Reserve limit (claim_step limit) (held j + reserved))
                   else Some reserved)
      in case claim of
           None \<Rightarrow>
             ((case body_Read 1 b of
                 Inl (Some err) \<Rightarrow> Inl err
               | Inl None \<Rightarrow> Inr buf
               | Inr _ \<Rightarrow> Inl ErrIntakeMemoryExhausted), reserved)
         | Some reserved \<Rightarrow>
             (case body_Read (min (Suc (room j)) (nat (reserved - nread))) b of
                Inl (Some err) \<Rightarrow> (Inl err, reserved)
              | Inl None \<Rightarrow> (Inr buf, reserved)
              | Inr (bs, b) \<Rightarrow>
                  if reserved \<le> nread then (Inr buf, reserved)
                  else copy_loop limit held room (Suc j) reserved (nread + int (length bs)) (buf @ bs) b))"
  by pat_completeness auto
termination
proof (relation "measure (\<lambda>(limit, held, room, j, reserved, nread, buf, b). length (concat (fst b)) + length (fst b))", goal_cases)
  case (2 limit held room j reserved nread buf b claim reserved' x bs b')
  then obtain c cs err where b: "b = (c # cs, err)" by (cases b) (auto simp: body_Read_def split: list.splits prod.splits)
  define k where "k = min (Suc (room j)) (nat (reserved' - nread))"
  have "k > 0" using 2 by (simp add: k_def)
  have "b' = ((if drop k c = [] then cs else drop k c # cs), err)" using 2 b by (auto simp: body_Read_def k_def)
  then show ?case using b \<open>k > 0\<close> by auto
qed simp

declare copy_loop.simps [simp del]

text \<open>
  What a completed copy has: the whole body when it ended without an error; the claim covers what was buffered. The test \<open>reserved \<le> nread\<close> behind a read never holds, as a
  claim is positive; it makes the function total.
\<close>

lemma body_Read_concat: "body_Read k b = Inr (bs, b') \<Longrightarrow> concat (fst b) = bs @ concat (fst b') \<and> snd b' = snd b \<and> length bs \<le> k"
  by (cases b) (auto simp: body_Read_def split: list.splits if_splits)

lemma body_Read_end: "body_Read k b = Inl err \<Longrightarrow> concat (fst b) = [] \<and> snd b = err"
  by (cases b) (auto simp: body_Read_def split: list.splits)

lemma copy_loop_whole:
  assumes "copy_loop limit held room j reserved nread buf b = (res, claimed)" "nread = int (length buf)" "nread \<le> reserved"
  shows "case res of Inr data \<Rightarrow> data = buf @ concat (fst b) \<and> snd b = None \<and> int (length data) \<le> claimed
    | Inl err \<Rightarrow> snd b = Some err \<or> err = ErrIntakeMemoryExhausted"
  using assms
proof (induction limit held room j reserved nread buf b rule: copy_loop.induct)
  case (1 limit held room j reserved nread buf b)
  define claim where "claim = (if nread \<ge> reserved then map_option (\<lambda>_. reserved + claim_step limit) (limiter_Reserve limit (claim_step limit) (held j + reserved)) else Some reserved)"
  show ?case
  proof (cases claim)
    case None
    then have "(res, claimed) = ((case body_Read 1 b of Inl (Some err) \<Rightarrow> Inl err | Inl None \<Rightarrow> Inr buf | Inr _ \<Rightarrow> Inl ErrIntakeMemoryExhausted), reserved)"
      using "1.prems"(1) by (subst (asm) copy_loop.simps) (simp add: claim_def Let_def)
    then show ?thesis using "1.prems"(2,3) by (auto dest!: body_Read_end split: sum.splits option.splits)
  next
    case (Some rv)
    then have less: "nread < rv" using claim_step_pos [of limit] "1.prems"(3) by (auto simp: claim_def split: if_splits)
    define k where "k = min (Suc (room j)) (nat (rv - nread))"
    have eq: "(case body_Read k b of Inl (Some err) \<Rightarrow> (Inl err, rv) | Inl None \<Rightarrow> (Inr buf, rv)
        | Inr (bs, b) \<Rightarrow> copy_loop limit held room (Suc j) rv (nread + int (length bs)) (buf @ bs) b) = (res, claimed)"
      using "1.prems"(1) Some less by (subst (asm) copy_loop.simps) (auto simp: claim_def Let_def k_def split: sum.splits prod.splits option.splits)
    show ?thesis
    proof (cases "body_Read k b")
      case (Inl e)
      then show ?thesis using eq body_Read_end [OF Inl] less "1.prems"(2) by (auto split: option.splits)
    next
      case (Inr p)
      obtain bs b' where p: "p = (bs, b')" by (rule prod.exhaust)
      have rd: "concat (fst b) = bs @ concat (fst b')" "snd b' = snd b" "length bs \<le> k" using body_Read_concat [of k b bs b'] Inr p by auto
      have "nread + int (length bs) \<le> rv" using rd(3) less unfolding k_def by linarith
      moreover have "copy_loop limit held room (Suc j) rv (nread + int (length bs)) (buf @ bs) b' = (res, claimed)" using eq Inr p by simp
      ultimately have "case res of Inr data \<Rightarrow> data = (buf @ bs) @ concat (fst b') \<and> snd b' = None \<and> int (length data) \<le> claimed
          | Inl err \<Rightarrow> snd b' = Some err \<or> err = ErrIntakeMemoryExhausted"
        using "1.IH" [OF claim_def Some Inr [unfolded k_def] p [symmetric]] less "1.prems"(2) by simp
      then show ?thesis using rd by (auto split: sum.splits)
    qed
  qed
qed

lemma limit_pieces_concat: "concat (limit_pieces n cs) = take n (concat cs)"
  by (induction n cs rule: limit_pieces.induct) auto

section \<open>Import\<close>

definition store_Append :: "store_env \<Rightarrow> string \<Rightarrow> bytes \<Rightarrow> 'r local_store \<Rightarrow> wal_error option \<times> 'r local_store" where
  "store_Append e key buf s =
     (let c = se_call e (ls_calls s); rp = ls_repo s
      in case map_Get (se_hash e) key (rp_wals rp) of
           None \<Rightarrow> (Some ErrSegmentClosed, s)
         | Some w \<Rightarrow>
             (case wal_Append (se_idgen e) (ce_env c) (ce_others c) (ce_ctx c) buf w (rp_world rp) of
                (k, err, w, W) \<Rightarrow>
                  (err, s\<lparr>ls_repo := put_wal e key w W rp, ls_calls := Suc (ls_calls s),
                          ls_written := (if err = None then ls_written s @ [(key, [], buf)] else ls_written s)\<rparr>)))"

definition import_limit :: "int \<Rightarrow> destination \<Rightarrow> 'r local_store \<Rightarrow> int \<times> bool \<times> 'r local_store" where
  "import_limit maxDisk d s =
     (case ls_admission s of
        Some a \<Rightarrow>
          if Enforce (opts a) then
            (case Limit d a of (u, a) \<Rightarrow>
               if Bytes u > 0 \<and> (maxDisk \<le> 0 \<or> Bytes u \<le> maxDisk) then (Bytes u, True, set_admission a s) else (maxDisk, False, set_admission a s))
          else (maxDisk, False, s)
      | None \<Rightarrow> (maxDisk, False, s))"

text \<open>
  The limit of the reader, \<open>limit+1\<close> of type \<open>int64\<close>: the greatest limit wraps around, and a reader with a negative limit is at its end at once.
\<close>

definition maxInt64 :: int where
  "maxInt64 = 2 ^ 63 - 1"

definition read_limit :: "int \<Rightarrow> int" where
  "read_limit limit = (if limit = maxInt64 then - (2 ^ 63) else limit + 1)"

text \<open>The number of bytes is returned beside the error of \<open>Append\<close>.\<close>

definition ImportWith ::
  "store_env \<Rightarrow> int \<Rightarrow> int \<Rightarrow> (nat \<Rightarrow> int) \<Rightarrow> (nat \<Rightarrow> nat) \<Rightarrow> (bytes \<Rightarrow> bool) option \<Rightarrow> string \<Rightarrow> body \<Rightarrow> 'r local_store \<Rightarrow>
   (int \<times> import_error option) \<times> 'r local_store"
where
  "ImportWith e maxDisk ceiling held room forward filename b s =
     (let p = ParseFilename filename; d = \<lparr>Database = pn_database p, Table = pn_table p\<rparr>
      in case pn_err p of
           Some err \<Rightarrow> ((0, Some (ImportWal err)), s)
         | None \<Rightarrow>
             (case import_limit maxDisk d s of (limit, tableScoped, s) \<Rightarrow>
                (case fst (copy_loop ceiling held room 0 0 0 [] (if limit > 0 then LimitReader (nat (read_limit limit)) b else b)) of
                   Inl err \<Rightarrow> ((0, Some err), s)
                 | Inr data \<Rightarrow>
                     let n = int (length data); key = startup_prefix p
                     in if limit > 0 \<and> n > limit then
                          ((0, Some (if tableScoped then SegmentTooLargeError d n limit else ImportWal ErrMaxDiskUsageExceeded)), s)
                        else if (case forward of None \<Rightarrow> False | Some f \<Rightarrow> f data) then ((n, None), s)
                        else
                          (case GetWAL e key s of
                             (Inl err, s) \<Rightarrow> ((0, Some (ImportWal (ErrOther err))), s)
                           | (Inr w, s) \<Rightarrow>
                               let s = add_inflight n s
                               in if diskUsageExceeded e w s then ((0, Some (ImportWal ErrMaxDiskUsageExceeded)), add_inflight (- n) s)
                                  else (case store_Append e key data s of (err, s) \<Rightarrow> ((n, map_option ImportWal err), add_inflight (- n) s))))))"

section \<open>Removal and sizes\<close>

definition store_Remove :: "store_env \<Rightarrow> string \<Rightarrow> 'r local_store \<Rightarrow> wal_error option \<times> 'r local_store" where
  "store_Remove e path s =
     (let p = ParseFilename path
      in case pn_err p of
           Some err \<Rightarrow> (Some err, s)
         | None \<Rightarrow>
             (case GetWAL e (startup_prefix p) s of
                (Inl err, s) \<Rightarrow> (Some (ErrOther err), s)
              | (Inr w, s) \<Rightarrow>
                  (case wal_Remove (ce_env (se_call e (ls_calls s)) 0) path w (rp_world (ls_repo s)) of
                     (err, W) \<Rightarrow> (err, s\<lparr>ls_repo := (ls_repo s)\<lparr>rp_world := W\<rparr>\<rparr>))))"

definition SegmentCount :: "destination list \<Rightarrow> string list \<Rightarrow> 'r local_store \<Rightarrow> int" where
  "SegmentCount ds ks s =
     (case ls_admission s of Some a \<Rightarrow> Segments (Usage ds a) | None \<Rightarrow> int (TotalSegments ks (w_index (rp_world (ls_repo s)))))"

definition TracksSegment :: "string list list \<Rightarrow> string \<Rightarrow> 'r local_store \<Rightarrow> bool" where
  "TracksSegment kss path s =
     (case ls_admission s of
        Some a \<Rightarrow> Tracks path a
      | None \<Rightarrow> index_Contains path (w_index (rp_world (ls_repo s))) \<or> IsActiveSegment kss path (ls_repo s))"

section \<open>An import is whole or nothing\<close>

text \<open>A step that accepted nothing, wrote to no file and left every log with its segment and buffer as it was.\<close>

definition unchanged :: "store_env \<Rightarrow> 'r local_store \<Rightarrow> 'r local_store \<Rightarrow> bool" where
  "unchanged e s s' \<longleftrightarrow> ls_written s' = ls_written s \<and> disk (w_store (rp_world (ls_repo s'))) = disk (w_store (rp_world (ls_repo s))) \<and>
     (rp_wals (ls_repo s) \<noteq> [] \<longrightarrow> rp_wals (ls_repo s') \<noteq> [] \<and>
       (\<forall>k w. map_Get (se_hash e) k (rp_wals (ls_repo s)) = Some w \<longrightarrow> map_Get (se_hash e) k (rp_wals (ls_repo s')) = Some w))"

lemma unchanged_refl [simp]: "unchanged e s s"
  by (simp add: unchanged_def)

lemma unchanged_trans: "unchanged e s1 s2 \<Longrightarrow> unchanged e s2 s3 \<Longrightarrow> unchanged e s1 s3"
  by (auto simp: unchanged_def)

lemma unchanged_add_inflight [simp]: "unchanged e s (add_inflight n s') \<longleftrightarrow> unchanged e s s'"
  by (simp add: unchanged_def add_inflight_def)

lemma unchanged_import_limit: "import_limit maxDisk d s = (limit, scoped, s') \<Longrightarrow> unchanged e s s'"
  by (auto simp: import_limit_def unchanged_def set_admission_def Let_def split: option.splits prod.splits if_splits)

lemma unchanged_GetWAL:
  assumes "GetWAL e key s = (r, s')" shows "unchanged e s s'"
proof -
  let ?m = "rp_wals (ls_repo s)" and ?m' = "snd (map_GetOrCreate (se_hash e) key (newWAL (ls_repo s) key) (rp_wals (ls_repo s)))"
  have "rp_wals (ls_repo s') = ?m'" "rp_world (ls_repo s') = rp_world (ls_repo s)" "ls_written s' = ls_written s"
    using assms by (auto simp: GetWAL_def repo_Get_def split: prod.splits)
  moreover have "map_Get (se_hash e) k ?m' = Some w" if "?m \<noteq> []" "map_Get (se_hash e) k ?m = Some w" for k w
    using that by (auto simp: GetOrCreate_Get [OF that(1)])
  moreover have "?m' \<noteq> []" if "?m \<noteq> []" using at_partition_nonempty [OF that] by (simp add: map_GetOrCreate_def)
  ultimately show ?thesis by (simp add: unchanged_def)
qed

text \<open>The attempts of the append, and an append that left \<open>bs\<close> in the log's segment with nothing changed before it.\<close>

definition store_trace :: "store_env \<Rightarrow> string \<Rightarrow> bytes \<Rightarrow> 'r local_store \<Rightarrow> attempt list" where
  "store_trace e key buf s =
     (let c = se_call e (ls_calls s)
      in case map_Get (se_hash e) key (rp_wals (ls_repo s)) of
           None \<Rightarrow> []
         | Some w \<Rightarrow> append_trace (se_idgen e) (ce_env c) (ce_others c) (ce_ctx c) buf w (rp_world (ls_repo s)))"

definition appended :: "store_env \<Rightarrow> string \<Rightarrow> bytes \<Rightarrow> wal_error option \<Rightarrow> bytes \<Rightarrow> 'r local_store \<Rightarrow> 'r local_store \<Rightarrow> bool" where
  "appended e key buf err bs s s' \<longleftrightarrow>
     (\<exists>s2 s3. unchanged e s s2 \<and> store_Append e key buf s2 = (err, s3) \<and> s' = add_inflight (- int (length buf)) s3 \<and> leaves (se_idgen e) (store_trace e key buf s2) bs)"

lemma store_Append_written:
  assumes "store_Append e key buf s = (err, s')"
  shows "ls_written s' = (if err = None then ls_written s @ [(key, [], buf)] else ls_written s)"
  using assms by (auto simp: store_Append_def Let_def split: option.splits prod.splits)

lemma store_Append_leaves:
  assumes "store_Append e key buf s = (err, s')"
  shows "err = Some ErrSegmentClosed \<and> s' = s \<or>
    (\<exists>bs. leaves (se_idgen e) (store_trace e key buf s) bs \<and>
       (case err of None \<Rightarrow> verified buf \<and> bs = body_blocks buf | Some x \<Rightarrow> (\<exists>k. bs = take k (drop 8 buf)) \<and> (bs \<noteq> [] \<longrightarrow> x = ErrIO)))"
proof (cases "map_Get (se_hash e) key (rp_wals (ls_repo s))")
  case None
  then show ?thesis using assms by (simp add: store_Append_def Let_def)
next
  case (Some w)
  let ?c = "se_call e (ls_calls s)"
  obtain n w' W' where "wal_Append (se_idgen e) (ce_env ?c) (ce_others ?c) (ce_ctx ?c) buf w (rp_world (ls_repo s)) = (n, err, w', W')"
    using assms Some by (auto simp: store_Append_def Let_def split: prod.splits)
  from wal_Append_leaves [OF this] show ?thesis using Some by (simp add: store_trace_def Let_def)
qed

lemma not_verified_Nil: "\<not> verified []"
  by code_simp

lemma store_Append_Nil: "store_Append e key [] s \<noteq> (None, s')"
  using store_Append_leaves [of e key "[]" s None s'] not_verified_Nil by auto

lemma import_too_large:
  assumes "0 < limit" "limit < int (length data)" "data = take (nat (read_limit limit)) xs"
  shows "int (length data) = limit + 1 \<and> limit < int (length xs)"
proof -
  have "length data = min (length xs) (nat (read_limit limit))" using assms(3) by simp
  then show ?thesis using assms(1,2) by (auto simp: read_limit_def split: if_splits)
qed

lemma import_all:
  assumes "\<not> (limit > 0 \<and> int (length data) > limit)" "limit > 0 \<longrightarrow> data = take (nat (read_limit limit)) xs" "limit \<le> 0 \<longrightarrow> data = xs"
  shows "0 < limit \<longrightarrow> int (length data) \<le> limit"
    and "limit = maxInt64 \<Longrightarrow> data = []"
    and "limit \<noteq> maxInt64 \<Longrightarrow> data = xs \<and> (0 < limit \<longrightarrow> length xs < nat (read_limit limit))"
proof -
  show "0 < limit \<longrightarrow> int (length data) \<le> limit" using assms(1) by auto
  show "data = []" if "limit = maxInt64" using assms(2) that by (simp add: read_limit_def maxInt64_def)
  show "data = xs \<and> (0 < limit \<longrightarrow> length xs < nat (read_limit limit))" if "limit \<noteq> maxInt64"
  proof (cases "limit > 0")
    case True
    then have "data = take (nat (limit + 1)) xs" "int (length data) \<le> limit" using assms(1,2) that by (auto simp: read_limit_def)
    then have "length xs < nat (limit + 1)" using True by (auto simp: min_def split: if_splits)
    then show ?thesis using True assms that by (simp add: read_limit_def)
  qed (use assms in simp)
qed

text \<open>What an import has done: it failed before the append, was forwarded, or appended what it read.\<close>

definition failed_early :: "parsed_name \<Rightarrow> int \<Rightarrow> bool \<Rightarrow> body \<Rightarrow> import_error \<Rightarrow> bool" where
  "failed_early p limit scoped b x \<longleftrightarrow> snd b = Some x \<or> x = ErrIntakeMemoryExhausted \<or> x = ImportWal ErrMaxDiskUsageExceeded \<or> (\<exists>m. x = ImportWal (ErrOther m)) \<or>
     (\<exists>pe. pn_err p = Some pe \<and> x = ImportWal pe) \<or>
     (\<exists>d. scoped \<and> x = SegmentTooLargeError d (limit + 1) limit \<and> limit < int (length (concat (fst b))))"

lemma import_cases:
  fixes s s' :: "'r local_store"
  assumes run: "ImportWith e maxDisk ceiling held room forward filename b s = ((n, err), s')"
    and names: "p = ParseFilename filename" "import_limit maxDisk \<lparr>Database = pn_database p, Table = pn_table p\<rparr> s = (limit, scoped, s1)"
  obtains (early) x where "err = Some x" "unchanged e s s'" "failed_early p limit scoped b x"
  | (read) data where "0 < limit \<longrightarrow> int (length data) \<le> limit" "n = int (length data)" "limit = maxInt64 \<Longrightarrow> data = []"
      "limit \<noteq> maxInt64 \<Longrightarrow> data = concat (fst b) \<and> snd b = None"
      "forward \<noteq> None \<and> the forward data \<and> err = None \<and> unchanged e s s' \<or>
       (\<exists>err1 s2 s3. unchanged e s s2 \<and> store_Append e (startup_prefix p) data s2 = (err1, s3) \<and> err = map_option ImportWal err1 \<and> s' = add_inflight (- n) s3)"
proof -
  define b1 where "b1 = (if limit > 0 then LimitReader (nat (read_limit limit)) b else b)"
  obtain res claimed where copy: "copy_loop ceiling held room 0 0 0 [] b1 = (res, claimed)" by (rule prod.exhaust)
  have whole: "case res of Inr data \<Rightarrow> data = concat (fst b1) \<and> snd b1 = None | Inl x \<Rightarrow> snd b1 = Some x \<or> x = ErrIntakeMemoryExhausted"
    using copy_loop_whole [OF copy] by (auto split: sum.splits)
  note u1 = unchanged_import_limit [OF names(2), of e]
  show thesis
  proof (cases "pn_err p")
    case (Some x)
    then show thesis using run names(1) by (intro early) (auto simp: ImportWith_def Let_def failed_early_def)
  next
    case ok: None
    show thesis
    proof (cases res)
      case (Inl x)
      have "snd b = Some x \<or> x = ErrIntakeMemoryExhausted" using whole Inl by (auto simp: b1_def LimitReader_def split: if_splits)
      then show thesis using run ok names copy Inl u1 by (intro early [of x]) (auto simp: ImportWith_def Let_def b1_def failed_early_def)
    next
      case (Inr data)
      have data: "data = concat (fst b1)" "snd b1 = None" using whole Inr by simp_all
      have data': "limit > 0 \<longrightarrow> data = take (nat (read_limit limit)) (concat (fst b))" "limit \<le> 0 \<longrightarrow> data = concat (fst b)"
        using data(1) by (simp_all add: b1_def LimitReader_def limit_pieces_concat)
      note run' = run [unfolded ImportWith_def Let_def names(1) [symmetric] ok option.simps names(2) split b1_def [symmetric] copy fst_conv Inr sum.simps]
      show thesis
      proof (cases "limit > 0 \<and> int (length data) > limit")
        case True
        then have len: "int (length data) = limit + 1" "limit < int (length (concat (fst b)))"
          using import_too_large [of limit data "concat (fst b)"] data'(1) by simp_all
        show thesis using run' True len u1
          by (intro early [of "if scoped then SegmentTooLargeError \<lparr>Database = pn_database p, Table = pn_table p\<rparr> (int (length data)) limit else ImportWal ErrMaxDiskUsageExceeded"])
            (auto simp: failed_early_def)
      next
        case False
        note all = import_all [OF False data']
        have none: "snd b = None" if "limit \<noteq> maxInt64" using all(3) [OF that] data(2) by (auto simp: b1_def LimitReader_def split: if_splits)
        show thesis
        proof (cases "case forward of None \<Rightarrow> False | Some f \<Rightarrow> f data")
          case True
          then show thesis using run' False all none u1 by (intro read [of data]) (auto split: option.splits)
        next
          case nofwd: False
          obtain r s2 where get: "GetWAL e (startup_prefix p) s1 = (r, s2)" by (rule prod.exhaust)
          have u2: "unchanged e s s2" by (rule unchanged_trans [OF u1 unchanged_GetWAL [OF get]])
          show thesis
          proof (cases "\<exists>w. r = Inr w \<and> \<not> diskUsageExceeded e w (add_inflight (int (length data)) s2)")
            case True
            obtain err1 s3 where app: "store_Append e (startup_prefix p) data (add_inflight (int (length data)) s2) = (err1, s3)" by (rule prod.exhaust)
            have "n = int (length data)" "err = map_option ImportWal err1" "s' = add_inflight (- n) s3"
              using run' False nofwd get True app by auto
            then show thesis using all none app u2 unchanged_add_inflight [of e s "int (length data)" s2] by (intro read [of data]) blast+
          next
            case no: False
            have "\<exists>x. err = Some x \<and> (x = ImportWal ErrMaxDiskUsageExceeded \<or> (\<exists>m. x = ImportWal (ErrOther m)))" "unchanged e s s'"
              using run' False nofwd get no u2 by (cases r; auto split: if_splits)+
            then show thesis using early by (auto simp: failed_early_def)
          qed
        qed
      qed
    qed
  qed
qed

text \<open>An import that is not forwarded. With the greatest limit nothing is read, and an empty body is never appended.\<close>

lemma import_outcome:
  fixes s s' :: "'r local_store"
  assumes run: "ImportWith e maxDisk ceiling held room None filename b s = ((n, err), s')"
    and names: "p = ParseFilename filename" "import_limit maxDisk \<lparr>Database = pn_database p, Table = pn_table p\<rparr> s = (limit, scoped, s1)"
  shows "case err of
     None \<Rightarrow> snd b = None \<and> ls_written s' = ls_written s @ [(startup_prefix p, [], concat (fst b))]
   | Some x \<Rightarrow> failed_early p limit scoped b x \<or>
       (\<exists>we data (s2 :: 'r local_store) s3. (data = [] \<or> data = concat (fst b) \<and> snd b = None) \<and> store_Append e (startup_prefix p) data s2 = (Some we, s3) \<and> x = ImportWal we)"
  using assms
proof (cases rule: import_cases)
  case (early x)
  then show ?thesis by simp
next
  case (read data)
  then obtain err1 s2 s3 where app: "unchanged e s s2" "store_Append e (startup_prefix p) data s2 = (err1, s3)" "err = map_option ImportWal err1" "s' = add_inflight (- n) s3"
    by auto
  show ?thesis
  proof (cases err1)
    case None
    then have "limit \<noteq> maxInt64" using read(3) app(2) store_Append_Nil by metis
    then show ?thesis using read(4) None app store_Append_written [OF app(2)] by (simp add: unchanged_def)
  next
    case (Some we)
    then show ?thesis using read(3,4) app(2,3) by (cases "limit = maxInt64") auto
  qed
qed

text \<open>
  C17. An import stores the whole body or nothing, except when the system fails to write. For any pieces, buffers, memory held by others, faults and interference, and any limit but the greatest
  \<open>int64\<close> (which makes \<open>limit+1\<close> wrap around, so that nothing is read):
  when the import succeeds, the body ended without an error, its length is returned and is within the limit of its table or store, and either \<open>forward\<close> has accepted exactly the body and nothing was
  written here, or every block of the body has its checksum, the log of the file's prefix accepted the body, and its append has added exactly the body's blocks to the segment that
  was active at its last attempt and nothing to any other file.
  When it fails, no log has accepted anything, and either nothing was written here, or an append was tried and added nothing; only when that append failed with \<open>ErrIO\<close>, as a write failed in the
  middle, may the segment have a prefix of the body's blocks, which is not taken back. A body beyond the budget of its table is reported as too large with that limit; no more than one byte beyond
  the limit is buffered. What a refused \<open>forward\<close> did elsewhere is not seen here.
\<close>

theorem import_whole_or_nothing:
  fixes s s' :: "'r local_store"
  assumes run: "ImportWith e maxDisk ceiling held room forward filename b s = ((n, err), s')"
    and names: "p = ParseFilename filename" "import_limit maxDisk \<lparr>Database = pn_database p, Table = pn_table p\<rparr> s = (limit, scoped, s1)"
    and limit: "limit < 2 ^ 63 - 1"
  shows "let data = concat (fst b); key = startup_prefix p in case err of
     None \<Rightarrow> snd b = None \<and> n = int (length data) \<and> (0 < limit \<longrightarrow> n \<le> limit) \<and>
       (forward \<noteq> None \<and> the forward data \<and> unchanged e s s' \<or>
        verified data \<and> ls_written s' = ls_written s @ [(key, [], data)] \<and> appended e key data None (body_blocks data) s s')
   | Some x \<Rightarrow> ls_written s' = ls_written s \<and>
       (unchanged e s s' \<or>
        (\<exists>we bs. x = ImportWal we \<and> appended e key data (Some we) bs s s' \<and> (bs = [] \<or> we = ErrIO \<and> (\<exists>k. bs = take k (drop 8 data))))) \<and>
       (\<forall>d size bound. x = SegmentTooLargeError d size bound \<and> snd b \<noteq> Some x \<longrightarrow>
          scoped \<and> bound = limit \<and> size = limit + 1 \<and> limit < int (length data))"
  using run names
proof (cases rule: import_cases)
  case (early x)
  then have "ls_written s' = ls_written s" by (simp add: unchanged_def)
  then show ?thesis using early by (auto simp: failed_early_def Let_def)
next
  case (read data)
  have data: "data = concat (fst b)" "snd b = None" using read(4) limit by (auto simp: maxInt64_def)
  from read(5) show ?thesis
  proof (elim disjE exE conjE)
    assume "forward \<noteq> None" "the forward data" "err = None" "unchanged e s s'"
    then show ?thesis using data read(1,2) by (simp add: Let_def)
  next
    fix err1 and s2 s3 :: "'r local_store"
    assume app: "unchanged e s s2" "store_Append e (startup_prefix p) data s2 = (err1, s3)" "err = map_option ImportWal err1" "s' = add_inflight (- n) s3"
    have w: "ls_written s' = (if err1 = None then ls_written s @ [(startup_prefix p, [], data)] else ls_written s)"
      using store_Append_written [OF app(2)] app(1,4) by (simp add: unchanged_def)
    have left: "appended e (startup_prefix p) data err1 bs s s'" if "leaves (se_idgen e) (store_trace e (startup_prefix p) data s2) bs" for bs
      using app that read(2) by (auto simp: appended_def)
    from store_Append_leaves [OF app(2)] show ?thesis
    proof (elim disjE exE conjE)
      assume "err1 = Some ErrSegmentClosed" "s3 = s2"
      then show ?thesis using app w by (simp add: Let_def)
    next
      fix bs
      assume "leaves (se_idgen e) (store_trace e (startup_prefix p) data s2) bs"
        and "case err1 of None \<Rightarrow> verified data \<and> bs = body_blocks data | Some x \<Rightarrow> (\<exists>k. bs = take k (drop 8 data)) \<and> (bs \<noteq> [] \<longrightarrow> x = ErrIO)"
      then show ?thesis using left [of bs] w data read(1,2) app(3) by (cases err1) (auto simp: Let_def)
    qed
  qed
qed

text \<open>A body of three bytes in two pieces, for a table with a budget of two.\<close>

definition demo_body :: body where
  "demo_body = ([[1, 2], [3]], None)"

definition small_table :: admission where
  "small_table = NewAdmission \<lparr>Global = \<lparr>Bytes = 0, Segments = 0\<rparr>, Default = \<lparr>Bytes = 2, Segments = 0\<rparr>, Overrides = [], Enforce = True,
     RealtimeReservedBytes = 0, Policy = None\<rparr>"

definition small_store :: "nat local_store" where
  "small_store = \<lparr>ls_repo = NewRepository demo_repo_opts \<lparr>disk = Map.empty, budgets = Some small_table\<rparr>, ls_inflight = 0, ls_calls = 0, ls_written = [], ls_shed = []\<rparr>"

definition demo_import :: "(bytes \<Rightarrow> bool) option \<Rightarrow> nat local_store \<Rightarrow> (int \<times> import_error option) \<times> nat local_store" where
  "demo_import forward s = ImportWith demo_store_env 100 10 (\<lambda>_. 0) (\<lambda>_. 0) forward ''DB_T_1.wal'' demo_body s"

lemma demo_import_forwarded: "fst (demo_import (Some (\<lambda>_. True)) full_store) = (3, None)"
  by code_simp

lemma demo_import_refused: "fst (demo_import None small_store) = (0, Some (SegmentTooLargeError \<lparr>Database = ''DB'', Table = ''T''\<rparr> 3 2))"
  by code_simp

lemma demo_limit:
  "fst (import_limit 100 \<lparr>Database = pn_database (ParseFilename ''DB_T_1.wal''), Table = pn_table (ParseFilename ''DB_T_1.wal'')\<rparr> small_store) = 2"
  by code_simp

theorem import_whole_or_nothing_witness:
  "\<exists>s'. demo_import None small_store = ((0, Some (SegmentTooLargeError \<lparr>Database = ''DB'', Table = ''T''\<rparr> 3 2)), s') \<and>
     ls_written s' = [] \<and> 2 < int (length (concat (fst demo_body)))"
proof -
  obtain s' where run: "demo_import None small_store = ((0, Some (SegmentTooLargeError \<lparr>Database = ''DB'', Table = ''T''\<rparr> 3 2)), s')"
    using demo_import_refused by (metis prod.collapse)
  obtain limit scoped s1 where l: "import_limit 100 \<lparr>Database = pn_database (ParseFilename ''DB_T_1.wal''), Table = pn_table (ParseFilename ''DB_T_1.wal'')\<rparr> small_store = (limit, scoped, s1)"
    by (rule prod_cases3)
  have "limit = 2" using l demo_limit by simp
  from import_whole_or_nothing [OF run [unfolded demo_import_def] refl l] this
  have "ls_written s' = ls_written small_store" "limit = 2 \<and> limit < int (length (concat (fst demo_body)))" by (simp_all add: demo_body_def)
  then show ?thesis using run by (simp add: small_store_def)
qed

end
