(* ===== verification/TransferService.thy ===== *)
theory TransferService
  imports Intake PeerTransfer
begin

text \<open>
  The receiving end of a transfer, \<open>HandleTransfer\<close> of \<open>ingestor/service.go\<close>, and \<open>ingestor/forward.go\<close>: the checks of the request, the import, and the response for each error; and the two ends
  together: a replicator of theory \<open>PeerTransfer\<close> whose peer is this handler on a local store of theory \<open>Store\<close>.

  The decompression of a body (\<open>gzip.NewReader\<close>) is a parameter: it fails, or gives the body that the handler reads. The choice of \<open>forward\<close> by the header of peer transfers is an argument of the
  handler. The replicator of an ingestor sets that header and does not compress. What the network does to the \<open>n\<close>-th request is a parameter: it may lose the request, cut the body, or lose the
  response; and so is what other requests, the uploader and the rotation do to the store of the receiver between two requests. Metrics, logging and the closing of connections are not modelled.
\<close>

section \<open>Responses\<close>

text \<open>\<open>strconv.FormatInt(n, 10)\<close>.\<close>

definition decimal_digit :: "nat \<Rightarrow> char" where
  "decimal_digit n = char_of (48 + n)"

fun format_nat :: "nat \<Rightarrow> string" where
  "format_nat n = (if n < 10 then [decimal_digit n] else format_nat (n div 10) @ [decimal_digit (n mod 10)])"

declare format_nat.simps [simp del]

definition FormatInt :: "int \<Rightarrow> string" where
  "FormatInt n = (if n < 0 then CHR ''-'' # format_nat (nat (- n)) else format_nat (nat n))"

definition respond :: "int \<Rightarrow> response" where
  "respond code = \<lparr>StatusCode = code, OverloadScope = [], OverloadReason = [], RetryAfterHeader = [], MaxTransferBytes = [], body_failed = False\<rparr>"

definition instance_overloaded :: response where
  "instance_overloaded = (respond 429)\<lparr>OverloadScope := ''instance'', RetryAfterHeader := ''5''\<rparr>"

definition import_response :: "import_error option \<Rightarrow> response" where
  "import_response err =
     (case err of
        None \<Rightarrow> respond 202
      | Some (SegmentTooLargeError d n limit) \<Rightarrow> (respond 413)\<lparr>MaxTransferBytes := FormatInt limit\<rparr>
      | Some (ImportWal (TableOverloadedError d reason after)) \<Rightarrow>
          (respond 429)\<lparr>OverloadScope := ''table'', OverloadReason := reason, RetryAfterHeader := FormatInt (after div second)\<rparr>
      | Some ErrIntakeMemoryExhausted \<Rightarrow> instance_overloaded
      | Some (ImportWal we) \<Rightarrow>
          if we = ErrMaxSegmentsExceeded \<or> we = ErrMaxDiskUsageExceeded then instance_overloaded
          else if we = ErrSegmentLocked then respond 423
          else if we = ErrChecksum then respond 400
          else respond 500
      | Some (BodyError _) \<Rightarrow> respond 500)"

section \<open>The handler\<close>

text \<open>What the handler uses of \<open>Service\<close>: its fields, the options behind its health, and the limits of its store.\<close>

record transfer_service =
  ts_databases :: "string list"
  ts_dropFilePrefixes :: "string list"
  ts_healthOpts :: HealthOpts
  ts_MaxDiskUsage :: int
  ts_MaxIntakeMemory :: int

definition invalid_entity :: "string \<Rightarrow> bool" where
  "invalid_entity s = list_ex (\<lambda>c. \<not> allowed_char c) s"

definition validateFileName :: "transfer_service \<Rightarrow> string \<Rightarrow> string" where
  "validateFileName sv filename =
     (if \<not> fs_ValidPath filename then []
      else
        let p = ParseFilename filename
        in if pn_err p \<noteq> None then []
           else if invalid_entity (pn_database p) \<or> invalid_entity (pn_table p) \<or> invalid_entity (pn_epoch p) \<or> invalid_entity (pn_schema p) then []
           else if pn_database p \<notin> set (ts_databases sv) then []
           else Filename (pn_database p) (pn_table p) (pn_schema p) (pn_epoch p))"

text \<open>The tables and prefixes that Go visits to compute the health are \<open>vw\<close>; \<open>gzip\<close> is given when the request is compressed.\<close>

definition HandleTransfer ::
  "transfer_service \<Rightarrow> store_env \<Rightarrow> destination list \<times> string list \<Rightarrow> (nat \<Rightarrow> int) \<Rightarrow> (nat \<Rightarrow> nat) \<Rightarrow> (body \<Rightarrow> body option) option \<Rightarrow>
   (string \<Rightarrow> bytes \<Rightarrow> bool) option \<Rightarrow> string \<Rightarrow> body \<Rightarrow> 'r local_store \<Rightarrow> response \<times> 'r local_store"
where
  "HandleTransfer sv e vw mem room gzip forward filename b s =
     (if filename = [] then (respond 400, s)
      else if list_ex (\<lambda>pre. take (length pre) filename = pre) (ts_dropFilePrefixes sv) then (respond 202, s)
      else if \<not> IsHealthy (ts_healthOpts sv) (SegmentCount (fst vw) (snd vw) s) (ls_Size e (fst vw) s) then (instance_overloaded, s)
      else
        let f = validateFileName sv filename
        in if f = [] then (respond 400, s)
           else case (case gzip of None \<Rightarrow> Some b | Some NewReader \<Rightarrow> NewReader b) of
                  None \<Rightarrow> (respond 400, s)
                | Some b \<Rightarrow>
                    (case ImportWith e (ts_MaxDiskUsage sv) (ts_MaxIntakeMemory sv) mem room (map_option (\<lambda>fw. fw f) forward) f b s of
                       ((n, err), s) \<Rightarrow> (import_response err, s)))"

section \<open>Forwarding\<close>

text \<open>
  \<open>forward\<close>: whether the owner has accepted the data, and the health of peers afterwards. \<open>busy\<close> says that all slots of the owner are taken; \<open>post\<close> is what the client gets from the owner.
\<close>

definition forward_transfer ::
  "hash64 \<Rightarrow> partitioner \<Rightarrow> string \<Rightarrow> HealthOpts \<Rightarrow> (duration \<Rightarrow> duration) \<Rightarrow> gotime \<Rightarrow> (string \<Rightarrow> bool) \<Rightarrow> (string \<Rightarrow> string \<Rightarrow> bytes \<Rightarrow> response option) \<Rightarrow>
   string \<Rightarrow> bytes \<Rightarrow> health \<Rightarrow> bool \<times> health"
where
  "forward_transfer h nodes self ho jitter now busy post filename data hs =
     (let p = ParseFilename filename
      in if pn_err p \<noteq> None then (False, hs)
         else case Owner h (transfer_key p) nodes of (owner, addr) \<Rightarrow>
           if owner = self \<or> owner = [] then (False, hs)
           else if \<not> IsPeerHealthy now owner hs then (False, hs)
           else if busy owner then (False, hs)
           else case Write_error filename (post addr filename data) of
             None \<Rightarrow> (True, hs)
           | Some (TableOverloaded d reason after) \<Rightarrow> (False, hs)
           | Some (SegmentTooLarge d limit) \<Rightarrow> (False, hs)
           | Some SegmentExists \<Rightarrow> (False, hs)
           | Some SegmentLocked \<Rightarrow> (False, hs)
           | Some BadRequest \<Rightarrow> (False, hs)
           | Some (PeerOverloaded after) \<Rightarrow> (False, SetPeerUnhealthyFor jitter ho now owner after hs)
           | Some OtherError \<Rightarrow> (False, SetPeerUnhealthy jitter ho now owner hs))"

section \<open>What the sender understands\<close>

lemma decimal_digit_value: "n < 10 \<Longrightarrow> dec_digit (decimal_digit n) = Some (int n)"
  by (simp add: dec_digit_def decimal_digit_def Let_def)

lemma dec_value_append: "dec_value (xs @ [c]) acc = (case dec_value xs acc of None \<Rightarrow> None | Some v \<Rightarrow> map_option (\<lambda>d. 10 * v + d) (dec_digit c))"
  by (induction xs arbitrary: acc) (auto split: option.splits)

lemma dec_value_format: "dec_value (format_nat n) 0 = Some (int n)"
proof (induction n rule: format_nat.induct)
  case (1 n)
  show ?case
  proof (cases "n < 10")
    case True
    then show ?thesis by (simp add: format_nat.simps decimal_digit_value)
  next
    case False
    then have "dec_value (format_nat n) 0 = Some (10 * int (n div 10) + int (n mod 10))"
      using 1 by (subst format_nat.simps) (simp add: dec_value_append decimal_digit_value)
    moreover have "10 * (n div 10) + n mod 10 = n" by simp
    ultimately show ?thesis by (metis of_nat_add of_nat_mult of_nat_numeral)
  qed
qed

lemma format_nat_head: "\<exists>d cs. d < 10 \<and> format_nat n = decimal_digit d # cs"
proof (induction n rule: format_nat.induct)
  case (1 n)
  then show ?case by (subst format_nat.simps) (cases "n < 10", auto)
qed

text \<open>Headers survive: \<open>ParseInt\<close> reads what \<open>FormatInt\<close> has written.\<close>

lemma Atoi_FormatInt: "- (2 ^ 63) \<le> n \<Longrightarrow> n < 2 ^ 63 \<Longrightarrow> Atoi (FormatInt n) = Some n"
proof -
  assume n: "- (2 ^ 63) \<le> n" "n < 2 ^ 63"
  obtain d cs where f: "d < 10" "format_nat (nat n) = decimal_digit d # cs" using format_nat_head by blast
  have "decimal_digit d \<noteq> CHR ''-'' \<and> decimal_digit d \<noteq> CHR ''+''"
    using decimal_digit_value [OF f(1)] by (auto simp: dec_digit_def Let_def)
  moreover obtain d' cs' where "format_nat (nat (- n)) = decimal_digit d' # cs'" using format_nat_head by blast
  ultimately show ?thesis using n f dec_value_format [of "nat n"] dec_value_format [of "nat (- n)"] by (auto simp: Atoi_def FormatInt_def Let_def)
qed

text \<open>The meaning of each response at the sender.\<close>

lemma import_response_meaning:
  assumes "DestinationFromFilename filename = (d, None)"
  shows "Write_error filename (Some (import_response err)) =
    (case err of
       None \<Rightarrow> None
     | Some (SegmentTooLargeError d' n limit) \<Rightarrow> Some (SegmentTooLarge d (case Atoi (FormatInt limit) of None \<Rightarrow> 0 | Some m \<Rightarrow> m))
     | Some (ImportWal (TableOverloadedError d' reason after)) \<Rightarrow> Some (TableOverloaded d reason (retryDelay (FormatInt (after div second))))
     | Some ErrIntakeMemoryExhausted \<Rightarrow> Some (PeerOverloaded (5 * second))
     | Some (ImportWal ErrMaxSegmentsExceeded) \<Rightarrow> Some (PeerOverloaded (5 * second))
     | Some (ImportWal ErrMaxDiskUsageExceeded) \<Rightarrow> Some (PeerOverloaded (5 * second))
     | Some (ImportWal ErrSegmentLocked) \<Rightarrow> Some SegmentLocked
     | Some (ImportWal ErrChecksum) \<Rightarrow> Some BadRequest
     | Some _ \<Rightarrow> Some OtherError)"
proof -
  have five: "retryDelay ''5'' = 5 * second" by code_simp
  show ?thesis using assms five
    by (simp add: import_response_def Write_error_def respond_def instance_overloaded_def split: option.splits import_error.splits wal_error.splits)
qed

section \<open>Where errors come from\<close>

lemma retry_error:
  "writeWithRetry idgen env others ctx f k rotations closedRetries w W = (n, Some err, w', W') \<Longrightarrow>
     (\<exists>k. ctx k = Some err) \<or> (\<exists>k w W. fst (f k w W) = Inl err)"
proof (induction idgen env others ctx f k rotations closedRetries w W rule: writeWithRetry.induct)
  case (1 idgen env others ctx f k rotations closedRetries w W)
  obtain w0 W0 where others: "others k False (w, W) = (w0, W0)" by (rule prod.exhaust)
  obtain r w1 W1 where f: "f k w0 W0 = (r, w1, W1)" by (rule prod_cases3)
  note unfold = 1(3) [unfolded writeWithRetry.simps [of idgen env others ctx f k] others f prod.case]
  show ?case
  proof (cases r)
    case (Inr m)
    then show ?thesis using unfold by simp
  next
    case (Inl x)
    obtain w2 W2 where rot: "rotateSegmentIfNecessary idgen (env k) (others k True) w1 W1 = (w2, W2)" by (rule prod.exhaust)
    have x: "fst (f k w0 W0) = Inl x" using f Inl by simp
    consider "x = ErrMaxSegmentSizeExceeded" "rotations < maxSegmentClosedRetries" "ctx k = None"
      | "x = ErrSegmentClosed" "closedRetries < maxSegmentClosedRetries" "ctx k = None"
      | "ctx k = Some err" | "err = x"
      using unfold Inl rot by (auto split: if_splits option.splits wal_error.splits prod.splits)
    then show ?thesis
    proof cases
      case 1
      then show ?thesis using "1.IH"(1) [OF others [symmetric] f [symmetric] Inl refl _ rot [symmetric]] unfold Inl rot by auto
    next
      case 2
      then show ?thesis using "1.IH"(2) [OF others [symmetric] f [symmetric] Inl refl] unfold Inl by auto
    qed (use x in blast)+
  qed
qed

definition bad_checksum :: "bytes \<Rightarrow> bool" where
  "bad_checksum bs = (case NewSegmentIterator (of_bytes bs) of Inl _ \<Rightarrow> False | Inr it \<Rightarrow> iterator_Verify it = Inl ErrChecksum)"

lemma reserve_checksum: "reserve_opt now path d n k ao = (Inl err, ao') \<Longrightarrow> err \<noteq> ErrChecksum"
  by (auto simp: reserve_opt_def Reserve_def reserve_global_def Let_def split: option.splits prod.splits sum.splits if_splits)

lemma ParseFilename_no_checksum: "pn_err (ParseFilename path) \<noteq> Some ErrChecksum"
  by (auto simp: ParseFilename_def no_name_def Let_def split: list.splits)

lemma NewSegment_checksum: "NewSegment now fault i dir pre st = (Inl err, st') \<Longrightarrow> err \<noteq> ErrChecksum"
  using ParseFilename_no_checksum [of "pre @ ''_0.wal''"]
  by (auto simp: NewSegment_def DestinationFromPrefix_def DestinationFromFilename_def Let_def dest: reserve_checksum
    split: option.splits prod.splits sum.splits if_splits create_fault.splits)

lemma segment_Append_checksum: "fst (segment_Append now fault locked buf s st) = Inl ErrChecksum \<Longrightarrow> bad_checksum buf"
  by (auto simp: segment_Append_def bad_checksum_def write_bytes_def NewSegmentIterator_def Let_def dest: reserve_checksum
    split: option.splits prod.splits sum.splits if_splits read_result.splits)

lemma tryAppend_checksum: "fst (tryAppend idgen e buf w W) = Inl ErrChecksum \<Longrightarrow> bad_checksum buf"
proof -
  assume run: "fst (tryAppend idgen e buf w W) = Inl ErrChecksum"
  have "wal_validateLimits e w W \<noteq> Some ErrChecksum" by (auto simp: wal_validateLimits_def Let_def)
  moreover have "newSegment idgen e w W \<noteq> (Inl ErrChecksum, W')" for W'
    by (auto simp: newSegment_def dest: NewSegment_checksum split: prod.splits)
  ultimately have "\<exists>s st. fst (segment_Append (e_now e) (e_write e) (e_locked e) buf s st) = Inl ErrChecksum"
    using run by (auto simp: tryAppend_def try_segment_def split: option.splits prod.splits sum.splits if_splits) (metis fst_conv)+
  then show ?thesis using segment_Append_checksum by blast
qed

text \<open>The error of a cancelled context is not a checksum error.\<close>

definition plain_contexts :: "store_env \<Rightarrow> bool" where
  "plain_contexts e \<longleftrightarrow> (\<forall>n k. ce_ctx (se_call e n) k \<noteq> Some ErrChecksum)"

lemma store_Append_checksum:
  assumes "store_Append e key buf s = (Some ErrChecksum, s')" and "plain_contexts e"
  shows "bad_checksum buf"
proof -
  let ?c = "se_call e (ls_calls s)"
  obtain w n w' W' where "wal_Append (se_idgen e) (ce_env ?c) (ce_others ?c) (ce_ctx ?c) buf w (rp_world (ls_repo s)) = (n, Some ErrChecksum, w', W')"
    using assms(1) by (auto simp: store_Append_def Let_def split: option.splits prod.splits)
  then obtain w0 w1 where "writeWithRetry (se_idgen e) (ce_env ?c) (ce_others ?c) (ce_ctx ?c) (\<lambda>k. tryAppend (se_idgen e) (ce_env ?c k) buf) 0 0 0 w0 (rp_world (ls_repo s)) =
      (n, Some ErrChecksum, w1, W')"
    by (auto simp: wal_Append_def split: prod.splits)
  from retry_error [OF this] show ?thesis using assms(2) tryAppend_checksum by (auto simp: plain_contexts_def)
qed

lemma bad_checksum_Nil: "\<not> bad_checksum []"
  by code_simp

section \<open>What a request has done\<close>

text \<open>A name that passes the check is stored in the log of its own prefix.\<close>

lemma validateFileName_parse:
  assumes "validateFileName sv filename \<noteq> []"
  shows "ParseFilename (validateFileName sv filename) = ParseFilename filename" and "pn_err (ParseFilename filename) = None"
proof -
  let ?p = "ParseFilename filename"
  have v: "validateFileName sv filename = Filename (pn_database ?p) (pn_table ?p) (pn_schema ?p) (pn_epoch ?p)" "pn_err ?p = None"
      "\<not> invalid_entity (pn_database ?p)" "\<not> invalid_entity (pn_table ?p)" "\<not> invalid_entity (pn_epoch ?p)" "\<not> invalid_entity (pn_schema ?p)"
    using assms by (auto simp: validateFileName_def Let_def split: if_splits)
  have clean: "CHR ''_'' \<notin> set s \<and> CHR ''/'' \<notin> set s" if "\<not> invalid_entity s" for s
    using that by (auto simp: invalid_entity_def list_ex_iff allowed_char_def less_eq_char_def)
  have "pn_database ?p \<noteq> [] \<and> pn_table ?p \<noteq> [] \<and> pn_epoch ?p \<noteq> []"
    using v(2) by (auto simp: ParseFilename_def no_name_def Let_def split: if_splits list.splits)
  then show "ParseFilename (validateFileName sv filename) = ?p"
    using ParseFilename_parts [of "pn_database ?p" "pn_table ?p" "pn_epoch ?p" "pn_schema ?p" "[]"] clean v by simp
  show "pn_err ?p = None" by (rule v(2))
qed

definition prefix_dropped :: "transfer_service \<Rightarrow> string \<Rightarrow> bool" where
  "prefix_dropped sv filename = list_ex (\<lambda>pre. take (length pre) filename = pre) (ts_dropFilePrefixes sv)"

lemma Handle_import:
  assumes "HandleTransfer sv e vw mem room None None filename b s = (r, s')"
  shows "r = respond 202 \<and> prefix_dropped sv filename \<or> r = instance_overloaded \<or> r = respond 400 \<and> validateFileName sv filename = [] \<or>
    (\<exists>n err. validateFileName sv filename \<noteq> [] \<and> r = import_response err \<and>
       ImportWith e (ts_MaxDiskUsage sv) (ts_MaxIntakeMemory sv) mem room None (validateFileName sv filename) b s = ((n, err), s'))"
proof (cases "filename = [] \<or> prefix_dropped sv filename")
  case True
  have "validateFileName sv [] = []" by (simp add: validateFileName_def Let_def ParseFilename_def no_name_def filepath_Ext_def)
  then show ?thesis using assms True by (auto simp: HandleTransfer_def prefix_dropped_def split: if_splits)
next
  case False
  then show ?thesis using assms by (auto simp: HandleTransfer_def prefix_dropped_def Let_def split: if_splits prod.splits)
qed

text \<open>
  What a request that settles its segments at the sender has found: the log of the prefix accepted exactly these bytes; or the receiver drops the prefix, refuses the name, found a block with a wrong checksum, or the bytes
  exceed the budget of the table.
\<close>

definition accepted_by :: "string \<Rightarrow> bytes \<Rightarrow> 'r local_store \<Rightarrow> 'r local_store \<Rightarrow> bool" where
  "accepted_by filename bs s s' \<longleftrightarrow> ls_written s' = ls_written s @ [(startup_prefix (ParseFilename filename), [], bs)]"

definition beyond_budget :: "transfer_service \<Rightarrow> string \<Rightarrow> bytes \<Rightarrow> 'r local_store \<Rightarrow> bool" where
  "beyond_budget sv filename bs s =
     (case import_limit (ts_MaxDiskUsage sv) (fst (DestinationFromFilename filename)) s of (limit, scoped, s1) \<Rightarrow> scoped \<and> limit < int (length bs))"

definition settled_at :: "transfer_service \<Rightarrow> string \<Rightarrow> bytes \<Rightarrow> transfer_error option \<Rightarrow> 'r local_store \<Rightarrow> 'r local_store \<Rightarrow> bool" where
  "settled_at sv filename bs res s s' =
     (case res of
        None \<Rightarrow> accepted_by filename bs s s' \<or> prefix_dropped sv filename
      | Some SegmentExists \<Rightarrow> False
      | Some BadRequest \<Rightarrow> validateFileName sv filename = [] \<or> bad_checksum bs
      | Some (SegmentTooLarge _ _) \<Rightarrow> beyond_budget sv filename bs s
      | Some _ \<Rightarrow> True)"

lemma Write_error_respond:
  "Write_error filename (Some (respond 202)) = None" "Write_error filename (Some (respond 400)) = Some BadRequest"
  "\<exists>x. Write_error filename (Some instance_overloaded) = Some (PeerOverloaded x)"
  by (simp_all add: Write_error_def respond_def instance_overloaded_def split: prod.splits)

lemma Handle_settled:
  assumes run: "HandleTransfer sv e vw mem room None None filename b s = (r, s')" and e: "plain_contexts e"
    and b: "snd b = None \<and> concat (fst b) = bs \<or> length (concat (fst b)) \<le> length bs \<and> (\<exists>m. snd b = Some (BodyError m))"
  shows "settled_at sv filename bs (Write_error filename (Some r)) s s'"
  using Handle_import [OF run]
proof (elim disjE exE conjE)
  fix n err
  let ?f = "validateFileName sv filename" and ?p = "ParseFilename filename"
  assume ok: "?f \<noteq> []" and r: "r = import_response err"
    and imp: "ImportWith e (ts_MaxDiskUsage sv) (ts_MaxIntakeMemory sv) mem room None ?f b s = ((n, err), s')"
  note name = validateFileName_parse [OF ok]
  have d: "DestinationFromFilename filename = (\<lparr>Database = pn_database ?p, Table = pn_table ?p\<rparr>, None)"
    using name(2) by (simp add: DestinationFromFilename_def Let_def)
  obtain limit scoped s1 where l: "import_limit (ts_MaxDiskUsage sv) \<lparr>Database = pn_database ?p, Table = pn_table ?p\<rparr> s = (limit, scoped, s1)"
    by (rule prod_cases3)
  note out = import_outcome [OF imp, unfolded name(1), OF refl l]
  note meaning = import_response_meaning [OF d, of err]
  show ?thesis
  proof (cases err)
    case None
    then show ?thesis using out b meaning r by (auto simp: settled_at_def accepted_by_def)
  next
    case (Some x)
    show ?thesis
    proof (cases "\<exists>m. snd b = Some (BodyError m) \<and> x = BodyError m")
      case True
      then show ?thesis using meaning r Some by (auto simp: settled_at_def)
    next
      case False
      have big: "scoped \<and> limit < int (length bs)" if "x = SegmentTooLargeError d' k k'" for d' k k'
        using out b False Some that by (auto simp: failed_early_def)
      have sum: "bad_checksum bs" if "x = ImportWal ErrChecksum"
        using out b False Some that name(2) bad_checksum_Nil by (auto simp: failed_early_def dest: store_Append_checksum [OF _ e])
      show ?thesis using meaning r Some big sum d l
        by (auto simp: settled_at_def beyond_budget_def split: import_error.splits wal_error.splits)
    qed
  qed
qed (use Write_error_respond(1,2) Write_error_respond(3) [of filename] in \<open>auto simp: settled_at_def\<close>)

section \<open>Forwarded and compressed requests\<close>

text \<open>A transfer counts as forwarded only when another, healthy ingestor that owns the table has answered 202; otherwise it is stored here.\<close>

lemma forward_accepted:
  assumes "forward_transfer h nodes self ho jitter now busy post filename data hs = (True, hs')"
  shows "\<exists>owner addr r. Owner h (transfer_key (ParseFilename filename)) nodes = (owner, addr) \<and> owner \<noteq> self \<and> IsPeerHealthy now owner hs \<and>
    post addr filename data = Some r \<and> StatusCode r = 202 \<and> hs' = hs"
  using assms by (auto simp: forward_transfer_def Write_error_def Let_def split: prod.splits if_splits option.splits transfer_error.splits)

text \<open>The owner is not marked unhealthy for refusing a transfer of one table.\<close>

lemma forward_refused:
  assumes "Owner h (transfer_key (ParseFilename filename)) nodes = (owner, addr)" and "post addr filename data = Some r"
    and "StatusCode r = 429 \<and> OverloadScope r = ''table'' \<or> StatusCode r \<in> {413, 409, 423, 400}" and "\<not> body_failed r"
  shows "forward_transfer h nodes self ho jitter now busy post filename data hs = (False, hs)"
  using assms by (auto simp: forward_transfer_def Write_error_def DestinationFromFilename_def Let_def split: prod.splits if_splits option.splits)

text \<open>A compressed body of which the first bytes cannot be read is answered with 400, like a corrupt one, and the sender drops its segments.\<close>

lemma unreadable_gzip_settles:
  assumes "NewReader b = None" and "validateFileName sv filename \<noteq> []" and "\<not> prefix_dropped sv filename"
    and "IsHealthy (ts_healthOpts sv) (SegmentCount (fst vw) (snd vw) s) (ls_Size e (fst vw) s)" and "filename \<noteq> []"
  shows "HandleTransfer sv e vw mem room (Some NewReader) forward filename b s = (respond 400, s)"
    and "settled (d, ss, Write_error filename (Some (respond 400)))"
  using assms Write_error_respond(2) by (simp_all add: HandleTransfer_def prefix_dropped_def Let_def)

section \<open>Both ends\<close>

datatype network = RequestLost | Delivered "nat list" "nat option" bool

text \<open>The pieces in which a body arrives.\<close>

fun chop :: "nat list \<Rightarrow> bytes \<Rightarrow> bytes list" where
  "chop [] xs = [xs]"
| "chop (n # ns) xs = take n xs # chop ns (drop n xs)"

lemma concat_chop [simp]: "concat (chop ns xs) = xs"
  by (induction ns xs rule: chop.induct) simp_all

record 'r receiver =
  rc_service :: transfer_service
  rc_store :: store_env
  rc_view :: "nat \<Rightarrow> destination list \<times> string list"
  rc_net :: "nat \<Rightarrow> network"
  rc_mem :: "nat \<Rightarrow> nat \<Rightarrow> int"
  rc_room :: "nat \<Rightarrow> nat \<Rightarrow> nat"
  rc_others :: "nat \<Rightarrow> 'r local_store \<Rightarrow> 'r local_store"

text \<open>The state of the receiver: its store, and the store before and after each request, the newest first.\<close>

type_synonym 'r served = "'r local_store \<times> ('r local_store \<times> 'r local_store) list"

definition arrives :: "nat list \<Rightarrow> nat option \<Rightarrow> bytes \<Rightarrow> body" where
  "arrives sizes cutoff bs =
     (case cutoff of None \<Rightarrow> (chop sizes bs, None) | Some k \<Rightarrow> (chop sizes (take k bs), Some (BodyError ''unexpected EOF'')))"

definition serve :: "'r receiver \<Rightarrow> 'r served \<Rightarrow> string \<Rightarrow> string \<Rightarrow> bytes \<Rightarrow> response option \<times> 'r served" where
  "serve v p addr filename bs =
     (let n = length (snd p); s = rc_others v n (fst p)
      in case rc_net v n of
           RequestLost \<Rightarrow> (None, s, (s, s) # snd p)
         | Delivered sizes cutoff lost \<Rightarrow>
             (case HandleTransfer (rc_service v) (rc_store v) (rc_view v n) (rc_mem v n) (rc_room v n) None None filename (arrives sizes cutoff bs) s of
                (r, s') \<Rightarrow> (if lost then None else Some r, s', (s, s') # snd p)))"

lemma serve_settled:
  assumes "serve v p addr filename bs = (ro, p')" and "plain_contexts (rc_store v)"
  shows "\<exists>s s'. snd p' = (s, s') # snd p \<and> settled_at (rc_service v) filename bs (Write_error filename ro) s s'"
proof (cases "rc_net v (length (snd p))")
  case RequestLost
  then show ?thesis using assms(1) by (auto simp: serve_def Let_def settled_at_def Write_error_def)
next
  case (Delivered sizes cutoff lost)
  let ?n = "length (snd p)"
  let ?b = "arrives sizes cutoff bs" and ?s = "rc_others v ?n (fst p)"
  obtain r s' where h: "HandleTransfer (rc_service v) (rc_store v) (rc_view v ?n) (rc_mem v ?n) (rc_room v ?n) None None filename ?b ?s = (r, s')"
    by (rule prod.exhaust)
  have "snd ?b = None \<and> concat (fst ?b) = bs \<or> length (concat (fst ?b)) \<le> length bs \<and> (\<exists>m. snd ?b = Some (BodyError m))"
    by (auto simp: arrives_def split: option.splits)
  from Handle_settled [OF h assms(2) this] show ?thesis
    using assms(1) Delivered h by (auto simp: serve_def Let_def settled_at_def Write_error_def)
qed

section \<open>Requests of a transfer\<close>

text \<open>The name and the bytes of the request for the segments \<open>ss\<close>, when their files are \<open>fs\<close>.\<close>

definition request_name :: "segment_info list \<Rightarrow> string" where
  "request_name ss = filepath_Base (Path (hd ss))"

definition request_bytes :: "(string \<rightharpoonup> bytes) \<Rightarrow> segment_info list \<Rightarrow> bytes" where
  "request_bytes fs ss = SegmentMerger_bytes (map (\<lambda>x. the (fs (Path x))) ss)"

lemma open_files_bytes: "open_files unreadable fs ps acc = Opened bs \<Longrightarrow> bs = SegmentMerger_bytes (acc @ map (\<lambda>p. the (fs p)) ps)"
  by (induction unreadable fs ps acc rule: open_files.induct) (auto split: option.splits if_splits)

lemma send_plan_request:
  assumes "send_plan e segs t = (Request owner addr filename bs, t')"
  shows "filename = request_name segs" and "bs = request_bytes (fst (tr_removal t)) segs"
  using assms by (auto simp: send_plan_def request_name_def request_bytes_def Let_def comp_def dest!: open_files_bytes
    split: open_result.splits if_splits prod.splits)

lemma send_plan_peer: "send_plan e segs t = (pl, t') \<Longrightarrow> tr_peer t' = tr_peer t"
  by (auto simp: send_plan_def Let_def split: open_result.splits if_splits prod.splits)

lemma replicator_remove_peer [simp]: "tr_peer (replicator_remove e segs t) = tr_peer t"
  by (simp add: replicator_remove_def split: prod.splits)

lemma send_result_peer: "send_result e segs owner res t = (err, t') \<Longrightarrow> tr_peer t' = tr_peer t"
  by (auto simp: send_result_def split: option.splits transfer_error.splits)

text \<open>A peer that remembers: its state after a request shows the name, the bytes and the result of the request, and still shows those of earlier requests.\<close>

locale remembering_peer =
  fixes ask :: "'p \<Rightarrow> string \<Rightarrow> string \<Rightarrow> bytes \<Rightarrow> response option \<times> 'p"
    and shows_of :: "string \<Rightarrow> bytes \<Rightarrow> transfer_error option \<Rightarrow> 'p \<Rightarrow> bool"
  assumes told: "ask p addr filename bs = (ro, p') \<Longrightarrow> shows_of filename bs (Write_error filename ro) p'"
    and kept: "ask p addr filename bs = (ro, p') \<Longrightarrow> shows_of filename' bs' res p \<Longrightarrow> shows_of filename' bs' res p'"
begin

lemma send_told:
  assumes "te_peer e = ask" and "part_of segs t" and "send e segs depth t = (err, t')" and "distinct (map Path segs)"
    and "\<forall>x \<in> set segs. fst (tr_removal t) (Path x) = fs (Path x)"
    and "\<forall>(d, ss, res) \<in> set (tr_log t). shows_of (request_name ss) (request_bytes fs ss) res (tr_peer t)"
  shows "\<forall>(d, ss, res) \<in> set (tr_log t'). shows_of (request_name ss) (request_bytes fs ss) res (tr_peer t')"
  using assms(2-)
proof (induction "length segs" arbitrary: segs depth t err t' rule: less_induct)
  case less
  note unfold = less.prems(2) [unfolded send.simps [of e segs depth t]]
  show ?case
  proof (cases "segs = []")
    case True
    then show ?thesis using unfold less.prems(5) by simp
  next
    case False
    obtain pl t0 where p: "send_plan e segs t = (pl, t0)" by fastforce
    note P = send_plan_keeps [OF p] send_plan_peer [OF p]
    show ?thesis
    proof (cases pl)
      case (Stop x)
      then show ?thesis using unfold False p P less.prems(5) by simp
    next
      case (Request owner addr filename bs)
      obtain res t1 where q: "send_request e depth segs addr filename bs t0 = (res, t1)" by fastforce
      obtain ro p1 where ask: "ask (tr_peer t) addr filename bs = (ro, p1)" by fastforce
      have t1: "tr_log t1 = tr_log t @ [(depth, segs, res)]" "held t1 = held t" "tr_removal t1 = tr_removal t" "tr_peer t1 = p1" "res = Write_error filename ro"
        using q P ask assms(1) by (auto simp: send_request_def Let_def held_def)
      have "bs = request_bytes fs segs"
        using send_plan_request(2) [OF p [unfolded Request]] less.prems(4) by (auto simp: request_bytes_def cong: map_cong)
      then have log1: "\<forall>(d, ss, res) \<in> set (tr_log t1). shows_of (request_name ss) (request_bytes fs ss) res (tr_peer t1)"
        using less.prems(5) told [OF ask] kept [OF ask] send_plan_request(1) [OF p [unfolded Request]] unfolding t1 by auto
      have part: "part_of segs t1" using less.prems(1) t1(2) by (simp add: part_of_def held_def)
      show ?thesis
      proof (cases "\<exists>d l. res = Some (SegmentTooLarge d l) \<and> \<not> (length segs \<le> 1 \<or> depth \<ge> maxSplitDepth)")
        case False
        then have "tr_log t' = tr_log t1 \<and> tr_peer t' = tr_peer t1"
          using unfold \<open>segs \<noteq> []\<close> p Request q replicator_remove_files(3) [OF part, of e] send_result_files [OF _ part] send_result_peer
          by (fastforce split: option.splits transfer_error.splits if_splits)
        then show ?thesis using log1 by simp
      next
        case True
        let ?m = "length segs div 2"
        obtain e1 t2 where s1: "send e (take ?m segs) (depth + 1) t1 = (e1, t2)" by fastforce
        obtain e2 t3 where s2: "send e (drop ?m segs) (depth + 1) t2 = (e2, t3)" by fastforce
        have t': "t' = t3" using unfold \<open>segs \<noteq> []\<close> p Request q True s1 s2 by (auto simp: Let_def)
        have len: "length (take ?m segs) < length segs" "length (drop ?m segs) < length segs" using True \<open>segs \<noteq> []\<close> by (auto simp: not_le)
        have "length segs \<le> length (Segs (tr_batch t1))" using part by (auto simp: part_of_def)
        then have pt: "part_of (take ?m segs) t1" using len(1) by (simp add: part_of_def)
        have same1: "\<forall>x \<in> set (take ?m segs). fst (tr_removal t1) (Path x) = fs (Path x)" using less.prems(4) t1(3) by (auto dest: in_set_takeD)
        have halves: "distinct (map Path (take ?m segs) @ map Path (drop ?m segs))"
          using less.prems(3) by (metis append_take_drop_id map_append)
        have log2: "\<forall>(d, ss, res) \<in> set (tr_log t2). shows_of (request_name ss) (request_bytes fs ss) res (tr_peer t2)"
          by (rule less.hyps [OF len(1) pt s1 _ same1 log1]) (use halves in simp)
        obtain new where new: "held t2 = held t1" "fst (tr_removal t2) = files_after (te_refused e) (settled_segs new) (fst (tr_removal t1))"
            "mset (settled_segs new) \<subseteq># mset (take ?m segs)"
          using send_ok [OF pt s1] by (auto simp: sent_ok_def)
        have pt2: "part_of (drop ?m segs) t2"
          using len(2) \<open>length segs \<le> length (Segs (tr_batch t1))\<close> new(1) by (simp add: part_of_def held_def)
        have "Path ` set (settled_segs new) \<inter> Path ` set (drop ?m segs) = {}"
          using halves set_mset_mono [OF new(3)] by auto
        then have same2: "\<forall>x \<in> set (drop ?m segs). fst (tr_removal t2) (Path x) = fs (Path x)"
          using less.prems(4) t1(3) new(2) by (auto simp: files_after_def dest: in_set_dropD)
        show ?thesis unfolding t' by (rule less.hyps [OF len(2) pt2 s2 _ same2 log2]) (use halves in simp)
      qed
    qed
  qed
qed

end

section \<open>The receiver remembers\<close>

definition served_as :: "'r receiver \<Rightarrow> string \<Rightarrow> bytes \<Rightarrow> transfer_error option \<Rightarrow> 'r served \<Rightarrow> bool" where
  "served_as v filename bs res p \<longleftrightarrow> plain_contexts (rc_store v) \<longrightarrow> (\<exists>(s, s') \<in> set (snd p). settled_at (rc_service v) filename bs res s s')"

lemma serve_history: "serve v p addr filename bs = (ro, p') \<Longrightarrow> \<exists>x. snd p' = x # snd p"
  by (auto simp: serve_def Let_def split: network.splits prod.splits)

interpretation receiver_peer: remembering_peer "serve v" "served_as v" for v :: "'r receiver"
proof unfold_locales
  show "served_as v filename bs (Write_error filename ro) p'" if "serve v p addr filename bs = (ro, p')" for p addr filename bs ro p'
    using serve_settled [OF that] by (auto simp: served_as_def)
  show "served_as v filename' bs' res p'" if "serve v p addr filename bs = (ro, p')" "served_as v filename' bs' res p" for p addr filename bs ro p' filename' bs' res
    using serve_history [OF that(1)] that(2) by (auto simp: served_as_def)
qed

lemma small_single: "small (d, ss, res) \<Longrightarrow> ss \<noteq> [] \<Longrightarrow> length ss \<le> 1 \<or> d \<ge> maxSplitDepth \<Longrightarrow> length ss = 1"
  by (cases ss) (auto simp: small_def)

text \<open>
  C34. What a sender deletes has reached its peer, or the peer has refused it for good. For a batch of at most 256 segments that a replicator sends to \<open>HandleTransfer\<close> of another ingestor, over a network that may lose
  requests, cut bodies and lose responses, and whatever else happens to the receiver meanwhile: if a segment file of the sender is gone afterwards, then a request that held it was served, and the log of the prefix
  accepted exactly the bytes of the request (the merge of the sender's files as they were at the start), or the receiver is configured to drop that prefix, or it refused the file name, or a block of the request has a
  wrong checksum, or the segment was alone in its request and larger than the budget of its table at the receiver.
\<close>

theorem transfer_reaches_peer:
  fixes v :: "'r receiver"
  assumes "replicator_transfer h e t m = (t', m', c)" and "te_peer e = serve v" and "plain_contexts (rc_store v)" and "tr_log t = []"
    and "length (Segs (tr_batch t)) \<le> 256" and "distinct (map Path (Segs (tr_batch t)))"
    and "fst (tr_removal t) p \<noteq> None" and "fst (tr_removal t') p = None"
  shows "\<exists>(d, ss, res) \<in> set (tr_log t'). p \<in> Path ` set ss \<and>
    (let filename = request_name ss; bs = request_bytes (fst (tr_removal t)) ss
     in \<exists>(s, s') \<in> set (snd (tr_peer t')).
          accepted_by filename bs s s' \<or> prefix_dropped (rc_service v) filename \<or> validateFileName (rc_service v) filename = [] \<or>
          bad_checksum bs \<or> length ss = 1 \<and> beyond_budget (rc_service v) filename bs s)"
proof -
  let ?segs = "Segs (tr_batch t)"
  obtain err t1 where s: "send e ?segs 0 t = (err, t1)" by fastforce
  have part: "part_of ?segs t" by (simp add: part_of_def)
  have t': "tr_log t' = tr_log t1" "tr_removal t' = tr_removal t1" "tr_peer t' = tr_peer t1"
    using assms(1) s by (auto simp: replicator_transfer_def split: prod.splits)
  have S: "fst (tr_removal t1) = files_after (te_refused e) (settled_segs (tr_log t1)) (fst (tr_removal t))" "list_all small (tr_log t1)" "list_all (within ?segs) (tr_log t1)"
    using send_ok [OF part s] assms(4,5) by (auto simp: sent_ok_def maxSplitDepth_def)
  have "p \<in> Path ` set (settled_segs (tr_log t1))" using S(1) assms(7,8) t'(2) by (auto simp: files_after_def split: if_splits)
  then obtain d ss res where x: "(d, ss, res) \<in> set (tr_log t1)" "settled (d, ss, res)" "p \<in> Path ` set ss" by (auto simp: settled_segs_def)
  have "served_as v (request_name ss) (request_bytes (fst (tr_removal t)) ss) res (tr_peer t1)"
    using receiver_peer.send_told [OF assms(2) part s assms(6), of "fst (tr_removal t)"] assms(4) x(1) by fastforce
  then obtain s0 s1 where r: "(s0, s1) \<in> set (snd (tr_peer t1))" "settled_at (rc_service v) (request_name ss) (request_bytes (fst (tr_removal t)) ss) res s0 s1"
    using assms(3) by (auto simp: served_as_def)
  have "small (d, ss, res)" "ss \<noteq> []" using S(2,3) x(1) by (auto simp: list_all_iff within_def)
  note one = small_single [OF this]
  have "accepted_by (request_name ss) (request_bytes (fst (tr_removal t)) ss) s0 s1 \<or> prefix_dropped (rc_service v) (request_name ss) \<or>
      validateFileName (rc_service v) (request_name ss) = [] \<or> bad_checksum (request_bytes (fst (tr_removal t)) ss) \<or>
      length ss = 1 \<and> beyond_budget (rc_service v) (request_name ss) (request_bytes (fst (tr_removal t)) ss) s0"
    using r(2) x(2) one by (auto simp: settled_at_def split: option.splits transfer_error.splits)
  then show ?thesis unfolding t'(1,3) Let_def using x(1,3) r(1) by blast
qed

text \<open>A batch of one segment with one block, too large for the table at the receiver.\<close>

definition demo_receiver :: "nat receiver" where
  "demo_receiver = \<lparr>rc_service = \<lparr>ts_databases = [''DB''], ts_dropFilePrefixes = [],
       ts_healthOpts = \<lparr>UnhealthyTimeout = 60 * second, InitialUnhealthyTimeout = second, MaxSegmentCount = 0, ho_MaxDiskUsage = 0\<rparr>, ts_MaxDiskUsage = 100, ts_MaxIntakeMemory = 100\<rparr>,
     rc_store = demo_store_env, rc_view = (\<lambda>_. ([], [])), rc_net = (\<lambda>_. Delivered [8, 2] None False), rc_mem = (\<lambda>_ _. 0), rc_room = (\<lambda>_ _. 0), rc_others = (\<lambda>_ s. s)\<rparr>"

definition demo_segment_file :: bytes where
  "demo_segment_file = segmentMagic @ [0, 0, 0, 1, 76, 102, 122, 46, 7]"

definition demo_sender :: "nat served transfer_env" where
  "demo_sender = \<lparr>te_hash = (\<lambda>s. of_nat (length s)), te_nodes = NewPartition [''host-1''] [''host-1'' \<mapsto> ''10.0.0.1''], te_hostname = ''host-0'',
     te_health = \<lparr>UnhealthyTimeout = 60 * second, InitialUnhealthyTimeout = second, MaxSegmentCount = 0, ho_MaxDiskUsage = 0\<rparr>,
     te_jitter = (\<lambda>n. 0), te_now = 9, te_unreadable = (\<lambda>_. False), te_refused = (\<lambda>_. False), te_peer = serve demo_receiver\<rparr>"

definition demo_send_state :: "nat served transfer" where
  "demo_send_state = \<lparr>tr_batch = new_batch ''DB_T'' ''DB'' ''T'' PriorityQueued [demo_seg ''DB_T'' ''DB_T_1.wal'' 10 5],
     tr_removal = ([''DB_T_1.wal'' \<mapsto> demo_segment_file], NewIndex, None), tr_health = Map.empty, tr_backoff = Map.empty, tr_peer = (small_store, []), tr_log = []\<rparr>"

lemma demo_sent:
  "let t' = snd (send demo_sender [demo_seg ''DB_T'' ''DB_T_1.wal'' 10 5] 0 demo_send_state)
   in map_option length (fst (tr_removal t') ''DB_T_1.wal'') = None \<and> map (map Path \<circ> fst \<circ> snd) (tr_log t') = [[''DB_T_1.wal'']]"
  by code_simp

lemma demo_base: "filepath_Base ''DB_T_1.wal'' = ''DB_T_1.wal''"
  by code_simp

lemma demo_request:
  "validateFileName (rc_service demo_receiver) ''DB_T_1.wal'' \<noteq> []" "\<not> prefix_dropped (rc_service demo_receiver) filename"
  "\<not> bad_checksum (SegmentMerger_bytes [demo_segment_file])" "SegmentMerger_bytes [demo_segment_file] = demo_segment_file"
  subgoal by code_simp
  subgoal by (simp add: demo_receiver_def prefix_dropped_def)
  subgoal by code_simp
  subgoal by code_simp
  done

theorem transfer_reaches_peer_witness:
  "let t' = fst (replicator_transfer demo_hash demo_sender demo_send_state (NewMap 64))
   in fst (tr_removal t') ''DB_T_1.wal'' = None \<and>
      (\<exists>(s, s') \<in> set (snd (tr_peer t')). accepted_by ''DB_T_1.wal'' demo_segment_file s s' \<or>
         beyond_budget (rc_service demo_receiver) ''DB_T_1.wal'' demo_segment_file s)"
proof -
  let ?seg = "demo_seg ''DB_T'' ''DB_T_1.wal'' 10 5" and ?t = demo_send_state
  let ?r = "replicator_transfer demo_hash demo_sender ?t (NewMap 64)"
  have r: "?r = (fst ?r, fst (snd ?r), snd (snd ?r))" by simp
  have t: "tr_log ?t = []" "Segs (tr_batch ?t) = [?seg]" "fst (tr_removal ?t) = [''DB_T_1.wal'' \<mapsto> demo_segment_file]"
    by (simp_all add: demo_send_state_def new_batch_def)
  have path: "Path ?seg = ''DB_T_1.wal''" by (simp add: demo_seg_def)
  have peer: "te_peer demo_sender = serve demo_receiver" by (simp add: demo_sender_def)
  have plain: "plain_contexts (rc_store demo_receiver)" by (simp add: plain_contexts_def demo_receiver_def demo_store_env_def demo_call_def)
  have gone: "fst (tr_removal (fst ?r)) ''DB_T_1.wal'' = None"
    using demo_sent by (simp add: replicator_transfer_def t(2) case_prod_unfold Let_def)
  have log: "map (map Path \<circ> fst \<circ> snd) (tr_log (fst ?r)) = [[''DB_T_1.wal'']]"
    using demo_sent by (simp add: replicator_transfer_def t(2) case_prod_unfold Let_def)
  from transfer_reaches_peer [OF r peer plain t(1) _ _ _ gone] obtain d ss res s s' where
    x: "(d, ss, res) \<in> set (tr_log (fst ?r))" "(s, s') \<in> set (snd (tr_peer (fst ?r)))"
      "accepted_by (request_name ss) (request_bytes (fst (tr_removal ?t)) ss) s s' \<or> prefix_dropped (rc_service demo_receiver) (request_name ss) \<or>
       validateFileName (rc_service demo_receiver) (request_name ss) = [] \<or> bad_checksum (request_bytes (fst (tr_removal ?t)) ss) \<or>
       length ss = 1 \<and> beyond_budget (rc_service demo_receiver) (request_name ss) (request_bytes (fst (tr_removal ?t)) ss) s"
    using t path unfolding Let_def by auto
  have "map Path ss \<in> set (map (map Path \<circ> fst \<circ> snd) (tr_log (fst ?r)))" using x(1) by force
  then obtain y where ss: "ss = [y]" "Path y = ''DB_T_1.wal''" unfolding log by auto
  have "request_name ss = ''DB_T_1.wal''" "request_bytes (fst (tr_removal ?t)) ss = demo_segment_file"
    using ss demo_request(4) t(3) by (simp_all add: request_name_def request_bytes_def demo_base)
  then show ?thesis using x(2,3) gone demo_request unfolding Let_def by auto
qed

end
