(* ===== verification/Spec2Isabelle.thy ===== *)
theory Spec2Isabelle
  imports WalRecovery AdmissionConcurrency WalIndex RotationScheduler WalLog Repository FairQueue EventBatcher PeerTransfer Backfill
    StreamingSlots Uploader SummaryRules TransferService
begin

text \<open>
  \<^bold>\<open>The ingestion path of ADX-Mon.\<close>

  ADX-Mon collects metrics, logs and traces in Kubernetes clusters and delivers them to Azure Data Explorer. A collector or ingestor
  appends samples to write-ahead logs, one log per database, table and schema; closed segments are indexed, grouped into batches, and
  uploaded by the node that owns their table or transferred to it. This development models that path: naming, storage, limits,
  recovery, grouping, scheduling and transfer. Go source files are named relative to \<open>src/\<close>.

  \<^bold>\<open>How the parts fit together.\<close>
  \<open>Repository\<close> hands out one \<open>WAL\<close> per prefix; a write goes to the active \<open>segment\<close>, after \<open>Admission\<close> has reserved its bytes. Full or
  aged segments are closed and entered in the \<open>Index\<close>; the rotation scheduler finds aged ones. The index tells the event batchers, which mark the
  prefix and later group its free segments into a \<open>Batch\<close>, marking each segment as claimed in a partitioned map; without event batchers a
  periodic scan does so. Batches of tables that a peer owns, by rendezvous hashing, go to the replicator, the others to the uploader; in front of
  both a fair queue shares the workers between tables. A batch is removed when it was delivered and always released in the end.

  \<^bold>\<open>Theories.\<close>

  \<^item> \<open>Prelude\<close>: times, byte strings, the Go library functions that the source uses, ranging over maps, fold and list lemmas, and the locale
    \<open>step_system\<close> for invariants of step relations.
  \<^item> \<open>WalNames\<close> (\<open>pkg/wal/filename.go\<close>, \<open>destination.go\<close>, \<open>pkg/flake\<close>): file names and destinations; round trip (C1) and agreement of the parsers.
  \<^item> \<open>WalBlock\<close>, \<open>WalRecovery\<close> (\<open>segment.go\<close>, \<open>iterator.go\<close>, \<open>reader.go\<close>, \<open>segment_merger.go\<close>): the block format, the iterator with its reused
    buffer, \<open>Verify\<close>, \<open>Repair\<close> and the merger; what is written is read, a torn file keeps its whole blocks, merged segments
    read as one, and the zero tail that hides later segments (C3--C7).
  \<^item> \<open>SchemaNames\<close> (\<open>schema/schema.go\<close>): ADX identifiers and the schema header (C8, C10). \<open>IngestPolicy\<close> (\<open>pkg/ingestpolicy\<close>): priorities.
  \<^item> \<open>Admission\<close>, \<open>AdmissionConcurrency\<close> (\<open>admission.go\<close>, \<open>admission_config.go\<close>): budgets and reservations, alone (C15, C18) and with
    their atomic sections interleaved (C12, C13). Files restored at start-up are not checked against the limits, so C13 compares a state with an earlier one.
  \<^item> \<open>GoHeap\<close>: \<open>container/heap\<close>, used by \<open>WalIndex\<close> (\<open>index.go\<close>; C19) and \<open>RotationScheduler\<close> (\<open>rotation_scheduler.go\<close>; C21).
  \<^item> \<open>PartMap\<close> (\<open>pkg/partmap\<close>): the partitioned map refines a map (C22).
  \<^item> \<open>WalSegment\<close>, \<open>Wal\<close>, \<open>WalLog\<close> (\<open>segment.go\<close>, \<open>wal.go\<close>): a segment with its buffered writer and file system faults (C23, C24), and the log of one table as
    a refinement of its history of accepted values, with termination and success of writes (C26--C29). The locale \<open>segment_writer\<close> is the contract the
    log relies on. \<open>AppendTrace\<close>: what each attempt of an \<open>Append\<close> adds to the files of its log, with any faults and interference.
  \<^item> \<open>Repository\<close> (\<open>repository.go\<close>): options by priority and recovery at start-up (C31).
  \<^item> \<open>Rendezvous\<close> (\<open>ingestor/cluster/rendezvous.go\<close>, \<open>partition.go\<close>, \<open>backoff.go\<close>): placement is stable (C32).
  \<^item> \<open>Batcher\<close> (\<open>batcher.go\<close>): splitting, scanning, capping; each free segment is in one batch and no claim leaks (C35, C36). The locale \<open>segmenter\<close> is
    what the batcher relies on of the index.
  \<^item> \<open>FairQueue\<close> (\<open>fair_queue.go\<close>): deficit round robin as a step relation over the events of its loop; order, limits, conservation, a bound on the
    bytes per round, and that work is found (C37, C38).
  \<^item> \<open>EventBatcher\<close> (\<open>event_batcher.go\<close>, \<open>queued_batcher.go\<close>, \<open>realtime_batcher.go\<close>): pending prefixes and the emitter, with its critical sections
    interleaved with everything else; no segment is forgotten (C39).
  \<^item> \<open>PeerTransfer\<close> (\<open>health.go\<close>, \<open>client.go\<close>, \<open>replicator.go\<close>): health of peers with back-off, the meaning of responses, and sending with splitting and
    removal (C40).
  \<^item> \<open>Backfill\<close> (\<open>pkg/crd/summaryrule/backfill\<close>): the windows of a summary rule's past, submitted and polled by cycles against any service; the service
    is wrapped to keep a record of its calls, and the bookkeeping of the status is an invariant over that record: a completed request has run
    every window (C30), a willing service completes it (C9), and a refusing one fills the status.
  \<^item> \<open>SummaryRules\<close> (\<open>api/v1/summaryrule_types.go\<close>, \<open>pkg/crd/summaryrule/ownership.go\<close>, \<open>ingestor/adx/tasks.go\<close>): the regular windows of a summary rule and its list of
    operations over any number of cycles; no window is skipped (C33). Windows of a rule that nobody edits run after their end; an edit runs an open one.
  \<^item> \<open>StreamingSlots\<close> (\<open>ingestor/adx/streaming_slots.go\<close>): the budget of an endpoint shared between ingestors, and the adaptive pool of slots as a step
    relation over its critical sections (C20).
  \<^item> \<open>Uploader\<close> (\<open>uploader.go\<close>, \<open>streaming_uploader.go\<close>, \<open>streaming_errors.go\<close>, \<open>dispatcher.go\<close>): reading, streaming or queueing and removing a batch,
    against any service; nothing is removed before it is delivered (C16), except segments that cannot be opened (C25). With the theories of
    segments, what is sent are the values that were written.
  \<^item> \<open>Store\<close>, \<open>Intake\<close> (\<open>storage/store.go\<close>, \<open>outcome.go\<close>, \<open>memory_limiter.go\<close>, \<open>collector/logs/sinks/store.go\<close>): the local store on top of the repository, the admission controller and the logs:
    time series (C2) and logs, with the sink that waits for storage (C14), are accepted once or shed once and reported; the CSV writer is a buffer with the flag of its header, so
    that a block has the header once, in whole blocks and record by record. A segment is imported whole or not at all (C17), except for what a failed write leaves, under a ceiling on memory
    that is an invariant of all interleavings.
  \<^item> \<open>TransferService\<close> (\<open>ingestor/service.go\<close>, \<open>forward.go\<close>): the handler of transfers with its checks and responses, and forwarding to the owner of a table. It composes \<open>PeerTransfer\<close> with
    \<open>Intake\<close>: the peer of the replicator is the handler on a local store, over a network that loses requests, bodies and responses; what the sender deletes has reached the log of the receiver or was
    refused for good (C34). The locale \<open>remembering_peer\<close> is what the proof needs of a peer, interpreted on the handler.
  \<^item> \<open>Labels\<close> (\<open>pkg/prompb/sort.go\<close>, \<open>merge.go\<close>, \<open>transform/transformer.go\<close>): the order and the merge of labels, drop rules as a 64-bit mask, and the transformation of
    write requests; keeping added labels at the request is equivalent to adding them to every series, with static labels overriding dynamic ones (C11).

  \<^bold>\<open>Conventions.\<close> A Go struct is a record, an error a value of a sum or option type, and every early return a branch. State is passed explicitly. The
  clock is an argument of each operation that reads it; a \<open>time.Time\<close> is an integer with the zero time as \<open>0\<close>. The order in which Go visits a map is
  an argument, and theorems hold for every order. Code under locks is sequential; where goroutines interleave, each section under a lock is one step
  of a step relation (admission, fair queue, event batcher), or the interference is a parameter (rotation of a log).
  Hashes and the checksum are 32- and 64-bit words; sizes, counts and durations are integers without wrap-around, since they are sums of sizes of files on
  one disk (but for the limit of an import, which is configured and may wrap around), and the sequence number of the event batcher is a natural number.

  \<^bold>\<open>Parameters.\<close> The S2 codec, \<open>xxhash\<close>, the file system's faults, the peer at the other side of a transfer (the handler of \<open>TransferService\<close> is one), the network, decompression, the service behind an upload, a backfill or a summary rule, and the random jitter are arguments of the
  definitions; what theorems need of them are hypotheses, each met by a concrete function in a witness.

  \<^bold>\<open>Bounds.\<close> The retry loop of a write is limited by the constants of the source (at most 33 attempts, C27). The loop of \<open>selectCandidate\<close> makes one visit more
  than there are tables, as in the source; C38 gives the number of calls that are enough. An oversized batch is halved at most eight times; C40 needs at
  most \<open>2\<^sup>8\<close> segments in a batch, ten times the default. All other loops are structural recursions or have a termination proof; no fuel is used.

  \<^bold>\<open>Not modelled.\<close> Metrics, logging, tracing and debug printers; goroutine start-up and shut-down, timers and channel capacities; the HTTP transport, TLS and gzip;
  fsync; Kubernetes membership (\<open>coordinator.go\<close>), whose result is the input of the partitioner; the clients of Azure Data Explorer and the commands that create tables (\<open>syncer.go\<close>); the
  encodings of OTLP and Prometheus messages as CSV and protocol buffers (\<open>transform\<close>, \<open>pkg/prompb/protobuf.go\<close>): the rows of a record are an argument of the store, the header and the buffer of the writers are modelled; the other tasks of \<open>tasks.go\<close>; the collector's
  sources, the alerter, the operator and the command lines, which are mostly input and output; generated code. The encodings and the alerter's schedule are what the
  development would take up next.
\<close>

end
